(* ===== verification/Cup_Prelude.thy ===== *)
theory Cup_Prelude
  imports Main "HOL-Library.Word"
begin

text \<open>
  Shared vocabulary of the development: the ways a run of the C program can stop early, the
  result type every fallible operation returns, machine integers, little-endian bytes, and
  generic lemmas on results, lists and words that the component theories use.
\<close>

unbundle bit_operations_syntax

section \<open>Machine integers\<close>

type_synonym u8 = "8 word"
type_synonym u16 = "16 word"
type_synonym u32 = "32 word"
type_synonym u64 = "64 word"
type_synonym bytes = "u8 list"

text \<open>The value of the macro \<^verbatim>\<open>SIZE_MAX\<close>: a 64-bit \<^verbatim>\<open>size_t\<close> with every bit set.\<close>

abbreviation SIZE_MAX :: u64 where "SIZE_MAX \<equiv> - 1"

section \<open>Results\<close>

text \<open>
  A call of the program returns, or it stops the process: \<open>Exit n\<close> is a call of \<^verbatim>\<open>exit(n)\<close>,
  \<open>Abort\<close> a failing \<^verbatim>\<open>assert\<close>, \<open>Undef\<close> a read or write the C standard gives no meaning to
  (a null or dangling pointer, an index out of bounds, an indeterminate value), and \<open>Loop\<close>
  says that the bound on a loop was used up, so the call has not returned within it.
\<close>

datatype halt = Exit nat | Abort | Undef | Loop

type_synonym 'a res = "halt + 'a"

definition rbind :: "'a res \<Rightarrow> ('a \<Rightarrow> 'b res) \<Rightarrow> 'b res" where
  "rbind m f = (case m of Inl e \<Rightarrow> Inl e | Inr x \<Rightarrow> f x)"

definition guard :: "bool \<Rightarrow> halt \<Rightarrow> unit res" where
  "guard b e = (if b then Inr () else Inl e)"

named_theorems res_simps "evaluation and inversion of results"

lemma rbind_Inl [simp]: "rbind (Inl e) f = Inl e"
  by (simp add: rbind_def)

lemma rbind_Inr [simp]: "rbind (Inr x) f = f x"
  by (simp add: rbind_def)

lemma rbind_eq_Inr [res_simps]: "rbind m f = Inr y \<longleftrightarrow> (\<exists>x. m = Inr x \<and> f x = Inr y)"
  by (cases m) auto

lemma rbind_eq_Inl [res_simps]:
  "rbind m f = Inl e \<longleftrightarrow> m = Inl e \<or> (\<exists>x. m = Inr x \<and> f x = Inl e)"
  by (cases m) auto

lemma rbind_assoc: "rbind (rbind m f) g = rbind m (\<lambda>x. rbind (f x) g)"
  by (cases m) auto

lemma rbind_cong [fundef_cong]:
  "m = m' \<Longrightarrow> (\<And>x. m' = Inr x \<Longrightarrow> f x = f' x) \<Longrightarrow> rbind m f = rbind m' f'"
  by (cases m') auto

lemma guard_eq_Inr [res_simps]: "guard b e = Inr u \<longleftrightarrow> b"
  by (simp add: guard_def)

lemma guard_eq_Inl [res_simps]: "guard b e = Inl e' \<longleftrightarrow> \<not> b \<and> e' = e"
  by (auto simp: guard_def)

lemma guard_True [simp]: "guard True e = Inr ()"
  by (simp add: guard_def)

lemma guard_False [simp]: "guard False e = Inl e"
  by (simp add: guard_def)

text \<open>A call that comes back within its bounds, or stops the process, and whose result satisfies \<open>Q\<close>.\<close>

definition ensures :: "'a res \<Rightarrow> ('a \<Rightarrow> bool) \<Rightarrow> bool" where
  "ensures r Q \<longleftrightarrow> r \<noteq> Inl Loop \<and> (\<forall>x. r = Inr x \<longrightarrow> Q x)"

lemma ensures_Inr [simp]: "ensures (Inr x) Q \<longleftrightarrow> Q x"
  by (simp add: ensures_def)

lemma ensures_Inl [simp]: "ensures (Inl e) Q \<longleftrightarrow> e \<noteq> Loop"
  by (simp add: ensures_def)

lemma ensures_rbind: "ensures (rbind m f) Q \<longleftrightarrow> ensures m (\<lambda>x. ensures (f x) Q)"
  by (cases m) auto

lemma ensures_guard [simp]: "ensures (guard b e) Q \<longleftrightarrow> (if b then Q () else e \<noteq> Loop)"
  by (simp add: guard_def)

lemma ensures_mono: "ensures r P \<Longrightarrow> (\<And>x. P x \<Longrightarrow> Q x) \<Longrightarrow> ensures r Q"
  by (auto simp: ensures_def)

lemma ensures_D: "ensures r Q \<Longrightarrow> r = Inr x \<Longrightarrow> Q x"
  by (simp add: ensures_def)

section \<open>Lists\<close>

lemma take_append_exact [simp]: "length xs = n \<Longrightarrow> take n (xs @ ys) = xs"
  by simp

lemma drop_append_exact [simp]: "length xs = n \<Longrightarrow> drop n (xs @ ys) = ys"
  by simp

text \<open>The first element that satisfies a predicate, with its index: the reference every table
  search of the program is compared with.\<close>

fun first_index :: "('a \<Rightarrow> bool) \<Rightarrow> 'a list \<Rightarrow> nat option" where
  "first_index p [] = None"
| "first_index p (x # xs) = (if p x then Some 0 else map_option Suc (first_index p xs))"

lemma first_index_None: "first_index p xs = None \<longleftrightarrow> (\<forall>x \<in> set xs. \<not> p x)"
  by (induction xs) auto

lemma first_index_Some:
  "first_index p xs = Some i \<longleftrightarrow> i < length xs \<and> p (xs ! i) \<and> (\<forall>j < i. \<not> p (xs ! j))"
proof (induction xs arbitrary: i)
  case Nil
  then show ?case by simp
next
  case (Cons x xs)
  show ?case
    by (cases i) (auto simp: Cons.IH All_less_Suc2)
qed

lemma first_indexI:
  "i < length xs \<Longrightarrow> p (xs ! i) \<Longrightarrow> (\<And>j. j < i \<Longrightarrow> \<not> p (xs ! j)) \<Longrightarrow> first_index p xs = Some i"
  by (simp add: first_index_Some)

lemma first_index_append:
  "first_index p (xs @ ys) =
     (case first_index p xs of
        Some i \<Rightarrow> Some i
      | None \<Rightarrow> map_option ((+) (length xs)) (first_index p ys))"
proof (induction xs)
  case Nil
  then show ?case by (cases "first_index p ys") auto
next
  case (Cons x xs)
  then show ?case by (cases "first_index p ys") (auto split: option.splits)
qed

section \<open>Words\<close>

lemma unat_of_nat_small: "n < 2 ^ LENGTH('a) \<Longrightarrow> unat (of_nat n :: 'a::len word) = n"
  by (simp add: unat_of_nat)

section \<open>Little-endian bytes\<close>

fun le_bytes :: "nat \<Rightarrow> 'a::len word \<Rightarrow> bytes" where
  "le_bytes 0 w = []"
| "le_bytes (Suc n) w = ucast w # le_bytes n (drop_bit 8 w)"

fun le_word :: "bytes \<Rightarrow> 'a::len word" where
  "le_word [] = 0"
| "le_word (b # bs) = ucast b OR push_bit 8 (le_word bs)"

lemma length_le_bytes [simp]: "length (le_bytes n w) = n"
  by (induction n arbitrary: w) auto

lemma le_word_le_bytes: "le_word (le_bytes n w) = take_bit (8 * n) w"
proof (induction n arbitrary: w)
  case 0
  then show ?case by simp
next
  case (Suc n)
  show ?case
    by (rule bit_word_eqI)
      (auto simp add: Suc.IH bit_simps algebra_simps not_less dest: bit_imp_le_length)
qed

lemma le_word_le_bytes_8 [simp]: "le_word (le_bytes 8 w) = (w :: u64)"
  by (simp add: le_word_le_bytes take_bit_word_eq_self)

lemma le_word_le_bytes_4 [simp]: "le_word (le_bytes 4 w) = (w :: u32)"
  by (simp add: le_word_le_bytes take_bit_word_eq_self)

end
