(* ===== verification/Cup_Vector.thy ===== *)
theory Cup_Vector
  imports Cup_Prelude
begin

text \<open>
  The growable byte arrays and the scratch arena of \<^verbatim>\<open>src/utils.c\<close>. A \<^verbatim>\<open>CVector\<close> is a data
  pointer, a size and a capacity, all in bytes; the model keeps what the pointer refers to, so
  that a released block is told apart from a live one. The locale \<open>byte_buffer\<close> is what the
  node lists and the code generator rely on: pushing bytes appends them.
\<close>

section \<open>Power-of-two rounding\<close>

definition next_power_of_2 :: "u64 \<Rightarrow> u64" where
  "next_power_of_2 n0 =
     (if n0 \<le> 1 then n0
      else
        (let n = n0 - 1;
             n = n OR drop_bit 1 n;
             n = n OR drop_bit 2 n;
             n = n OR drop_bit 4 n;
             n = n OR drop_bit 8 n;
             n = n OR drop_bit 16 n;
             n = n OR drop_bit 32 n
         in n + 1))"

section \<open>The scratch arena\<close>

text \<open>\<^verbatim>\<open>TEMP_CAP\<close> of \<^verbatim>\<open>include/cup.h\<close>.\<close>

definition TEMP_CAP :: nat where "TEMP_CAP = 2048"

text \<open>The offset into \<^verbatim>\<open>tempmem\<close> that \<^verbatim>\<open>cup_talloc\<close> returns. The position is not advanced.\<close>

definition cup_talloc :: "nat \<Rightarrow> nat \<Rightarrow> nat res" where
  "cup_talloc temppos sz =
     (let pos = sz + temppos in if pos < TEMP_CAP then Inr temppos else Inl (Exit 1))"

section \<open>Vectors\<close>

text \<open>
  \<open>Live bs\<close>: an allocated block whose first bytes are \<open>bs\<close>; what the block holds beyond them
  has never been written. \<open>Freed\<close>: the block was given back, and the pointer was kept.
\<close>

datatype block = Null | Live bytes | Freed

record cvec =
  vec_data :: block
  vec_size :: nat
  vec_cap :: nat

definition vec_zero :: cvec where
  "vec_zero = \<lparr>vec_data = Null, vec_size = 0, vec_cap = 0\<rparr>"

text \<open>\<^verbatim>\<open>INITIAL_CAPACITY\<close> is \<^verbatim>\<open>sizeof(size_t) * 8\<close>.\<close>

definition INITIAL_CAPACITY :: nat where "INITIAL_CAPACITY = 64"

text \<open>
  The doubling loop of \<^verbatim>\<open>vector_resize\<close>. The second conjunct is false only for a capacity of
  zero, from which the loop is never entered.
\<close>

function grow_cap :: "nat \<Rightarrow> nat \<Rightarrow> nat" where
  "grow_cap cap needed = (if cap < needed \<and> 0 < cap then grow_cap (cap * 2) needed else cap)"
  by pat_completeness auto
termination
  by (relation "measure (\<lambda>(cap, needed). needed - cap)") auto

declare grow_cap.simps [simp del]

definition realloc_block :: "block \<Rightarrow> block res" where
  "realloc_block b = (case b of Null \<Rightarrow> Inr (Live []) | Live bs \<Rightarrow> Inr (Live bs) | Freed \<Rightarrow> Inl Undef)"

definition free_block :: "block \<Rightarrow> block res" where
  "free_block b = (case b of Null \<Rightarrow> Inr Null | Live bs \<Rightarrow> Inr Freed | Freed \<Rightarrow> Inl Undef)"

definition vector_resize :: "cvec \<Rightarrow> nat \<Rightarrow> cvec res" where
  "vector_resize v needed =
     (if needed = 0 then Inr v
      else if vec_cap v \<ge> needed then Inr v
      else
        (let cap = (if vec_cap v \<noteq> 0 then vec_cap v else INITIAL_CAPACITY)
         in rbind (realloc_block (vec_data v)) (\<lambda>d.
              Inr (v\<lparr>vec_data := d, vec_cap := grow_cap cap needed\<rparr>))))"

definition vector_new :: "cvec \<Rightarrow> nat \<Rightarrow> cvec res" where
  "vector_new v sizeT =
     rbind (guard (sizeT > 0 \<and> vec_size v = 0) Abort) (\<lambda>_. vector_resize v sizeT)"

text \<open>
  \<^verbatim>\<open>memcpy(data + at, bs, ..)\<close> and \<^verbatim>\<open>memmove(data + dst, data + src, n)\<close> on a block. Copying no
  bytes touches nothing; otherwise a dead pointer or a read of bytes that were never written
  has no meaning.
\<close>

definition blit :: "block \<Rightarrow> nat \<Rightarrow> bytes \<Rightarrow> block res" where
  "blit b at bs =
     (if bs = [] then Inr b
      else case b of
        Live old \<Rightarrow>
          if at \<le> length old then Inr (Live (take at old @ bs @ drop (at + length bs) old))
          else Inl Undef
      | _ \<Rightarrow> Inl Undef)"

definition fetch :: "block \<Rightarrow> nat \<Rightarrow> nat \<Rightarrow> bytes res" where
  "fetch b from n =
     (if n = 0 then Inr []
      else case b of
        Live old \<Rightarrow> if from + n \<le> length old then Inr (take n (drop from old)) else Inl Undef
      | _ \<Rightarrow> Inl Undef)"

definition vector_pop :: "cvec \<Rightarrow> nat \<Rightarrow> cvec res" where
  "vector_pop v sizeT =
     rbind (guard (sizeT > 0) Abort) (\<lambda>_.
       if vec_size v \<le> sizeT then
         rbind (free_block (vec_data v)) (\<lambda>d. Inr (v\<lparr>vec_data := d, vec_size := 0\<rparr>))
       else Inr (v\<lparr>vec_size := vec_size v - sizeT\<rparr>))"

definition vector_fpop :: "cvec \<Rightarrow> nat \<Rightarrow> cvec res" where
  "vector_fpop v sizeT =
     rbind (vector_pop v sizeT) (\<lambda>v.
     rbind (fetch (vec_data v) sizeT (vec_size v)) (\<lambda>moved.
     rbind (blit (vec_data v) 0 moved) (\<lambda>d. Inr (v\<lparr>vec_data := d\<rparr>))))"

definition vector_push :: "cvec \<Rightarrow> bytes \<Rightarrow> cvec res" where
  "vector_push v data =
     rbind (guard (length data > 0) Abort) (\<lambda>_.
     rbind (vector_resize v (vec_size v + length data)) (\<lambda>v.
     rbind (blit (vec_data v) (vec_size v) data) (\<lambda>d.
       Inr (v\<lparr>vec_data := d, vec_size := vec_size v + length data\<rparr>))))"

definition vector_fpush :: "cvec \<Rightarrow> bytes \<Rightarrow> cvec res" where
  "vector_fpush v data =
     rbind (guard (length data > 0) Abort) (\<lambda>_.
     rbind (vector_resize v (vec_size v + length data)) (\<lambda>v.
     rbind (fetch (vec_data v) 0 (vec_size v)) (\<lambda>old.
     rbind (blit (vec_data v) 0 data) (\<lambda>d.
     rbind (blit d (length data) old) (\<lambda>d.
       Inr (v\<lparr>vec_data := d, vec_size := vec_size v + length data\<rparr>))))))"

text \<open>\<^verbatim>\<open>push_vector\<close> and \<^verbatim>\<open>fpush_vector\<close> read the source vector and release its block.\<close>

definition push_vector :: "cvec \<Rightarrow> cvec \<Rightarrow> cvec res" where
  "push_vector dest src =
     (if vec_data src = Null then Inr dest
      else
        rbind (guard (vec_size src > 0) Abort) (\<lambda>_.
        rbind (fetch (vec_data src) 0 (vec_size src)) (\<lambda>bs.
        rbind (vector_push dest bs) (\<lambda>dest.
        rbind (free_block (vec_data src)) (\<lambda>_. Inr dest)))))"

definition fpush_vector :: "cvec \<Rightarrow> cvec \<Rightarrow> cvec res" where
  "fpush_vector dest src =
     rbind (guard (vec_size src > 0 \<and> vec_data src \<noteq> Null) Abort) (\<lambda>_.
     rbind (fetch (vec_data src) 0 (vec_size src)) (\<lambda>bs.
     rbind (vector_fpush dest bs) (\<lambda>dest.
     rbind (free_block (vec_data src)) (\<lambda>_. Inr dest))))"

definition split_vector :: "cvec \<Rightarrow> cvec \<Rightarrow> nat \<Rightarrow> (cvec \<times> cvec) res" where
  "split_vector dest src n =
     (if n \<ge> vec_size src then Inr (dest, src)
      else
        rbind (fetch (vec_data src) n (vec_size src - n)) (\<lambda>bs.
        rbind (vector_push dest bs) (\<lambda>dest.
          Inr (dest, src\<lparr>vec_size := n\<rparr>))))"

section \<open>What a vector holds\<close>

definition vec_ok :: "cvec \<Rightarrow> bool" where
  "vec_ok v \<longleftrightarrow>
     (case vec_data v of
        Null \<Rightarrow> vec_size v = 0 \<and> vec_cap v = 0
      | Live bs \<Rightarrow> vec_size v \<le> length bs \<and> length bs \<le> vec_cap v \<and> 0 < vec_cap v
      | Freed \<Rightarrow> False)"

definition vec_bytes :: "cvec \<Rightarrow> bytes" where
  "vec_bytes v = (case vec_data v of Live bs \<Rightarrow> take (vec_size v) bs | _ \<Rightarrow> [])"

text \<open>The capacities that occur: none, or the initial one doubled some number of times.\<close>

definition cap_ok :: "nat \<Rightarrow> bool" where
  "cap_ok c \<longleftrightarrow> c = 0 \<or> (\<exists>k. c = INITIAL_CAPACITY * 2 ^ k)"

lemma vec_ok_zero [simp]: "vec_ok vec_zero"
  by (simp add: vec_ok_def vec_zero_def)

lemma vec_bytes_zero [simp]: "vec_bytes vec_zero = []"
  by (simp add: vec_bytes_def vec_zero_def)

lemma length_vec_bytes: "vec_ok v \<Longrightarrow> length (vec_bytes v) = vec_size v"
  by (auto simp: vec_ok_def vec_bytes_def split: block.splits)

subsection \<open>Growing\<close>

lemma grow_cap_ge: "0 < cap \<Longrightarrow> needed \<le> grow_cap cap needed"
  by (induction cap needed rule: grow_cap.induct) (subst grow_cap.simps, auto)

lemma grow_cap_mono: "cap \<le> grow_cap cap needed"
  by (induction cap needed rule: grow_cap.induct) (subst grow_cap.simps, auto)

lemma grow_cap_pow: "\<exists>k. grow_cap cap needed = cap * 2 ^ k"
proof (induction cap needed rule: grow_cap.induct)
  case (1 cap needed)
  show ?case
  proof (cases "cap < needed \<and> 0 < cap")
    case True
    with "1" obtain k where "grow_cap (cap * 2) needed = cap * 2 * 2 ^ k" by blast
    with True show ?thesis by (subst grow_cap.simps) (auto intro: exI [of _ "Suc k"])
  next
    case False
    then show ?thesis by (subst grow_cap.simps) (auto intro: exI [of _ 0])
  qed
qed

text \<open>Less than twice what was asked for, unless nothing had to grow.\<close>

lemma grow_cap_tight: "cap < needed \<Longrightarrow> grow_cap cap needed < 2 * needed"
proof (induction cap needed rule: grow_cap.induct)
  case (1 cap needed)
  show ?case
  proof (cases "0 < cap \<and> cap * 2 < needed")
    case True
    with "1" show ?thesis by (subst grow_cap.simps) auto
  next
    case False
    with "1.prems" show ?thesis
      by (subst grow_cap.simps) (auto simp: grow_cap.simps [of "cap * 2"])
  qed
qed

lemma grow_cap_cap_ok:
  assumes "cap_ok c" and "0 < c"
  shows "cap_ok (grow_cap c needed)"
proof -
  from assms obtain k where k: "c = INITIAL_CAPACITY * 2 ^ k" by (auto simp: cap_ok_def)
  obtain j where "grow_cap c needed = c * 2 ^ j" using grow_cap_pow by blast
  with k have "grow_cap c needed = INITIAL_CAPACITY * 2 ^ (k + j)" by (simp add: power_add)
  then show ?thesis unfolding cap_ok_def by blast
qed

lemma cap_ok_initial: "cap_ok INITIAL_CAPACITY"
  unfolding cap_ok_def by (rule disjI2, rule exI [of _ 0]) simp

lemma vector_resize_ok:
  assumes ok: "vec_ok v" and "0 < needed"
  shows "\<exists>v'. vector_resize v needed = Inr v' \<and> vec_ok v' \<and> vec_size v' = vec_size v \<and>
    vec_bytes v' = vec_bytes v \<and> needed \<le> vec_cap v' \<and> (\<exists>bs. vec_data v' = Live bs) \<and>
    (cap_ok (vec_cap v) \<longrightarrow> cap_ok (vec_cap v'))"
proof (cases "vec_cap v \<ge> needed")
  case True
  with assms show ?thesis
    by (cases "vec_data v") (auto simp: vector_resize_def vec_ok_def)
next
  case False
  let ?c = "if vec_cap v \<noteq> 0 then vec_cap v else INITIAL_CAPACITY"
  have c: "0 < ?c" by (simp add: INITIAL_CAPACITY_def)
  then have ge: "needed \<le> grow_cap ?c needed" by (rule grow_cap_ge)
  have mono: "?c \<le> grow_cap ?c needed" by (rule grow_cap_mono)
  have cap: "cap_ok (grow_cap ?c needed)" if "cap_ok (vec_cap v)"
    using that c by (intro grow_cap_cap_ok) (auto simp: cap_ok_initial)
  from False ok show ?thesis
    using ge mono cap assms(2)
    by (cases "vec_data v")
      (auto simp: vector_resize_def vec_ok_def vec_bytes_def realloc_block_def Let_def)
qed

subsection \<open>The effect of each operation on the bytes held\<close>

lemma blit_Live:
  "at \<le> length old \<Longrightarrow>
    blit (Live old) at bs = Inr (Live (take at old @ bs @ drop (at + length bs) old))"
  by (simp add: blit_def)

lemma fetch_Live: "from + n \<le> length old \<Longrightarrow> fetch (Live old) from n = Inr (take n (drop from old))"
  by (simp add: fetch_def)

lemma vec_bytes_Live: "vec_data v = Live bs \<Longrightarrow> vec_bytes v = take (vec_size v) bs"
  by (simp add: vec_bytes_def)

lemma vec_ok_Live:
  "vec_data v = Live bs \<Longrightarrow>
    vec_ok v \<longleftrightarrow> vec_size v \<le> length bs \<and> length bs \<le> vec_cap v \<and> 0 < vec_cap v"
  by (simp add: vec_ok_def)

lemma vector_resize_live:
  assumes ok: "vec_ok v" and "data \<noteq> []"
  obtains w bs where "vector_resize v (vec_size v + length data) = Inr w"
    and "vec_size w = vec_size v" and "vec_size v + length data \<le> vec_cap w" and "vec_data w = Live bs"
    and "vec_size v \<le> length bs" and "length bs \<le> vec_cap w" and "take (vec_size v) bs = vec_bytes v"
    and "cap_ok (vec_cap v) \<longrightarrow> cap_ok (vec_cap w)"
proof -
  obtain w bs where w: "vector_resize v (vec_size v + length data) = Inr w" "vec_ok w"
      "vec_size w = vec_size v" "vec_bytes w = vec_bytes v"
      "vec_size v + length data \<le> vec_cap w" "vec_data w = Live bs"
      "cap_ok (vec_cap v) \<longrightarrow> cap_ok (vec_cap w)"
    using vector_resize_ok [OF ok, of "vec_size v + length data"] assms(2) by auto
  then show thesis
    by (intro that [of w bs]) (simp_all add: vec_ok_Live vec_bytes_Live)
qed

lemma vector_push_ok:
  assumes ok: "vec_ok v" and ne: "data \<noteq> []"
  shows "\<exists>v'. vector_push v data = Inr v' \<and> vec_ok v' \<and> vec_bytes v' = vec_bytes v @ data \<and>
    (cap_ok (vec_cap v) \<longrightarrow> cap_ok (vec_cap v'))"
proof -
  let ?n = "vec_size v"
  obtain w bs where w: "vector_resize v (?n + length data) = Inr w"
      "vec_size w = ?n" "?n + length data \<le> vec_cap w" "vec_data w = Live bs"
      "?n \<le> length bs" "length bs \<le> vec_cap w"
    and held: "take ?n bs = vec_bytes v" and cap: "cap_ok (vec_cap v) \<longrightarrow> cap_ok (vec_cap w)"
    using ok ne by (rule vector_resize_live)
  have len: "length (vec_bytes v) = ?n" using ok by (rule length_vec_bytes)
  have "vector_push v data = Inr (w\<lparr>vec_data :=
      Live (vec_bytes v @ data @ drop (?n + length data) bs), vec_size := ?n + length data\<rparr>)"
    using w ne by (simp add: vector_push_def blit_Live held)
  moreover have "0 < vec_cap w" using w(3) ne by (cases data) auto
  moreover have "length (vec_bytes v @ data @ drop (?n + length data) bs) \<le> vec_cap w"
    using w(3,5,6) by (simp add: len)
  ultimately show ?thesis
    using len w(2) cap by (simp add: vec_ok_Live vec_bytes_Live)
qed

lemma vector_fpush_ok:
  assumes ok: "vec_ok v" and ne: "data \<noteq> []"
  shows "\<exists>v'. vector_fpush v data = Inr v' \<and> vec_ok v' \<and> vec_bytes v' = data @ vec_bytes v \<and>
    (cap_ok (vec_cap v) \<longrightarrow> cap_ok (vec_cap v'))"
proof -
  let ?n = "vec_size v"
  obtain w bs where w: "vector_resize v (?n + length data) = Inr w"
      "vec_size w = ?n" "?n + length data \<le> vec_cap w" "vec_data w = Live bs"
      "?n \<le> length bs" "length bs \<le> vec_cap w"
    and held: "take ?n bs = vec_bytes v" and cap: "cap_ok (vec_cap v) \<longrightarrow> cap_ok (vec_cap w)"
    using ok ne by (rule vector_resize_live)
  have len: "length (vec_bytes v) = ?n" using ok by (rule length_vec_bytes)
  have "vector_fpush v data = Inr (w\<lparr>vec_data :=
      Live (data @ vec_bytes v @ drop (length data + ?n) (data @ drop (length data) bs)),
      vec_size := ?n + length data\<rparr>)"
    using w ne len by (simp add: vector_fpush_def fetch_Live blit_Live held)
  moreover have "0 < vec_cap w" using w(3) ne by (cases data) auto
  moreover have "length (data @ vec_bytes v @ drop (length data + ?n) (data @ drop (length data) bs)) \<le> vec_cap w"
    using w(3,5,6) by (simp add: len)
  ultimately show ?thesis
    using len w(2) cap by (simp add: vec_ok_Live vec_bytes_Live)
qed

lemma vector_pop_ok:
  assumes "vec_ok v" and "0 < n" and "n < vec_size v"
  shows "\<exists>v'. vector_pop v n = Inr v' \<and> vec_ok v' \<and>
    vec_bytes v' = take (vec_size v - n) (vec_bytes v) \<and> vec_cap v' = vec_cap v"
  using assms by (auto simp: vector_pop_def vec_ok_def vec_bytes_def split: block.splits)

lemma vector_fpop_ok:
  assumes "vec_ok v" and "0 < n" and "n < vec_size v"
  shows "\<exists>v'. vector_fpop v n = Inr v' \<and> vec_ok v' \<and> vec_bytes v' = drop n (vec_bytes v) \<and>
    vec_cap v' = vec_cap v"
proof (cases "vec_data v")
  case (Live bs)
  with assms show ?thesis
    by (auto simp: vector_fpop_def vector_pop_def vec_ok_def vec_bytes_def fetch_def blit_def
        drop_take take_append)
qed (use assms in \<open>auto simp: vec_ok_def\<close>)

lemma push_vector_ok:
  assumes "vec_ok dest" and "vec_ok src" and "vec_bytes src \<noteq> [] \<or> vec_data src = Null"
  shows "\<exists>v'. push_vector dest src = Inr v' \<and> vec_ok v' \<and> vec_bytes v' = vec_bytes dest @ vec_bytes src"
proof (cases "vec_data src")
  case (Live bs)
  with assms have "fetch (vec_data src) 0 (vec_size src) = Inr (vec_bytes src)" "0 < vec_size src"
    by (auto simp: fetch_def vec_ok_def vec_bytes_def)
  with Live assms vector_push_ok [of dest "vec_bytes src"] show ?thesis
    by (auto simp: push_vector_def free_block_def)
qed (use assms in \<open>auto simp: vec_ok_def push_vector_def vec_bytes_def\<close>)

section \<open>The interface the program's byte stores share\<close>

locale byte_buffer =
  fixes push :: "'v \<Rightarrow> bytes \<Rightarrow> 'v res"
    and contents :: "'v \<Rightarrow> bytes"
    and inv :: "'v \<Rightarrow> bool"
  assumes push_ok: "inv v \<Longrightarrow> bs \<noteq> [] \<Longrightarrow>
    \<exists>v'. push v bs = Inr v' \<and> inv v' \<and> contents v' = contents v @ bs"
begin

fun push_all :: "'v \<Rightarrow> bytes list \<Rightarrow> 'v res" where
  "push_all v [] = Inr v"
| "push_all v (bs # bss) = rbind (push v bs) (\<lambda>v. push_all v bss)"

lemma push_all_ok:
  assumes "inv v" and "\<forall>bs \<in> set bss. bs \<noteq> []"
  shows "\<exists>v'. push_all v bss = Inr v' \<and> inv v' \<and> contents v' = contents v @ concat bss"
  using assms
proof (induction bss arbitrary: v)
  case Nil
  then show ?case by simp
next
  case (Cons bs bss)
  have "inv v" and "bs \<noteq> []" using Cons.prems by simp_all
  then obtain w where w: "push v bs = Inr w" "inv w" "contents w = contents v @ bs"
    using push_ok by blast
  obtain u where "push_all w bss = Inr u" "inv u" "contents u = contents w @ concat bss"
    using Cons.IH [of w] Cons.prems w(2) by auto
  with w show ?case by simp
qed

lemma push_det:
  assumes "inv v" and "bs \<noteq> []" and "push v bs = Inr v'"
  shows "inv v' \<and> contents v' = contents v @ bs"
  using push_ok [OF assms(1,2)] assms(3) by auto

end

interpretation vec: byte_buffer vector_push vec_bytes vec_ok
proof unfold_locales
  fix v :: cvec and bs :: bytes
  assume "vec_ok v" and "bs \<noteq> []"
  from vector_push_ok [OF this]
  show "\<exists>v'. vector_push v bs = Inr v' \<and> vec_ok v' \<and> vec_bytes v' = vec_bytes v @ bs" by blast
qed

section \<open>Sequences of operations\<close>

text \<open>
  A vector as its users see it: a byte sequence that grows and shrinks at both ends. An
  operation is \<open>legal\<close> when it pushes something and pops fewer bytes than are held.
\<close>

datatype vec_op = OpPush bytes | OpFPush bytes | OpPop nat | OpFPop nat

fun vec_step :: "cvec \<Rightarrow> vec_op \<Rightarrow> cvec res" where
  "vec_step v (OpPush bs) = vector_push v bs"
| "vec_step v (OpFPush bs) = vector_fpush v bs"
| "vec_step v (OpPop n) = vector_pop v n"
| "vec_step v (OpFPop n) = vector_fpop v n"

fun vec_run :: "cvec \<Rightarrow> vec_op list \<Rightarrow> cvec res" where
  "vec_run v [] = Inr v"
| "vec_run v (x # xs) = rbind (vec_step v x) (\<lambda>v. vec_run v xs)"

fun seq_step :: "bytes \<Rightarrow> vec_op \<Rightarrow> bytes" where
  "seq_step s (OpPush bs) = s @ bs"
| "seq_step s (OpFPush bs) = bs @ s"
| "seq_step s (OpPop n) = take (length s - n) s"
| "seq_step s (OpFPop n) = drop n s"

fun seq_legal :: "bytes \<Rightarrow> vec_op \<Rightarrow> bool" where
  "seq_legal s (OpPush bs) = (bs \<noteq> [])"
| "seq_legal s (OpFPush bs) = (bs \<noteq> [])"
| "seq_legal s (OpPop n) = (0 < n \<and> n < length s)"
| "seq_legal s (OpFPop n) = (0 < n \<and> n < length s)"

fun seq_legal_run :: "bytes \<Rightarrow> vec_op list \<Rightarrow> bool" where
  "seq_legal_run s [] = True"
| "seq_legal_run s (x # xs) = (seq_legal s x \<and> seq_legal_run (seq_step s x) xs)"

lemma vec_step_ok:
  assumes "vec_ok v" and "cap_ok (vec_cap v)" and "seq_legal (vec_bytes v) x"
  shows "\<exists>v'. vec_step v x = Inr v' \<and> vec_ok v' \<and> cap_ok (vec_cap v') \<and>
    vec_bytes v' = seq_step (vec_bytes v) x"
proof (cases x)
  case (OpPush bs)
  with assms vector_push_ok [of v bs] show ?thesis by auto
next
  case (OpFPush bs)
  with assms vector_fpush_ok [of v bs] show ?thesis by auto
next
  case (OpPop n)
  with assms vector_pop_ok [of v n] show ?thesis by (auto simp: length_vec_bytes)
next
  case (OpFPop n)
  with assms vector_fpop_ok [of v n] show ?thesis by (auto simp: length_vec_bytes)
qed

lemma vec_run_ok:
  assumes "vec_ok v" and "cap_ok (vec_cap v)" and "seq_legal_run (vec_bytes v) xs"
  shows "\<exists>v'. vec_run v xs = Inr v' \<and> vec_ok v' \<and> cap_ok (vec_cap v') \<and>
    vec_bytes v' = foldl seq_step (vec_bytes v) xs"
  using assms
proof (induction xs arbitrary: v)
  case Nil
  then show ?case by simp
next
  case (Cons x xs)
  then obtain w where w: "vec_step v x = Inr w" "vec_ok w" "cap_ok (vec_cap w)"
      "vec_bytes w = seq_step (vec_bytes v) x"
    using vec_step_ok [of v x] by auto
  with Cons.IH [of w] Cons.prems show ?case by auto
qed

text \<open>C9: From a zero-initialised \<^verbatim>\<open>CVector\<close>, every legal sequence of \<^verbatim>\<open>vector_push\<close>,
  \<^verbatim>\<open>vector_fpush\<close>, \<^verbatim>\<open>vector_pop\<close> and \<^verbatim>\<open>vector_fpop\<close> calls runs without a failing assertion
  or an access outside the block, and leaves exactly the bytes the same sequence leaves on a
  plain byte sequence; the capacity is always 64 doubled some number of times.\<close>

theorem vector_refines_sequence:
  assumes "seq_legal_run [] xs"
  shows "\<exists>v. vec_run vec_zero xs = Inr v \<and> vec_ok v \<and> cap_ok (vec_cap v) \<and>
    vec_bytes v = foldl seq_step [] xs"
  using vec_run_ok [of vec_zero xs] assms
  by (simp add: cap_ok_def vec_zero_def vec_bytes_def vec_ok_def)

theorem vector_refines_sequence_witness:
  "\<exists>v. vec_run vec_zero [OpPush [1, 2, 3], OpFPush [9], OpFPop 2, OpPop 1] = Inr v \<and> vec_bytes v = [2]"
  using vector_refines_sequence [of "[OpPush [1, 2, 3], OpFPush [9], OpFPop 2, OpPop 1]"] by auto

text \<open>\<^verbatim>\<open>vector_pop\<close> of everything a vector holds releases its block but keeps the pointer
  and the capacity, so the next push of bytes, of any kind, goes to released memory.\<close>

theorem pop_to_empty_then_push_undefined:
  assumes "vec_data v = Live bs" and "0 < n" and "vec_size v \<le> n" and "data \<noteq> []"
  shows "rbind (vector_pop v n) (\<lambda>v. vector_push v data) = Inl Undef \<and>
    rbind (vector_pop v n) (\<lambda>v. vector_fpush v data) = Inl Undef"
  using assms
  by (auto simp: vector_pop_def vector_push_def vector_fpush_def free_block_def vector_resize_def
      realloc_block_def blit_def fetch_def)

theorem pop_to_empty_then_push_undefined_witness:
  "rbind (vector_pop \<lparr>vec_data = Live [7], vec_size = 1, vec_cap = 64\<rparr> 1)
     (\<lambda>v. vector_push v [8]) = Inl Undef"
  using pop_to_empty_then_push_undefined
    [of "\<lparr>vec_data = Live [7], vec_size = 1, vec_cap = 64\<rparr>" "[7]" 1 "[8]"]
  by simp

section \<open>Rounding up to a power of two\<close>

lemma smear_step:
  fixes x y :: "'a::len word"
  assumes "\<And>i. bit y i \<longleftrightarrow> (\<exists>d < k. bit x (i + d))"
  shows "bit (y OR drop_bit k y) i \<longleftrightarrow> (\<exists>d < 2 * k. bit x (i + d))"
proof -
  have "(\<exists>d < 2 * k. bit x (i + d)) \<longleftrightarrow>
      (\<exists>d < k. bit x (i + d)) \<or> (\<exists>d < k. bit x (i + k + d))"
  proof
    assume "\<exists>d < 2 * k. bit x (i + d)"
    then obtain d where d: "d < 2 * k" "bit x (i + d)" by blast
    show "(\<exists>d < k. bit x (i + d)) \<or> (\<exists>d < k. bit x (i + k + d))"
    proof (cases "d < k")
      case True
      with d show ?thesis by blast
    next
      case False
      then have "bit x (i + k + (d - k))" "d - k < k" using d by auto
      then show ?thesis by blast
    qed
  next
    assume "(\<exists>d < k. bit x (i + d)) \<or> (\<exists>d < k. bit x (i + k + d))"
    then show "\<exists>d < 2 * k. bit x (i + d)"
    proof
      assume "\<exists>d < k. bit x (i + d)"
      then obtain d where "d < k" "bit x (i + d)" by blast
      then show ?thesis by (intro exI [of _ d]) simp
    next
      assume "\<exists>d < k. bit x (i + k + d)"
      then obtain d where "d < k" "bit x (i + k + d)" by blast
      then show ?thesis by (intro exI [of _ "k + d"]) (simp add: add.assoc)
    qed
  qed
  then show ?thesis
    using assms by (simp add: bit_simps add.commute)
qed

definition smear :: "u64 \<Rightarrow> u64" where
  "smear n =
     (let n = n OR drop_bit 1 n;
          n = n OR drop_bit 2 n;
          n = n OR drop_bit 4 n;
          n = n OR drop_bit 8 n;
          n = n OR drop_bit 16 n
      in n OR drop_bit 32 n)"

lemma bit_smear: "bit (smear x) i \<longleftrightarrow> (\<exists>d < 64. bit x (i + d))"
proof -
  have s1: "bit x i \<longleftrightarrow> (\<exists>d < 1. bit x (i + d))" for i by simp
  note s2 = smear_step [of x 1 x, OF s1, simplified]
  note s4 = smear_step [OF s2, simplified]
  note s8 = smear_step [OF s4, simplified]
  note s16 = smear_step [OF s8, simplified]
  note s32 = smear_step [OF s16, simplified]
  show ?thesis using smear_step [OF s32, of i] by (simp add: smear_def Let_def)
qed

lemma top_bit:
  fixes x :: "'a::len word"
  assumes "x \<noteq> 0"
  obtains m where "bit x m" and "m < LENGTH('a)" and "\<And>j. m < j \<Longrightarrow> \<not> bit x j"
proof -
  have fin: "finite {j. bit x j}"
    by (rule finite_subset [of _ "{..< LENGTH('a)}"]) (auto dest: bit_imp_le_length)
  have ne: "{j. bit x j} \<noteq> {}"
    using assms by (auto simp: bit_eq_iff)
  have top: "bit x (Max {j. bit x j})" using Max_in [OF fin ne] by simp
  show thesis
  proof (rule that [of "Max {j. bit x j}"])
    show "bit x (Max {j. bit x j})" by (rule top)
    then show "Max {j. bit x j} < LENGTH('a)" by (rule bit_imp_le_length)
    show "\<not> bit x j" if "Max {j. bit x j} < j" for j
    proof
      assume "bit x j"
      then have "j \<le> Max {j. bit x j}" by (intro Max_ge [OF fin]) simp
      with that show False by simp
    qed
  qed
qed

lemma smear_mask:
  assumes "bit x m" and "\<And>j. m < j \<Longrightarrow> \<not> bit x j"
  shows "smear x = mask (Suc m)"
proof (rule bit_word_eqI)
  fix i :: nat
  assume "i < LENGTH(64)"
  show "bit (smear x) i \<longleftrightarrow> bit (mask (Suc m) :: u64) i"
  proof (cases "i \<le> m")
    case True
    have "m < 64" using bit_imp_le_length [OF assms(1)] by simp
    with True assms(1) have "\<exists>d < 64. bit x (i + d)" by (intro exI [of _ "m - i"]) auto
    with True \<open>m < 64\<close> show ?thesis by (auto simp: bit_smear bit_simps)
  next
    case False
    with assms(2) have "\<not> (\<exists>d < 64. bit x (i + d))" by auto
    with False show ?thesis by (auto simp: bit_smear bit_simps)
  qed
qed

lemma unat_between_powers:
  fixes x :: u64
  assumes "bit x m" and "\<And>j. m < j \<Longrightarrow> \<not> bit x j"
  shows "2 ^ m \<le> unat x" and "unat x < 2 ^ Suc m"
proof -
  have "take_bit (Suc m) x = x"
    using assms(2) by (intro bit_word_eqI) (auto simp: bit_simps less_Suc_eq_le intro: leI)
  then have "take_bit (Suc m) (unat x) = unat x"
    by (metis unsigned_take_bit_eq)
  then show "unat x < 2 ^ Suc m"
    by (metis take_bit_nat_less_exp)
  show "2 ^ m \<le> unat x"
  proof (rule ccontr)
    assume "\<not> 2 ^ m \<le> unat x"
    then have "take_bit m (unat x) = unat x" by (simp add: take_bit_nat_eq_self)
    then have "\<not> bit (unat x) m" by (metis bit_take_bit_iff less_irrefl)
    then show False using assms(1) by (simp add: bit_unsigned_iff)
  qed
qed

text \<open>\<^verbatim>\<open>next_power_of_2\<close> returns the least power of two that is not below its argument, for
  every 64-bit argument from 1 up to the largest power of two that 64 bits can hold, and wraps
  to 0 above it.\<close>

theorem next_power_of_2_least:
  assumes "1 \<le> unat n"
  shows "if unat n \<le> 2 ^ 63
    then (\<exists>k. unat (next_power_of_2 n) = 2 ^ k \<and> unat n \<le> 2 ^ k \<and> (\<forall>j. unat n \<le> 2 ^ j \<longrightarrow> k \<le> j))
    else next_power_of_2 n = 0"
proof (cases "n = 1")
  case True
  then show ?thesis by (auto simp: next_power_of_2_def intro!: exI [of _ 0])
next
  case False
  let ?x = "n - 1"
  have big: "\<not> n \<le> 1" using assms False by unat_arith
  have x0: "?x \<noteq> 0" using False by simp
  have n_eq: "unat n = Suc (unat ?x)" using assms by unat_arith
  obtain m where m: "bit ?x m" "m < 64" "\<And>j. m < j \<Longrightarrow> \<not> bit ?x j"
    using top_bit [OF x0] by auto
  have res: "next_power_of_2 n = mask (Suc m) + 1"
    using big smear_mask [OF m(1,3)] by (simp add: next_power_of_2_def smear_def Let_def)
  have lo: "2 ^ m \<le> unat ?x" and hi: "unat ?x < 2 ^ Suc m"
    using unat_between_powers [OF m(1,3)] by auto
  have least: "Suc m \<le> j" if "unat n \<le> 2 ^ j" for j
  proof -
    have "(2::nat) ^ m < 2 ^ j" using that lo n_eq by linarith
    then show ?thesis by (simp add: Suc_le_eq)
  qed
  show ?thesis
  proof (cases "unat n \<le> 2 ^ 63")
    case True
    with least have "Suc m \<le> 63" by blast
    then have "(2::nat) ^ Suc m < 2 ^ LENGTH(64)" by (intro power_strict_increasing) auto
    then have "unat (of_nat (2 ^ Suc m) :: u64) = 2 ^ Suc m" by (rule unat_of_nat_small)
    then have "unat (2 ^ Suc m :: u64) = 2 ^ Suc m" by simp
    then have "unat (next_power_of_2 n) = 2 ^ Suc m"
      by (simp add: res mask_eq_exp_minus_1)
    with True hi n_eq least show ?thesis by (auto intro!: exI [of _ "Suc m"])
  next
    case False
    with hi n_eq have "(2::nat) ^ 63 < 2 ^ Suc m" by linarith
    then have "63 < Suc m" by (simp only: power_strict_increasing_iff)
    with m(2) have "m = 63" by simp
    with False show ?thesis by (simp add: res mask_eq_exp_minus_1)
  qed
qed

theorem next_power_of_2_least_witness:
  "\<exists>k. unat (next_power_of_2 100) = 2 ^ k \<and> unat (100 :: u64) \<le> 2 ^ k"
  using next_power_of_2_least [of 100] by auto

end
