(* ===== verification/Cup_X64.thy ===== *)
theory Cup_X64
  imports Cup_Prelude
begin

text \<open>
  The instruction encoders of \<^verbatim>\<open>src/codegen/x64codegen.c\<close>, as the bytes each of them appends to the
  code, and a decoder for the instructions they produce, written from the instruction formats and
  not from the encoders. Registers are numbers as in \<^verbatim>\<open>X64Reg\<close>; displacements and immediates are
  32-bit words that are read as signed.
\<close>

type_synonym reg = u8

abbreviation RAX :: reg where "RAX \<equiv> 0"
abbreviation RCX :: reg where "RCX \<equiv> 1"
abbreviation RDX :: reg where "RDX \<equiv> 2"
abbreviation RBX :: reg where "RBX \<equiv> 3"
abbreviation RSP :: reg where "RSP \<equiv> 4"
abbreviation RBP :: reg where "RBP \<equiv> 5"
abbreviation RSI :: reg where "RSI \<equiv> 6"
abbreviation RDI :: reg where "RDI \<equiv> 7"
abbreviation R8 :: reg where "R8 \<equiv> 8"
abbreviation R9 :: reg where "R9 \<equiv> 9"
abbreviation R10 :: reg where "R10 \<equiv> 10"
abbreviation R11 :: reg where "R11 \<equiv> 11"
abbreviation R12 :: reg where "R12 \<equiv> 12"
abbreviation R13 :: reg where "R13 \<equiv> 13"
abbreviation R14 :: reg where "R14 \<equiv> 14"
abbreviation R15 :: reg where "R15 \<equiv> 15"
abbreviation ANY :: reg where "ANY \<equiv> 16"

abbreviation CC_E :: u8 where "CC_E \<equiv> 0x4"
abbreviation CC_NE :: u8 where "CC_NE \<equiv> 0x5"
abbreviation CC_L :: u8 where "CC_L \<equiv> 0xC"
abbreviation CC_GE :: u8 where "CC_GE \<equiv> 0xD"
abbreviation CC_LE :: u8 where "CC_LE \<equiv> 0xE"
abbreviation CC_G :: u8 where "CC_G \<equiv> 0xF"

section \<open>Encoders\<close>

definition emit_rex :: "bool \<Rightarrow> reg \<Rightarrow> reg \<Rightarrow> reg \<Rightarrow> bool \<Rightarrow> bytes" where
  "emit_rex w reg idx rm force =
     (let rex = 0x40 OR (if w then 8 else 0) OR (if reg AND 8 \<noteq> 0 then 4 else 0) OR
                (if idx AND 8 \<noteq> 0 then 2 else 0) OR (if rm AND 8 \<noteq> 0 then 1 else 0)
      in if rex \<noteq> 0x40 \<or> force then [rex] else [])"

definition emit_modrm_rr :: "reg \<Rightarrow> reg \<Rightarrow> bytes" where
  "emit_modrm_rr reg rm = [0xC0 OR push_bit 3 (reg AND 7) OR (rm AND 7)]"

definition emit_modrm_mem :: "reg \<Rightarrow> reg \<Rightarrow> u32 \<Rightarrow> bytes" where
  "emit_modrm_mem reg base disp =
     (let mode = (if disp = 0 \<and> base AND 7 \<noteq> 5 then 0
                  else if - 128 \<le> sint disp \<and> sint disp \<le> 127 then 1 else 2) :: u8
      in [push_bit 6 mode OR push_bit 3 (reg AND 7) OR (base AND 7)] @
         (if base AND 7 = 4 then [0x24] else []) @
         (if mode = 1 then [ucast disp] else if mode = 2 then le_bytes 4 disp else []))"

definition emit_rr :: "u8 \<Rightarrow> reg \<Rightarrow> reg \<Rightarrow> bytes" where
  "emit_rr opc reg rm = emit_rex True reg 0 rm False @ [opc] @ emit_modrm_rr reg rm"

definition emit_mov_rr :: "reg \<Rightarrow> reg \<Rightarrow> bytes" where
  "emit_mov_rr dst src = (if dst \<noteq> src then emit_rr 0x89 src dst else [])"

definition emit_load :: "reg \<Rightarrow> reg \<Rightarrow> u32 \<Rightarrow> bytes" where
  "emit_load dst base disp = emit_rex True dst 0 base False @ [0x8B] @ emit_modrm_mem dst base disp"

definition emit_store :: "reg \<Rightarrow> u32 \<Rightarrow> reg \<Rightarrow> bytes" where
  "emit_store base disp src = emit_rex True src 0 base False @ [0x89] @ emit_modrm_mem src base disp"

definition emit_store_imm32 :: "reg \<Rightarrow> u32 \<Rightarrow> u32 \<Rightarrow> bytes" where
  "emit_store_imm32 base disp imm =
     emit_rex True 0 0 base False @ [0xC7] @ emit_modrm_mem 0 base disp @ le_bytes 4 imm"

definition emit_add_mem_reg :: "reg \<Rightarrow> u32 \<Rightarrow> reg \<Rightarrow> bytes" where
  "emit_add_mem_reg base disp src = emit_rex True src 0 base False @ [0x01] @ emit_modrm_mem src base disp"

definition emit_lea_idx8 :: "reg \<Rightarrow> reg \<Rightarrow> reg \<Rightarrow> bytes" where
  "emit_lea_idx8 dst base index =
     (let mode = (if base AND 7 = 5 then 1 else 0) :: u8
      in emit_rex True dst index base False @ [0x8D] @
         [push_bit 6 mode OR push_bit 3 (dst AND 7) OR 4] @
         [push_bit 6 3 OR push_bit 3 (index AND 7) OR (base AND 7)] @
         (if mode \<noteq> 0 then [0] else []))"

definition emit_mov_imm64 :: "reg \<Rightarrow> u64 \<Rightarrow> bytes" where
  "emit_mov_imm64 reg imm = emit_rex True 0 0 reg False @ [0xB8 + (reg AND 7)] @ le_bytes 8 imm"

definition UINT32_MAX :: u64 where "UINT32_MAX = 0xFFFFFFFF"
definition INT32_MAX :: u64 where "INT32_MAX = 0x7FFFFFFF"

definition emit_mov_const :: "reg \<Rightarrow> u64 \<Rightarrow> bytes" where
  "emit_mov_const reg imm =
     (if imm \<le> UINT32_MAX then emit_rex False 0 0 reg False @ [0xB8 + (reg AND 7)] @ le_bytes 4 (ucast imm :: u32)
      else if - (2 ^ 31) \<le> sint imm \<and> sint imm < 0 then
        emit_rex True 0 0 reg False @ [0xC7] @ emit_modrm_rr 0 reg @ le_bytes 4 (ucast imm :: u32)
      else emit_mov_imm64 reg imm)"

definition emit_load_rax_abs :: "u64 \<Rightarrow> bytes" where
  "emit_load_rax_abs addr = [0x48, 0xA1] @ le_bytes 8 addr"

definition emit_store_rax_abs :: "u64 \<Rightarrow> bytes" where
  "emit_store_rax_abs addr = [0x48, 0xA3] @ le_bytes 8 addr"

definition emit_alu_imm :: "u8 \<Rightarrow> reg \<Rightarrow> u32 \<Rightarrow> bytes" where
  "emit_alu_imm ext reg imm =
     emit_rex True 0 0 reg False @
     (if - 128 \<le> sint imm \<and> sint imm \<le> 127 then [0x83] @ emit_modrm_rr ext reg @ [ucast imm]
      else [0x81] @ emit_modrm_rr ext reg @ le_bytes 4 imm)"

definition emit_add_rr :: "reg \<Rightarrow> reg \<Rightarrow> bytes" where "emit_add_rr dst src = emit_rr 0x01 src dst"
definition emit_sub_rr :: "reg \<Rightarrow> reg \<Rightarrow> bytes" where "emit_sub_rr dst src = emit_rr 0x29 src dst"
definition emit_cmp_rr :: "reg \<Rightarrow> reg \<Rightarrow> bytes" where "emit_cmp_rr dst src = emit_rr 0x39 src dst"
definition emit_test_rr :: "reg \<Rightarrow> reg \<Rightarrow> bytes" where "emit_test_rr a b = emit_rr 0x85 b a"

definition emit_xor32_rr :: "reg \<Rightarrow> reg \<Rightarrow> bytes" where
  "emit_xor32_rr dst src = emit_rex False src 0 dst False @ [0x31] @ emit_modrm_rr src dst"

definition emit_imul_imm :: "reg \<Rightarrow> u32 \<Rightarrow> bytes" where
  "emit_imul_imm reg imm = emit_rex True reg 0 reg False @ [0x69] @ emit_modrm_rr reg reg @ le_bytes 4 imm"

definition emit_imul_rr :: "reg \<Rightarrow> reg \<Rightarrow> bytes" where
  "emit_imul_rr dst src = emit_rex True dst 0 src False @ [0x0F, 0xAF] @ emit_modrm_rr dst src"

definition emit_shl_imm :: "reg \<Rightarrow> u8 \<Rightarrow> bytes" where
  "emit_shl_imm reg n = emit_rex True 0 0 reg False @ [0xC1] @ emit_modrm_rr 4 reg @ [n]"

definition emit_setcc_zx :: "u8 \<Rightarrow> reg \<Rightarrow> bytes" where
  "emit_setcc_zx cc reg =
     emit_rex False 0 0 reg (4 \<le> reg) @ [0x0F, 0x90 OR cc] @ emit_modrm_rr 0 reg @
     emit_rex True reg 0 reg False @ [0x0F, 0xB6] @ emit_modrm_rr reg reg"

text \<open>The bytes of \<^verbatim>\<open>emit_push\<close> and \<^verbatim>\<open>emit_pop\<close>; the count of pushes is kept by their callers' state.\<close>

definition push_bytes :: "reg \<Rightarrow> bytes" where
  "push_bytes reg = (if 8 \<le> reg then [0x41] else []) @ [0x50 + (reg AND 7)]"

definition pop_bytes :: "reg \<Rightarrow> bytes" where
  "pop_bytes reg = (if 8 \<le> reg then [0x41] else []) @ [0x58 + (reg AND 7)]"

definition emit_call_reg :: "reg \<Rightarrow> bytes" where
  "emit_call_reg reg = emit_rex False 0 0 reg False @ [0xFF] @ emit_modrm_rr 2 reg"

definition emit_ret :: bytes where "emit_ret = [0xC3]"

definition emit_leave :: bytes where "emit_leave = [0xC9]"

definition emit_rsp_adjust :: "int \<Rightarrow> bytes" where
  "emit_rsp_adjust delta = emit_alu_imm (if delta < 0 then 5 else 0) RSP (word_of_int (if delta < 0 then - delta else delta))"

definition jmp_rel32 :: "u32 \<Rightarrow> bytes" where "jmp_rel32 d = [0xE9] @ le_bytes 4 d"
definition jcc_rel32 :: "u8 \<Rightarrow> u32 \<Rightarrow> bytes" where "jcc_rel32 cc d = [0x0F, 0x80 OR cc] @ le_bytes 4 d"

definition nop4 :: bytes where "nop4 = [0x0F, 0x1F, 0x40, 0x00]"

section \<open>Instructions and their formats\<close>

datatype instr =
    MovRR reg reg
  | Load reg reg u32
  | Store reg u32 reg
  | StoreImm reg u32 u32
  | AddMem reg u32 reg
  | LeaIdx8 reg reg reg
  | MovImm reg u64
  | LoadRaxAbs u64
  | StoreRaxAbs u64
  | AddImm reg u32
  | SubImm reg u32
  | CmpImm reg u32
  | AddRR reg reg
  | SubRR reg reg
  | CmpRR reg reg
  | TestRR reg reg
  | XorRR32 reg reg
  | ImulImm reg reg u32
  | ImulRR reg reg
  | ShlImm reg u8
  | SetCC u8 reg
  | Movzx8 reg reg
  | Push reg
  | Pop reg
  | CallReg reg
  | Ret
  | Leave
  | Jmp u32
  | Jcc u8 u32
  | Nop

text \<open>The prefix byte: the operand width and the high bits of the three register fields.\<close>

record rex =
  rex_present :: bool
  rex_w :: bool
  rex_r :: reg
  rex_x :: reg
  rex_b :: reg

definition hi :: "u8 \<Rightarrow> nat \<Rightarrow> reg" where "hi b i = (if bit b i then 8 else 0)"

definition get_rex :: "bytes \<Rightarrow> rex \<times> bytes" where
  "get_rex bs =
     (case bs of
        b # bs' \<Rightarrow>
          if b AND 0xF0 = 0x40 then
            (\<lparr>rex_present = True, rex_w = bit b 3, rex_r = hi b 2, rex_x = hi b 1, rex_b = hi b 0\<rparr>, bs')
          else (\<lparr>rex_present = False, rex_w = False, rex_r = 0, rex_x = 0, rex_b = 0\<rparr>, bs)
      | [] \<Rightarrow> (\<lparr>rex_present = False, rex_w = False, rex_r = 0, rex_x = 0, rex_b = 0\<rparr>, bs))"

definition imm32 :: "bytes \<Rightarrow> (u32 \<times> bytes) option" where
  "imm32 bs = (if length bs < 4 then None else Some (le_word (take 4 bs), drop 4 bs))"

definition imm64 :: "bytes \<Rightarrow> (u64 \<times> bytes) option" where
  "imm64 bs = (if length bs < 8 then None else Some (le_word (take 8 bs), drop 8 bs))"

text \<open>An 8-bit displacement or immediate, extended by its sign.\<close>

definition imm8s :: "bytes \<Rightarrow> (u32 \<times> bytes) option" where
  "imm8s bs = (case bs of b # bs' \<Rightarrow> Some (scast b, bs') | [] \<Rightarrow> None)"

text \<open>
  The operand byte: mode, register field and r/m field, with the prefix bits put back. An r/m field
  of 4 in a memory mode is followed by a second byte with scale, index and base; an index of 4 means
  none. Mode 0 with base 5 is another addressing form that is not decoded here.
\<close>

datatype operand = OReg reg | OMem reg u32 | OIdx8 reg reg u32

definition get_disp :: "u8 \<Rightarrow> bytes \<Rightarrow> (u32 \<times> bytes) option" where
  "get_disp mode bs = (if mode = 0 then Some (0, bs) else if mode = 1 then imm8s bs else imm32 bs)"

definition get_operand :: "rex \<Rightarrow> bytes \<Rightarrow> (reg \<times> operand \<times> bytes) option" where
  "get_operand rx bs =
     (case bs of
        [] \<Rightarrow> None
      | m # bs \<Rightarrow>
          (let mode = drop_bit 6 m; reg = rex_r rx OR (drop_bit 3 m AND 7); rm = m AND 7
           in if mode = 3 then Some (reg, OReg (rex_b rx OR rm), bs)
              else if rm = 4 then
                (case bs of
                   [] \<Rightarrow> None
                 | s # bs \<Rightarrow>
                     (let scale = drop_bit 6 s; index = rex_x rx OR (drop_bit 3 s AND 7); base = s AND 7
                      in if mode = 0 \<and> base = 5 then None
                         else case get_disp mode bs of
                           None \<Rightarrow> None
                         | Some (d, bs) \<Rightarrow>
                             if index = 4 then Some (reg, OMem (rex_b rx OR base) d, bs)
                             else if scale = 3 then Some (reg, OIdx8 (rex_b rx OR base) index d, bs)
                             else None))
              else if mode = 0 \<and> rm = 5 then None
              else case get_disp mode bs of
                None \<Rightarrow> None
              | Some (d, bs) \<Rightarrow> Some (reg, OMem (rex_b rx OR rm) d, bs)))"

text \<open>The instruction that starts a byte sequence, and the bytes after it.\<close>

definition with_reg :: "(reg \<times> operand \<times> bytes) option \<Rightarrow> (reg \<Rightarrow> reg \<Rightarrow> instr option) \<Rightarrow> (instr \<times> bytes) option" where
  "with_reg x f =
     (case x of
        Some (r, OReg m, bs) \<Rightarrow> map_option (\<lambda>i. (i, bs)) (f r m)
      | _ \<Rightarrow> None)"

definition with_rm ::
  "(reg \<times> operand \<times> bytes) option \<Rightarrow> (reg \<Rightarrow> reg \<Rightarrow> instr option) \<Rightarrow> (reg \<Rightarrow> reg \<Rightarrow> u32 \<Rightarrow> instr option) \<Rightarrow>
   (instr \<times> bytes) option" where
  "with_rm x f g =
     (case x of
        Some (r, OReg m, bs) \<Rightarrow> map_option (\<lambda>i. (i, bs)) (f r m)
      | Some (r, OMem b d, bs) \<Rightarrow> map_option (\<lambda>i. (i, bs)) (g r b d)
      | _ \<Rightarrow> None)"

definition with_imm :: "('w \<times> bytes) option \<Rightarrow> ('w \<Rightarrow> instr option) \<Rightarrow> (instr \<times> bytes) option" where
  "with_imm x f = (case x of Some (v, bs) \<Rightarrow> map_option (\<lambda>i. (i, bs)) (f v) | None \<Rightarrow> None)"

text \<open>Group 1: the register field selects the operation.\<close>

definition group1 :: "reg \<Rightarrow> reg \<Rightarrow> u32 \<Rightarrow> instr option" where
  "group1 ext r v =
     (if ext = 0 then Some (AddImm r v) else if ext = 5 then Some (SubImm r v)
      else if ext = 7 then Some (CmpImm r v) else None)"

definition decode_0F :: "rex \<Rightarrow> bytes \<Rightarrow> (instr \<times> bytes) option" where
  "decode_0F rx bs =
     (case bs of
        [] \<Rightarrow> None
      | opc # bs \<Rightarrow>
          if opc = 0xAF \<and> rex_w rx then with_reg (get_operand rx bs) (\<lambda>r m. Some (ImulRR r m))
          else if opc = 0xB6 \<and> rex_w rx then with_reg (get_operand rx bs) (\<lambda>r m. Some (Movzx8 r m))
          else if opc AND 0xF0 = 0x90 \<and> \<not> rex_w rx then
            with_reg (get_operand rx bs) (\<lambda>r m. if r = 0 \<and> (rex_present rx \<or> m < 4) then Some (SetCC (opc AND 0xF) m) else None)
          else if opc AND 0xF0 = 0x80 \<and> \<not> rex_w rx then with_imm (imm32 bs) (\<lambda>d. Some (Jcc (opc AND 0xF) d))
          else if opc = 0x1F then with_rm (get_operand rx bs) (\<lambda>_ _. None) (\<lambda>r b d. Some Nop)
          else None)"

definition decode :: "bytes \<Rightarrow> (instr \<times> bytes) option" where
  "decode bs =
     (case get_rex bs of
        (rx, []) \<Rightarrow> None
      | (rx, opc # bs) \<Rightarrow>
          if opc = 0x0F then decode_0F rx bs
          else if rex_w rx then
            (if opc = 0x89 then with_rm (get_operand rx bs) (\<lambda>r m. Some (MovRR m r)) (\<lambda>r b d. Some (Store b d r))
             else if opc = 0x8B then with_rm (get_operand rx bs) (\<lambda>_ _. None) (\<lambda>r b d. Some (Load r b d))
             else if opc = 0x01 then with_rm (get_operand rx bs) (\<lambda>r m. Some (AddRR m r)) (\<lambda>r b d. Some (AddMem b d r))
             else if opc = 0x29 then with_reg (get_operand rx bs) (\<lambda>r m. Some (SubRR m r))
             else if opc = 0x39 then with_reg (get_operand rx bs) (\<lambda>r m. Some (CmpRR m r))
             else if opc = 0x85 then with_reg (get_operand rx bs) (\<lambda>r m. Some (TestRR m r))
             else if opc = 0x8D then
               (case get_operand rx bs of
                  Some (r, OIdx8 b i d, bs) \<Rightarrow> if d = 0 then Some (LeaIdx8 r b i, bs) else None
                | _ \<Rightarrow> None)
             else if opc = 0xC7 then
               (case get_operand rx bs of
                  Some (r, OReg m, bs) \<Rightarrow> if r = 0 then with_imm (imm32 bs) (\<lambda>v. Some (MovImm m (scast v))) else None
                | Some (r, OMem b d, bs) \<Rightarrow> if r = 0 then with_imm (imm32 bs) (\<lambda>v. Some (StoreImm b d v)) else None
                | _ \<Rightarrow> None)
             else if opc AND 0xF8 = 0xB8 then with_imm (imm64 bs) (\<lambda>v. Some (MovImm (rex_b rx OR (opc AND 7)) v))
             else if opc = 0xA1 then with_imm (imm64 bs) (\<lambda>v. Some (LoadRaxAbs v))
             else if opc = 0xA3 then with_imm (imm64 bs) (\<lambda>v. Some (StoreRaxAbs v))
             else if opc = 0x83 then
               (case get_operand rx bs of
                  Some (r, OReg m, bs) \<Rightarrow> with_imm (imm8s bs) (\<lambda>v. group1 r m v)
                | _ \<Rightarrow> None)
             else if opc = 0x81 then
               (case get_operand rx bs of
                  Some (r, OReg m, bs) \<Rightarrow> with_imm (imm32 bs) (\<lambda>v. group1 r m v)
                | _ \<Rightarrow> None)
             else if opc = 0x69 then
               (case get_operand rx bs of
                  Some (r, OReg m, bs) \<Rightarrow> with_imm (imm32 bs) (\<lambda>v. Some (ImulImm r m v))
                | _ \<Rightarrow> None)
             else if opc = 0xC1 then
               (case get_operand rx bs of
                  Some (r, OReg m, n # bs) \<Rightarrow> if r = 4 then Some (ShlImm m n, bs) else None
                | _ \<Rightarrow> None)
             else None)
          else
            (if opc = 0x31 then with_reg (get_operand rx bs) (\<lambda>r m. Some (XorRR32 m r))
             else if opc AND 0xF8 = 0xB8 then with_imm (imm32 bs) (\<lambda>v. Some (MovImm (rex_b rx OR (opc AND 7)) (ucast v)))
             else if opc AND 0xF8 = 0x50 then Some (Push (rex_b rx OR (opc AND 7)), bs)
             else if opc AND 0xF8 = 0x58 then Some (Pop (rex_b rx OR (opc AND 7)), bs)
             else if opc = 0xFF then with_reg (get_operand rx bs) (\<lambda>r m. if r = 2 then Some (CallReg m) else None)
             else if opc = 0xC3 then Some (Ret, bs)
             else if opc = 0xC9 then Some (Leave, bs)
             else if opc = 0xE9 then with_imm (imm32 bs) (\<lambda>d. Some (Jmp d))
             else None))"

section \<open>Fields of the formats\<close>

text \<open>Facts about all bytes, and about all registers, are checked one by one.\<close>

lemma all_bytes:
  assumes "list_all (\<lambda>n. P (of_nat n)) [0..<256]"
  shows "P (b :: u8)"
proof -
  have "unat b \<in> set [0..<256]" using unsigned_less [of b] by simp
  then have "P (of_nat (unat b))" using assms by (simp only: list_all_iff)
  then show ?thesis by simp
qed

definition is_reg :: "reg \<Rightarrow> bool" where "is_reg r \<longleftrightarrow> r < 16"

lemma all_regs:
  assumes "is_reg r" and "list_all (\<lambda>n. P (of_nat n)) [0..<16]"
  shows "P r"
proof -
  have "unat r \<in> set [0..<16]" using assms(1) by (simp add: is_reg_def word_less_nat_alt)
  then have "P (of_nat (unat r))" using assms(2) by (simp only: list_all_iff)
  then show ?thesis by simp
qed

definition lows :: "u8 list" where "lows = [0, 1, 2, 3, 4, 5, 6, 7]"

lemma low_cases: "(r :: u8) AND 7 \<in> set lows"
  by (rule all_bytes [where b = r]) code_simp

lemma and8: "(r :: u8) AND 8 = 0 \<or> r AND 8 = 8"
  by (rule all_bytes [where b = r]) code_simp

lemma reg_split: "is_reg r \<Longrightarrow> (r AND 8) OR (r AND 7) = r"
  by (erule all_regs) code_simp

text \<open>The operand byte.\<close>

definition modrm :: "u8 \<Rightarrow> reg \<Rightarrow> reg \<Rightarrow> u8" where
  "modrm mode r m = push_bit 6 mode OR push_bit 3 (r AND 7) OR (m AND 7)"

lemma modrm_fields_low:
  "list_all (\<lambda>k. list_all (\<lambda>x. list_all (\<lambda>y.
     let b = push_bit 6 k OR push_bit 3 x OR y :: u8
     in drop_bit 6 b = k \<and> drop_bit 3 b AND 7 = x \<and> b AND 7 = y) lows) lows) [0, 1, 2, 3]"
  by code_simp

lemma modrm_fields:
  assumes "mode \<in> set [0, 1, 2, 3]"
  shows "drop_bit 6 (modrm mode r m) = mode" and "drop_bit 3 (modrm mode r m) AND 7 = r AND 7"
    and "modrm mode r m AND 7 = m AND 7"
  using modrm_fields_low assms low_cases [of r] low_cases [of m]
  unfolding modrm_def list_all_iff Let_def by blast+

lemma emit_modrm_rr_eq: "emit_modrm_rr r m = [modrm 3 r m]"
  by (simp add: emit_modrm_rr_def modrm_def)

lemma get_operand_rr [simp]:
  "get_operand rx (emit_modrm_rr r m @ rest) = Some (rex_r rx OR (r AND 7), OReg (rex_b rx OR (m AND 7)), rest)"
  using modrm_fields [of 3 r m] by (simp add: get_operand_def emit_modrm_rr_eq Let_def)

lemma imm8s_small:
  assumes "- 128 \<le> sint d" and "sint d \<le> 127"
  shows "scast (ucast d :: u8) = (d :: u32)"
proof -
  have "sint d = signed_take_bit 31 (uint d)" by (simp add: signed_take_bit_eq sint_uint)
  then have "sint (ucast d :: u8) = signed_take_bit 7 (sint d)"
    by (simp add: signed_ucast_eq)
  also have "\<dots> = sint d" using assms by (simp add: signed_take_bit_int_eq_self)
  finally show ?thesis by (simp add: scast_eq)
qed

lemma imm32_le [simp]: "imm32 (le_bytes 4 (d :: u32) @ rest) = Some (d, rest)"
  by (simp add: imm32_def)

lemma imm64_le [simp]: "imm64 (le_bytes 8 (d :: u64) @ rest) = Some (d, rest)"
  by (simp add: imm64_def)

text \<open>A memory operand: the mode byte, the second byte for base 4, and the displacement.\<close>

definition disp_mode :: "reg \<Rightarrow> u32 \<Rightarrow> u8" where
  "disp_mode base disp =
     (if disp = 0 \<and> base AND 7 \<noteq> 5 then 0 else if - 128 \<le> sint disp \<and> sint disp \<le> 127 then 1 else 2)"

definition disp_bytes :: "reg \<Rightarrow> u32 \<Rightarrow> bytes" where
  "disp_bytes base disp =
     (if disp_mode base disp = 1 then [ucast disp] else if disp_mode base disp = 2 then le_bytes 4 disp else [])"

lemma emit_modrm_mem_eq:
  "emit_modrm_mem r base disp =
     modrm (disp_mode base disp) r base # (if base AND 7 = 4 then [0x24] else []) @ disp_bytes base disp"
  by (simp add: emit_modrm_mem_def disp_mode_def disp_bytes_def modrm_def Let_def)

lemma get_disp_bytes [simp]:
  "get_disp (disp_mode base disp) (disp_bytes base disp @ rest) = Some (disp, rest)"
  by (auto simp: get_disp_def disp_mode_def disp_bytes_def imm8s_def imm8s_small)

lemma sib_fields: "drop_bit 6 (0x24 :: u8) = 0" "drop_bit 3 (0x24 :: u8) AND 7 = 4" "(0x24 :: u8) AND 7 = 4"
  by code_simp+

lemma get_operand_mem [simp]:
  assumes "rex_x rx = 0"
  shows "get_operand rx (emit_modrm_mem r base disp @ rest) =
    Some (rex_r rx OR (r AND 7), OMem (rex_b rx OR (base AND 7)) disp, rest)"
proof -
  have mode: "disp_mode base disp \<in> set [0, 1, 2, 3]" "disp_mode base disp \<noteq> 3"
    "disp_mode base disp = 0 \<Longrightarrow> base AND 7 \<noteq> 5"
    by (auto simp: disp_mode_def split: if_splits)
  note fields = modrm_fields [OF mode(1), of r base]
  show ?thesis
  proof (cases "base AND 7 = 4")
    case True
    then show ?thesis
      using fields mode(2) assms by (simp add: get_operand_def emit_modrm_mem_eq Let_def sib_fields)
  next
    case False
    then show ?thesis
      using fields mode(2,3) by (auto simp: get_operand_def emit_modrm_mem_eq Let_def)
  qed
qed

definition rex_of :: "bool \<Rightarrow> reg \<Rightarrow> reg \<Rightarrow> reg \<Rightarrow> bool \<Rightarrow> rex" where
  "rex_of w r x b force =
     \<lparr>rex_present = (w \<or> r AND 8 \<noteq> 0 \<or> x AND 8 \<noteq> 0 \<or> b AND 8 \<noteq> 0 \<or> force),
      rex_w = w, rex_r = r AND 8, rex_x = x AND 8, rex_b = b AND 8\<rparr>"

lemma rex_of_simps [simp]:
  "rex_present (rex_of w r x b force) = (w \<or> r AND 8 \<noteq> 0 \<or> x AND 8 \<noteq> 0 \<or> b AND 8 \<noteq> 0 \<or> force)"
  "rex_w (rex_of w r x b force) = w" "rex_r (rex_of w r x b force) = r AND 8"
  "rex_x (rex_of w r x b force) = x AND 8" "rex_b (rex_of w r x b force) = b AND 8"
  by (simp_all add: rex_of_def)

definition rex_byte :: "bool \<Rightarrow> reg \<Rightarrow> reg \<Rightarrow> reg \<Rightarrow> u8" where
  "rex_byte w r x b =
     0x40 OR (if w then 8 else 0) OR (if r \<noteq> 0 then 4 else 0) OR (if x \<noteq> 0 then 2 else 0) OR (if b \<noteq> 0 then 1 else 0)"

lemma rex_byte_fields:
  "list_all (\<lambda>w. list_all (\<lambda>r. list_all (\<lambda>x. list_all (\<lambda>b.
     let y = rex_byte w r x b
     in y AND 0xF0 = 0x40 \<and> bit y 3 = w \<and> hi y 2 = r \<and> hi y 1 = x \<and> hi y 0 = b \<and>
        (y = 0x40 \<longleftrightarrow> \<not> w \<and> r = 0 \<and> x = 0 \<and> b = 0))
     [0, 8]) [0, 8]) [0, 8]) [False, True]"
  by code_simp

lemma get_rex_emit [simp]:
  assumes "c AND 0xF0 \<noteq> 0x40"
  shows "get_rex (emit_rex w r x b force @ c # rest) = (rex_of w r x b force, c # rest)"
proof -
  let ?y = "rex_byte w (r AND 8) (x AND 8) (b AND 8)"
  have f: "?y AND 0xF0 = 0x40 \<and> bit ?y 3 = w \<and> hi ?y 2 = r AND 8 \<and> hi ?y 1 = x AND 8 \<and> hi ?y 0 = b AND 8 \<and>
      (?y = 0x40 \<longleftrightarrow> \<not> w \<and> r AND 8 = 0 \<and> x AND 8 = 0 \<and> b AND 8 = 0)"
  proof -
    have "w \<in> set [False, True]" "r AND 8 \<in> set [0, 8]" "x AND 8 \<in> set [0, 8]" "b AND 8 \<in> set [0, 8]"
      using and8 [of r] and8 [of x] and8 [of b] by auto
    then show ?thesis using rex_byte_fields unfolding list_all_iff Let_def by blast
  qed
  have "emit_rex w r x b force = (if ?y \<noteq> 0x40 \<or> force then [?y] else [])"
    by (simp add: emit_rex_def rex_byte_def Let_def)
  then show ?thesis using f assms by (auto simp: get_rex_def rex_of_def)
qed

section \<open>Every instruction is decoded as it was encoded\<close>

text \<open>The bytes the encoders give an instruction.\<close>

fun asm :: "instr \<Rightarrow> bytes" where
  "asm (MovRR d s) = emit_rr 0x89 s d"
| "asm (Load d b disp) = emit_load d b disp"
| "asm (Store b disp s) = emit_store b disp s"
| "asm (StoreImm b disp v) = emit_store_imm32 b disp v"
| "asm (AddMem b disp s) = emit_add_mem_reg b disp s"
| "asm (LeaIdx8 d b i) = emit_lea_idx8 d b i"
| "asm (MovImm r v) = emit_mov_const r v"
| "asm (LoadRaxAbs a) = emit_load_rax_abs a"
| "asm (StoreRaxAbs a) = emit_store_rax_abs a"
| "asm (AddImm r v) = emit_alu_imm 0 r v"
| "asm (SubImm r v) = emit_alu_imm 5 r v"
| "asm (CmpImm r v) = emit_alu_imm 7 r v"
| "asm (AddRR d s) = emit_add_rr d s"
| "asm (SubRR d s) = emit_sub_rr d s"
| "asm (CmpRR d s) = emit_cmp_rr d s"
| "asm (TestRR a b) = emit_test_rr a b"
| "asm (XorRR32 d s) = emit_xor32_rr d s"
| "asm (ImulImm d s v) = emit_imul_imm d v"
| "asm (ImulRR d s) = emit_imul_rr d s"
| "asm (ShlImm r n) = emit_shl_imm r n"
| "asm (SetCC cc r) = emit_rex False 0 0 r (4 \<le> r) @ [0x0F, 0x90 OR cc] @ emit_modrm_rr 0 r"
| "asm (Movzx8 d s) = emit_rex True d 0 s False @ [0x0F, 0xB6] @ emit_modrm_rr d s"
| "asm (Push r) = push_bytes r"
| "asm (Pop r) = pop_bytes r"
| "asm (CallReg r) = emit_call_reg r"
| "asm Ret = emit_ret"
| "asm Leave = emit_leave"
| "asm (Jmp d) = jmp_rel32 d"
| "asm (Jcc cc d) = jcc_rel32 cc d"
| "asm Nop = nop4"

text \<open>The instructions the encoders can be asked for: real registers, an index other than \<^verbatim>\<open>RSP\<close>,
  a condition code of four bits, and one register for the immediate multiplication.\<close>

fun encodable :: "instr \<Rightarrow> bool" where
  "encodable (MovRR d s) = (is_reg d \<and> is_reg s)"
| "encodable (Load d b disp) = (is_reg d \<and> is_reg b)"
| "encodable (Store b disp s) = (is_reg b \<and> is_reg s)"
| "encodable (StoreImm b disp v) = is_reg b"
| "encodable (AddMem b disp s) = (is_reg b \<and> is_reg s)"
| "encodable (LeaIdx8 d b i) = (is_reg d \<and> is_reg b \<and> is_reg i \<and> i \<noteq> RSP)"
| "encodable (MovImm r v) = is_reg r"
| "encodable (AddImm r v) = is_reg r"
| "encodable (SubImm r v) = is_reg r"
| "encodable (CmpImm r v) = is_reg r"
| "encodable (AddRR d s) = (is_reg d \<and> is_reg s)"
| "encodable (SubRR d s) = (is_reg d \<and> is_reg s)"
| "encodable (CmpRR d s) = (is_reg d \<and> is_reg s)"
| "encodable (TestRR d s) = (is_reg d \<and> is_reg s)"
| "encodable (XorRR32 d s) = (is_reg d \<and> is_reg s)"
| "encodable (ImulImm d s v) = (is_reg d \<and> d = s)"
| "encodable (ImulRR d s) = (is_reg d \<and> is_reg s)"
| "encodable (ShlImm r n) = is_reg r"
| "encodable (SetCC cc r) = (cc < 16 \<and> is_reg r)"
| "encodable (Movzx8 d s) = (is_reg d \<and> is_reg s)"
| "encodable (Push r) = is_reg r"
| "encodable (Pop r) = is_reg r"
| "encodable (CallReg r) = is_reg r"
| "encodable (Jcc cc d) = (cc < 16)"
| "encodable _ = True"

lemma xB8_fields: "(0xB8 + ((r :: u8) AND 7)) AND 0xF8 = 0xB8 \<and> (0xB8 + (r AND 7)) AND 7 = r AND 7 \<and>
    (0xB8 + (r AND 7)) AND 0xF0 \<noteq> 0x40 \<and> 0xB8 + (r AND 7) \<notin> set [0x0F, 0x89, 0x8B, 0x01, 0x29, 0x39, 0x85, 0x8D, 0xC7, 0x31]"
  by (rule all_bytes [where b = r]) code_simp

lemma mov_const_signed:
  assumes "- (2 ^ 31) \<le> sint (v :: u64)" and "sint v < 0"
  shows "scast (ucast v :: u32) = v"
proof -
  have "sint v = signed_take_bit 63 (uint v)" by (simp add: signed_take_bit_eq sint_uint)
  then have "sint (ucast v :: u32) = signed_take_bit 31 (sint v)" by (simp add: signed_ucast_eq)
  also have "\<dots> = sint v" using assms by (simp add: signed_take_bit_int_eq_self)
  finally show ?thesis by (simp add: scast_eq)
qed

lemma mov_const_small: "v \<le> UINT32_MAX \<Longrightarrow> ucast (ucast v :: u32) = (v :: u64)"
proof -
  assume "v \<le> UINT32_MAX"
  then have "unat v < 2 ^ 32" by (simp add: UINT32_MAX_def word_le_nat_alt)
  then have "take_bit 32 (unat v) = unat v" by (simp add: take_bit_nat_eq_self)
  then have "unat (ucast (ucast v :: u32) :: u64) = unat v" by (simp add: unsigned_ucast_eq unsigned_take_bit_eq)
  then show ?thesis by (rule unsigned_word_eqI)
qed

lemma decode_mov_imm64: "is_reg r \<Longrightarrow> decode (emit_mov_imm64 r v @ rest) = Some (MovImm r v, rest)"
  using xB8_fields [of r]
  by (simp add: decode_def emit_mov_imm64_def with_imm_def reg_split)

lemma decode_mov_const: "is_reg r \<Longrightarrow> decode (emit_mov_const r v @ rest) = Some (MovImm r v, rest)"
  using xB8_fields [of r] decode_mov_imm64 [of r v rest]
  by (auto simp: decode_def emit_mov_const_def with_imm_def reg_split mov_const_small mov_const_signed)

lemma push_pop_bytes:
  assumes "is_reg r"
  shows "push_bytes r = emit_rex False 0 0 r False @ [0x50 + (r AND 7)]"
    and "pop_bytes r = emit_rex False 0 0 r False @ [0x58 + (r AND 7)]"
  by (rule all_regs [OF assms], code_simp)+

lemma x50_fields: "(0x50 + ((r :: u8) AND 7)) AND 0xF8 = 0x50 \<and> (0x50 + (r AND 7)) AND 7 = r AND 7 \<and>
    (0x50 + (r AND 7)) AND 0xF0 \<noteq> 0x40 \<and> 0x50 + (r AND 7) \<notin> set [0x0F, 0x31]"
  by (rule all_bytes [where b = r]) code_simp

lemma x58_fields: "(0x58 + ((r :: u8) AND 7)) AND 0xF8 = 0x58 \<and> (0x58 + (r AND 7)) AND 7 = r AND 7 \<and>
    (0x58 + (r AND 7)) AND 0xF0 \<noteq> 0x40 \<and> 0x58 + (r AND 7) \<notin> set [0x0F, 0x31]"
  by (rule all_bytes [where b = r]) code_simp

lemma cc_fields:
  assumes "cc < (16 :: u8)"
  shows "(0x90 OR cc) AND 0xF0 = 0x90 \<and> (0x90 OR cc) AND 0xF = cc \<and> 0x90 OR cc \<notin> set [0xAF, 0xB6]"
    and "(0x80 OR cc) AND 0xF0 = 0x80 \<and> (0x80 OR cc) AND 0xF = cc \<and> 0x80 OR cc \<notin> set [0xAF, 0xB6]"
  using assms by (rule all_regs [unfolded is_reg_def], code_simp)+

lemma get_rex_rax: "get_rex (0x48 # rest) = (rex_of True 0 0 0 False, rest)"
proof -
  have "(0x48 :: u8) AND 0xF0 = 0x40 \<and> bit (0x48 :: u8) 3 \<and> hi 0x48 2 = 0 \<and> hi 0x48 1 = 0 \<and> hi 0x48 0 = 0"
    by code_simp
  then show ?thesis by (simp add: get_rex_def rex_of_def)
qed

lemma low_reg: "4 \<le> r \<or> r < (4 :: reg)"
  by (rule linorder_class.le_less_linear)

lemma decode_lea:
  assumes "is_reg d" "is_reg b" "is_reg i" "i \<noteq> RSP"
  shows "decode (emit_lea_idx8 d b i @ rest) = Some (LeaIdx8 d b i, rest)"
proof -
  let ?mode = "(if b AND 7 = 5 then 1 else 0) :: u8"
  have f1: "drop_bit 6 (modrm ?mode d 4) = ?mode" "drop_bit 3 (modrm ?mode d 4) AND 7 = d AND 7" "modrm ?mode d 4 AND 7 = 4"
    using modrm_fields [of ?mode d 4] by auto
  have f2: "drop_bit 6 (modrm 3 i b) = 3" "drop_bit 3 (modrm 3 i b) AND 7 = i AND 7" "modrm 3 i b AND 7 = b AND 7"
    using modrm_fields [of 3 i b] by auto
  have idx: "(i AND 8) OR (i AND 7) = i" by (rule reg_split [OF assms(3)])
  have bytes: "emit_lea_idx8 d b i @ rest =
      emit_rex True d i b False @ 0x8D # modrm ?mode d 4 # modrm 3 i b # (if ?mode \<noteq> 0 then [0] else []) @ rest"
    by (simp add: emit_lea_idx8_def modrm_def Let_def)
  have "get_operand (rex_of True d i b False) (modrm ?mode d 4 # modrm 3 i b # (if ?mode \<noteq> 0 then [0] else []) @ rest) =
      Some (d, OIdx8 b i 0, rest)"
    using f1 f2 idx assms(4) reg_split [OF assms(1)] reg_split [OF assms(2)]
    by (auto simp: get_operand_def Let_def get_disp_def imm8s_def)
  then show ?thesis by (simp add: decode_def bytes)
qed

lemma decode_asm:
  assumes "encodable i"
  shows "decode (asm i @ rest) = Some (i, rest)"
proof (cases i)
  case (Load d b disp)
  then show ?thesis
    using assms by (simp add: decode_def emit_load_def with_rm_def reg_split)
next
  case (Store b disp s)
  then show ?thesis using assms by (simp add: decode_def emit_store_def with_rm_def reg_split)
next
  case (StoreImm b disp v)
  then show ?thesis using assms by (simp add: decode_def emit_store_imm32_def with_imm_def reg_split)
next
  case (AddMem b disp s)
  then show ?thesis using assms by (simp add: decode_def emit_add_mem_reg_def with_rm_def reg_split)
next
  case (LeaIdx8 d b i')
  then show ?thesis using assms by (simp add: decode_lea)
next
  case (MovImm r v)
  then show ?thesis using assms by (simp add: decode_mov_const)
next
  case (AddImm r v)
  then show ?thesis
    using assms by (auto simp: decode_def emit_alu_imm_def with_imm_def reg_split imm8s_def imm8s_small group1_def)
next
  case (SubImm r v)
  then show ?thesis
    using assms by (auto simp: decode_def emit_alu_imm_def with_imm_def reg_split imm8s_def imm8s_small group1_def)
next
  case (CmpImm r v)
  then show ?thesis
    using assms by (auto simp: decode_def emit_alu_imm_def with_imm_def reg_split imm8s_def imm8s_small group1_def)
next
  case (SetCC cc r)
  then show ?thesis
    using assms cc_fields(1) [of cc] low_reg [of r] by (simp add: decode_def decode_0F_def with_reg_def reg_split)
next
  case (Jcc cc d)
  then show ?thesis
    using assms cc_fields(2) [of cc] by (simp add: decode_def decode_0F_def get_rex_def jcc_rel32_def with_imm_def)
next
  case (Push r)
  then show ?thesis using assms x50_fields [of r] by (simp add: decode_def push_pop_bytes reg_split)
next
  case (Pop r)
  then show ?thesis using assms x58_fields [of r] by (simp add: decode_def push_pop_bytes reg_split)
next
  case Nop
  then show ?thesis
    by (simp add: decode_def decode_0F_def get_rex_def nop4_def with_rm_def get_operand_def get_disp_def imm8s_def Let_def)
next
  case (LoadRaxAbs a)
  then show ?thesis by (simp add: decode_def get_rex_rax emit_load_rax_abs_def with_imm_def)
next
  case (StoreRaxAbs a)
  then show ?thesis by (simp add: decode_def get_rex_rax emit_store_rax_abs_def with_imm_def)
next
  case Ret
  then show ?thesis by (simp add: decode_def get_rex_def emit_ret_def)
next
  case Leave
  then show ?thesis by (simp add: decode_def get_rex_def emit_leave_def)
next
  case (Jmp d)
  then show ?thesis by (simp add: decode_def get_rex_def jmp_rel32_def with_imm_def)
qed (use assms in \<open>simp_all add: decode_def decode_0F_def emit_rr_def
      emit_add_rr_def emit_sub_rr_def emit_cmp_rr_def emit_test_rr_def emit_xor32_rr_def emit_imul_imm_def
      emit_imul_rr_def emit_shl_imm_def emit_call_reg_def
      with_rm_def with_reg_def with_imm_def reg_split\<close>)

text \<open>C7: Encoding and decoding are inverse. Whatever instruction the code generator asks for, with any
  registers, displacement and immediate, the bytes it appends begin with that instruction as the
  instruction formats define it, and end where the instruction ends.\<close>

theorem decode_encode:
  assumes "encodable i"
  shows "decode (asm i @ rest) = Some (i, rest)"
  using assms by (rule decode_asm)

theorem decode_encode_witness:
  "decode (asm (Load R12 RBP (- 16)) @ asm Ret) = Some (Load R12 RBP (- 16), asm Ret)"
  using decode_encode [of "Load R12 RBP (- 16)" "asm Ret"] by (simp add: is_reg_def)

end
