(* ===== verification/Cup_Node.thy ===== *)
theory Cup_Node
  imports Cup_Prelude
begin

text \<open>
  Tokens and the node stream: the enumeration of \<^verbatim>\<open>include/token.h\<close>, the payload that a token
  carries, and the 8-byte cells an abstract syntax tree is a flat sequence of
  (\<^verbatim>\<open>union Node\<close>, \<^verbatim>\<open>Node2\<close>).
\<close>

datatype (plugins only: code size) ctt =
    T_EOF | N_END | T_NL | N_NEWLINE | T_CATNL | T_RETURN | T_CONTINUE | T_BREAK | T_IF | T_ELSE
  | T_FOR | T_WHILE | T_IDENTIFIER | T_NUMBER | T_DOUBLE | T_STRING | T_MSTRING | N_MSTRING
  | N_RANGE | T_ADD | T_SUB | T_MUL | T_DIV | T_MOD | T_AND | T_OR | T_XOR | T_LESS | T_GREAT
  | T_NOT | T_EQ | T_CALL | T_CRB | T_OCB | T_CCB | T_OSB | T_CSB | N_UNARY | N_BLOCK | N_OBJECT
  | N_SUBSCRIPT | N_ARRAY | T_DOT | N_MEMBER | T_COMMA | T_COLON | T_SCOLON | T_IMPORT
  | T_EXTERNAL | T_ASK | T_ADDRESS | N_ADDRESS | T_AT | T_THIS | T_VARG | N_VARG | T_ADDEQ
  | T_SUBEQ | T_MULEQ | T_DIVEQ | T_MODEQ | T_ANDEQ | T_OREQ | T_XOREQ | T_LESSEQ | T_GREATEQ
  | T_NOTEQ | T_EQEQ

abbreviation N_VARIABLE :: ctt where "N_VARIABLE \<equiv> T_IDENTIFIER"
abbreviation N_FUNCTION :: ctt where "N_FUNCTION \<equiv> T_AT"

text \<open>
  The second half of a \<^verbatim>\<open>Node2\<close>: an integer (a number, a count, an offset into the data
  section), the characters of a name, or a \<^verbatim>\<open>double\<close>. A double is kept as the integers the code
  computes it from: the digits before the point and, when there are any, the number after it.
\<close>

datatype payload = PVal u64 | PStr string | PDbl u64 "u64 option"

text \<open>
  One cell of a node stream: a located token, or the payload of the token before it. The C union
  lets either be read as the other; the model keeps them apart, and reading one as the other is
  \<^const>\<open>Undef\<close>.
\<close>

datatype cell = CTok ctt u16 u32 | CPay payload

fun cell_token :: "cell \<Rightarrow> ctt res" where
  "cell_token (CTok t c l) = Inr t"
| "cell_token (CPay p) = Inl Undef"

fun cell_value :: "cell \<Rightarrow> u64 res" where
  "cell_value (CPay (PVal v)) = Inr v"
| "cell_value _ = Inl Undef"

fun cell_name :: "cell \<Rightarrow> string res" where
  "cell_name (CPay (PStr s)) = Inr s"
| "cell_name _ = Inl Undef"

lemma cell_token_Inr [res_simps]: "cell_token c = Inr t \<longleftrightarrow> (\<exists>x y. c = CTok t x y)"
  by (cases c) auto

lemma cell_value_Inr [res_simps]: "cell_value c = Inr v \<longleftrightarrow> c = CPay (PVal v)"
  by (cases c rule: cell_value.cases) auto

lemma cell_name_Inr [res_simps]: "cell_name c = Inr s \<longleftrightarrow> c = CPay (PStr s)"
  by (cases c rule: cell_name.cases) auto

end
