(* ===== verification/Cup_Lexer.thy ===== *)
theory Cup_Lexer
  imports Cup_Node
begin

text \<open>
  The tokenizer of \<^verbatim>\<open>src/lexer.c\<close>: character classes, the string literal store, keywords,
  source locations, number literals and \<^verbatim>\<open>getToken\<close>.

  A pointer into the NUL-terminated source is the list of the characters from it on; the end of
  the list is the terminator, which \<^verbatim>\<open>*p\<close> reads as the character 0.
\<close>

section \<open>The lexer's part of the compiler state\<close>

record lexst =
  input_stream :: string
  priv_stream :: "string option"
  tok :: ctt
  loc_col :: u16
  loc_line :: u32
  tok_val :: payload
  data_sec :: string

text \<open>\<^verbatim>\<open>*p\<close>.\<close>

definition cur :: "string \<Rightarrow> char" where
  "cur s = (case s of [] \<Rightarrow> CHR 0x00 | c # _ \<Rightarrow> c)"

definition ord :: "char \<Rightarrow> u64" where
  "ord c = of_char c"

section \<open>Character classification\<close>

definition isID :: "char \<Rightarrow> bool" where
  "isID ch =
     (let c = (of_char ch :: nat)
      in c > 0x2F \<and> (c < 0x3A \<or> c > 0x40) \<and> (c < 0x5B \<or> c > 0x5E) \<and> (c < 0x7B \<or> c > 0x7F))"

text \<open>The index of a character in a string; \<^const>\<open>None\<close> is the result \<open>-1\<close>.\<close>

fun strindex :: "string \<Rightarrow> char \<Rightarrow> nat option" where
  "strindex [] c = None"
| "strindex (x # xs) c = (if x = c then Some 0 else map_option Suc (strindex xs c))"

section \<open>The data section\<close>

text \<open>\<^verbatim>\<open>getData\<close>: the bytes from an offset on, \<^const>\<open>None\<close> for the null pointer.\<close>

definition getData :: "string \<Rightarrow> u64 \<Rightarrow> string option" where
  "getData data i = (if unat i \<ge> length data then None else Some (drop (unat i) data))"

text \<open>The loop of \<^verbatim>\<open>getdata\<close>, from the last position where the literal fits down to the first.\<close>

fun search_down :: "string \<Rightarrow> string \<Rightarrow> nat \<Rightarrow> nat option" where
  "search_down data str i =
     (if take (length str) (drop i data) = str then Some i
      else case i of 0 \<Rightarrow> None | Suc j \<Rightarrow> search_down data str j)"

declare search_down.simps [simp del]

text \<open>
  An offset into the data section. With no data yet the section pointer is null, and so is the
  pointer the search returns.
\<close>

definition getdata :: "string \<Rightarrow> string \<Rightarrow> nat option" where
  "getdata data str =
     (if length data < length str then None
      else if data = [] then None
      else search_down data str (length data - length str))"

section \<open>Keywords and identifiers\<close>

text \<open>\<^verbatim>\<open>idToken\<close>; the result is whether a name (and not a keyword) was read.\<close>

definition idToken :: "'a lexst_scheme \<Rightarrow> string \<Rightarrow> bool \<times> 'a lexst_scheme" where
  "idToken st str =
     (if str = ''if'' then (False, st\<lparr>tok := T_IF\<rparr>)
      else if str = ''for'' then (False, st\<lparr>tok := T_FOR\<rparr>)
      else if str = ''else'' then (False, st\<lparr>tok := T_ELSE\<rparr>)
      else if str = ''break'' then (False, st\<lparr>tok := T_BREAK\<rparr>)
      else if str = ''while'' then (False, st\<lparr>tok := T_WHILE\<rparr>)
      else if str = ''return'' then (False, st\<lparr>tok := T_RETURN\<rparr>)
      else if str = ''continue'' then (False, st\<lparr>tok := T_CONTINUE\<rparr>)
      else (True, st\<lparr>tok := T_IDENTIFIER, tok_val := PStr str\<rparr>))"

section \<open>Locations\<close>

abbreviation CR :: char where "CR \<equiv> CHR 0x0D"
abbreviation LF :: char where "LF \<equiv> CHR 0x0A"

definition newlineChar :: "string \<Rightarrow> nat" where
  "newlineChar s =
     (let s1 = (if cur s = CR then drop 1 s else s);
          s2 = (if cur s1 = LF then drop 1 s1 else s1)
      in length s - length s2)"

definition nextChar :: "string \<Rightarrow> u16 \<times> u32 \<Rightarrow> string \<times> u16 \<times> u32" where
  "nextChar s loc =
     (let i = newlineChar s in
      if i = 0 then (drop 1 s, fst loc + 1, snd loc)
      else (drop i s, 1, snd loc + 1))"

text \<open>
  The loop that moves \<^verbatim>\<open>priv_stream\<close> up to \<^verbatim>\<open>input_stream\<close>: pointers into one string are equal
  when the rests are equally long. A step that starts at the terminator leaves the string.
\<close>

function sync_loc :: "string \<Rightarrow> nat \<Rightarrow> u16 \<times> u32 \<Rightarrow> (u16 \<times> u32) res" where
  "sync_loc p n loc =
     (if length p = n then Inr loc
      else if p = [] then Inl Undef
      else let (p', loc') = nextChar p loc in sync_loc p' n loc')"
  by pat_completeness auto
termination
  by (relation "measure (\<lambda>(p, n, loc). length p)")
    (auto simp: nextChar_def Let_def split: if_splits)

declare sync_loc.simps [simp del]

section \<open>Numbers\<close>

definition char_between :: "char \<Rightarrow> char \<Rightarrow> char \<Rightarrow> bool" where
  "char_between lo c hi \<longleftrightarrow> (of_char lo :: nat) \<le> of_char c \<and> (of_char c :: nat) \<le> of_char hi"

fun binaryChar :: "u64 \<Rightarrow> string \<Rightarrow> u64 \<times> string" where
  "binaryChar v [] = (v, [])"
| "binaryChar v (c # cs) =
     (if c = CHR ''0'' \<or> c = CHR ''1'' \<or> c = CHR ''_'' then
        binaryChar (if c \<noteq> CHR ''_'' then push_bit 1 v OR (ord c AND 1) else v) cs
      else (v, c # cs))"

fun octalChar :: "u64 \<Rightarrow> string \<Rightarrow> u64 \<times> string" where
  "octalChar v [] = (v, [])"
| "octalChar v (c # cs) =
     (if char_between CHR ''0'' c CHR ''7'' \<or> c = CHR ''_'' then
        octalChar (if c \<noteq> CHR ''_'' then push_bit 3 v OR (ord c AND 7) else v) cs
      else (v, c # cs))"

fun hexChar :: "u64 \<Rightarrow> string \<Rightarrow> u64 \<times> string" where
  "hexChar v [] = (v, [])"
| "hexChar v (c # cs) =
     (if c = CHR ''_'' then hexChar v cs
      else if char_between CHR ''a'' c CHR ''f'' then hexChar (push_bit 4 v OR (ord c - 87)) cs
      else if char_between CHR ''A'' c CHR ''F'' then hexChar (push_bit 4 v OR (ord c - 55)) cs
      else if char_between CHR ''0'' c CHR ''9'' then hexChar (push_bit 4 v OR (ord c - 48)) cs
      else (v, c # cs))"

text \<open>\<^verbatim>\<open>zeroChar\<close> on the text after the leading zero: the value and the rest, if a prefix matched.\<close>

definition zeroChar :: "string \<Rightarrow> (u64 \<times> string) option" where
  "zeroChar p =
     (let f = (of_char (cur p) :: u8) OR 32 in
      if f = of_char CHR ''b'' then Some (binaryChar 0 (drop 1 p))
      else if f = of_char CHR ''o'' then Some (octalChar 0 (drop 1 p))
      else if f = of_char CHR ''x'' then Some (hexChar 0 (drop 1 p))
      else None)"

fun numberChar :: "u64 \<Rightarrow> string \<Rightarrow> u64 \<times> string" where
  "numberChar v [] = (v, [])"
| "numberChar v (c # cs) =
     (if c = CHR ''_'' then numberChar v cs
      else if char_between CHR ''0'' c CHR ''9'' then numberChar (v * 10 + (ord c - 48)) cs
      else (v, c # cs))"

section \<open>Tokens\<close>

definition types1 :: "ctt list" where
  "types1 = [T_ADD, T_SUB, T_MUL, T_DIV, T_MOD, T_AND, T_OR, T_LESS, T_GREAT, T_XOR, T_NOT, T_EQ]"

definition doubles :: "ctt list" where
  "doubles = [T_ADDEQ, T_SUBEQ, T_MULEQ, T_DIVEQ, T_MODEQ, T_ANDEQ, T_OREQ, T_LESSEQ, T_GREATEQ,
     T_XOREQ, T_NOTEQ, T_EQEQ]"

definition types2 :: "ctt list" where
  "types2 = [T_CALL, T_CRB, T_OCB, T_CCB, T_OSB, T_CSB, T_DOT, T_COMMA, T_COLON, T_SCOLON,
     T_IMPORT, T_ASK, T_AT, T_THIS, T_CATNL, T_EXTERNAL]"

definition ops_doubled :: string where "ops_doubled = ''+-*/%&|<>^!=''"

definition ops_single :: string where
  "ops_single = ''(){}[].,:;#?@$'' @ [CHR 0x5C] @ ''~''"

definition is_blank :: "bool \<Rightarrow> char \<Rightarrow> bool" where
  "is_blank space c =
     (c = CHR '' '' \<or> c = CHR 0x09 \<or> (\<not> space \<and> (c = LF \<or> c = CR)))"

text \<open>A string literal; the text starts after the opening quote.\<close>

definition lex_string :: "string \<Rightarrow> 'a lexst_scheme \<Rightarrow> 'a lexst_scheme" where
  "lex_string s st =
     (let body = takeWhile (\<lambda>c. c \<noteq> CHR 0x00 \<and> c \<noteq> CHR 0x22) s;
          rest = drop (length body) s;
          rest = (if cur rest = CHR 0x22 then drop 1 rest else rest);
          st = st\<lparr>tok := T_STRING, loc_col := loc_col st + 1, input_stream := rest\<rparr>
      in case getdata (data_sec st) body of
           Some i \<Rightarrow> st\<lparr>tok_val := PVal (of_nat i)\<rparr>
         | None \<Rightarrow> st\<lparr>tok_val := PVal (of_nat (length (data_sec st))),
                      data_sec := data_sec st @ body @ [CHR 0x00]\<rparr>)"

text \<open>What \<^verbatim>\<open>getToken\<close> does once blanks are skipped, on the text \<open>s\<close> it then looks at.\<close>

definition lex_token :: "string \<Rightarrow> 'a lexst_scheme \<Rightarrow> 'a lexst_scheme" where
  "lex_token s st =
     (let c = cur s in
      if c = CHR 0x00 then st\<lparr>tok := T_EOF\<rparr>
      else if c = CHR 0x22 then lex_string (drop 1 s) st
      else if c = CHR ''0'' \<and> zeroChar (drop 1 s) \<noteq> None then
        (case zeroChar (drop 1 s) of
           Some (v, rest) \<Rightarrow> st\<lparr>tok := T_NUMBER, tok_val := PVal v, input_stream := rest\<rparr>
         | None \<Rightarrow> st)
      else if char_between CHR ''0'' c CHR ''9'' then
        (let (v, rest) = numberChar 0 s
         in st\<lparr>tok := T_NUMBER, tok_val := PVal v, input_stream := rest\<rparr>)
      else if c = CHR ''.'' then
        (if cur (drop 1 s) = CHR ''.'' \<and> cur (drop 2 s) = CHR ''.'' then
           st\<lparr>tok := T_VARG, input_stream := drop 3 s\<rparr>
         else st\<lparr>tok := T_DOT, input_stream := drop 1 s\<rparr>)
      else if newlineChar s \<noteq> 0 then
        st\<lparr>tok := T_NL, input_stream := drop (newlineChar s) s\<rparr>
      else
        (case strindex ops_doubled c of
           Some i \<Rightarrow>
             (if cur (drop 1 s) \<noteq> CHR ''='' then st\<lparr>tok := types1 ! i, input_stream := drop 1 s\<rparr>
              else st\<lparr>tok := doubles ! i, input_stream := drop 2 s\<rparr>)
         | None \<Rightarrow>
             (case strindex ops_single c of
                Some i \<Rightarrow> st\<lparr>tok := types2 ! i, input_stream := drop 1 s\<rparr>
              | None \<Rightarrow>
                  (let name = take 1 s @ takeWhile isID (drop 1 s);
                       st = st\<lparr>input_stream := drop (length name) s\<rparr>
                   in snd (idToken st name)))))"

definition getToken :: "'a lexst_scheme \<Rightarrow> bool \<Rightarrow> 'a lexst_scheme res" where
  "getToken st space =
     (let st = st\<lparr>tok_val := PVal 0\<rparr>;
          priv = (case priv_stream st of None \<Rightarrow> input_stream st | Some p \<Rightarrow> p)
      in rbind (sync_loc priv (length (input_stream st)) (loc_col st, loc_line st)) (\<lambda>(col, line).
           let s = dropWhile (is_blank space) (input_stream st);
               skipped = length (input_stream st) - length s;
               st = st\<lparr>loc_col := col + of_nat skipped, loc_line := line,
                       input_stream := s, priv_stream := Some s\<rparr>
           in Inr (lex_token s st)))"

section \<open>Scanning\<close>

lemma cur_simps [simp]: "cur [] = CHR 0x00" "cur (c # cs) = c"
  by (simp_all add: cur_def)

lemma cur_append_NUL [simp]: "cur (s @ CHR 0x00 # t) = cur s"
  by (cases s) auto

lemma strindex_Some: "strindex xs c = Some i \<Longrightarrow> i < length xs \<and> xs ! i = c"
  by (induction xs c arbitrary: i rule: strindex.induct) (auto split: if_splits)

lemma strindex_None: "strindex xs c = None \<longleftrightarrow> c \<notin> set xs"
  by (induction xs c rule: strindex.induct) auto

text \<open>\<open>consumes s r\<close>: the scanner moved from \<open>s\<close> to \<open>r\<close> over characters that are not a carriage
  return.\<close>

definition consumes :: "string \<Rightarrow> string \<Rightarrow> bool" where
  "consumes s r \<longleftrightarrow> (\<exists>pre. s = pre @ r \<and> CR \<notin> set pre)"

lemma consumes_refl [simp, intro]: "consumes s s"
  by (simp add: consumes_def)

lemma consumes_Cons: "consumes s r \<Longrightarrow> c \<noteq> CR \<Longrightarrow> consumes (c # s) r"
  unfolding consumes_def by (metis append_Cons set_ConsD)

lemma consumes_trans: "consumes s r \<Longrightarrow> consumes r q \<Longrightarrow> consumes s q"
  unfolding consumes_def by fastforce

lemma char_between_not_CR [dest]:
  "char_between CHR ''0'' c CHR ''9'' \<Longrightarrow> c \<noteq> CR" "char_between CHR ''0'' c CHR ''7'' \<Longrightarrow> c \<noteq> CR"
  "char_between CHR ''a'' c CHR ''f'' \<Longrightarrow> c \<noteq> CR" "char_between CHR ''A'' c CHR ''F'' \<Longrightarrow> c \<noteq> CR"
  by (auto simp: char_between_def)

lemma char_between_consts [simp]:
  "char_between CHR ''0'' CHR ''0'' CHR ''9''" "\<not> char_between CHR ''0'' CR CHR ''9''"
  "\<not> char_between CHR ''0'' LF CHR ''9''" "\<not> char_between CHR ''0'' CHR ''.'' CHR ''9''"
  "\<not> char_between CHR ''0'' CHR 0x22 CHR ''9''"
  "\<not> char_between CHR ''0'' CHR 0x00 CHR ''9''" "\<not> char_between CHR ''0'' CHR 0x00 CHR ''7''"
  "\<not> char_between CHR ''a'' CHR 0x00 CHR ''f''" "\<not> char_between CHR ''A'' CHR 0x00 CHR ''F''"
  by (simp_all add: char_between_def)

lemma isID_not_CR: "isID c \<Longrightarrow> c \<noteq> CR"
  by (auto simp: isID_def Let_def)

lemma binaryChar_consumes: "consumes s (snd (binaryChar v s))"
  by (induction v s rule: binaryChar.induct) (auto intro!: consumes_Cons)

lemma octalChar_consumes: "consumes s (snd (octalChar v s))"
  by (induction v s rule: octalChar.induct) (auto intro!: consumes_Cons)

lemma hexChar_consumes: "consumes s (snd (hexChar v s))"
  by (induction v s rule: hexChar.induct) (auto intro!: consumes_Cons)

lemma numberChar_consumes: "consumes s (snd (numberChar v s))"
  by (induction v s rule: numberChar.induct) (auto intro!: consumes_Cons)

lemma binaryChar_NUL:
  "binaryChar v (s @ CHR 0x00 # t) = (case binaryChar v s of (w, r) \<Rightarrow> (w, r @ CHR 0x00 # t))"
  by (induction v s rule: binaryChar.induct) auto

lemma octalChar_NUL:
  "octalChar v (s @ CHR 0x00 # t) = (case octalChar v s of (w, r) \<Rightarrow> (w, r @ CHR 0x00 # t))"
  by (induction v s rule: octalChar.induct) auto

lemma hexChar_NUL:
  "hexChar v (s @ CHR 0x00 # t) = (case hexChar v s of (w, r) \<Rightarrow> (w, r @ CHR 0x00 # t))"
  by (induction v s rule: hexChar.induct) auto

lemma numberChar_NUL:
  "numberChar v (s @ CHR 0x00 # t) = (case numberChar v s of (w, r) \<Rightarrow> (w, r @ CHR 0x00 # t))"
  by (induction v s rule: numberChar.induct) auto

lemma drop1_append_NUL: "s \<noteq> [] \<Longrightarrow> drop 1 (s @ z) = drop 1 s @ z"
  by (cases s) auto

lemma zeroChar_consumes: "zeroChar s = Some (v, r) \<Longrightarrow> consumes s r"
proof (cases s)
  case Nil
  then show "zeroChar s = Some (v, r) \<Longrightarrow> consumes s r" by (simp add: zeroChar_def)
next
  case (Cons c cs)
  assume z: "zeroChar s = Some (v, r)"
  with Cons have "c \<noteq> CR" by (auto simp: zeroChar_def Let_def split: if_splits)
  moreover from z Cons have "consumes cs r"
    using binaryChar_consumes [of cs 0] octalChar_consumes [of cs 0] hexChar_consumes [of cs 0]
    by (auto simp: zeroChar_def Let_def split: if_splits)
  ultimately show ?thesis using Cons by (simp add: consumes_Cons)
qed

lemma zeroChar_NUL:
  "zeroChar (s @ CHR 0x00 # t) = map_option (\<lambda>(v, r). (v, r @ CHR 0x00 # t)) (zeroChar s)"
proof (cases s)
  case Nil
  then show ?thesis by (simp add: zeroChar_def)
next
  case (Cons c cs)
  then show ?thesis
    by (simp add: zeroChar_def Let_def binaryChar_NUL octalChar_NUL hexChar_NUL case_prod_unfold)
qed

lemma newlineChar_cases:
  obtains "newlineChar s = 0" "cur s \<noteq> CR" "cur s \<noteq> LF"
  | cs where "s = CR # LF # cs" "newlineChar s = 2"
  | cs where "s = CR # cs" "cur cs \<noteq> LF" "newlineChar s = 1"
  | cs where "s = LF # cs" "newlineChar s = 1"
proof (cases s)
  case Nil
  then show thesis using that(1) by (simp add: newlineChar_def)
next
  case (Cons c cs)
  show thesis
  proof (cases "c = CR")
    case True
    with Cons that(2,3) show thesis by (cases cs) (auto simp: newlineChar_def Let_def)
  next
    case False
    with Cons that(1,4) show thesis by (cases "c = LF") (auto simp: newlineChar_def Let_def)
  qed
qed

section \<open>Location tracking\<close>

text \<open>
  The reference: the location after a piece of text, with \<^verbatim>\<open>\r\n\<close>, \<^verbatim>\<open>\r\<close> and \<^verbatim>\<open>\n\<close> each one
  line break. A cut between \<open>pre\<close> and \<open>s\<close> is \<open>ok\<close> when it does not separate \<^verbatim>\<open>\r\<close> from \<^verbatim>\<open>\n\<close>.
\<close>

fun loc_after :: "string \<Rightarrow> u16 \<times> u32 \<Rightarrow> u16 \<times> u32" where
  "loc_after [] loc = loc"
| "loc_after (c # cs) (col, line) =
     (if c = CR then loc_after (if cur cs = LF then tl cs else cs) (1, line + 1)
      else if c = LF then loc_after cs (1, line + 1)
      else loc_after cs (col + 1, line))"

definition ok_cut :: "string \<Rightarrow> string \<Rightarrow> bool" where
  "ok_cut pre s \<longleftrightarrow> \<not> (pre \<noteq> [] \<and> last pre = CR \<and> cur s = LF)"

lemma ok_cut_Nil [simp]: "ok_cut [] s"
  by (simp add: ok_cut_def)

lemma ok_cut_noCR: "CR \<notin> set pre \<Longrightarrow> ok_cut pre s"
  unfolding ok_cut_def by (metis last_in_set)

lemma sync_loc_append:
  assumes "ok_cut pre s"
  shows "sync_loc (pre @ s) (length s) loc = Inr (loc_after pre loc)"
  using assms
proof (induction pre arbitrary: loc rule: length_induct)
  case (1 pre)
  note IH = "1.IH"
  obtain col line where loc: "loc = (col, line)" by (cases loc)
  show ?case
  proof (cases pre)
    case Nil
    then show ?thesis by (simp add: sync_loc.simps)
  next
    case (Cons c cs)
    have cut: "ok_cut cs s" if "cs \<noteq> []" using "1.prems" that by (simp add: Cons ok_cut_def)
    have "pre @ s = c # cs @ s" by (simp add: Cons)
    then show ?thesis
    proof (cases "c # cs @ s" rule: newlineChar_cases)
      case 1
      then have "sync_loc (pre @ s) (length s) loc = sync_loc (cs @ s) (length s) (col + 1, line)"
        by (simp add: Cons loc nextChar_def sync_loc.simps [of "c # cs @ s"])
      also have "\<dots> = Inr (loc_after cs (col + 1, line))"
        using IH cut Cons by (cases "cs = []") (auto simp: sync_loc.simps)
      finally show ?thesis using 1 by (simp add: Cons loc)
    next
      case (2 t)
      have cs: "cs \<noteq> []" using 2 "1.prems" by (auto simp: Cons ok_cut_def)
      then obtain ds where ds: "cs = LF # ds" "t = ds @ s" using 2 by (cases cs) auto
      have "ok_cut ds s" using cut [OF cs] by (auto simp: ds ok_cut_def split: if_splits)
      then have "sync_loc (ds @ s) (length s) (1, line + 1) = Inr (loc_after ds (1, line + 1))"
        using IH by (simp add: Cons ds)
      with 2 ds show ?thesis
        by (simp add: Cons loc nextChar_def sync_loc.simps [of "CR # LF # ds @ s"] newlineChar_def)
    next
      case (3 t)
      have "sync_loc (cs @ s) (length s) (1, line + 1) = Inr (loc_after cs (1, line + 1))"
        using IH cut Cons by (cases "cs = []") (auto simp: sync_loc.simps)
      moreover have "sync_loc (CR # cs @ s) (length s) loc = sync_loc (cs @ s) (length s) (1, line + 1)"
        using 3 by (subst sync_loc.simps) (auto simp: loc nextChar_def)
      moreover have "loc_after (CR # cs) loc = loc_after cs (1, line + 1)"
        using 3 by (cases cs) (auto simp: loc)
      ultimately show ?thesis using 3 by (simp add: Cons)
    next
      case (4 t)
      have "sync_loc (cs @ s) (length s) (1, line + 1) = Inr (loc_after cs (1, line + 1))"
        using IH cut Cons by (cases "cs = []") (auto simp: sync_loc.simps)
      moreover have "sync_loc (LF # cs @ s) (length s) loc = sync_loc (cs @ s) (length s) (1, line + 1)"
        using 4 by (subst sync_loc.simps) (auto simp: loc nextChar_def)
      ultimately show ?thesis using 4 by (simp add: Cons loc)
    qed
  qed
qed

section \<open>One token\<close>

text \<open>
  Where \<^const>\<open>lex_token\<close> leaves the stream: at the end it stays put and reports \<^const>\<open>T_EOF\<close>;
  anywhere else it consumes something and stops at a cut that keeps line breaks whole.
\<close>

definition token_cut :: "string \<Rightarrow> 'a lexst_scheme \<Rightarrow> bool" where
  "token_cut s st \<longleftrightarrow>
     (if cur s = CHR 0x00 then tok st = T_EOF \<and> input_stream st = s
      else tok st \<noteq> T_EOF \<and>
        (\<exists>pre. pre \<noteq> [] \<and> s = pre @ input_stream st \<and> ok_cut pre (input_stream st)))"

lemma token_cutI:
  assumes "cur s \<noteq> CHR 0x00" and "s = c # s'" and "consumes s' (input_stream st)" and "c \<noteq> CR"
    and "tok st \<noteq> T_EOF"
  shows "token_cut s st"
proof -
  from assms obtain pre where "s' = pre @ input_stream st" "CR \<notin> set pre"
    by (auto simp: consumes_def)
  with assms show ?thesis
    by (auto simp: token_cut_def intro!: exI [of _ "c # pre"] ok_cut_noCR)
qed

lemma consumes_takeWhile:
  assumes "\<And>c. P c \<Longrightarrow> c \<noteq> CR"
  shows "consumes s (drop (length (takeWhile P s)) s)"
  using assms by (induction s) (auto intro: consumes_Cons)

lemma ok_cut_takeWhile:
  assumes "\<not> P (CHR 0x22)" and "\<not> P (CHR 0x00)" and "s = takeWhile P s @ rest"
    and "\<And>c. \<not> P c \<Longrightarrow> c = CHR 0x22 \<or> c = CHR 0x00"
  shows "cur rest = CHR 0x22 \<or> cur rest = CHR 0x00"
proof (cases rest)
  case Nil
  then show ?thesis by simp
next
  case (Cons c cs)
  have "rest = dropWhile P s" using assms(3) by (metis same_append_eq takeWhile_dropWhile_id)
  with Cons have "\<not> P c" by (metis dropWhile_eq_Cons_conv)
  with Cons assms(4) show ?thesis by auto
qed

lemma lex_string_token: "tok (lex_string s st) = T_STRING"
  by (simp add: lex_string_def Let_def split: option.splits)

lemma lex_string_stream:
  "\<exists>pre. s = pre @ input_stream (lex_string s st) \<and> ok_cut (CHR 0x22 # pre) (input_stream (lex_string s st))"
proof -
  let ?P = "\<lambda>c. c \<noteq> CHR 0x00 \<and> c \<noteq> CHR 0x22"
  define body where "body = takeWhile ?P s"
  define rest where "rest = drop (length body) s"
  have s: "s = body @ rest"
    unfolding body_def rest_def by (metis takeWhile_dropWhile_id dropWhile_eq_drop)
  have input: "input_stream (lex_string s st) = (if cur rest = CHR 0x22 then drop 1 rest else rest)"
    by (simp add: lex_string_def Let_def body_def rest_def split: option.splits)
  have "cur rest = CHR 0x22 \<or> cur rest = CHR 0x00"
    by (rule ok_cut_takeWhile [of ?P s]) (use s in \<open>auto simp: body_def\<close>)
  then show ?thesis
  proof
    assume q: "cur rest = CHR 0x22"
    then obtain t where "rest = CHR 0x22 # t" by (cases rest) auto
    with s input show ?thesis
      by (intro exI [of _ "body @ [CHR 0x22]"]) (auto simp: ok_cut_def)
  next
    assume "cur rest = CHR 0x00"
    with s input show ?thesis by (intro exI [of _ body]) (auto simp: ok_cut_def)
  qed
qed

lemma types1_not_EOF: "i < 12 \<Longrightarrow> types1 ! i \<noteq> T_EOF"
  by (auto simp: types1_def less_Suc_eq numeral_eq_Suc)

lemma doubles_not_EOF: "i < 12 \<Longrightarrow> doubles ! i \<noteq> T_EOF"
  by (auto simp: doubles_def less_Suc_eq numeral_eq_Suc)

lemma types2_not_EOF: "i < 16 \<Longrightarrow> types2 ! i \<noteq> T_EOF"
  by (auto simp: types2_def less_Suc_eq numeral_eq_Suc)

lemma idToken_stream [simp]: "input_stream (snd (idToken st s)) = input_stream st"
  by (simp add: idToken_def)

lemma idToken_not_EOF: "tok (snd (idToken st s)) \<noteq> T_EOF"
  by (simp add: idToken_def)

lemma length_ops: "length ops_doubled = 12" "length ops_single = 16"
  by (simp_all add: ops_doubled_def ops_single_def)

lemma ops_not_CR: "CR \<notin> set ops_doubled" "CR \<notin> set ops_single"
  by (simp_all add: ops_doubled_def ops_single_def)

lemma strindex_not_CR: "strindex ops_doubled c = Some i \<Longrightarrow> c \<noteq> CR"
  "strindex ops_single c = Some i \<Longrightarrow> c \<noteq> CR"
  using ops_not_CR nth_mem by (metis strindex_Some)+

text \<open>What the first character of a token says.\<close>

lemma char_class:
  obtains (str) "c = CHR 0x22"
    | (zero) v r where "c = CHR ''0''" "zeroChar s' = Some (v, r)"
    | (num) "char_between CHR ''0'' c CHR ''9''" "c = CHR ''0'' \<longrightarrow> zeroChar s' = None"
    | (dot) "c = CHR ''.''"
    | (nl) "c = CR \<or> c = LF"
    | (other) "c \<noteq> CHR 0x22" "\<not> char_between CHR ''0'' c CHR ''9''" "c \<noteq> CHR ''.''" "c \<noteq> CR" "c \<noteq> LF"
proof (cases "c = CHR 0x22 \<or> c = CHR ''.'' \<or> c = CR \<or> c = LF")
  case True
  with that show thesis by metis
next
  case punct: False
  show thesis
  proof (cases "char_between CHR ''0'' c CHR ''9''")
    case True
    with that(2,3) show thesis by (cases "zeroChar s'") auto
  next
    case False
    with punct that(6) show thesis by simp
  qed
qed

lemma lex_token_cut: "token_cut s (lex_token s (st\<lparr>input_stream := s\<rparr>))"
proof (cases "cur s = CHR 0x00")
  case True
  then show ?thesis by (simp add: token_cut_def lex_token_def)
next
  case False
  then obtain c s' where s: "s = c # s'" and c: "c \<noteq> CHR 0x00" by (cases s) auto
  let ?st = "st\<lparr>input_stream := s\<rparr>"
  note tl = s c lex_token_def Let_def
  show ?thesis
  proof (cases rule: char_class [of c _ s'])
    case str
    obtain pre where "s' = pre @ input_stream (lex_string s' ?st)"
        "ok_cut (CHR 0x22 # pre) (input_stream (lex_string s' ?st))"
      using lex_string_stream by blast
    with str show ?thesis
      by (auto simp: token_cut_def tl lex_string_token intro!: exI [of _ "CHR 0x22 # pre"])
  next
    case zero
    with zeroChar_consumes [OF zero(2)] show ?thesis
      by (intro token_cutI [OF False s]) (auto simp: tl)
  next
    case num
    then show ?thesis
      using numberChar_consumes [of s' "if c = CHR ''_'' then 0 else 0 * 10 + (ord c - 48)"]
      by (intro token_cutI [OF False s]) (auto simp: tl case_prod_unfold)
  next
    case dot
    then show ?thesis
    proof (cases "cur s' = CHR ''.'' \<and> cur (drop 1 s') = CHR ''.''")
      case True
      then obtain t where "s' = CHR ''.'' # CHR ''.'' # t"
        by (cases s'; cases "drop 1 s'") auto
      with dot show ?thesis
        by (intro token_cutI [OF False s]) (auto simp: tl consumes_Cons)
    next
      case False'': False
      with dot show ?thesis
        by (intro token_cutI [OF False s]) (auto simp: tl)
    qed
  next
    case nl
    then show ?thesis
    proof (cases s rule: newlineChar_cases)
      case (2 cs)
      then show ?thesis
        by (auto simp: token_cut_def tl ok_cut_def intro!: exI [of _ "[CR, LF]"])
    next
      case (3 cs)
      then show ?thesis
        by (auto simp: token_cut_def tl ok_cut_def intro!: exI [of _ "[CR]"])
    next
      case (4 cs)
      then show ?thesis
        by (auto simp: token_cut_def tl ok_cut_def intro!: exI [of _ "[LF]"])
    qed (use s nl in auto)
  next
    case other
    have nl0: "newlineChar s = 0"
      using other s by (cases s rule: newlineChar_cases) auto
    have "c \<noteq> CHR ''0''" using other by auto
    note tl' = tl nl0 [unfolded s] this
    show ?thesis
    proof (cases "strindex ops_doubled c")
      case (Some i)
      then have i: "i < 12" using strindex_Some length_ops by fastforce
      show ?thesis
      proof (cases "cur s' = CHR ''=''")
        case True
        then have "consumes s' (drop 1 s')" by (cases s') (auto intro: consumes_Cons)
        moreover have "lex_token s ?st = ?st\<lparr>tok := doubles ! i, input_stream := drop 1 s'\<rparr>"
          using other Some True by (simp add: tl')
        ultimately show ?thesis
          using other i by (intro token_cutI [OF False s]) (simp_all add: doubles_not_EOF)
      next
        case False'': False
        with other Some i show ?thesis
          by (intro token_cutI [OF False s]) (auto simp: tl' types1_not_EOF)
      qed
    next
      case None
      show ?thesis
      proof (cases "strindex ops_single c")
        case (Some i)
        then have i: "i < 16" using strindex_Some length_ops by fastforce
        with other None Some show ?thesis
          by (intro token_cutI [OF False s]) (auto simp: tl' types2_not_EOF)
      next
        case None'': None
        have "consumes s' (drop (length (takeWhile isID s')) s')"
          by (rule consumes_takeWhile) (rule isID_not_CR)
        moreover have "lex_token s ?st = snd (idToken
            (?st\<lparr>input_stream := drop (length (takeWhile isID s')) s'\<rparr>) (c # takeWhile isID s'))"
          using other None None'' by (simp add: tl')
        ultimately show ?thesis
          using other by (intro token_cutI [OF False s]) (simp_all add: idToken_not_EOF)
      qed
    qed
  qed
qed

section \<open>The stream and the location\<close>

text \<open>
  The text between \<^verbatim>\<open>priv_stream\<close> (where the location was last taken) and \<^verbatim>\<open>input_stream\<close>, when
  the first lies at or before the second and no \<^verbatim>\<open>\r\n\<close> is cut in two.
\<close>

definition lex_ok :: "'a lexst_scheme \<Rightarrow> bool" where
  "lex_ok st \<longleftrightarrow>
     (case priv_stream st of
        None \<Rightarrow> True
      | Some p \<Rightarrow> (\<exists>pre. p = pre @ input_stream st \<and> ok_cut pre (input_stream st)))"

lemma lex_string_same [simp]:
  "priv_stream (lex_string s st) = priv_stream st" "loc_line (lex_string s st) = loc_line st"
  "loc_col (lex_string s st) = loc_col st + 1"
  by (simp_all add: lex_string_def Let_def split: option.splits)

lemma idToken_same [simp]:
  "priv_stream (snd (idToken st s)) = priv_stream st" "loc_line (snd (idToken st s)) = loc_line st"
  "loc_col (snd (idToken st s)) = loc_col st" "data_sec (snd (idToken st s)) = data_sec st"
  by (simp_all add: idToken_def)

lemma idToken_not_STRING: "tok (snd (idToken st s)) \<noteq> T_STRING"
  by (simp add: idToken_def)

lemma lex_token_priv [simp]: "priv_stream (lex_token s st) = priv_stream st"
  by (simp add: lex_token_def Let_def split: option.splits prod.splits)

lemma lex_token_line [simp]: "loc_line (lex_token s st) = loc_line st"
  by (simp add: lex_token_def Let_def split: option.splits prod.splits)

lemma op_tables_not_STRING:
  "i < 12 \<Longrightarrow> types1 ! i \<noteq> T_STRING" "i < 12 \<Longrightarrow> doubles ! i \<noteq> T_STRING"
  "i < 16 \<Longrightarrow> types2 ! i \<noteq> T_STRING"
  by (auto simp: types1_def doubles_def types2_def less_Suc_eq numeral_eq_Suc)

lemma strindex_bound:
  "strindex ops_doubled c = Some i \<Longrightarrow> i < 12" "strindex ops_single c = Some i \<Longrightarrow> i < 16"
  using strindex_Some length_ops by fastforce+

lemma lex_token_col:
  "loc_col (lex_token s st) = loc_col st + (if tok (lex_token s st) = T_STRING then 1 else 0)"
  by (simp add: lex_token_def Let_def lex_string_token idToken_not_STRING op_tables_not_STRING
      strindex_bound split: option.splits prod.splits)

lemma getToken_eq:
  assumes "lex_ok st"
  obtains pre where "(case priv_stream st of None \<Rightarrow> input_stream st | Some p \<Rightarrow> p) = pre @ input_stream st"
    and "ok_cut pre (input_stream st)"
    and "getToken st space =
      (let s = dropWhile (is_blank space) (input_stream st);
           (col, line) = loc_after pre (loc_col st, loc_line st)
       in Inr (lex_token s (st\<lparr>tok_val := PVal 0,
            loc_col := col + of_nat (length (takeWhile (is_blank space) (input_stream st))),
            loc_line := line, input_stream := s, priv_stream := Some s\<rparr>)))"
proof -
  let ?priv = "case priv_stream st of None \<Rightarrow> input_stream st | Some p \<Rightarrow> p"
  have "\<exists>pre. ?priv = pre @ input_stream st \<and> ok_cut pre (input_stream st)"
    using assms by (auto simp: lex_ok_def split: option.splits)
  then obtain pre where pre: "?priv = pre @ input_stream st" "ok_cut pre (input_stream st)" by blast
  from pre(1) have pre': "(case priv_stream st of None \<Rightarrow> input_stream (st\<lparr>tok_val := PVal 0\<rparr>) | Some p \<Rightarrow> p) =
      pre @ input_stream st"
    by (cases "priv_stream st") auto
  have len: "length (input_stream st) - length (dropWhile P (input_stream st)) =
      length (takeWhile P (input_stream st))" for P
    by (metis add_diff_cancel_right' length_append takeWhile_dropWhile_id)
  have "getToken st space =
      (let s = dropWhile (is_blank space) (input_stream st);
           (col, line) = loc_after pre (loc_col st, loc_line st)
       in Inr (lex_token s (st\<lparr>tok_val := PVal 0,
            loc_col := col + of_nat (length (takeWhile (is_blank space) (input_stream st))),
            loc_line := line, input_stream := s, priv_stream := Some s\<rparr>)))"
    using sync_loc_append [OF pre(2), of "(loc_col st, loc_line st)"] pre'
    by (simp add: getToken_def Let_def len case_prod_unfold)
  with pre show thesis using that by blast
qed

lemma getToken_progress:
  assumes "lex_ok st"
  shows "\<exists>st'. getToken st space = Inr st' \<and> lex_ok st' \<and>
    (\<exists>sk pre. input_stream st = sk @ pre @ input_stream st' \<and> (\<forall>c \<in> set sk. is_blank space c) \<and>
       (if tok st' = T_EOF then pre = [] \<and> cur (input_stream st') = CHR 0x00 else pre \<noteq> []))"
proof -
  let ?s = "dropWhile (is_blank space) (input_stream st)"
  let ?sk = "takeWhile (is_blank space) (input_stream st)"
  obtain st1 where get: "getToken st space = Inr (lex_token ?s st1)"
      and st1: "st1 = st1\<lparr>input_stream := ?s\<rparr>" "priv_stream st1 = Some ?s"
  proof (rule getToken_eq [OF assms, of space])
    fix pre
    assume "getToken st space =
      (let s = dropWhile (is_blank space) (input_stream st);
           (col, line) = loc_after pre (loc_col st, loc_line st)
       in Inr (lex_token s (st\<lparr>tok_val := PVal 0,
            loc_col := col + of_nat (length (takeWhile (is_blank space) (input_stream st))),
            loc_line := line, input_stream := s, priv_stream := Some s\<rparr>)))"
    then show thesis by (intro that) (auto simp: Let_def case_prod_unfold)
  qed
  let ?st' = "lex_token ?s st1"
  have cut: "token_cut ?s ?st'" using lex_token_cut [of ?s st1] st1(1) by simp
  have sk: "input_stream st = ?sk @ ?s" "\<forall>c \<in> set ?sk. is_blank space c"
    by (auto dest: set_takeWhileD)
  obtain pre where pre: "?s = pre @ input_stream ?st'" "ok_cut pre (input_stream ?st')"
    "if tok ?st' = T_EOF then pre = [] \<and> cur (input_stream ?st') = CHR 0x00 else pre \<noteq> []"
    using cut by (cases "cur ?s = CHR 0x00") (auto simp: token_cut_def)
  have "lex_ok ?st'" using pre st1(2) by (auto simp: lex_ok_def)
  moreover have "input_stream st = ?sk @ pre @ input_stream ?st'"
    using sk(1) pre(1) by metis
  ultimately show ?thesis using get sk(2) pre(3) by blast
qed

text \<open>C19: In a state where \<^verbatim>\<open>priv_stream\<close> is null or at or before \<^verbatim>\<open>input_stream\<close>, \<^verbatim>\<open>getToken\<close> returns
  without reading outside the source and keeps that invariant; the stream moves over blanks
  and then over the token, which is empty exactly when \<^verbatim>\<open>T_EOF\<close> is reported, and \<^verbatim>\<open>T_EOF\<close> is
  reported only at the terminator. So no call loops and no token is returned twice.\<close>

theorem getToken_total:
  assumes "lex_ok st"
  shows "\<exists>st'. getToken st space = Inr st' \<and> lex_ok st' \<and>
    (\<exists>sk pre. input_stream st = sk @ pre @ input_stream st' \<and> (\<forall>c \<in> set sk. is_blank space c) \<and>
       (if tok st' = T_EOF then pre = [] \<and> cur (input_stream st') = CHR 0x00 else pre \<noteq> []))"
  by (rule getToken_progress [OF assms])

definition lex_init :: "string \<Rightarrow> lexst" where
  "lex_init s = \<lparr>input_stream = s, priv_stream = None, tok = T_EOF, loc_col = 0, loc_line = 0,
     tok_val = PVal 0, data_sec = []\<rparr>"

theorem getToken_total_witness:
  "\<exists>st'. getToken (lex_init '' ab'') True = Inr st' \<and> lex_ok st'"
  using getToken_total [of "lex_init '' ab''" True] by (auto simp: lex_ok_def lex_init_def)

lemma loc_after_append:
  "ok_cut pre s \<Longrightarrow> loc_after (pre @ s) loc = loc_after s (loc_after pre loc)"
proof (induction pre loc rule: loc_after.induct)
  case (2 c cs col line)
  have cut: "ok_cut cs s" using "2.prems" by (auto simp: ok_cut_def split: if_splits)
  have tl: "ok_cut (tl cs) s" using cut by (cases cs) (auto simp: ok_cut_def split: if_splits)
  show ?case
  proof (cases "c = CR")
    case True
    show ?thesis
    proof (cases "cs = []")
      case True
      with \<open>c = CR\<close> "2.prems" have "cur s \<noteq> LF" by (auto simp: ok_cut_def)
      with True \<open>c = CR\<close> show ?thesis by simp
    next
      case False
      then have "cur (cs @ s) = cur cs" "tl (cs @ s) = tl cs @ s" by (cases cs, simp_all)+
      with True "2.IH"(1) cut tl show ?thesis by (cases "cur cs = LF") simp_all
    qed
  next
    case False
    with "2.IH"(2,3) cut show ?thesis by (cases "c = LF") simp_all
  qed
qed simp

lemma loc_after_plain:
  "\<forall>c \<in> set s. c \<noteq> CR \<and> c \<noteq> LF \<Longrightarrow> loc_after s (col, line) = (col + of_nat (length s), line)"
  by (induction s arbitrary: col) (auto simp: algebra_simps)

text \<open>C20: The location \<^verbatim>\<open>getToken\<close> gives a token. With \<^verbatim>\<open>space\<close> set it is the location of the token's
  first character, counted from the last location over every line break in between; a string
  literal is reported one column later. With \<^verbatim>\<open>space\<close> clear the line breaks among the skipped
  blanks count as columns and the line stays where it was.\<close>

theorem getToken_location:
  assumes "priv_stream st = Some (pre @ input_stream st)" and "ok_cut pre (input_stream st)"
  shows "\<exists>st'. getToken st space = Inr st' \<and>
    (let sk = takeWhile (is_blank space) (input_stream st);
         quote = (if tok st' = T_STRING then 1 else 0);
         from = (loc_col st, loc_line st)
     in loc_col st' = fst (loc_after pre from) + of_nat (length sk) + quote \<and>
        loc_line st' = snd (loc_after pre from) \<and>
        (space \<longrightarrow> (loc_col st' - quote, loc_line st') = loc_after (pre @ sk) from))"
proof -
  let ?sk = "takeWhile (is_blank space) (input_stream st)"
  have "lex_ok st" using assms by (auto simp: lex_ok_def)
  then obtain pre' where "pre' @ input_stream st = pre @ input_stream st"
    and get: "getToken st space =
      (let s = dropWhile (is_blank space) (input_stream st);
           (col, line) = loc_after pre' (loc_col st, loc_line st)
       in Inr (lex_token s (st\<lparr>tok_val := PVal 0, loc_col := col + of_nat (length ?sk),
            loc_line := line, input_stream := s, priv_stream := Some s\<rparr>)))"
    by (rule getToken_eq [of st space]) (use assms(1) in simp)
  then have pre': "pre' = pre" by simp
  have plain: "\<forall>c \<in> set ?sk. c \<noteq> CR \<and> c \<noteq> LF" if "space"
    using that by (auto simp: is_blank_def dest!: set_takeWhileD)
  have cut: "ok_cut pre ?sk" if "space"
    using assms(2) plain [OF that] by (cases ?sk) (auto simp: ok_cut_def)
  define from_loc where "from_loc = (loc_col st, loc_line st)"
  have app: "loc_after (pre @ ?sk) from_loc =
      (fst (loc_after pre from_loc) + of_nat (length ?sk), snd (loc_after pre from_loc))" if "space"
    using loc_after_append [OF cut [OF that], of from_loc] loc_after_plain [OF plain [OF that]]
    by (cases "loc_after pre from_loc") simp
  define s1 where "s1 = st\<lparr>tok_val := PVal 0,
      loc_col := fst (loc_after pre from_loc) + of_nat (length ?sk),
      loc_line := snd (loc_after pre from_loc),
      input_stream := dropWhile (is_blank space) (input_stream st),
      priv_stream := Some (dropWhile (is_blank space) (input_stream st))\<rparr>"
  define st' where "st' = lex_token (dropWhile (is_blank space) (input_stream st)) s1"
  have "getToken st space = Inr st'"
    using get by (simp add: pre' Let_def case_prod_unfold st'_def s1_def from_loc_def)
  moreover have "loc_col st' = fst (loc_after pre from_loc) + of_nat (length ?sk) +
      (if tok st' = T_STRING then 1 else 0)" "loc_line st' = snd (loc_after pre from_loc)"
    by (simp_all add: st'_def lex_token_col s1_def)
  ultimately show ?thesis
    using app by (simp add: Let_def from_loc_def)
qed

theorem getToken_location_witness:
  "\<exists>st'. getToken (lex_init (LF # ''x'')\<lparr>priv_stream := Some (LF # ''x'')\<rparr>) False = Inr st' \<and>
     loc_line st' = 0 \<and> loc_line st' \<noteq> snd (loc_after [LF] (0, 0))"
  using getToken_location [of "lex_init (LF # ''x'')\<lparr>priv_stream := Some (LF # ''x'')\<rparr>" "[]" False]
  by (auto simp: lex_init_def Let_def)

section \<open>The terminator is never passed\<close>

abbreviation NUL :: char where "NUL \<equiv> CHR 0x00"

definition more_text :: "string \<Rightarrow> 'a lexst_scheme \<Rightarrow> 'a lexst_scheme" where
  "more_text z st = st\<lparr>input_stream := input_stream st @ z, priv_stream := map_option (\<lambda>p. p @ z) (priv_stream st)\<rparr>"

lemma cur_drop_NUL: "cur (drop n (s @ NUL # t)) = cur (drop n s)" if "n \<le> length s"
  using that by simp

lemma newlineChar_NUL: "newlineChar (s @ NUL # t) = newlineChar s"
proof (cases s)
  case (Cons c cs)
  then show ?thesis by (cases cs) (auto simp: newlineChar_def Let_def)
qed (simp add: newlineChar_def)

lemma newlineChar_le: "newlineChar s \<le> length s"
  by (simp add: newlineChar_def Let_def)

lemma takeWhile_NUL: "\<not> P NUL \<Longrightarrow> takeWhile P (s @ NUL # t) = takeWhile P s"
  by (induction s) auto

lemma dropWhile_NUL: "\<not> P NUL \<Longrightarrow> dropWhile P (s @ NUL # t) = dropWhile P s @ NUL # t"
  by (induction s) auto

lemma lex_string_NUL:
  "lex_string (s @ NUL # t) (st\<lparr>input_stream := i, priv_stream := p\<rparr>) =
     (lex_string s st)\<lparr>input_stream := input_stream (lex_string s st) @ NUL # t, priv_stream := p\<rparr>"
proof -
  let ?P = "\<lambda>c. c \<noteq> NUL \<and> c \<noteq> CHR 0x22"
  let ?r = "drop (length (takeWhile ?P s)) s"
  have body: "takeWhile ?P (s @ NUL # t) = takeWhile ?P s" by (rule takeWhile_NUL) simp
  have "length (takeWhile ?P s) \<le> length s" by (rule length_takeWhile_le)
  then have r: "drop (length (takeWhile ?P s)) (s @ NUL # t) = ?r @ NUL # t" by simp
  have q: "(if cur (?r @ NUL # t) = CHR 0x22 then drop 1 (?r @ NUL # t) else ?r @ NUL # t) =
      (if cur ?r = CHR 0x22 then drop 1 ?r else ?r) @ NUL # t"
    by (cases ?r) auto
  show ?thesis
    unfolding lex_string_def Let_def body r q
    by (simp split: option.splits)
qed

lemma idToken_streams:
  "snd (idToken (st\<lparr>priv_stream := p, input_stream := i\<rparr>) s) =
     (snd (idToken (st\<lparr>input_stream := j\<rparr>) s))\<lparr>input_stream := i, priv_stream := p\<rparr>"
  by (simp add: idToken_def)

lemma isID_NUL: "\<not> isID NUL"
  by (simp add: isID_def)

lemma lex_token_NUL:
  assumes "input_stream st = s"
  shows "lex_token (s @ NUL # t) (st\<lparr>input_stream := s @ NUL # t, priv_stream := p\<rparr>) =
    (lex_token s st)\<lparr>input_stream := input_stream (lex_token s st) @ NUL # t, priv_stream := p\<rparr>"
proof (cases "cur s = NUL")
  case True
  with assms show ?thesis by (simp add: lex_token_def)
next
  case False
  then obtain c s' where s: "s = c # s'" and c: "c \<noteq> NUL" by (cases s) auto
  note tl = assms s c lex_token_def Let_def
  show ?thesis
  proof (cases rule: char_class [of c _ s'])
    case str
    then show ?thesis by (simp add: tl lex_string_NUL)
  next
    case zero
    then show ?thesis by (simp add: tl zeroChar_NUL)
  next
    case num
    then show ?thesis by (auto simp: tl zeroChar_NUL numberChar_NUL case_prod_unfold)
  next
    case dot
    then show ?thesis by (cases s'; cases "drop 1 s'") (auto simp: tl)
  next
    case nl
    then show ?thesis
    proof (cases s rule: newlineChar_cases)
      case (3 cs)
      then show ?thesis using newlineChar_NUL [of s t] by (simp add: tl)
    qed (use s nl assms c newlineChar_NUL [of s t] in \<open>simp_all add: lex_token_def Let_def\<close>)
  next
    case other
    have nl0: "newlineChar (c # u) = 0" for u
      using other by (simp add: newlineChar_def)
    have "c \<noteq> CHR ''0''" using other by auto
    note tl' = tl nl0 this
    show ?thesis
    proof (cases "strindex ops_doubled c")
      case (Some i)
      with other show ?thesis by (cases s') (simp_all add: tl')
    next
      case None
      show ?thesis
      proof (cases "strindex ops_single c")
        case (Some i)
        with other None show ?thesis by (simp add: tl')
      next
        case None'': None
        have tw: "takeWhile isID (s' @ NUL # t) = takeWhile isID s'"
          by (rule takeWhile_NUL) (rule isID_NUL)
        have len: "length (takeWhile isID s') \<le> length s'" by (rule length_takeWhile_le)
        let ?rest = "drop (length (takeWhile isID s')) s'"
        have "lex_token (s @ NUL # t) (st\<lparr>input_stream := s @ NUL # t, priv_stream := p\<rparr>) =
            snd (idToken (st\<lparr>priv_stream := p, input_stream := ?rest @ NUL # t\<rparr>) (c # takeWhile isID s'))"
          using other None None'' len by (simp add: tl' tw)
        moreover have "lex_token s st = snd (idToken (st\<lparr>input_stream := ?rest\<rparr>) (c # takeWhile isID s'))"
          using other None None'' by (simp add: tl')
        ultimately show ?thesis 
          using idToken_streams [where st = st and p = p and i = "?rest @ NUL # t"
              and s = "c # takeWhile isID s'" and j = ?rest] by simp
      qed
    qed
  qed
qed

lemma priv_more:
  "lex_ok st \<Longrightarrow> lex_ok (more_text (NUL # t) st)"
  by (fastforce simp: lex_ok_def more_text_def ok_cut_def split: option.splits)

text \<open>C21: \<^verbatim>\<open>getToken\<close> depends only on the source up to the terminating NUL: whatever memory follows
  it, the token, its value, the location and the data section are the same and the stream
  moves equally far.\<close>

theorem getToken_stops_at_NUL:
  assumes "lex_ok st"
  shows "getToken (more_text (NUL # t) st) space = map_sum id (more_text (NUL # t)) (getToken st space)"
proof -
  let ?b = "is_blank space"
  have b: "\<not> ?b NUL" by (simp add: is_blank_def)
  obtain pre where pre: "(case priv_stream st of None \<Rightarrow> input_stream st | Some p \<Rightarrow> p) = pre @ input_stream st"
    and get: "getToken st space =
      (let s = dropWhile ?b (input_stream st);
           (col, line) = loc_after pre (loc_col st, loc_line st)
       in Inr (lex_token s (st\<lparr>tok_val := PVal 0,
            loc_col := col + of_nat (length (takeWhile ?b (input_stream st))),
            loc_line := line, input_stream := s, priv_stream := Some s\<rparr>)))"
    using getToken_eq [OF assms, of space] by metis
  let ?st = "more_text (NUL # t) st"
  obtain pre' where pre': "(case priv_stream ?st of None \<Rightarrow> input_stream ?st | Some p \<Rightarrow> p) = pre' @ input_stream ?st"
    and get': "getToken ?st space =
      (let s = dropWhile ?b (input_stream ?st);
           (col, line) = loc_after pre' (loc_col ?st, loc_line ?st)
       in Inr (lex_token s (?st\<lparr>tok_val := PVal 0,
            loc_col := col + of_nat (length (takeWhile ?b (input_stream ?st))),
            loc_line := line, input_stream := s, priv_stream := Some s\<rparr>)))"
    using getToken_eq [OF priv_more [OF assms, of t], of space] by metis
  have "pre' = pre" using pre pre' by (cases "priv_stream st") (auto simp: more_text_def)
  moreover have "dropWhile ?b (input_stream ?st) = dropWhile ?b (input_stream st) @ NUL # t"
    "takeWhile ?b (input_stream ?st) = takeWhile ?b (input_stream st)"
    by (simp_all add: more_text_def dropWhile_NUL takeWhile_NUL b)
  ultimately show ?thesis
    unfolding get get'
    using lex_token_NUL [of "st\<lparr>tok_val := PVal 0,
            loc_col := fst (loc_after pre (loc_col st, loc_line st)) + of_nat (length (takeWhile ?b (input_stream st))),
            loc_line := snd (loc_after pre (loc_col st, loc_line st)),
            input_stream := dropWhile ?b (input_stream st), priv_stream := Some (dropWhile ?b (input_stream st))\<rparr>"
        "dropWhile ?b (input_stream st)" t "Some (dropWhile ?b (input_stream st) @ NUL # t)"]
    by (simp add: Let_def case_prod_unfold more_text_def)
qed

theorem getToken_stops_at_NUL_witness:
  "getToken (more_text (NUL # ''junk'') (lex_init ''a+'')) True =
     map_sum id (more_text (NUL # ''junk'')) (getToken (lex_init ''a+'') True)"
  using getToken_stops_at_NUL [of "lex_init ''a+''" "''junk''" True]
  by (simp add: lex_ok_def lex_init_def)

section \<open>Number literals\<close>

text \<open>Numerals as a reader writes them: decimal and lower-case hexadecimal digits.\<close>

definition digit_char :: "nat \<Rightarrow> char" where
  "digit_char d = ''0123456789abcdef'' ! d"

fun numeral_in :: "nat \<Rightarrow> nat \<Rightarrow> string" where
  "numeral_in b n = (if b < 2 \<or> n < b then [digit_char n] else numeral_in b (n div b) @ [digit_char (n mod b)])"

declare numeral_in.simps [simp del]

lemma digit_cases:
  fixes d :: nat
  assumes "d < 16"
  obtains "d = 0" | "d = 1" | "d = 2" | "d = 3" | "d = 4" | "d = 5" | "d = 6" | "d = 7" | "d = 8"
    | "d = 9" | "d = 10" | "d = 11" | "d = 12" | "d = 13" | "d = 14" | "d = 15"
proof -
  from assms have "d = 0 \<or> d = 1 \<or> d = 2 \<or> d = 3 \<or> d = 4 \<or> d = 5 \<or> d = 6 \<or> d = 7 \<or> d = 8 \<or>
      d = 9 \<or> d = 10 \<or> d = 11 \<or> d = 12 \<or> d = 13 \<or> d = 14 \<or> d = 15"
    by presburger
  then show thesis using that by fast
qed

lemma numberChar_digit: "d < 10 \<Longrightarrow> numberChar v (digit_char d # cs) = numberChar (v * 10 + of_nat d) cs"
  by (cases rule: digit_cases [of d]) (simp_all add: digit_char_def char_between_def ord_def)

lemma hexChar_digit: "d < 16 \<Longrightarrow> hexChar v (digit_char d # cs) = hexChar (push_bit 4 v OR of_nat d) cs"
  by (cases rule: digit_cases [of d]) (simp_all add: digit_char_def char_between_def ord_def)

lemma push4_or: "d < 16 \<Longrightarrow> push_bit 4 v OR of_nat d = v * 16 + (of_nat d :: u64)"
proof -
  assume "d < 16"
  then have "take_bit 4 d = d" by (simp add: take_bit_nat_eq_self)
  then have "bit d n \<Longrightarrow> n < 4" for n by (metis bit_take_bit_iff)
  then have "push_bit 4 v AND (of_nat d :: u64) = 0"
    by (intro bit_word_eqI) (fastforce simp: bit_simps)
  then show ?thesis by (simp add: disjunctive_add_eq_or [symmetric] push_bit_eq_mult)
qed

lemma numberChar_numeral: "numberChar 0 (numeral_in 10 n @ cs) = numberChar (of_nat n) cs"
proof (induction "10::nat" n arbitrary: cs rule: numeral_in.induct)
  case (1 n)
  show ?case
  proof (cases "n < 10")
    case True
    then show ?thesis
      by (subst numeral_in.simps) (simp add: numberChar_digit del: numberChar.simps)
  next
    case False
    then have "numberChar 0 (numeral_in 10 n @ cs) =
        numberChar (of_nat (n div 10)) (digit_char (n mod 10) # cs)"
      using 1 by (subst numeral_in.simps) simp
    also have "\<dots> = numberChar (of_nat (n div 10) * 10 + of_nat (n mod 10)) cs"
      by (simp add: numberChar_digit del: numberChar.simps)
    also have "of_nat (n div 10) * 10 + of_nat (n mod 10) = (of_nat n :: u64)"
      by (metis div_mult_mod_eq of_nat_add of_nat_mult of_nat_numeral)
    finally show ?thesis .
  qed
qed

lemma hexChar_numeral: "hexChar 0 (numeral_in 16 n @ cs) = hexChar (of_nat n) cs"
proof (induction "16::nat" n arbitrary: cs rule: numeral_in.induct)
  case (1 n)
  show ?case
  proof (cases "n < 16")
    case True
    then show ?thesis
      by (subst numeral_in.simps) (simp add: hexChar_digit del: hexChar.simps)
  next
    case False
    then have "hexChar 0 (numeral_in 16 n @ cs) =
        hexChar (of_nat (n div 16)) (digit_char (n mod 16) # cs)"
      using 1 by (subst numeral_in.simps) simp
    also have "\<dots> = hexChar (of_nat (n div 16) * 16 + of_nat (n mod 16)) cs"
      by (simp add: hexChar_digit push4_or del: hexChar.simps)
    also have "of_nat (n div 16) * 16 + of_nat (n mod 16) = (of_nat n :: u64)"
      by (metis div_mult_mod_eq of_nat_add of_nat_mult of_nat_numeral)
    finally show ?thesis .
  qed
qed

lemma getToken_at:
  assumes "lex_ok st" and "\<not> is_blank space (cur (input_stream st))"
  obtains st1 where "getToken st space = Inr (lex_token (input_stream st) st1)"
    and "input_stream st1 = input_stream st" and "data_sec st1 = data_sec st"
proof -
  have tw: "dropWhile (is_blank space) (input_stream st) = input_stream st"
    using assms(2) by (cases "input_stream st") auto
  show thesis
    by (rule getToken_eq [OF assms(1), of space]) (auto simp: Let_def tw case_prod_unfold intro!: that)
qed

lemma numeral_first:
  assumes "b = 10 \<or> b = 16"
  shows "\<exists>d ds. numeral_in b n = digit_char d # ds \<and> d < b \<and> (d = 0 \<longrightarrow> n = 0 \<and> ds = [])"
  using assms
proof (induction b n rule: numeral_in.induct)
  case (1 b n)
  then show ?case
    by (subst numeral_in.simps) (force simp: div_eq_0_iff)
qed

lemma digit_char_first:
  "d < 10 \<Longrightarrow> char_between CHR ''0'' (digit_char d) CHR ''9'' \<and> (digit_char d = CHR ''0'' \<longleftrightarrow> d = 0) \<and>
     digit_char d \<noteq> NUL \<and> digit_char d \<noteq> CHR 0x22 \<and> \<not> is_blank space (digit_char d)"
  by (cases rule: digit_cases [of d]) (simp_all add: digit_char_def char_between_def is_blank_def)

lemma char_between_isID:
  "char_between CHR ''0'' c CHR ''9'' \<Longrightarrow> isID c" "char_between CHR ''a'' c CHR ''f'' \<Longrightarrow> isID c"
  "char_between CHR ''A'' c CHR ''F'' \<Longrightarrow> isID c"
  by (simp_all add: char_between_def isID_def Let_def)

lemma number_stops:
  assumes "\<not> isID (cur s)"
  shows "numberChar v s = (v, s)" and "hexChar v s = (v, s)"
proof -
  have "cur s \<noteq> CHR ''_''" using assms by (auto simp: isID_def)
  then show "numberChar v s = (v, s)" and "hexChar v s = (v, s)"
    using assms by (cases s; auto dest: char_between_isID)+
qed

lemma lex_decimal:
  assumes "\<not> isID (cur rest)" and "n = 0 \<Longrightarrow> zeroChar rest = None"
    and "input_stream st = numeral_in 10 n @ rest"
  shows "lex_token (numeral_in 10 n @ rest) st =
    st\<lparr>tok := T_NUMBER, tok_val := PVal (of_nat n), input_stream := rest\<rparr>"
proof -
  obtain d ds where d: "numeral_in 10 n = digit_char d # ds" "d < 10" "d = 0 \<longrightarrow> n = 0 \<and> ds = []"
    using numeral_first [of 10 n] by blast
  have c: "char_between CHR ''0'' (digit_char d) CHR ''9''" "digit_char d = CHR ''0'' \<longleftrightarrow> d = 0"
      "digit_char d \<noteq> NUL" "digit_char d \<noteq> CHR 0x22"
    using digit_char_first [OF d(2)] by blast+
  have num: "numberChar 0 (digit_char d # ds @ rest) = (of_nat n, rest)"
    using numberChar_numeral [of n rest] number_stops [OF assms(1), of "of_nat n"]
    by (simp add: d(1) del: numberChar.simps)
  have zero: "d = 0 \<longrightarrow> zeroChar (ds @ rest) = None" using d(3) assms(2) by auto
  show ?thesis
    using c num zero
    by (cases "d = 0") (simp_all add: lex_token_def Let_def d(1) del: numberChar.simps)
qed

lemma lex_hex:
  assumes "\<not> isID (cur rest)"
  shows "lex_token (CHR ''0'' # CHR ''x'' # numeral_in 16 n @ rest) st =
    st\<lparr>tok := T_NUMBER, tok_val := PVal (of_nat n), input_stream := rest\<rparr>"
  using hexChar_numeral [of n rest] number_stops [OF assms, of "of_nat n"]
  by (simp add: lex_token_def Let_def zeroChar_def)

text \<open>C22: Number literals. The decimal numeral of any \<open>n\<close> lexes to one \<^verbatim>\<open>T_NUMBER\<close> token whose value is
  \<open>n\<close> reduced modulo \<open>2\<^sup>6\<^sup>4\<close>, with no complaint when digits are lost, and the stream stops right
  after it; the same holds for \<^verbatim>\<open>0x\<close> and the hexadecimal numeral.\<close>

theorem number_literal_value:
  assumes "lex_ok st" and "\<not> isID (cur rest)" and "n = 0 \<Longrightarrow> zeroChar rest = None"
    and "input_stream st = (if hex then ''0x'' @ numeral_in 16 n else numeral_in 10 n) @ rest"
  shows "\<exists>st'. getToken st space = Inr st' \<and> tok st' = T_NUMBER \<and> tok_val st' = PVal (of_nat n) \<and>
    unat (of_nat n :: u64) = n mod 2 ^ 64 \<and> input_stream st' = rest"
proof -
  obtain d ds where d: "numeral_in 10 n = digit_char d # ds" "d < 10"
    using numeral_first [of 10 n] by blast
  have "\<not> is_blank space (cur (input_stream st))"
    using digit_char_first [OF d(2), of space] by (auto simp: assms(4) d(1) is_blank_def)
  with assms(1) obtain st1 where "getToken st space = Inr (lex_token (input_stream st) st1)"
      "input_stream st1 = input_stream st"
    by (rule getToken_at)
  then show ?thesis
    using lex_decimal [OF assms(2,3), where st = st1] lex_hex [OF assms(2), where st = st1 and n = n] assms(4)
    by (cases hex) (simp_all add: unat_of_nat)
qed

theorem number_literal_value_witness:
  "\<exists>st'. getToken (lex_init ''0xff+1'') True = Inr st' \<and> tok_val st' = PVal 255 \<and> input_stream st' = ''+1''"
proof -
  have "numeral_in 16 255 = ''ff''"
    by (simp add: numeral_in.simps digit_char_def)
  with number_literal_value [of "lex_init ''0xff+1''" "''+1''" 255 True True]
  show ?thesis by (auto simp: lex_init_def lex_ok_def isID_def)
qed

section \<open>Names and keywords\<close>

definition keyword_table :: "(string \<times> ctt) list" where
  "keyword_table = [(''if'', T_IF), (''for'', T_FOR), (''else'', T_ELSE), (''break'', T_BREAK),
     (''while'', T_WHILE), (''return'', T_RETURN), (''continue'', T_CONTINUE)]"

lemma idToken_keywords:
  "idToken st s =
     (case map_of keyword_table s of
        Some k \<Rightarrow> (False, st\<lparr>tok := k\<rparr>)
      | None \<Rightarrow> (True, st\<lparr>tok := T_IDENTIFIER, tok_val := PStr s\<rparr>))"
  by (simp add: idToken_def keyword_table_def)

lemma not_isID:
  "\<not> isID NUL" "\<not> isID (CHR 0x22)" "\<not> isID (CHR ''.'')" "\<not> isID CR" "\<not> isID LF" "\<not> isID (CHR '' '')"
  "\<not> isID (CHR 0x09)" "\<forall>c \<in> set ops_doubled. \<not> isID c" "\<forall>c \<in> set ops_single. \<not> isID c"
  by (simp_all add: isID_def ops_doubled_def ops_single_def)

lemma isID_class:
  assumes "isID c"
  shows "c \<noteq> NUL" "c \<noteq> CHR 0x22" "c \<noteq> CHR ''.''" "newlineChar (c # u) = 0" "\<not> is_blank space c"
    "strindex ops_doubled c = None" "strindex ops_single c = None"
proof -
  have ne: "c \<noteq> CR" "c \<noteq> LF" "c \<noteq> CHR '' ''" "c \<noteq> CHR 0x09" using assms not_isID by blast+
  then show "newlineChar (c # u) = 0" "\<not> is_blank space c"
    by (simp_all add: newlineChar_def is_blank_def)
  show "c \<noteq> NUL" "c \<noteq> CHR 0x22" "c \<noteq> CHR ''.''" using assms not_isID by blast+
  show "strindex ops_doubled c = None" "strindex ops_single c = None"
    using assms not_isID(8,9) strindex_None by blast+
qed

text \<open>A word, that is a character of the identifier class other than a digit and the longest run
  of identifier characters after it, is read as one token: the keyword it spells if it is one
  of the seven keywords, otherwise \<^verbatim>\<open>T_IDENTIFIER\<close> with exactly that text. A keyword that is only
  a prefix of the word is not recognised.\<close>

theorem word_is_one_token:
  assumes "lex_ok st" and "isID c" and "\<not> char_between CHR ''0'' c CHR ''9''" and "\<forall>d \<in> set cs. isID d"
    and "\<not> isID (cur rest)" and "input_stream st = c # cs @ rest"
  shows "\<exists>st'. getToken st space = Inr st' \<and> input_stream st' = rest \<and>
    (case map_of keyword_table (c # cs) of
       Some k \<Rightarrow> tok st' = k
     | None \<Rightarrow> tok st' = T_IDENTIFIER \<and> tok_val st' = PStr (c # cs))"
proof -
  have "\<not> is_blank space (cur (input_stream st))" using assms(6) isID_class [OF assms(2)] by simp
  with assms(1) obtain st1 where get: "getToken st space = Inr (lex_token (input_stream st) st1)"
    by (rule getToken_at)
  have "takeWhile isID rest = []" using assms(5) by (cases rest) auto
  then have tw: "takeWhile isID (cs @ rest) = cs" using assms(4) by simp
  have "c \<noteq> CHR ''0''" using assms(3) by auto
  then have "lex_token (input_stream st) st1 = snd (idToken (st1\<lparr>input_stream := rest\<rparr>) (c # cs))"
    using isID_class [OF assms(2)] assms(3) by (simp add: assms(6) lex_token_def Let_def tw)
  with get show ?thesis by (simp add: idToken_keywords split: option.splits)
qed

theorem word_is_one_token_witness:
  "\<exists>st'. getToken (lex_init ''format(x)'') True = Inr st' \<and> tok st' = T_IDENTIFIER \<and> tok_val st' = PStr ''format''"
  using word_is_one_token [of "lex_init ''format(x)''" "CHR ''f''" "''ormat''" "''(x)''" True]
  by (auto simp: lex_init_def lex_ok_def isID_def char_between_def keyword_table_def)

section \<open>The store of string literals\<close>

text \<open>The characters a C string pointer shows.\<close>

definition c_string :: "string \<Rightarrow> string" where
  "c_string s = takeWhile (\<lambda>c. c \<noteq> NUL) s"

lemma search_down_Some:
  "search_down data str i = Some j \<Longrightarrow> j \<le> i \<and> take (length str) (drop j data) = str"
  by (induction i) (auto simp: search_down.simps split: if_splits)

lemma search_down_None:
  "search_down data str i = None \<longleftrightarrow> (\<forall>j \<le> i. take (length str) (drop j data) \<noteq> str)"
  by (induction i) (auto simp: search_down.simps le_Suc_eq)

lemma lex_string_store:
  assumes "\<forall>c \<in> set body. c \<noteq> NUL \<and> c \<noteq> CHR 0x22" and "rest = [] \<or> cur rest = CHR 0x22 \<or> cur rest = NUL"
  shows "\<exists>i z. tok_val (lex_string (body @ rest) st) = PVal (of_nat i) \<and>
    data_sec (lex_string (body @ rest) st) = data_sec st @ z \<and>
    i + length body \<le> length (data_sec st @ z) \<and> take (length body) (drop i (data_sec st @ z)) = body \<and>
    (z = [] \<or> z = body @ [NUL] \<and> i = length (data_sec st) \<and> c_string (drop i (data_sec st @ z)) = body)"
proof -
  have "takeWhile (\<lambda>c. c \<noteq> NUL \<and> c \<noteq> CHR 0x22) rest = []"
    using assms(2) by (cases rest) auto
  then have body: "takeWhile (\<lambda>c. c \<noteq> NUL \<and> c \<noteq> CHR 0x22) (body @ rest) = body"
    using assms(1) by simp
  show ?thesis
  proof (cases "getdata (data_sec st) body")
    case None
    have "takeWhile (\<lambda>c. c \<noteq> NUL) (body @ [NUL]) = body" using assms(1) by simp
    with None show ?thesis
      by (intro exI [of _ "length (data_sec st)"] exI [of _ "body @ [NUL]"])
        (simp add: lex_string_def Let_def body c_string_def)
  next
    case (Some i)
    then have "length body \<le> length (data_sec st)" "i \<le> length (data_sec st) - length body"
      "take (length body) (drop i (data_sec st)) = body"
      by (auto simp: getdata_def dest!: search_down_Some split: if_splits)
    with Some show ?thesis
      by (intro exI [of _ i] exI [of _ "[]"]) (simp add: lex_string_def Let_def body)
  qed
qed

text \<open>C23: A string literal gets an offset at which the data section holds its characters, and the
  section only grows, so the offsets handed out before keep their text. When the characters
  are not found in the section they are appended with a terminator, and the C string at the
  offset is the literal.\<close>

theorem string_literal_stored:
  assumes "lex_ok st" and "\<forall>c \<in> set body. c \<noteq> NUL \<and> c \<noteq> CHR 0x22"
    and "input_stream st = CHR 0x22 # body @ CHR 0x22 # rest"
  shows "\<exists>st' i z. getToken st space = Inr st' \<and> tok st' = T_STRING \<and> tok_val st' = PVal (of_nat i) \<and>
    data_sec st' = data_sec st @ z \<and> i + length body \<le> length (data_sec st') \<and>
    take (length body) (drop i (data_sec st')) = body \<and>
    (z = [] \<or> z = body @ [NUL] \<and> c_string (drop i (data_sec st')) = body)"
proof -
  have "\<not> is_blank space (cur (input_stream st))" using assms(3) by (simp add: is_blank_def)
  with assms(1) obtain st1 where get: "getToken st space = Inr (lex_token (input_stream st) st1)"
      "data_sec st1 = data_sec st"
    by (rule getToken_at)
  have "lex_token (input_stream st) st1 = lex_string (body @ CHR 0x22 # rest) st1"
    by (simp add: assms(3) lex_token_def)
  with get show ?thesis
    using lex_string_store [OF assms(2), of "CHR 0x22 # rest" st1]
    by (auto simp: lex_string_token)
qed

theorem string_literal_stored_witness:
  "\<exists>st'. getToken (lex_init (CHR 0x22 # ''hi'' @ [CHR 0x22])) True = Inr st' \<and> tok st' = T_STRING"
  using string_literal_stored [of "lex_init (CHR 0x22 # ''hi'' @ [CHR 0x22])" "''hi''" "[]" True]
  by (auto simp: lex_init_def lex_ok_def)

text \<open>The search that reuses stored characters ignores the terminator: after \<open>"ab"\<close> has been
  stored, the literal \<open>"a"\<close> gets the offset of \<open>"ab"\<close>, and the C string there is not the literal.\<close>

theorem string_literal_prefix_shared:
  "\<exists>st1 st2. getToken (lex_init (CHR 0x22 # ''ab'' @ CHR 0x22 # CHR 0x22 # ''a'' @ [CHR 0x22])) True = Inr st1 \<and>
     getToken st1 True = Inr st2 \<and> tok st2 = T_STRING \<and> tok_val st2 = PVal 0 \<and>
     map_option c_string (getData (data_sec st2) 0) = Some ''ab''"
  by (simp add: getToken_def lex_init_def sync_loc.simps nextChar_def newlineChar_def is_blank_def
      lex_token_def lex_string_def getdata_def search_down.simps getData_def c_string_def Let_def)

end
