(* ===== verification/Cup_Types.thy ===== *)
theory Cup_Types
  imports Cup_Lexer
begin

text \<open>
  The type table of \<^verbatim>\<open>src/types.c\<close>: interning by \<^verbatim>\<open>cup_type\<close>, construction by \<^verbatim>\<open>newtype\<close>, the
  signature notation of \<^verbatim>\<open>cup_type_parse\<close> and printing by \<^verbatim>\<open>cup_type_snname\<close>.

  A pointer to a type is the address of one of the twelve static types or the number of a type
  in the table. The \<^verbatim>\<open>const void *data\<close> argument of \<^verbatim>\<open>cup_type\<close> is told apart by what it points
  to, because the code reads the same pointer as a type, as an array of type pointers or as a
  function depending on the kind.
\<close>

section \<open>Types\<close>

datatype (plugins only: code size) cup_kind =
    CUP_TYPE_VOID | CUP_TYPE_INT | CUP_TYPE_FLOAT | CUP_TYPE_DOUBLE | CUP_TYPE_UINT8
  | CUP_TYPE_SINT8 | CUP_TYPE_UINT16 | CUP_TYPE_SINT16 | CUP_TYPE_UINT32 | CUP_TYPE_SINT32
  | CUP_TYPE_UINT64 | CUP_TYPE_SINT64 | CUP_TYPE_POINTER | CUP_TYPE_ARRAY | CUP_TYPE_FUNCTION
  | CUP_TYPE_STRUCT | CUP_TYPE_META | CUP_TYPE_COUNT

datatype tref = TBase cup_kind | THeap nat

abbreviation void_ref :: tref where "void_ref \<equiv> TBase CUP_TYPE_VOID"

text \<open>A slot of an array of type pointers; \<open>SJunk\<close> was allocated and never written.\<close>

datatype slot = SNull | SType tref | SJunk

datatype tbody = BNone | BArr tref | BFun "slot list" | BMeta nat

record ctype =
  ct_kind :: cup_kind
  ct_align :: u8
  ct_size :: u16
  ct_body :: tbody

text \<open>
  What \<^verbatim>\<open>data\<close> points to: nothing, the \<^verbatim>\<open>data\<close> member of a type, a type, an array of type
  pointers, a function (by number).
\<close>

datatype tdata = DNull | DOwn tref | DType tref | DSlots "slot list" | DGen nat

type_synonym types = "ctype list"

definition is_basic :: "cup_kind \<Rightarrow> bool" where
  "is_basic k \<longleftrightarrow>
     k \<in> {CUP_TYPE_VOID, CUP_TYPE_INT, CUP_TYPE_FLOAT, CUP_TYPE_DOUBLE, CUP_TYPE_UINT8,
       CUP_TYPE_SINT8, CUP_TYPE_UINT16, CUP_TYPE_SINT16, CUP_TYPE_UINT32, CUP_TYPE_SINT32,
       CUP_TYPE_UINT64, CUP_TYPE_SINT64}"

definition base_size :: "cup_kind \<Rightarrow> nat" where
  "base_size k =
     (if k \<in> {CUP_TYPE_INT, CUP_TYPE_DOUBLE, CUP_TYPE_UINT64, CUP_TYPE_SINT64} then 8
      else if k \<in> {CUP_TYPE_FLOAT, CUP_TYPE_UINT32, CUP_TYPE_SINT32} then 4
      else if k \<in> {CUP_TYPE_UINT16, CUP_TYPE_SINT16} then 2
      else if k \<in> {CUP_TYPE_UINT8, CUP_TYPE_SINT8} then 1
      else 0)"

definition base_type :: "cup_kind \<Rightarrow> ctype" where
  "base_type k =
     \<lparr>ct_kind = k, ct_align = of_nat (base_size k), ct_size = of_nat (base_size k), ct_body = BNone\<rparr>"

definition deref :: "types \<Rightarrow> tref \<Rightarrow> ctype res" where
  "deref ts r =
     (case r of
        TBase k \<Rightarrow> if is_basic k then Inr (base_type k) else Inl Undef
      | THeap i \<Rightarrow> if i < length ts then Inr (ts ! i) else Inl Undef)"

section \<open>Interning\<close>

text \<open>\<^verbatim>\<open>memcmp\<close> of \<open>n\<close> type pointers: whether they differ.\<close>

fun slots_differ :: "nat \<Rightarrow> slot list \<Rightarrow> slot list \<Rightarrow> bool res" where
  "slots_differ 0 as bs = Inr False"
| "slots_differ (Suc n) (a # as) (b # bs) =
     (if a = SJunk \<or> b = SJunk then Inl Undef
      else if a \<noteq> b then Inr True
      else slots_differ n as bs)"
| "slots_differ (Suc n) _ _ = Inl Undef"

definition data_slots :: "types \<Rightarrow> tdata \<Rightarrow> slot list res" where
  "data_slots ts d =
     (case d of
        DSlots ss \<Rightarrow> Inr ss
      | DOwn r \<Rightarrow> rbind (deref ts r) (\<lambda>c. case ct_body c of BFun ss \<Rightarrow> Inr ss | _ \<Rightarrow> Inl Undef)
      | _ \<Rightarrow> Inl Undef)"

text \<open>The search from entry \<open>i\<close> on, with the entries that are left.\<close>

fun cup_type_getEx ::
  "types \<Rightarrow> cup_kind \<Rightarrow> u16 \<Rightarrow> tdata \<Rightarrow> nat \<Rightarrow> ctype list \<Rightarrow> tref option res" where
  "cup_type_getEx ts k sz d i [] = Inr None"
| "cup_type_getEx ts k sz d i (c # cs) =
     (if ct_kind c \<noteq> k then cup_type_getEx ts k sz d (Suc i) cs
      else if ct_size c \<noteq> sz then cup_type_getEx ts k sz d (Suc i) cs
      else if d = DOwn (THeap i) then Inr (Some (THeap i))
      else if k = CUP_TYPE_FUNCTION then
        rbind (data_slots ts (DOwn (THeap i))) (\<lambda>xs.
        rbind (data_slots ts d) (\<lambda>ys.
        rbind (slots_differ (Suc (unat sz)) xs ys) (\<lambda>differ.
          if differ then cup_type_getEx ts k sz d (Suc i) cs else Inr (Some (THeap i)))))
      else if k = CUP_TYPE_META then cup_type_getEx ts k sz d (Suc i) cs
      else Inl (Exit 1))"

definition cup_type_get :: "types \<Rightarrow> cup_kind \<Rightarrow> u16 \<Rightarrow> tdata \<Rightarrow> tref option res" where
  "cup_type_get ts k sz d =
     (if is_basic k then Inr (Some (TBase k))
      else if k \<in> {CUP_TYPE_POINTER, CUP_TYPE_ARRAY, CUP_TYPE_FUNCTION, CUP_TYPE_META} then
        cup_type_getEx ts k sz d 0 ts
      else Inl Abort)"

text \<open>The call \<^verbatim>\<open>cup_type(state, it->cuptype, it->size, it->data)\<close> that \<^verbatim>\<open>newtype\<close> makes.\<close>

definition intern_ref ::
  "(types \<Rightarrow> cup_kind \<Rightarrow> u16 \<Rightarrow> tdata \<Rightarrow> (tref \<times> types) res) \<Rightarrow> types \<Rightarrow> tref \<Rightarrow> (tref \<times> types) res" where
  "intern_ref rec ts r = rbind (deref ts r) (\<lambda>c. rec ts (ct_kind c) (ct_size c) (DOwn r))"

text \<open>The parameter loop of a function type; a null parameter leaves its slot unwritten.\<close>

fun new_args ::
  "(types \<Rightarrow> cup_kind \<Rightarrow> u16 \<Rightarrow> tdata \<Rightarrow> (tref \<times> types) res) \<Rightarrow> types \<Rightarrow> nat \<Rightarrow> slot list \<Rightarrow>
   (slot list \<times> types) res" where
  "new_args rec ts 0 ss = Inr ([], ts)"
| "new_args rec ts (Suc n) [] = Inl Undef"
| "new_args rec ts (Suc n) (s # ss) =
     (case s of
        SJunk \<Rightarrow> Inl Undef
      | SNull \<Rightarrow> rbind (new_args rec ts n ss) (\<lambda>(xs, ts). Inr (SJunk # xs, ts))
      | SType it \<Rightarrow>
          rbind (guard (it \<noteq> void_ref) Abort) (\<lambda>_.
          rbind (intern_ref rec ts it) (\<lambda>(r, ts).
          rbind (new_args rec ts n ss) (\<lambda>(xs, ts). Inr (SType r # xs, ts)))))"

definition newtype ::
  "(types \<Rightarrow> cup_kind \<Rightarrow> u16 \<Rightarrow> tdata \<Rightarrow> (tref \<times> types) res) \<Rightarrow> types \<Rightarrow> cup_kind \<Rightarrow> u16 \<Rightarrow> tdata \<Rightarrow>
   (ctype \<times> types) res" where
  "newtype rec ts k sz d =
     (case k of
        CUP_TYPE_META \<Rightarrow>
          (case d of
             DGen g \<Rightarrow> Inr (\<lparr>ct_kind = k, ct_align = 0, ct_size = sz, ct_body = BMeta g\<rparr>, ts)
           | _ \<Rightarrow> Inl Undef)
      | CUP_TYPE_POINTER \<Rightarrow>
          (case d of
             DType item \<Rightarrow> rbind (intern_ref rec ts item) (\<lambda>(r, ts).
               Inr (\<lparr>ct_kind = k, ct_align = 8, ct_size = 8, ct_body = BArr r\<rparr>, ts))
           | _ \<Rightarrow> Inl Undef)
      | CUP_TYPE_ARRAY \<Rightarrow>
          (case d of
             DType item \<Rightarrow> rbind (intern_ref rec ts item) (\<lambda>(r, ts).
               Inr (\<lparr>ct_kind = k, ct_align = 0, ct_size = sz, ct_body = BArr r\<rparr>, ts))
           | _ \<Rightarrow> Inl Undef)
      | CUP_TYPE_FUNCTION \<Rightarrow>
          rbind (data_slots ts d) (\<lambda>ss.
            case ss of
              [] \<Rightarrow> Inl Undef
            | ret # params \<Rightarrow>
                rbind (new_args rec ts (unat sz) params) (\<lambda>(xs, ts).
                  Inr (\<lparr>ct_kind = k, ct_align = 0, ct_size = sz,
                        ct_body = BFun (ret # xs @ [SType void_ref])\<rparr>, ts)))
      | _ \<Rightarrow> Inl Abort)"

text \<open>\<^verbatim>\<open>cup_type\<close> with a bound on the nesting of calls; two levels are always enough.\<close>

primrec cup_type_rec :: "nat \<Rightarrow> types \<Rightarrow> cup_kind \<Rightarrow> u16 \<Rightarrow> tdata \<Rightarrow> (tref \<times> types) res" where
  "cup_type_rec 0 ts k sz d = Inl Loop"
| "cup_type_rec (Suc n) ts k sz d =
     rbind (cup_type_get ts k sz d) (\<lambda>found.
       case found of
         Some r \<Rightarrow> Inr (r, ts)
       | None \<Rightarrow>
           if d = DNull then Inl (Exit 1)
           else rbind (newtype (cup_type_rec n) ts k sz d) (\<lambda>(c, ts).
             Inr (THeap (length ts), ts @ [c\<lparr>ct_kind := k\<rparr>])))"

declare cup_type_rec.simps [simp del]

definition cup_type :: "types \<Rightarrow> cup_kind \<Rightarrow> u16 \<Rightarrow> tdata \<Rightarrow> (tref \<times> types) res" where
  "cup_type = cup_type_rec 2"

definition cup_typemeta :: "types \<Rightarrow> u16 \<Rightarrow> nat option \<Rightarrow> (tref \<times> types) res" where
  "cup_typemeta ts sz gen =
     cup_type ts CUP_TYPE_META sz (case gen of None \<Rightarrow> DNull | Some g \<Rightarrow> DGen g)"

section \<open>Signatures\<close>

definition isalnum :: "char \<Rightarrow> bool" where
  "isalnum c \<longleftrightarrow> char_between CHR ''0'' c CHR ''9'' \<or> char_between CHR ''A'' c CHR ''Z'' \<or>
     char_between CHR ''a'' c CHR ''z''"

definition type_code :: "string \<Rightarrow> cup_kind option" where
  "type_code code =
     (if code = ''v'' then Some CUP_TYPE_VOID
      else if code = ''i'' then Some CUP_TYPE_INT
      else if code = ''f'' then Some CUP_TYPE_FLOAT
      else if code = ''d'' then Some CUP_TYPE_DOUBLE
      else if code = ''u8'' then Some CUP_TYPE_UINT8
      else if code = ''s8'' then Some CUP_TYPE_SINT8
      else if code = ''u16'' then Some CUP_TYPE_UINT16
      else if code = ''s16'' then Some CUP_TYPE_SINT16
      else if code = ''u32'' then Some CUP_TYPE_UINT32
      else if code = ''s32'' then Some CUP_TYPE_SINT32
      else if code = ''u64'' then Some CUP_TYPE_UINT64
      else if code = ''s64'' then Some CUP_TYPE_SINT64
      else None)"

text \<open>The stars after a type code; each makes a pointer from an array of one type pointer.\<close>

fun parse_stars :: "types \<Rightarrow> tref \<Rightarrow> string \<Rightarrow> (tref \<times> string \<times> types) res" where
  "parse_stars ts b [] = Inr (b, [], ts)"
| "parse_stars ts b (c # cs) =
     (if c = CHR ''*'' then
        rbind (cup_type ts CUP_TYPE_POINTER 8 (DSlots [SType b])) (\<lambda>(b, ts). parse_stars ts b cs)
      else Inr (b, c # cs, ts))"

definition parse_one_type :: "types \<Rightarrow> string \<Rightarrow> (tref option \<times> string \<times> types) res" where
  "parse_one_type ts p =
     (let code = takeWhile isalnum p; rest = dropWhile isalnum p
      in if code = ''p'' then
           rbind (cup_type ts CUP_TYPE_POINTER 8 (DSlots [SType (TBase CUP_TYPE_UINT8)])) (\<lambda>(r, ts).
             Inr (Some r, rest, ts))
         else
           case type_code code of
             None \<Rightarrow> Inr (None, rest, ts)
           | Some k \<Rightarrow> rbind (parse_stars ts (TBase k) rest) (\<lambda>(b, rest, ts). Inr (Some b, rest, ts)))"

text \<open>
  The argument loop; the first argument is the room left of \<^verbatim>\<open>UINT8_MAX - 1\<close> entries. After an
  argument that neither a comma nor a parenthesis follows the loop goes on with the next.
\<close>

primrec parse_args :: "nat \<Rightarrow> types \<Rightarrow> string \<Rightarrow> tref list \<Rightarrow> (tref list \<times> string \<times> types) res" where
  "parse_args 0 ts p args = Inl (Exit 1)"
| "parse_args (Suc room) ts p args =
     rbind (parse_one_type ts p) (\<lambda>(a, p, ts).
       case a of
         None \<Rightarrow> Inl (Exit 1)
       | Some a \<Rightarrow>
           if cur p = CHR '','' then parse_args room ts (drop 1 p) (args @ [a])
           else if cur p = CHR '')'' then Inr (args @ [a], p, ts)
           else parse_args room ts p (args @ [a]))"

definition UINT8_MAX :: nat where "UINT8_MAX = 255"

definition cup_type_parse :: "types \<Rightarrow> string \<Rightarrow> (tref option \<times> types) res" where
  "cup_type_parse ts sig =
     rbind (parse_one_type ts sig) (\<lambda>(ret, p, ts).
       if cur p = CHR ''('' then
         (let p = drop 1 p
          in rbind (if cur p \<noteq> CHR '')'' then parse_args (UINT8_MAX - 1) ts p [] else Inr ([], p, ts))
               (\<lambda>(args, p, ts).
             rbind (guard (length args + 1 < UINT8_MAX) Undef) (\<lambda>_.
             rbind (cup_type ts CUP_TYPE_FUNCTION (of_nat (length args + 1))
                (DSlots ((case ret of None \<Rightarrow> SNull | Some r \<Rightarrow> SType r) # map SType args @ [SType void_ref] @
                   replicate (UINT8_MAX - (length args + 2)) SNull))) (\<lambda>(r, ts).
               Inr (Some r, ts)))))
       else if cur p = CHR 0x00 then Inr (ret, ts)
       else Inl (Exit 1))"

section \<open>Printing\<close>

text \<open>
  \<^verbatim>\<open>memcpy\<close> into the caller's character buffer; a write that does not fit has no meaning. The
  caller's \<^verbatim>\<open>s\<close> is an offset into the buffer.
\<close>

definition buf_write :: "string \<Rightarrow> nat \<Rightarrow> string \<Rightarrow> string res" where
  "buf_write buf at cs =
     (if at + length cs \<le> length buf then Inr (take at buf @ cs @ drop (at + length cs) buf)
      else Inl Undef)"

text \<open>\<^verbatim>\<open>APPEND_LITERAL\<close>: one character more than counted is copied, the terminator if all fits.\<close>

definition append_literal :: "string \<Rightarrow> string \<Rightarrow> nat \<Rightarrow> nat \<Rightarrow> nat \<Rightarrow> (string \<times> nat) res" where
  "append_literal lit buf s maxlen tot =
     (if tot < maxlen then
        (let len = length lit;
             copy = (if len < maxlen - tot then len else maxlen - tot - 1)
         in rbind (buf_write buf (s + tot) (take (copy + 1) (lit @ [NUL]))) (\<lambda>buf.
              Inr (buf, tot + copy)))
      else Inr (buf, tot))"

definition kind_name :: "cup_kind \<Rightarrow> string" where
  "kind_name k =
     (case k of
        CUP_TYPE_VOID \<Rightarrow> ''void'' | CUP_TYPE_INT \<Rightarrow> ''int'' | CUP_TYPE_FLOAT \<Rightarrow> ''float''
      | CUP_TYPE_DOUBLE \<Rightarrow> ''double'' | CUP_TYPE_UINT8 \<Rightarrow> ''uint8'' | CUP_TYPE_SINT8 \<Rightarrow> ''sint8''
      | CUP_TYPE_UINT16 \<Rightarrow> ''uint16'' | CUP_TYPE_SINT16 \<Rightarrow> ''sint16''
      | CUP_TYPE_UINT32 \<Rightarrow> ''uint32'' | CUP_TYPE_SINT32 \<Rightarrow> ''sint32''
      | CUP_TYPE_UINT64 \<Rightarrow> ''uint64'' | CUP_TYPE_SINT64 \<Rightarrow> ''sint64''
      | CUP_TYPE_COUNT \<Rightarrow> ''count'' | _ \<Rightarrow> ''unknown'')"

text \<open>
  The parameters, up to the sentinel; \<open>rec\<close> prints one of them. \<open>None\<close> is the null pointer.
\<close>

fun snname_params ::
  "(string \<Rightarrow> nat \<Rightarrow> nat \<Rightarrow> tref option \<Rightarrow> (string \<times> nat) res) \<Rightarrow> string \<Rightarrow> nat \<Rightarrow> nat \<Rightarrow> nat \<Rightarrow> nat \<Rightarrow>
   slot list \<Rightarrow> (string \<times> nat) res" where
  "snname_params rec buf s maxlen tot i [] = Inl Undef"
| "snname_params rec buf s maxlen tot i (p # ps) =
     (case p of
        SJunk \<Rightarrow> Inl Undef
      | SType r \<Rightarrow>
          if r = void_ref then Inr (buf, tot)
          else
            rbind (if i \<noteq> 0 then append_literal '', '' buf s maxlen tot else Inr (buf, tot)) (\<lambda>(buf, tot).
            rbind (rec buf (s + tot) (maxlen - tot) (Some r)) (\<lambda>(buf, n).
              snname_params rec buf s maxlen (tot + n) (Suc i) ps))
      | SNull \<Rightarrow>
          rbind (if i \<noteq> 0 then append_literal '', '' buf s maxlen tot else Inr (buf, tot)) (\<lambda>(buf, tot).
          rbind (rec buf (s + tot) (maxlen - tot) None) (\<lambda>(buf, n).
            snname_params rec buf s maxlen (tot + n) (Suc i) ps)))"

definition snname_body ::
  "(string \<Rightarrow> nat \<Rightarrow> nat \<Rightarrow> tref option \<Rightarrow> (string \<times> nat) res) \<Rightarrow> ctype \<Rightarrow> string \<Rightarrow> nat \<Rightarrow> nat \<Rightarrow>
   (string \<times> nat) res" where
  "snname_body rec c buf s maxlen =
     (case ct_kind c of
        CUP_TYPE_POINTER \<Rightarrow>
          (case ct_body c of
             BArr r \<Rightarrow> rbind (rec buf s maxlen (Some r)) (\<lambda>(buf, tot). append_literal ''*'' buf s maxlen tot)
           | _ \<Rightarrow> Inl Undef)
      | CUP_TYPE_ARRAY \<Rightarrow>
          (case ct_body c of
             BArr r \<Rightarrow> rbind (rec buf s maxlen (Some r)) (\<lambda>(buf, tot). append_literal ''[]'' buf s maxlen tot)
           | _ \<Rightarrow> Inl Undef)
      | CUP_TYPE_FUNCTION \<Rightarrow>
          (case ct_body c of
             BFun (ret # params) \<Rightarrow>
               rbind (case ret of SJunk \<Rightarrow> Inl Undef | SNull \<Rightarrow> rec buf s maxlen None
                      | SType r \<Rightarrow> rec buf s maxlen (Some r)) (\<lambda>(buf, tot).
               rbind (append_literal ''('' buf s maxlen tot) (\<lambda>(buf, tot).
               rbind (snname_params rec buf s maxlen tot 0 params) (\<lambda>(buf, tot).
                 append_literal '')'' buf s maxlen tot)))
           | _ \<Rightarrow> Inl Undef)
      | CUP_TYPE_META \<Rightarrow>
          rbind (append_literal ''meta ( '' buf s maxlen 0) (\<lambda>(buf, tot).
          rbind (append_literal (numeral_in 10 (unat (ct_size c))) buf s maxlen tot) (\<lambda>(buf, tot).
            append_literal '' )'' buf s maxlen tot))
      | k \<Rightarrow> append_literal (kind_name k) buf s maxlen 0)"

text \<open>The name of a type, at most \<open>maxlen\<close> bytes of it; the first argument bounds the nesting.\<close>

primrec cup_type_snname ::
  "nat \<Rightarrow> types \<Rightarrow> string \<Rightarrow> nat \<Rightarrow> nat \<Rightarrow> tref option \<Rightarrow> (string \<times> nat) res" where
  "cup_type_snname 0 ts buf s maxlen r = Inl Loop"
| "cup_type_snname (Suc n) ts buf s maxlen r =
     (case r of
        None \<Rightarrow> append_literal ''null'' buf s maxlen 0
      | Some r \<Rightarrow>
          rbind (deref ts r) (\<lambda>c.
          rbind (snname_body (cup_type_snname n ts) c buf s maxlen) (\<lambda>(buf, tot).
            if tot < maxlen then rbind (buf_write buf (s + tot) [NUL]) (\<lambda>buf. Inr (buf, tot))
            else Inr (buf, tot))))"

section \<open>The table invariant\<close>

definition ref_ok :: "nat \<Rightarrow> tref \<Rightarrow> bool" where
  "ref_ok n r \<longleftrightarrow> (case r of TBase k \<Rightarrow> is_basic k | THeap i \<Rightarrow> i < n)"

definition slot_ok :: "nat \<Rightarrow> slot \<Rightarrow> bool" where
  "slot_ok n s \<longleftrightarrow> (case s of SType r \<Rightarrow> ref_ok n r | _ \<Rightarrow> True)"

text \<open>A type of the table refers only to static types and to types entered before it.\<close>

definition ctype_ok :: "nat \<Rightarrow> ctype \<Rightarrow> bool" where
  "ctype_ok n c \<longleftrightarrow>
     (case ct_kind c of
        CUP_TYPE_POINTER \<Rightarrow> ct_size c = 8 \<and> (\<exists>r. ct_body c = BArr r \<and> ref_ok n r)
      | CUP_TYPE_ARRAY \<Rightarrow> (\<exists>r. ct_body c = BArr r \<and> ref_ok n r)
      | CUP_TYPE_FUNCTION \<Rightarrow>
          (\<exists>ret xs. ct_body c = BFun (ret # xs @ [SType void_ref]) \<and> length xs = unat (ct_size c) \<and>
             slot_ok n ret \<and> (\<forall>x \<in> set xs. slot_ok n x \<and> x \<noteq> SNull \<and> x \<noteq> SType void_ref))
      | CUP_TYPE_META \<Rightarrow> (\<exists>g. ct_body c = BMeta g)
      | _ \<Rightarrow> False)"

definition types_ok :: "types \<Rightarrow> bool" where
  "types_ok ts \<longleftrightarrow> (\<forall>i < length ts. ctype_ok i (ts ! i))"

definition data_ok :: "types \<Rightarrow> tdata \<Rightarrow> bool" where
  "data_ok ts d \<longleftrightarrow>
     (case d of
        DOwn r \<Rightarrow> ref_ok (length ts) r
      | DType r \<Rightarrow> ref_ok (length ts) r
      | DSlots ss \<Rightarrow> (\<forall>s \<in> set ss. slot_ok (length ts) s)
      | _ \<Rightarrow> True)"

lemma deref_ok: "ref_ok (length ts) r \<Longrightarrow> \<exists>c. deref ts r = Inr c"
  by (cases r) (auto simp: ref_ok_def deref_def)

lemma ref_ok_mono: "ref_ok n r \<Longrightarrow> n \<le> m \<Longrightarrow> ref_ok m r"
  by (cases r) (auto simp: ref_ok_def)

lemma slot_ok_mono: "slot_ok n s \<Longrightarrow> n \<le> m \<Longrightarrow> slot_ok m s"
  by (cases s) (auto simp: slot_ok_def intro: ref_ok_mono)

lemma types_ok_append: "types_ok ts \<Longrightarrow> ctype_ok (length ts) c \<Longrightarrow> types_ok (ts @ [c])"
  by (auto simp: types_ok_def nth_append less_Suc_eq)

text \<open>What a search that ends says.\<close>

lemma getEx_result:
  assumes "ts = pre @ cs" and "cup_type_getEx ts k sz d (length pre) cs = Inr (Some r)"
  shows "\<exists>j. r = THeap j \<and> j < length ts \<and> ct_kind (ts ! j) = k \<and> ct_size (ts ! j) = sz"
  using assms
proof (induction cs arbitrary: pre)
  case Nil
  then show ?case by simp
next
  case (Cons c cs)
  have step: "ts = (pre @ [c]) @ cs" using Cons.prems(1) by simp
  have here: "ts ! length pre = c" "length pre < length ts" using Cons.prems(1) by auto
  show ?case
    using Cons.IH [OF step] Cons.prems(2) here
    by (auto split: if_splits simp: res_simps)
qed

lemma getEx_finds_own:
  assumes "ts = pre @ cs" and "j < length ts" and "length pre \<le> j"
  shows "cup_type_getEx ts (ct_kind (ts ! j)) (ct_size (ts ! j)) (DOwn (THeap j)) (length pre) cs \<noteq> Inr None"
  using assms
proof (induction cs arbitrary: pre)
  case Nil
  then show ?case by simp
next
  case (Cons c cs)
  have step: "ts = (pre @ [c]) @ cs" using Cons.prems(1) by simp
  show ?case
  proof (cases "j = length pre")
    case True
    then have "ts ! j = c" using Cons.prems(1) by simp
    then show ?thesis using True by simp
  next
    case False
    then have "length (pre @ [c]) \<le> j" using Cons.prems(3) by simp
    from Cons.IH [OF step Cons.prems(2) this] False show ?thesis
      by (auto simp: res_simps split: if_splits)
  qed
qed

lemma getEx_no_loop: "cup_type_getEx ts k sz d i cs \<noteq> Inl Loop"
proof (induction cs arbitrary: i)
  case (Cons c cs)
  have sd: "slots_differ n xs ys \<noteq> Inl Loop" for n xs ys
    by (induction n xs ys rule: slots_differ.induct) auto
  have "data_slots ts d \<noteq> Inl Loop" for d
    by (auto simp: data_slots_def deref_def res_simps split: tdata.splits tref.splits tbody.splits)
  with Cons sd show ?case by (auto simp: res_simps split: if_splits)
qed simp

text \<open>A type that is in the table is found by its own data, unless the search stops the process;
  so one level of nesting never constructs anything.\<close>

lemma intern_ref_known:
  assumes "types_ok ts" and "ref_ok (length ts) r" and "intern_ref (cup_type_rec (Suc n)) ts r = Inr (r', ts')"
  shows "ts' = ts \<and> ref_ok (length ts) r' \<and> (r' = void_ref \<longleftrightarrow> r = void_ref)"
proof (cases r)
  case (TBase k)
  with assms show ?thesis
    by (auto simp: intern_ref_def ref_ok_def deref_def cup_type_get_def base_type_def cup_type_rec.simps)
next
  case (THeap j)
  with assms(2) have j: "j < length ts" by (simp add: ref_ok_def)
  let ?c = "ts ! j"
  have "ctype_ok j ?c" using assms(1) j by (simp add: types_ok_def)
  then have k: "ct_kind ?c \<in> {CUP_TYPE_POINTER, CUP_TYPE_ARRAY, CUP_TYPE_FUNCTION, CUP_TYPE_META}"
      "\<not> is_basic (ct_kind ?c)"
    by (auto simp: ctype_ok_def is_basic_def split: cup_kind.splits)
  have "cup_type_getEx ts (ct_kind ?c) (ct_size ?c) (DOwn r) 0 ts \<noteq> Inr None"
    using getEx_finds_own [of ts "[]" ts j] j THeap by simp
  then obtain r'' where get: "cup_type_getEx ts (ct_kind ?c) (ct_size ?c) (DOwn r) 0 ts = Inr (Some r'')"
      "r' = r''" "ts' = ts"
    using assms(3) k THeap j
    by (auto simp: intern_ref_def deref_def cup_type_get_def cup_type_rec.simps res_simps split: option.splits)
  with getEx_result [of ts "[]" ts "ct_kind ?c" "ct_size ?c" "DOwn r" r''] THeap
  show ?thesis by (auto simp: ref_ok_def)
qed

lemma intern_ref_no_loop:
  assumes "types_ok ts" and "ref_ok (length ts) r"
  shows "intern_ref (cup_type_rec (Suc n)) ts r \<noteq> Inl Loop"
proof (cases r)
  case (TBase k)
  with assms show ?thesis
    by (auto simp: intern_ref_def ref_ok_def deref_def cup_type_get_def base_type_def cup_type_rec.simps)
next
  case (THeap j)
  with assms(2) have j: "j < length ts" by (simp add: ref_ok_def)
  let ?c = "ts ! j"
  have "ctype_ok j ?c" using assms(1) j by (simp add: types_ok_def)
  then have k: "ct_kind ?c \<in> {CUP_TYPE_POINTER, CUP_TYPE_ARRAY, CUP_TYPE_FUNCTION, CUP_TYPE_META}"
      "\<not> is_basic (ct_kind ?c)"
    by (auto simp: ctype_ok_def is_basic_def split: cup_kind.splits)
  show ?thesis
    using getEx_finds_own [of ts "[]" ts j] getEx_no_loop [of ts "ct_kind ?c" "ct_size ?c" "DOwn r" 0 ts] k THeap j
    by (auto simp: intern_ref_def deref_def cup_type_get_def cup_type_rec.simps res_simps split: option.splits)
qed

lemma new_args_ok:
  assumes "types_ok ts" and "\<forall>s \<in> set ss. slot_ok (length ts) s"
    and "new_args (cup_type_rec (Suc n)) ts m ss = Inr (xs, ts')"
  shows "ts' = ts \<and> length xs = m \<and>
    (\<forall>x \<in> set xs. slot_ok (length ts) x \<and> x \<noteq> SNull \<and> x \<noteq> SType void_ref)"
  using assms(2,3)
proof (induction m arbitrary: ss xs)
  case 0
  then show ?case by simp
next
  case (Suc m)
  then obtain s rest where ss: "ss = s # rest" by (cases ss) auto
  show ?case
  proof (cases s)
    case SNull
    then obtain ys where ys: "new_args (cup_type_rec (Suc n)) ts m rest = Inr (ys, ts')" "xs = SJunk # ys"
      using Suc.prems(2) by (auto simp: ss res_simps)
    with Suc.IH [OF _ ys(1)] Suc.prems(1) ss show ?thesis by (auto simp: slot_ok_def)
  next
    case SJunk
    with Suc.prems(2) ss show ?thesis by simp
  next
    case (SType it)
    then obtain r ts1 ys where one: "intern_ref (cup_type_rec (Suc n)) ts it = Inr (r, ts1)"
      and ys: "new_args (cup_type_rec (Suc n)) ts1 m rest = Inr (ys, ts')" "xs = SType r # ys"
      and it: "it \<noteq> void_ref"
      using Suc.prems(2) by (auto simp: ss res_simps)
    have "ref_ok (length ts) it" using Suc.prems(1) SType ss by (auto simp: slot_ok_def)
    from intern_ref_known [OF assms(1) this one] have r: "ts1 = ts" "ref_ok (length ts) r" "r \<noteq> void_ref"
      using it by auto
    with Suc.IH [OF _ ys(1) [unfolded r(1)]] Suc.prems(1) ss ys(2) show ?thesis by (auto simp: slot_ok_def)
  qed
qed

lemma new_args_no_loop:
  assumes "types_ok ts" and "\<forall>s \<in> set ss. slot_ok (length ts) s"
  shows "new_args (cup_type_rec (Suc n)) ts m ss \<noteq> Inl Loop"
  using assms(2)
proof (induction m arbitrary: ss)
  case 0
  then show ?case by simp
next
  case (Suc m)
  show ?case
  proof (cases ss)
    case (Cons s rest)
    have ok: "ref_ok (length ts) it" if "s = SType it" for it
      using Suc.prems that Cons by (auto simp: slot_ok_def)
    have keep: "intern_ref (cup_type_rec (Suc n)) ts it = Inr (r, ts1) \<Longrightarrow> ts1 = ts" if "s = SType it" for it r ts1
      using intern_ref_known [OF assms(1) ok [OF that]] by blast
    have IH: "new_args (cup_type_rec (Suc n)) ts m rest \<noteq> Inl Loop"
      using Suc.IH Suc.prems Cons by simp
    show ?thesis
    proof (cases s)
      case (SType it)
      show ?thesis
      proof (cases "intern_ref (cup_type_rec (Suc n)) ts it")
        case (Inl e)
        with intern_ref_no_loop [OF assms(1) ok [OF SType]] SType show ?thesis
          by (auto simp: Cons res_simps guard_def)
      next
        case (Inr p)
        with keep [OF SType] have "snd p = ts" by (cases p) auto
        with Inr IH SType show ?thesis by (cases p) (auto simp: Cons res_simps)
      qed
    qed (use IH in \<open>auto simp: Cons res_simps\<close>)
  qed simp
qed

lemma data_slots_ok:
  assumes "types_ok ts" and "data_ok ts d" and "data_slots ts d = Inr ss"
  shows "\<forall>s \<in> set ss. slot_ok (length ts) s"
proof (cases d)
  case (DOwn r)
  obtain c where c: "deref ts r = Inr c" "ct_body c = BFun ss"
  proof (cases "deref ts r")
    case (Inr c)
    with DOwn assms(3) that show thesis by (cases "ct_body c") (auto simp: data_slots_def)
  qed (use DOwn assms(3) in \<open>simp add: data_slots_def\<close>)
  then obtain j where j: "r = THeap j" "j < length ts" "c = ts ! j"
    by (cases r) (auto simp: deref_def base_type_def split: if_splits)
  then have "ctype_ok j c" using assms(1) by (simp add: types_ok_def)
  then have "\<forall>s \<in> set ss. slot_ok j s"
    using c(2) by (auto simp: ctype_ok_def slot_ok_def ref_ok_def is_basic_def split: cup_kind.splits)
  with j(2) show ?thesis by (auto intro: slot_ok_mono)
qed (use assms in \<open>auto simp: data_slots_def data_ok_def\<close>)

lemma newtype_ok:
  assumes "types_ok ts" and "data_ok ts d" and "newtype (cup_type_rec (Suc n)) ts k sz d = Inr (c, ts')"
  shows "ts' = ts \<and> ctype_ok (length ts) (c\<lparr>ct_kind := k\<rparr>)"
proof -
  have arr: "\<exists>r. ts' = ts \<and> ref_ok (length ts) r \<and> ct_body c = BArr r \<and> ct_size c = (if k = CUP_TYPE_POINTER then 8 else sz)"
    if "k = CUP_TYPE_POINTER \<or> k = CUP_TYPE_ARRAY"
  proof -
    from that assms(3) obtain item r where "d = DType item"
      "intern_ref (cup_type_rec (Suc n)) ts item = Inr (r, ts')"
      "ct_body c = BArr r" "ct_size c = (if k = CUP_TYPE_POINTER then 8 else sz)"
      by (auto simp: newtype_def res_simps split: tdata.splits)
    with assms(1,2) intern_ref_known [of ts item n r ts'] show ?thesis by (auto simp: data_ok_def)
  qed
  show ?thesis
  proof (cases "k = CUP_TYPE_FUNCTION")
    case True
    obtain ret params xs where ss: "data_slots ts d = Inr (ret # params)"
        "new_args (cup_type_rec (Suc n)) ts (unat sz) params = Inr (xs, ts')"
        "ct_body c = BFun (ret # xs @ [SType void_ref])" "ct_size c = sz"
    proof (cases "data_slots ts d")
      case (Inr l)
      with assms(3) True that show thesis by (cases l) (auto simp: newtype_def res_simps)
    qed (use assms(3) True in \<open>simp add: newtype_def\<close>)
    with data_slots_ok [OF assms(1,2) ss(1)] new_args_ok [OF assms(1) _ ss(2)] True
    show ?thesis by (auto simp: ctype_ok_def)
  next
    case False
    show ?thesis
    proof (cases "k = CUP_TYPE_META")
      case True
      with assms(3) show ?thesis by (auto simp: newtype_def ctype_ok_def split: tdata.splits)
    next
      case meta: False
      with False assms(3) have "k = CUP_TYPE_POINTER \<or> k = CUP_TYPE_ARRAY"
        by (auto simp: newtype_def split: cup_kind.splits)
      with arr [OF this] show ?thesis by (auto simp: ctype_ok_def)
    qed
  qed
qed

lemma newtype_no_loop:
  assumes "types_ok ts" and "data_ok ts d"
  shows "newtype (cup_type_rec (Suc n)) ts k sz d \<noteq> Inl Loop"
proof -
  have "intern_ref (cup_type_rec (Suc n)) ts r \<noteq> Inl Loop" if "d = DType r" for r
    using intern_ref_no_loop assms that by (auto simp: data_ok_def)
  moreover have "data_slots ts d \<noteq> Inl Loop"
    by (auto simp: data_slots_def deref_def res_simps split: tdata.splits tref.splits tbody.splits)
  moreover have "new_args (cup_type_rec (Suc n)) ts m params \<noteq> Inl Loop"
    if "data_slots ts d = Inr (ret # params)" for m ret params
    using new_args_no_loop [OF assms(1)] data_slots_ok [OF assms that] by auto
  ultimately show ?thesis
    by (cases k; cases d) (auto simp: newtype_def res_simps split: list.splits)
qed

lemma cup_type_ok:
  assumes "types_ok ts" and "data_ok ts d" and "cup_type ts k sz d = Inr (r, ts')"
  shows "types_ok ts' \<and> (ts' = ts \<or> (\<exists>c. ts' = ts @ [c])) \<and> (\<exists>c. deref ts' r = Inr c \<and> ct_kind c = k)"
proof -
  have two: "cup_type = cup_type_rec (Suc (Suc 0))" by (simp add: cup_type_def numeral_2_eq_2)
  consider (old) "cup_type_get ts k sz d = Inr (Some r)" "ts' = ts"
    | (new) c where "newtype (cup_type_rec (Suc 0)) ts k sz d = Inr (c, ts)" "r = THeap (length ts)"
        "ts' = ts @ [c\<lparr>ct_kind := k\<rparr>]"
  proof (cases "cup_type_get ts k sz d")
    case (Inr found)
    show thesis
    proof (cases found)
      case None
      then obtain c ts1 where "newtype (cup_type_rec (Suc 0)) ts k sz d = Inr (c, ts1)"
        "r = THeap (length ts1)" "ts' = ts1 @ [c\<lparr>ct_kind := k\<rparr>]"
        using assms(3) Inr by (auto simp: two cup_type_rec.simps(2) [of "Suc 0"] res_simps split: if_splits)
      moreover from newtype_ok [OF assms(1,2) this(1)] have "ts1 = ts" by simp
      ultimately show thesis by (intro new) simp_all
    next
      case (Some r1)
      with assms(3) Inr show thesis by (intro old) (simp_all add: two cup_type_rec.simps(2) [of "Suc 0"])
    qed
  qed (use assms(3) in \<open>simp add: two cup_type_rec.simps(2) [of "Suc 0"]\<close>)
  then show ?thesis
  proof cases
    case old
    then show ?thesis
      using assms(1) getEx_result [of ts "[]" ts k sz d r]
      by (auto simp: cup_type_get_def deref_def base_type_def split: if_splits)
  next
    case new
    from newtype_ok [OF assms(1,2) new(1)] show ?thesis
      using assms(1) new by (auto simp: deref_def intro!: types_ok_append)
  qed
qed

lemma cup_type_no_loop:
  assumes "types_ok ts" and "data_ok ts d"
  shows "cup_type ts k sz d \<noteq> Inl Loop"
proof -
  have "cup_type_get ts k sz d \<noteq> Inl Loop"
    using getEx_no_loop by (auto simp: cup_type_get_def)
  then show ?thesis
    using newtype_no_loop [OF assms]
    by (auto simp: cup_type_def numeral_2_eq_2 cup_type_rec.simps(2) [of "Suc 0"] res_simps
        split: option.splits prod.splits)
qed

text \<open>C13: On a well-formed type table \<^verbatim>\<open>cup_type\<close> always comes back or stops the process (two levels of
  nesting are enough); when it returns, the table is well formed again, has at most one new
  entry, which is at its end, and the result is a type of the requested kind.\<close>

theorem cup_type_sound:
  assumes "types_ok ts" and "data_ok ts d"
  shows "case cup_type ts k sz d of
      Inl e \<Rightarrow> e \<noteq> Loop
    | Inr (r, ts') \<Rightarrow> types_ok ts' \<and> (ts' = ts \<or> (\<exists>c. ts' = ts @ [c])) \<and>
        (\<exists>c. deref ts' r = Inr c \<and> ct_kind c = k)"
  using cup_type_ok [OF assms] cup_type_no_loop [OF assms] by (auto split: sum.splits)

theorem cup_type_sound_witness:
  "\<exists>r. cup_type [] CUP_TYPE_ARRAY 4 (DType (TBase CUP_TYPE_INT)) = Inr (r, [\<lparr>ct_kind = CUP_TYPE_ARRAY,
     ct_align = 0, ct_size = 4, ct_body = BArr (TBase CUP_TYPE_INT)\<rparr>]) \<and> r = THeap 0 \<and>
     (case cup_type [] CUP_TYPE_ARRAY 4 (DType (TBase CUP_TYPE_INT)) of Inl e \<Rightarrow> False | Inr (r, ts') \<Rightarrow> types_ok ts')"
proof -
  have run: "cup_type [] CUP_TYPE_ARRAY 4 (DType (TBase CUP_TYPE_INT)) = Inr (THeap 0, [\<lparr>ct_kind = CUP_TYPE_ARRAY,
     ct_align = 0, ct_size = 4, ct_body = BArr (TBase CUP_TYPE_INT)\<rparr>])"
    by (simp add: cup_type_def numeral_2_eq_2 cup_type_get_def is_basic_def newtype_def intern_ref_def
        deref_def base_type_def cup_type_rec.simps)
  with cup_type_sound [of "[]" "DType (TBase CUP_TYPE_INT)" CUP_TYPE_ARRAY 4] show ?thesis
    by (auto simp: types_ok_def data_ok_def ref_ok_def is_basic_def)
qed

section \<open>Function types are entered once\<close>

definition funs_distinct :: "types \<Rightarrow> bool" where
  "funs_distinct ts \<longleftrightarrow>
     (\<forall>j < length ts. \<forall>i < j. ct_kind (ts ! j) = CUP_TYPE_FUNCTION \<longrightarrow> ct_kind (ts ! i) = CUP_TYPE_FUNCTION \<longrightarrow>
        ct_size (ts ! i) = ct_size (ts ! j) \<longrightarrow> ct_body (ts ! i) \<noteq> ct_body (ts ! j))"

lemma slots_differ_False:
  "slots_differ n xs ys = Inr False \<Longrightarrow> n \<le> length xs \<and> n \<le> length ys \<and> take n xs = take n ys"
  by (induction n xs ys rule: slots_differ.induct) (auto split: if_splits)

lemma slots_differ_refl:
  "\<forall>x \<in> set xs. x \<noteq> SJunk \<Longrightarrow> slots_differ (length xs) (xs @ ys) (xs @ zs) = Inr False"
  by (induction xs) auto

lemma slots_differ_True: "slots_differ n xs ys = Inr True \<Longrightarrow> take n xs \<noteq> take n ys"
  by (induction n xs ys rule: slots_differ.induct) (auto split: if_splits)

lemma function_body:
  assumes "types_ok ts" and "j < length ts" and "ct_kind (ts ! j) = CUP_TYPE_FUNCTION"
  shows "\<exists>xs. ct_body (ts ! j) = BFun (xs @ [SType void_ref]) \<and> length xs = Suc (unat (ct_size (ts ! j)))"
proof -
  have "ctype_ok j (ts ! j)" using assms by (simp add: types_ok_def)
  then obtain ret xs where "ct_body (ts ! j) = BFun (ret # xs @ [SType void_ref])"
      "length xs = unat (ct_size (ts ! j))"
    using assms(3) by (auto simp: ctype_ok_def)
  then show ?thesis by (intro exI [of _ "ret # xs"]) simp
qed

text \<open>Where a search ends: at the type the data belongs to, or at a function type with the same slots.\<close>

lemma getEx_Some_cases:
  assumes "ts = pre @ cs" and "cup_type_getEx ts k sz d (length pre) cs = Inr (Some r)"
  obtains j where "r = THeap j" and "j < length ts" and "ct_kind (ts ! j) = k" and "ct_size (ts ! j) = sz"
    and "d = DOwn (THeap j) \<or> k = CUP_TYPE_FUNCTION \<and> (\<exists>xs ys. data_slots ts (DOwn (THeap j)) = Inr xs \<and>
      data_slots ts d = Inr ys \<and> slots_differ (Suc (unat sz)) xs ys = Inr False)"
  using assms
proof (induction cs arbitrary: pre thesis)
  case Nil
  then show ?case by simp
next
  case (Cons c cs)
  have step: "ts = (pre @ [c]) @ cs" using Cons.prems(2) by simp
  have here: "ts ! length pre = c" "length pre < length ts" using Cons.prems(2) by auto
  show ?case
  proof (cases "cup_type_getEx ts k sz d (length (pre @ [c])) cs = Inr (Some r)")
    case True
    show ?thesis by (rule Cons.IH [OF Cons.prems(1) step True])
  next
    case False
    with Cons.prems(3) have "r = THeap (length pre)" "ct_kind c = k" "ct_size c = sz"
      "d = DOwn (THeap (length pre)) \<or> k = CUP_TYPE_FUNCTION \<and> (\<exists>xs ys. data_slots ts (DOwn (THeap (length pre))) = Inr xs \<and>
        data_slots ts d = Inr ys \<and> slots_differ (Suc (unat sz)) xs ys = Inr False)"
      by (auto simp: res_simps split: if_splits)
    with here show ?thesis by (intro Cons.prems(1)) auto
  qed
qed

lemma getEx_own:
  assumes "types_ok ts" and "funs_distinct ts" and "j < length ts"
    and "cup_type_getEx ts (ct_kind (ts ! j)) (ct_size (ts ! j)) (DOwn (THeap j)) 0 ts = Inr (Some r)"
  shows "r = THeap j"
proof -
  let ?k = "ct_kind (ts ! j)" and ?sz = "ct_size (ts ! j)"
  obtain i where i: "r = THeap i" "i < length ts" "ct_kind (ts ! i) = ?k" "ct_size (ts ! i) = ?sz"
      "DOwn (THeap j) = DOwn (THeap i) \<or> ?k = CUP_TYPE_FUNCTION \<and>
        (\<exists>xs ys. data_slots ts (DOwn (THeap i)) = Inr xs \<and> data_slots ts (DOwn (THeap j)) = Inr ys \<and>
          slots_differ (Suc (unat ?sz)) xs ys = Inr False)"
    by (rule getEx_Some_cases [of ts "[]" ts, OF _ ]) (use assms(4) in auto)
  show ?thesis
  proof (cases "i = j")
    case False
    with i obtain xs ys where sl: "?k = CUP_TYPE_FUNCTION" "data_slots ts (DOwn (THeap i)) = Inr xs"
        "data_slots ts (DOwn (THeap j)) = Inr ys" "slots_differ (Suc (unat ?sz)) xs ys = Inr False"
      by auto
    obtain as where as: "ct_body (ts ! i) = BFun (as @ [SType void_ref])" "length as = Suc (unat ?sz)"
      using function_body [OF assms(1) i(2)] i sl(1) by auto
    obtain bs where bs: "ct_body (ts ! j) = BFun (bs @ [SType void_ref])" "length bs = Suc (unat ?sz)"
      using function_body [OF assms(1,3)] sl(1) by auto
    have "xs = as @ [SType void_ref]" "ys = bs @ [SType void_ref]"
      using sl(2,3) as(1) bs(1) i(2) assms(3) by (auto simp: data_slots_def deref_def)
    then have "ct_body (ts ! i) = ct_body (ts ! j)"
      using slots_differ_False [OF sl(4)] as bs by auto
    then show ?thesis
      using assms(2,3) i False sl(1) unfolding funs_distinct_def by (metis linorder_neqE_nat)
  qed (use i in simp)
qed

lemma intern_ref_same:
  assumes "types_ok ts" and "funs_distinct ts" and "ref_ok (length ts) r"
    and "intern_ref (cup_type_rec (Suc n)) ts r = Inr (r', ts')"
  shows "r' = r \<and> ts' = ts"
proof (cases r)
  case (TBase k)
  with assms show ?thesis
    by (auto simp: intern_ref_def ref_ok_def deref_def cup_type_get_def base_type_def cup_type_rec.simps)
next
  case (THeap j)
  with assms(3) have j: "j < length ts" by (simp add: ref_ok_def)
  let ?c = "ts ! j"
  have "ctype_ok j ?c" using assms(1) j by (simp add: types_ok_def)
  then have k: "ct_kind ?c \<in> {CUP_TYPE_POINTER, CUP_TYPE_ARRAY, CUP_TYPE_FUNCTION, CUP_TYPE_META}"
      "\<not> is_basic (ct_kind ?c)"
    by (auto simp: ctype_ok_def is_basic_def split: cup_kind.splits)
  have "cup_type_getEx ts (ct_kind ?c) (ct_size ?c) (DOwn r) 0 ts \<noteq> Inr None"
    using getEx_finds_own [of ts "[]" ts j] j THeap by simp
  then have "cup_type_getEx ts (ct_kind ?c) (ct_size ?c) (DOwn r) 0 ts = Inr (Some r')" "ts' = ts"
    using assms(4) k THeap j
    by (auto simp: intern_ref_def deref_def cup_type_get_def cup_type_rec.simps res_simps split: option.splits)
  with getEx_own [OF assms(1,2) j] THeap show ?thesis by simp
qed

lemma new_args_take:
  "new_args rec ts (length ss) (ss @ rest) = new_args rec ts (length ss) ss"
  by (induction ss arbitrary: ts) (simp_all split: slot.splits)

lemma new_args_same:
  assumes "types_ok ts" and "funs_distinct ts"
    and "\<forall>p \<in> set ps. ref_ok (length ts) p"
    and "new_args (cup_type_rec (Suc n)) ts (length ps) (map SType ps @ rest) = Inr (xs, ts')"
  shows "xs = map SType ps \<and> ts' = ts"
  using assms(3,4)
proof (induction ps arbitrary: xs)
  case (Cons p ps)
  then obtain r ts1 ys where one: "intern_ref (cup_type_rec (Suc n)) ts p = Inr (r, ts1)"
    and ys: "new_args (cup_type_rec (Suc n)) ts1 (length ps) (map SType ps @ rest) = Inr (ys, ts')"
      "xs = SType r # ys"
    by (auto simp: res_simps)
  have "r = p \<and> ts1 = ts" using intern_ref_same [OF assms(1,2) _ one] Cons.prems(1) by simp
  with Cons.IH ys Cons.prems(1) show ?case by simp
qed simp

lemma getEx_None_function:
  assumes "ts = pre @ cs" and "cup_type_getEx ts CUP_TYPE_FUNCTION sz (DSlots ss) (length pre) cs = Inr None"
    and "length pre \<le> j" and "j < length ts" and "ct_kind (ts ! j) = CUP_TYPE_FUNCTION" and "ct_size (ts ! j) = sz"
    and "ct_body (ts ! j) = BFun xs"
  shows "take (Suc (unat sz)) xs \<noteq> take (Suc (unat sz)) ss"
  using assms
proof (induction cs arbitrary: pre)
  case (Cons c cs)
  have step: "ts = (pre @ [c]) @ cs" using Cons.prems(1) by simp
  show ?case
  proof (cases "j = length pre")
    case True
    then have "c = ts ! j" using Cons.prems(1) by simp
    with Cons.prems True have "slots_differ (Suc (unat sz)) xs ss = Inr True"
      by (auto simp: data_slots_def deref_def res_simps split: if_splits)
    then show ?thesis by (rule slots_differ_True)
  next
    case False
    with Cons.prems have "length (pre @ [c]) \<le> j" by simp
    moreover have "cup_type_getEx ts CUP_TYPE_FUNCTION sz (DSlots ss) (length (pre @ [c])) cs = Inr None"
      using Cons.prems(2) by (auto simp: res_simps split: if_splits)
    ultimately show ?thesis using Cons.IH [OF step] Cons.prems(4-7) by blast
  qed
qed simp

lemma getEx_append_None:
  assumes "ts = pre @ cs" and "cup_type_getEx ts k sz (DSlots ss) (length pre) cs = Inr None"
  shows "cup_type_getEx (ts @ [x]) k sz (DSlots ss) (length pre) (cs @ [x]) =
    cup_type_getEx (ts @ [x]) k sz (DSlots ss) (length ts) [x]"
  using assms
proof (induction cs arbitrary: pre)
  case (Cons c cs)
  have step: "ts = (pre @ [c]) @ cs" using Cons.prems(1) by simp
  have same: "data_slots (ts @ [x]) (DOwn (THeap (length pre))) = data_slots ts (DOwn (THeap (length pre)))"
    using Cons.prems(1) by (simp add: data_slots_def deref_def nth_append)
  have "cup_type_getEx ts k sz (DSlots ss) (length (pre @ [c])) cs = Inr None"
    using Cons.prems(2) by (auto simp: res_simps split: if_splits)
  from Cons.IH [OF step this] Cons.prems(2) show ?case
    by (auto simp: res_simps same data_slots_def [of _ "DSlots ss"] split: if_splits)
qed simp

text \<open>C24: Function types are entered once. When \<^verbatim>\<open>cup_type\<close> returns for a return type and parameter
  types of the table, the result has exactly these, the table still has no two equal function
  types, and asking again gives the same type and leaves the table alone.\<close>

theorem function_type_interned:
  assumes "types_ok ts" and "funs_distinct ts" and "ref_ok (length ts) ret" and "\<forall>p \<in> set ps. ref_ok (length ts) p"
    and "length ps < 2 ^ 16"
    and "cup_type ts CUP_TYPE_FUNCTION (of_nat (length ps)) (DSlots (SType ret # map SType ps @ rest)) = Inr (r, ts')"
  shows "(\<exists>c. deref ts' r = Inr c \<and> ct_body c = BFun (SType ret # map SType ps @ [SType void_ref])) \<and>
    types_ok ts' \<and> funs_distinct ts' \<and>
    cup_type ts' CUP_TYPE_FUNCTION (of_nat (length ps)) (DSlots (SType ret # map SType ps @ rest)) = Inr (r, ts')"
proof -
  let ?sz = "of_nat (length ps) :: u16"
  let ?ss = "SType ret # map SType ps @ rest"
  have sz: "unat ?sz = length ps" using assms(5) by (simp add: unat_of_nat_small)
  have two: "cup_type = cup_type_rec (Suc (Suc 0))" by (simp add: cup_type_def numeral_2_eq_2)
  have run: "cup_type us CUP_TYPE_FUNCTION ?sz (DSlots ?ss) =
      rbind (cup_type_getEx us CUP_TYPE_FUNCTION ?sz (DSlots ?ss) 0 us) (\<lambda>found.
        case found of Some r \<Rightarrow> Inr (r, us)
        | None \<Rightarrow> rbind (newtype (cup_type_rec (Suc 0)) us CUP_TYPE_FUNCTION ?sz (DSlots ?ss)) (\<lambda>(c, us).
            Inr (THeap (length us), us @ [c\<lparr>ct_kind := CUP_TYPE_FUNCTION\<rparr>])))" for us
    by (simp add: two cup_type_rec.simps(2) [of "Suc 0"] cup_type_get_def is_basic_def cong: option.case_cong)
  show ?thesis
  proof (cases "cup_type_getEx ts CUP_TYPE_FUNCTION ?sz (DSlots ?ss) 0 ts")
    case (Inl e)
    with assms(6) show ?thesis by (simp add: run)
  next
    case (Inr found)
    show ?thesis
    proof (cases found)
      case (Some r1)
      then have r: "r1 = r" "ts' = ts" using assms(6) Inr by (simp_all add: run)
      obtain j where j: "r = THeap j" "j < length ts" "ct_kind (ts ! j) = CUP_TYPE_FUNCTION" "ct_size (ts ! j) = ?sz"
          "\<exists>xs ys. data_slots ts (DOwn (THeap j)) = Inr xs \<and> data_slots ts (DSlots ?ss) = Inr ys \<and>
             slots_differ (Suc (unat ?sz)) xs ys = Inr False"
        by (rule getEx_Some_cases [of ts "[]" ts]) (use Inr Some r in auto)
      obtain as where as: "ct_body (ts ! j) = BFun (as @ [SType void_ref])" "length as = Suc (unat ?sz)"
        using function_body [OF assms(1) j(2,3)] j(4) by auto
      have "take (Suc (length ps)) (as @ [SType void_ref]) = take (Suc (length ps)) ?ss"
        using j(2,5) as by (auto simp: data_slots_def deref_def sz dest!: slots_differ_False)
      then have "as = SType ret # map SType ps" using as(2) by (simp add: sz)
      then show ?thesis
        using assms(1,2) j(1,2) as(1) Inr Some r by (simp add: deref_def run)
    next
      case None
      obtain c ts1 where nt: "newtype (cup_type_rec (Suc 0)) ts CUP_TYPE_FUNCTION ?sz (DSlots ?ss) = Inr (c, ts1)"
          "r = THeap (length ts1)" "ts' = ts1 @ [c\<lparr>ct_kind := CUP_TYPE_FUNCTION\<rparr>]"
        using assms(6) Inr None by (auto simp: run res_simps)
      then obtain xs where xs: "new_args (cup_type_rec (Suc 0)) ts (length ps) (map SType ps @ rest) = Inr (xs, ts1)"
          "c = \<lparr>ct_kind = CUP_TYPE_FUNCTION, ct_align = 0, ct_size = ?sz,
             ct_body = BFun (SType ret # xs @ [SType void_ref])\<rparr>"
        by (auto simp: newtype_def data_slots_def sz res_simps)
      have "new_args (cup_type_rec (Suc 0)) ts (length ps) (map SType ps) = Inr (xs, ts1)"
        using xs(1) new_args_take [of "cup_type_rec (Suc 0)" ts "map SType ps" rest] by simp
      from new_args_ok [OF assms(1) _ this] assms(4) have data_ok: "\<forall>x \<in> set xs. x \<noteq> SType void_ref"
        by (auto simp: slot_ok_def)
      have same: "xs = map SType ps" "ts1 = ts" using new_args_same [OF assms(1,2,4) xs(1)] by auto
      let ?c = "c\<lparr>ct_kind := CUP_TYPE_FUNCTION\<rparr>"
      have body: "ct_body ?c = BFun (SType ret # map SType ps @ [SType void_ref])" by (simp add: xs(2) same)
      have "ctype_ok (length ts) ?c"
        using assms(3,4) data_ok by (auto simp: xs(2) same ctype_ok_def slot_ok_def sz)
      then have ok: "types_ok ts'" using assms(1) nt(3) same(2) by (auto intro: types_ok_append)
      have "ct_body (ts ! i) \<noteq> ct_body ?c" if "i < length ts" "ct_kind (ts ! i) = CUP_TYPE_FUNCTION" "ct_size (ts ! i) = ?sz" for i
        using getEx_None_function [of ts "[]" ts ?sz ?ss i "SType ret # map SType ps @ [SType void_ref]"] that Inr None
        by (auto simp: body sz)
      then have dist: "funs_distinct ts'"
        using assms(2) by (auto simp: funs_distinct_def nt(3) same(2) nth_append xs(2) less_Suc_eq)
      have "slots_differ (Suc (length ps)) (SType ret # map SType ps @ [SType void_ref]) ?ss = Inr False"
        using slots_differ_refl [of "SType ret # map SType ps" "[SType void_ref]" rest] by auto
      then have "cup_type_getEx ts' CUP_TYPE_FUNCTION ?sz (DSlots ?ss) 0 ts' = Inr (Some (THeap (length ts)))"
        using getEx_append_None [of ts "[]" ts CUP_TYPE_FUNCTION ?sz ?ss ?c] Inr None
        by (simp add: nt(3) same data_slots_def deref_def body sz xs(2))
      then show ?thesis
        using ok dist body nt(2,3) same(2) by (simp add: run deref_def)
    qed
  qed
qed

theorem function_type_interned_witness:
  "\<exists>r ts. cup_type [] CUP_TYPE_FUNCTION 1 (DSlots [SType (TBase CUP_TYPE_INT), SType (TBase CUP_TYPE_UINT8)]) = Inr (r, ts) \<and>
     cup_type ts CUP_TYPE_FUNCTION 1 (DSlots [SType (TBase CUP_TYPE_INT), SType (TBase CUP_TYPE_UINT8)]) = Inr (r, ts)"
proof -
  let ?d = "DSlots [SType (TBase CUP_TYPE_INT), SType (TBase CUP_TYPE_UINT8)]"
  have "\<exists>r ts. cup_type [] CUP_TYPE_FUNCTION 1 ?d = Inr (r, ts)"
    by (simp add: cup_type_def numeral_2_eq_2 cup_type_get_def is_basic_def newtype_def intern_ref_def
        deref_def base_type_def cup_type_rec.simps data_slots_def)
  then obtain r ts where run: "cup_type [] CUP_TYPE_FUNCTION 1 ?d = Inr (r, ts)" by blast
  have "cup_type ts CUP_TYPE_FUNCTION 1 ?d = Inr (r, ts)"
    using function_type_interned [of "[]" "TBase CUP_TYPE_INT" "[TBase CUP_TYPE_UINT8]" "[]" r ts] run
    by (simp add: types_ok_def funs_distinct_def ref_ok_def is_basic_def)
  with run show ?thesis by blast
qed

text \<open>A second array type of the same length stops the compiler: once the table has an array type
  of some length, asking for an array of that length of whatever element type, even the same
  one, is \<^verbatim>\<open>exit(1)\<close>. Pointer types behave the same.\<close>

theorem second_array_type_exits:
  assumes "j < length ts" and "ct_kind (ts ! j) = k" and "k = CUP_TYPE_ARRAY \<or> k = CUP_TYPE_POINTER"
  shows "cup_type ts k (ct_size (ts ! j)) (DType r) = Inl (Exit 1)"
proof -
  have "cup_type_getEx us k (ct_size (ts ! j)) (DType r) i cs = Inl (Exit 1)"
    if "\<exists>c \<in> set cs. ct_kind c = k \<and> ct_size c = ct_size (ts ! j)" for us i cs
    using that assms(3) by (induction cs arbitrary: i) auto
  with assms have "cup_type_getEx ts k (ct_size (ts ! j)) (DType r) 0 ts = Inl (Exit 1)"
    by (metis nth_mem)
  then show ?thesis
    using assms(3) by (auto simp: cup_type_def numeral_2_eq_2 cup_type_get_def is_basic_def cup_type_rec.simps(2) [of "Suc 0"])
qed

theorem second_array_type_exits_witness:
  "cup_type [\<lparr>ct_kind = CUP_TYPE_ARRAY, ct_align = 0, ct_size = 2, ct_body = BArr (TBase CUP_TYPE_INT)\<rparr>]
     CUP_TYPE_ARRAY 2 (DType (TBase CUP_TYPE_INT)) = Inl (Exit 1)"
  using second_array_type_exits [of 0 "[\<lparr>ct_kind = CUP_TYPE_ARRAY, ct_align = 0, ct_size = 2, ct_body = BArr (TBase CUP_TYPE_INT)\<rparr>]"
    CUP_TYPE_ARRAY "TBase CUP_TYPE_INT"]
  by simp

section \<open>Signatures\<close>

text \<open>The notation of the simple types, and of a signature over them.\<close>

definition code_of :: "cup_kind \<Rightarrow> string" where
  "code_of k =
     (case k of
        CUP_TYPE_VOID \<Rightarrow> ''v'' | CUP_TYPE_INT \<Rightarrow> ''i'' | CUP_TYPE_FLOAT \<Rightarrow> ''f'' | CUP_TYPE_DOUBLE \<Rightarrow> ''d''
      | CUP_TYPE_UINT8 \<Rightarrow> ''u8'' | CUP_TYPE_SINT8 \<Rightarrow> ''s8'' | CUP_TYPE_UINT16 \<Rightarrow> ''u16'' | CUP_TYPE_SINT16 \<Rightarrow> ''s16''
      | CUP_TYPE_UINT32 \<Rightarrow> ''u32'' | CUP_TYPE_SINT32 \<Rightarrow> ''s32'' | CUP_TYPE_UINT64 \<Rightarrow> ''u64''
      | CUP_TYPE_SINT64 \<Rightarrow> ''s64'' | _ \<Rightarrow> [])"

fun args_sig :: "cup_kind list \<Rightarrow> string" where
  "args_sig [] = '')''"
| "args_sig [k] = code_of k @ '')''"
| "args_sig (k # ks) = code_of k @ '','' @ args_sig ks"

lemma code_of_facts:
  assumes "is_basic k"
  shows "\<forall>c \<in> set (code_of k). isalnum c" and "type_code (code_of k) = Some k" and "code_of k \<noteq> ''p''"
    and "code_of k \<noteq> []"
  using assms by (auto simp: is_basic_def code_of_def isalnum_def char_between_def type_code_def)

lemma parse_one_simple:
  assumes "is_basic k" and "\<not> isalnum (cur rest)" and "cur rest \<noteq> CHR ''*''"
  shows "parse_one_type ts (code_of k @ rest) = Inr (Some (TBase k), rest, ts)"
proof -
  have "takeWhile isalnum rest = []" "dropWhile isalnum rest = rest" using assms(2) by (cases rest; simp)+
  then have "takeWhile isalnum (code_of k @ rest) = code_of k" "dropWhile isalnum (code_of k @ rest) = rest"
    using code_of_facts(1) [OF assms(1)] by simp_all
  moreover have "parse_stars ts (TBase k) rest = Inr (TBase k, rest, ts)"
    using assms(3) by (cases rest) auto
  ultimately show ?thesis
    using code_of_facts(2,3) [OF assms(1)] by (simp add: parse_one_type_def Let_def)
qed

lemma not_isalnum: "\<not> isalnum (CHR '','')" "\<not> isalnum (CHR '')'')" "\<not> isalnum (CHR ''('')" "\<not> isalnum NUL"
  by (simp_all add: isalnum_def char_between_def)

lemma parse_args_simple:
  assumes "ks \<noteq> []" and "\<forall>k \<in> set ks. is_basic k" and "length ks \<le> room"
  shows "parse_args room ts (args_sig ks) acc = Inr (acc @ map TBase ks, '')'', ts)"
  using assms
proof (induction ks arbitrary: room acc rule: args_sig.induct)
  case (2 k)
  then show ?case using parse_one_simple [of k "'')''" ts] by (cases room) (auto simp: not_isalnum)
next
  case (3 k k' ks)
  then obtain room' where room: "room = Suc room'" by (cases room) auto
  have "parse_one_type ts (args_sig (k # k' # ks)) = Inr (Some (TBase k), '','' @ args_sig (k' # ks), ts)"
    using parse_one_simple [of k "'','' @ args_sig (k' # ks)" ts] "3.prems" by (simp add: not_isalnum)
  then show ?case using 3 by (simp add: room del: args_sig.simps)
qed simp



section \<open>The printed name\<close>

text \<open>The full name of a type, with no bound on its length.\<close>

fun slot_ref :: "slot \<Rightarrow> tref option" where
  "slot_ref (SType r) = Some r"
| "slot_ref _ = None"

fun join_names :: "string list \<Rightarrow> string" where
  "join_names [] = []"
| "join_names [x] = x"
| "join_names (x # xs) = x @ '', '' @ join_names xs"

definition body_name :: "(tref option \<Rightarrow> string) \<Rightarrow> ctype \<Rightarrow> string" where
  "body_name rec c =
     (case (ct_kind c, ct_body c) of
        (CUP_TYPE_POINTER, BArr r) \<Rightarrow> rec (Some r) @ ''*''
      | (CUP_TYPE_ARRAY, BArr r) \<Rightarrow> rec (Some r) @ ''[]''
      | (CUP_TYPE_FUNCTION, BFun (ret # ps)) \<Rightarrow>
          rec (slot_ref ret) @ ''('' @ join_names (map (\<lambda>x. rec (slot_ref x)) (butlast ps)) @ '')''
      | (CUP_TYPE_META, b) \<Rightarrow> ''meta ( '' @ numeral_in 10 (unat (ct_size c)) @ '' )''
      | (k, b) \<Rightarrow> kind_name k)"

primrec type_name :: "nat \<Rightarrow> types \<Rightarrow> tref option \<Rightarrow> string" where
  "type_name 0 ts r = []"
| "type_name (Suc n) ts r =
     (case r of
        None \<Rightarrow> ''null''
      | Some (TBase k) \<Rightarrow> kind_name k
      | Some (THeap i) \<Rightarrow> body_name (type_name n ts) (ts ! i))"

text \<open>
  The buffer \<open>b\<close> became \<open>b'\<close> by writing \<open>maxlen\<close> bytes at most from \<open>s\<close> on, of which the first
  \<open>n\<close> are the beginning of \<open>name\<close>: all of it, or as much as leaves room for a terminator.
\<close>

definition printed :: "string \<Rightarrow> nat \<Rightarrow> nat \<Rightarrow> string \<Rightarrow> string \<Rightarrow> nat \<Rightarrow> bool" where
  "printed b s maxlen name b' n \<longleftrightarrow>
     length b' = length b \<and> (\<forall>i < length b. i < s \<or> s + maxlen \<le> i \<longrightarrow> b' ! i = b ! i) \<and>
     n = min (length name) (maxlen - 1) \<and> (\<forall>i < n. b' ! (s + i) = name ! i)"

lemma printedD:
  assumes "printed b s maxlen name b' n"
  shows "length b' = length b" and "i < length b \<Longrightarrow> i < s \<or> s + maxlen \<le> i \<Longrightarrow> b' ! i = b ! i"
    and "n = min (length name) (maxlen - 1)" and "i < n \<Longrightarrow> b' ! (s + i) = name ! i" and "n \<le> length name"
  using assms by (auto simp: printed_def)

lemma buf_write_nth:
  assumes "buf_write b at cs = Inr b'"
  shows "length b' = length b \<and>
    (\<forall>i < length b. b' ! i = (if at \<le> i \<and> i < at + length cs then cs ! (i - at) else b ! i))"
  using assms by (auto simp: buf_write_def nth_append split: if_splits)

lemma buf_write_ok: "at + length cs \<le> length b \<Longrightarrow> \<exists>b'. buf_write b at cs = Inr b'"
  by (simp add: buf_write_def)

lemma printed_init: "printed b s maxlen [] b 0"
  by (simp add: printed_def)

lemma printed_append_literal:
  assumes "printed b0 s maxlen name b n" and "0 < maxlen" and "s + maxlen \<le> length b0"
  shows "\<exists>b' n'. append_literal lit b s maxlen n = Inr (b', n') \<and> printed b0 s maxlen (name @ lit) b' n'"
proof -
  have n: "n = min (length name) (maxlen - 1)" "n < maxlen" and len: "length b = length b0"
    using assms(1,2) by (auto simp: printed_def)
  define copy where "copy = (if length lit < maxlen - n then length lit else maxlen - n - 1)"
  let ?cs = "take (copy + 1) (lit @ [NUL])"
  have cs: "length ?cs \<le> copy + 1" "n + copy < maxlen" "copy \<le> length lit"
    using n(2) by (auto simp: copy_def)
  obtain b' where b': "buf_write b (s + n) ?cs = Inr b'"
    using buf_write_ok [of "s + n" ?cs b] cs assms(3) len by auto
  note w = buf_write_nth [OF b']
  have "append_literal lit b s maxlen n = Inr (b', n + copy)"
    using n(2) b' by (simp add: append_literal_def Let_def copy_def)
  moreover have "printed b0 s maxlen (name @ lit) b' (n + copy)"
    unfolding printed_def
  proof (intro conjI allI impI)
    show "length b' = length b0" using w len by simp
    fix i assume "i < length b0" "i < s \<or> s + maxlen \<le> i"
    moreover from this have "\<not> (s + n \<le> i \<and> i < s + n + length ?cs)" using cs by auto
    ultimately show "b' ! i = b0 ! i" using w len assms(1) by (auto simp: printed_def)
  next
    show "n + copy = min (length (name @ lit)) (maxlen - 1)" using n by (auto simp: copy_def min_def)
  next
    fix i assume i: "i < n + copy"
    have range: "s + i < length b" using i cs(2) assms(3) len by simp
    show "b' ! (s + i) = (name @ lit) ! i"
    proof (cases "i < n")
      case True
      then have "b' ! (s + i) = b ! (s + i)" using w range by simp
      with True printedD(4,5) [OF assms(1)] show ?thesis by (simp add: nth_append)
    next
      case False
      with i cs(3) have "i - n < length lit" "i - n < copy" by auto
      moreover from this have "0 < copy" by simp
      then have "maxlen - n \<noteq> 1" by (auto simp: copy_def split: if_splits)
      then have "n = length name" using n assms(2) by (auto simp: min_def split: if_splits)
      ultimately show ?thesis using w range False i
        by (auto simp: nth_append)
    qed
  qed
  ultimately show ?thesis by blast
qed

lemma printed_trans:
  assumes "printed b0 s maxlen name b n" and "printed b (s + n) (maxlen - n) name' b' n'" and "0 < maxlen"
    and "s + maxlen \<le> length b0"
  shows "printed b0 s maxlen (name @ name') b' (n + n')"
proof -
  have n: "n = min (length name) (maxlen - 1)" "n' = min (length name') (maxlen - n - 1)"
    and len: "length b = length b0" "length b' = length b0"
    using assms(1,2) by (auto simp: printed_def)
  show ?thesis
    unfolding printed_def
  proof (intro conjI allI impI)
    show "length b' = length b0" by (rule len)
    fix i assume "i < length b0" "i < s \<or> s + maxlen \<le> i"
    moreover from this have "i < s + n \<or> s + n + (maxlen - n) \<le> i" by auto
    ultimately have "b' ! i = b ! i" "b ! i = b0 ! i"
      using printedD(2) [OF assms(1), of i] printedD(2) [OF assms(2), of i] len \<open>i < s \<or> s + maxlen \<le> i\<close>
      by simp_all
    then show "b' ! i = b0 ! i" by simp
  next
    show "n + n' = min (length (name @ name')) (maxlen - 1)" using n assms(3) by (auto simp: min_def)
  next
    fix i assume i: "i < n + n'"
    show "b' ! (s + i) = (name @ name') ! i"
    proof (cases "i < n")
      case True
      then have "s + i < length b" "s + i < s + n" using n(1) assms(3,4) len by auto
      then have "b' ! (s + i) = b ! (s + i)" using printedD(2) [OF assms(2), of "s + i"] by blast
      with True printedD(4,5) [OF assms(1)] show ?thesis by (simp add: nth_append)
    next
      case False
      then have "i - n < n'" using i by auto
      moreover from this have "n = length name" using n by (auto simp: min_def split: if_splits)
      moreover have "b' ! (s + n + (i - n)) = name' ! (i - n)"
        using assms(2) \<open>i - n < n'\<close> by (simp add: printed_def)
      ultimately show ?thesis using False by (simp add: nth_append)
    qed
  qed
qed

lemma printed_terminate:
  assumes "printed b0 s maxlen name b n" and "0 < maxlen" and "s + maxlen \<le> length b0"
  shows "\<exists>b'. buf_write b (s + n) [NUL] = Inr b' \<and> printed b0 s maxlen name b' n \<and> b' ! (s + n) = NUL"
proof -
  have n: "n < maxlen" and len: "length b = length b0" using assms(1,2) by (auto simp: printed_def)
  obtain b' where b': "buf_write b (s + n) [NUL] = Inr b'"
    using buf_write_ok [of "s + n" "[NUL]" b] n assms(3) len by auto
  note w = buf_write_nth [OF b']
  have "printed b0 s maxlen name b' n"
    unfolding printed_def
  proof (intro conjI allI impI)
    show "length b' = length b0" using w len by simp
    show "n = min (length name) (maxlen - 1)" by (rule printedD(3) [OF assms(1)])
    fix i assume i: "i < length b0" "i < s \<or> s + maxlen \<le> i"
    then have "b' ! i = b ! i" using w len n by auto
    then show "b' ! i = b0 ! i" using printedD(2) [OF assms(1) i] by simp
  next
    fix i assume i: "i < n"
    then have "b' ! (s + i) = b ! (s + i)" using w len n assms(3) by simp
    then show "b' ! (s + i) = name ! i" using printedD(4) [OF assms(1) i] by simp
  qed
  moreover have "b' ! (s + n) = NUL" using w n assms(3) len by simp
  ultimately show ?thesis using b' by blast
qed

text \<open>No slot of a function type was left unwritten.\<close>

definition no_junk :: "types \<Rightarrow> bool" where
  "no_junk ts \<longleftrightarrow> (\<forall>c \<in> set ts. \<forall>ss. ct_body c = BFun ss \<longrightarrow> SJunk \<notin> set ss)"

lemma join_names_snoc:
  "join_names (xs @ [x]) = (if xs = [] then x else join_names xs @ '', '' @ x)"
  by (induction xs rule: join_names.induct) auto

text \<open>A printer that prints the names \<open>nm\<close> of the types below \<open>m\<close>.\<close>

definition prints_ok ::
  "(string \<Rightarrow> nat \<Rightarrow> nat \<Rightarrow> tref option \<Rightarrow> (string \<times> nat) res) \<Rightarrow> (tref option \<Rightarrow> string) \<Rightarrow> nat \<Rightarrow> bool" where
  "prints_ok rec nm m \<longleftrightarrow>
     (\<forall>r b s maxlen. (\<forall>t. r = Some t \<longrightarrow> ref_ok m t) \<longrightarrow> 0 < maxlen \<longrightarrow> s + maxlen \<le> length b \<longrightarrow>
        (\<exists>b' n. rec b s maxlen r = Inr (b', n) \<and> printed b s maxlen (nm r) b' n))"

lemma prints_okD:
  "prints_ok rec nm m \<Longrightarrow> (\<And>t. r = Some t \<Longrightarrow> ref_ok m t) \<Longrightarrow> 0 < maxlen \<Longrightarrow> s + maxlen \<le> length b \<Longrightarrow>
    \<exists>b' n. rec b s maxlen r = Inr (b', n) \<and> printed b s maxlen (nm r) b' n"
  by (simp add: prints_ok_def)

lemma snname_params_ok:
  assumes rec: "prints_ok rec nm m"
    and "0 < maxlen" and "s + maxlen \<le> length b0"
    and "printed b0 s maxlen (pre @ join_names done) b n"
    and "\<forall>x \<in> set xs. slot_ok m x \<and> x \<noteq> SType void_ref \<and> x \<noteq> SJunk"
  shows "\<exists>b' n'. snname_params rec b s maxlen n (length done) (xs @ [SType void_ref]) = Inr (b', n') \<and>
    printed b0 s maxlen (pre @ join_names (done @ map (\<lambda>x. nm (slot_ref x)) xs)) b' n'"
  using assms(4,5)
proof (induction xs arbitrary: b n "done")
  case Nil
  then show ?case by simp
next
  case (Cons x xs)
  let ?r = "slot_ref x"
  have r: "\<And>t. ?r = Some t \<Longrightarrow> ref_ok m t"
    using Cons.prems(2) by (cases x) (auto simp: slot_ok_def)
  obtain b1 n1 where sep: "(if length done \<noteq> 0 then append_literal '', '' b s maxlen n else Inr (b, n)) = Inr (b1, n1)"
      "printed b0 s maxlen (pre @ join_names done @ (if done = [] then [] else '', '')) b1 n1"
  proof (cases "done = []")
    case True
    with Cons.prems(1) that show thesis by simp
  next
    case False
    with printed_append_literal [OF Cons.prems(1) assms(2,3), of "'', ''"] that show thesis by auto
  qed
  have n1: "n1 < maxlen" "length b1 = length b0" using printedD [OF sep(2)] assms(2) by auto
  obtain b2 n2 where one: "rec b1 (s + n1) (maxlen - n1) ?r = Inr (b2, n2)"
      "printed b1 (s + n1) (maxlen - n1) (nm ?r) b2 n2"
    using prints_okD [OF rec, of ?r "maxlen - n1" "s + n1" b1] r n1 assms(3) by auto
  have "printed b0 s maxlen (pre @ join_names (done @ [nm ?r])) b2 (n1 + n2)"
    using printed_trans [OF sep(2) one(2) assms(2,3)] by (simp add: join_names_snoc split: if_splits)
  from Cons.IH [OF this] Cons.prems(2) obtain b' n' where
    "snname_params rec b2 s maxlen (n1 + n2) (length (done @ [nm ?r])) (xs @ [SType void_ref]) = Inr (b', n')"
    "printed b0 s maxlen (pre @ join_names ((done @ [nm ?r]) @ map (\<lambda>x. nm (slot_ref x)) xs)) b' n'"
    by auto
  with sep(1) one(1) Cons.prems(2) show ?case by (cases x) auto
qed

lemma body_ok:
  assumes rec: "prints_ok rec nm m"
    and "ctype_ok m c" and "\<forall>ss. ct_body c = BFun ss \<longrightarrow> SJunk \<notin> set ss"
    and maxlen: "0 < maxlen" "s + maxlen \<le> length b"
  shows "\<exists>b' n. snname_body rec c b s maxlen = Inr (b', n) \<and> printed b s maxlen (body_name nm c) b' n"
proof -
  note app = printed_append_literal [OF _ maxlen]
  consider (elem) r lit where "ct_kind c = CUP_TYPE_POINTER \<and> lit = ''*'' \<or> ct_kind c = CUP_TYPE_ARRAY \<and> lit = ''[]''"
      "ct_body c = BArr r" "ref_ok m r"
    | (meta) "ct_kind c = CUP_TYPE_META"
    | (func) ret xs where "ct_kind c = CUP_TYPE_FUNCTION" "ct_body c = BFun (ret # xs @ [SType void_ref])"
      "slot_ok m ret" "\<forall>x \<in> set xs. slot_ok m x \<and> x \<noteq> SNull \<and> x \<noteq> SType void_ref"
    using assms(2) by (cases "ct_kind c") (auto simp: ctype_ok_def)
  then show ?thesis
  proof cases
    case elem
    obtain b1 n1 where one: "rec b s maxlen (Some r) = Inr (b1, n1)" "printed b s maxlen (nm (Some r)) b1 n1"
      using prints_okD [OF rec _ maxlen, of "Some r"] elem(3) by auto
    with app [OF one(2), of lit] elem show ?thesis
      by (auto simp: snname_body_def body_name_def)
  next
    case meta
    obtain b1 n1 where 1: "append_literal ''meta ( '' b s maxlen 0 = Inr (b1, n1)" "printed b s maxlen (''meta ( '') b1 n1"
      using app [OF printed_init, of "''meta ( ''"] by auto
    obtain b2 n2 where 2: "append_literal (numeral_in 10 (unat (ct_size c))) b1 s maxlen n1 = Inr (b2, n2)"
        "printed b s maxlen (''meta ( '' @ numeral_in 10 (unat (ct_size c))) b2 n2"
      using app [OF 1(2)] by blast
    obtain b3 n3 where 3: "append_literal '' )'' b2 s maxlen n2 = Inr (b3, n3)"
        "printed b s maxlen ((''meta ( '' @ numeral_in 10 (unat (ct_size c))) @ '' )'') b3 n3"
      using app [OF 2(2)] by blast
    from meta 1(1) 2(1) 3 show ?thesis by (simp add: snname_body_def body_name_def)
  next
    case func
    have ret: "ret \<noteq> SJunk" using assms(3) func(2) by auto
    obtain b1 n1 where 1: "rec b s maxlen (slot_ref ret) = Inr (b1, n1)" "printed b s maxlen (nm (slot_ref ret)) b1 n1"
      using prints_okD [OF rec _ maxlen, of "slot_ref ret"] func(3) ret by (cases ret) (auto simp: slot_ok_def)
    obtain b2 n2 where 2: "append_literal ''('' b1 s maxlen n1 = Inr (b2, n2)"
        "printed b s maxlen ((nm (slot_ref ret) @ ''('') @ join_names []) b2 n2"
      using app [OF 1(2), of "''(''"] by auto
    have xs: "\<forall>x \<in> set xs. slot_ok m x \<and> x \<noteq> SType void_ref \<and> x \<noteq> SJunk" using func(2,4) assms(3) by auto
    obtain b3 n3 where 3: "snname_params rec b2 s maxlen n2 0 (xs @ [SType void_ref]) = Inr (b3, n3)"
        "printed b s maxlen ((nm (slot_ref ret) @ ''('') @ join_names (map (\<lambda>x. nm (slot_ref x)) xs)) b3 n3"
      using snname_params_ok [OF rec maxlen 2(2) xs] by auto
    obtain b4 n4 where 4: "append_literal '')'' b3 s maxlen n3 = Inr (b4, n4)"
        "printed b s maxlen (((nm (slot_ref ret) @ ''('') @ join_names (map (\<lambda>x. nm (slot_ref x)) xs)) @ '')'') b4 n4"
      using app [OF 3(2)] by blast
    from func(1,2) ret 1(1) 2(1) 3(1) 4 show ?thesis
      by (cases ret) (simp_all add: snname_body_def body_name_def)
  qed
qed

lemma ctype_ok_mono: "ctype_ok n c \<Longrightarrow> n \<le> m \<Longrightarrow> ctype_ok m c"
  by (auto simp: ctype_ok_def split: cup_kind.splits intro: ref_ok_mono slot_ok_mono)

lemma snname_prints:
  assumes "types_ok ts" and "no_junk ts" and "m \<le> length ts" and "m < n"
  shows "prints_ok (cup_type_snname n ts) (type_name n ts) m"
  using assms(3,4)
proof (induction n arbitrary: m)
  case (Suc n)
  show ?case
    unfolding prints_ok_def
  proof (intro allI impI)
    fix r :: "tref option" and b :: string and s maxlen :: nat
    assume r: "\<forall>t. r = Some t \<longrightarrow> ref_ok m t" and maxlen: "0 < maxlen" "s + maxlen \<le> length b"
    note app = printed_append_literal [OF printed_init maxlen]
    show "\<exists>b' k. cup_type_snname (Suc n) ts b s maxlen r = Inr (b', k) \<and>
        printed b s maxlen (type_name (Suc n) ts r) b' k"
    proof (cases r)
      case None
      with app [of "''null''"] show ?thesis by simp
    next
      case (Some t)
      obtain c where c: "deref ts t = Inr c"
        using r Some Suc.prems(1) deref_ok [of ts t] ref_ok_mono by blast
      have "\<exists>b' k. snname_body (cup_type_snname n ts) c b s maxlen = Inr (b', k) \<and>
          printed b s maxlen (type_name (Suc n) ts r) b' k"
      proof (cases t)
        case (TBase k)
        then have "c = base_type k" "is_basic k" using c by (simp_all add: deref_def split: if_splits)
        with app [of "kind_name k"] Some TBase show ?thesis
          by (auto simp: snname_body_def base_type_def is_basic_def)
      next
        case (THeap i)
        then have i: "i < m" "i < length ts" "c = ts ! i"
          using r Some c Suc.prems(1) by (auto simp: ref_ok_def deref_def)
        have "prints_ok (cup_type_snname n ts) (type_name n ts) i"
          using Suc i by simp
        moreover have "ctype_ok i c" using assms(1) i by (simp add: types_ok_def)
        moreover have "\<forall>ss. ct_body c = BFun ss \<longrightarrow> SJunk \<notin> set ss"
          using assms(2) i nth_mem unfolding no_junk_def by blast
        ultimately show ?thesis
          using body_ok [OF _ _ _ maxlen] Some THeap i(3) by simp
      qed
      then obtain b1 k where 1: "snname_body (cup_type_snname n ts) c b s maxlen = Inr (b1, k)"
          "printed b s maxlen (type_name (Suc n) ts r) b1 k" by blast
      have "k < maxlen" using printedD(3) [OF 1(2)] maxlen(1) by simp
      with printed_terminate [OF 1(2) maxlen] 1(1) Some c show ?thesis by auto
    qed
  qed
qed simp

text \<open>C26: \<^verbatim>\<open>cup_type_snname\<close> on a type of the table (none of whose parameter slots is unwritten) returns,
  writes nothing outside the \<open>maxlen\<close> bytes it was given and leaves there the full name of the
  type, or as much of it as fits before the terminating NUL; the result is the number of
  characters written.\<close>

theorem snname_truncates:
  assumes "types_ok ts" and "no_junk ts" and "ref_ok (length ts) r" and "0 < maxlen" and "s + maxlen \<le> length buf"
  shows "\<exists>buf' n. cup_type_snname (Suc (length ts)) ts buf s maxlen (Some r) = Inr (buf', n) \<and>
    length buf' = length buf \<and> (\<forall>i < length buf. i < s \<or> s + maxlen \<le> i \<longrightarrow> buf' ! i = buf ! i) \<and>
    take n (drop s buf') = take (maxlen - 1) (type_name (Suc (length ts)) ts (Some r)) \<and>
    n = min (length (type_name (Suc (length ts)) ts (Some r))) (maxlen - 1) \<and> buf' ! (s + n) = NUL"
proof -
  let ?nm = "type_name (Suc (length ts)) ts (Some r)"
  have "prints_ok (cup_type_snname (Suc (length ts)) ts) (type_name (Suc (length ts)) ts) (length ts)"
    using snname_prints [OF assms(1,2)] by simp
  from prints_okD [OF this _ assms(4,5), of "Some r"] assms(3)
  obtain buf' n where run: "cup_type_snname (Suc (length ts)) ts buf s maxlen (Some r) = Inr (buf', n)"
      and pr: "printed buf s maxlen ?nm buf' n" by auto
  note prD = printedD [OF pr]
  have "n < maxlen" using prD(3) assms(4) by simp
  obtain c b1 where "snname_body (cup_type_snname (length ts) ts) c buf s maxlen = Inr (b1, n)"
      "deref ts r = Inr c" "buf_write b1 (s + n) [NUL] = Inr buf'"
    using run \<open>n < maxlen\<close> by (auto simp: res_simps split: if_splits)
  moreover have "s + n < length b1"
    using \<open>n < maxlen\<close> assms(5) prD(1) buf_write_nth [OF calculation(3)] by simp
  ultimately have "buf' ! (s + n) = NUL" using buf_write_nth [of b1 "s + n" "[NUL]" buf'] by simp
  moreover have "take n (drop s buf') = take (maxlen - 1) ?nm"
    using prD(1,3,4) assms(4,5) by (intro nth_equalityI) auto
  ultimately show ?thesis using run prD(1-3) by blast
qed

theorem snname_truncates_witness:
  "\<exists>buf'. cup_type_snname 2 [\<lparr>ct_kind = CUP_TYPE_ARRAY, ct_align = 0, ct_size = 2, ct_body = BArr (TBase CUP_TYPE_UINT8)\<rparr>]
     (replicate 9 (CHR ''x'')) 1 7 (Some (THeap 0)) = Inr (buf', 6) \<and> take 6 (drop 1 buf') = ''uint8[''"
proof -
  let ?ts = "[\<lparr>ct_kind = CUP_TYPE_ARRAY, ct_align = 0, ct_size = 2, ct_body = BArr (TBase CUP_TYPE_UINT8)\<rparr>]"
  have "type_name (Suc (length ?ts)) ?ts (Some (THeap 0)) = ''uint8[]''"
    by (simp add: body_name_def kind_name_def)
  with snname_truncates [of ?ts "THeap 0" 7 1 "replicate 9 (CHR ''x'')"]
  obtain buf' n where run: "cup_type_snname (Suc (length ?ts)) ?ts (replicate 9 (CHR ''x'')) 1 7 (Some (THeap 0)) = Inr (buf', n)"
      "take n (drop 1 buf') = ''uint8[''" "n = length ''uint8[''"
    by (auto simp: types_ok_def ctype_ok_def ref_ok_def is_basic_def no_junk_def simp del: cup_type_snname.simps type_name.simps)
  have "n = 6" using run(3) by simp
  from run(1,2) [unfolded this] show ?thesis by (simp add: numeral_2_eq_2 del: cup_type_snname.simps)
qed

end
