(* ===== verification/Cup_Symbols.thy ===== *)
theory Cup_Symbols
  imports Cup_Types Cup_Vector
begin

text \<open>
  Scopes and the variable table of \<^verbatim>\<open>src/parser.c\<close>: \<^verbatim>\<open>scope_enter\<close>, \<^verbatim>\<open>scope_leave\<close>, and the
  open-addressing map behind \<^verbatim>\<open>putVar\<close>, \<^verbatim>\<open>varFind\<close> and \<^verbatim>\<open>varLookup\<close>.

  A \<^verbatim>\<open>CVariable *\<close> is the index of the variable in \<^verbatim>\<open>vars\<close>; the parent of the root scope,
  \<^verbatim>\<open>SIZE_MAX\<close> in the code, is \<^const>\<open>None\<close>.
\<close>

section \<open>State\<close>

record cvar =
  var_name :: string
  var_type :: "tref option"
  var_value :: u64
  var_scope :: nat

text \<open>\<open>vars_cap\<close> is the capacity of the variable vector in bytes; \<open>vars_map\<close> holds 0 for a free slot
  and otherwise one more than the number of a variable.\<close>

record symst = lexst +
  scopes :: "nat option list"
  scope :: nat
  vars :: "cvar list"
  vars_cap :: nat
  vars_map :: "nat list"

section \<open>Scopes\<close>

definition scope_ensure_root :: "'a symst_scheme \<Rightarrow> 'a symst_scheme" where
  "scope_ensure_root st =
     (if scopes st = [] then st\<lparr>scopes := scopes st @ [None], scope := 0\<rparr> else st)"

definition scope_enter :: "'a symst_scheme \<Rightarrow> nat \<times> 'a symst_scheme" where
  "scope_enter st0 =
     (let st = scope_ensure_root st0;
          this = length (scopes st)
      in (this, st\<lparr>scopes := scopes st @ [Some (scope st)], scope := this\<rparr>))"

definition scope_leave :: "'a symst_scheme \<Rightarrow> 'a symst_scheme res" where
  "scope_leave st =
     rbind (guard (scopes st \<noteq> []) Abort) (\<lambda>_.
     rbind (guard (scope st < length (scopes st)) Abort) (\<lambda>_.
       case scopes st ! scope st of
         None \<Rightarrow> Inl Abort
       | Some parent \<Rightarrow> Inr (st\<lparr>scope := parent\<rparr>)))"

section \<open>The variable table\<close>

text \<open>\<^verbatim>\<open>hash_key\<close>: 64-bit FNV-1a over the name, started from a value that depends on the scope.\<close>

fun hash_bytes :: "u64 \<Rightarrow> string \<Rightarrow> u64" where
  "hash_bytes h [] = h"
| "hash_bytes h (c # cs) = hash_bytes ((h XOR ord c) * 1099511628211) cs"

definition hash_key :: "string \<Rightarrow> nat \<Rightarrow> u64" where
  "hash_key s sc = hash_bytes (1469598103934665603 XOR (of_nat sc * 0x9E3779B97F4A7C15)) s"

text \<open>\<^verbatim>\<open>sizeof(CVariable)\<close>.\<close>

definition VAR_SIZE :: nat where "VAR_SIZE = 32"

definition vars_mask :: "nat \<Rightarrow> u64" where
  "vars_mask cap = of_nat (cap div VAR_SIZE) - 1"

text \<open>The search for a free slot; the bound is the number of slots, and a longer search would not end.\<close>

primrec free_slot :: "nat \<Rightarrow> nat list \<Rightarrow> u64 \<Rightarrow> u64 \<Rightarrow> u64 res" where
  "free_slot 0 tab msk i = Inl Loop"
| "free_slot (Suc n) tab msk i =
     (if unat i \<ge> length tab then Inl Undef
      else if tab ! unat i \<noteq> 0 then free_slot n tab msk ((i + 1) AND msk)
      else Inr i)"

definition varInsert :: "cvar list \<Rightarrow> nat \<Rightarrow> nat list \<Rightarrow> nat \<Rightarrow> nat list res" where
  "varInsert vs cap tab idx =
     (if idx < length vs then
        rbind (free_slot (Suc (length tab)) tab (vars_mask cap)
            (hash_key (var_name (vs ! idx)) (var_scope (vs ! idx)) AND vars_mask cap)) (\<lambda>i.
          Inr (tab[unat i := idx + 1]))
      else Inl Undef)"

fun varInsert_all :: "cvar list \<Rightarrow> nat \<Rightarrow> nat list \<Rightarrow> nat list \<Rightarrow> nat list res" where
  "varInsert_all vs cap tab [] = Inr tab"
| "varInsert_all vs cap tab (idx # ids) = rbind (varInsert vs cap tab idx) (\<lambda>tab. varInsert_all vs cap tab ids)"

text \<open>The capacity of the vector after one more variable is pushed.\<close>

definition push_cap :: "nat \<Rightarrow> nat \<Rightarrow> nat" where
  "push_cap cap needed =
     (if cap \<ge> needed then cap else grow_cap (if cap \<noteq> 0 then cap else INITIAL_CAPACITY) needed)"

text \<open>No allocation of \<open>2\<^sup>6\<^sup>3\<close> bytes or more succeeds; the reallocator then stops the process.\<close>

definition putVar ::
  "'a symst_scheme \<Rightarrow> string \<Rightarrow> tref option \<Rightarrow> u64 \<Rightarrow> nat \<Rightarrow> 'a symst_scheme res" where
  "putVar st name type val sc =
     (let cap = vars_cap st;
          vs = vars st @ [\<lparr>var_name = name, var_type = type, var_value = val, var_scope = sc\<rparr>];
          pos = length vs;
          cap' = push_cap cap (VAR_SIZE * pos);
          ncap = cap' div VAR_SIZE
      in rbind (guard (cap' < 2 ^ 63) (Exit 1)) (\<lambda>_.
         rbind (if cap' \<noteq> cap then varInsert_all vs cap' (replicate ncap 0) [0..<pos]
                else varInsert vs cap' (vars_map st) (pos - 1)) (\<lambda>tab.
           Inr (st\<lparr>vars := vs, vars_cap := cap', vars_map := tab\<rparr>))))"

primrec find_slot :: "nat \<Rightarrow> cvar list \<Rightarrow> nat list \<Rightarrow> u64 \<Rightarrow> string \<Rightarrow> nat \<Rightarrow> u64 \<Rightarrow> nat option res" where
  "find_slot 0 vs tab msk name sc i = Inr None"
| "find_slot (Suc n) vs tab msk name sc i =
     (if unat i \<ge> length tab then Inl Undef
      else
        (let slot = tab ! unat i
         in if slot = 0 then Inr None
            else if slot - 1 \<ge> length vs then Inl Undef
            else if var_scope (vs ! (slot - 1)) = sc \<and> var_name (vs ! (slot - 1)) = name then Inr (Some (slot - 1))
            else find_slot n vs tab msk name sc ((i + 1) AND msk)))"

definition varFind :: "'a symst_scheme \<Rightarrow> string \<Rightarrow> nat \<Rightarrow> nat option res" where
  "varFind st name sc =
     (if vars_cap st = 0 then Inr None
      else
        (let msk = vars_mask (vars_cap st)
         in find_slot (vars_cap st div VAR_SIZE) (vars st) (vars_map st) msk name sc (hash_key name sc AND msk)))"

text \<open>
  The loop of \<^verbatim>\<open>varLookup\<close>, with a bound on the length of the parent chain. Reading the parent of
  a scope that does not exist, or going on from the parent of the root, has no meaning.
\<close>

primrec varLookup_loop :: "nat \<Rightarrow> 'a symst_scheme \<Rightarrow> string \<Rightarrow> nat \<Rightarrow> nat option res" where
  "varLookup_loop 0 st name sc = Inl Loop"
| "varLookup_loop (Suc n) st name sc =
     rbind (varFind st name sc) (\<lambda>v.
       case v of
         Some i \<Rightarrow> Inr (Some i)
       | None \<Rightarrow>
           if sc = 0 then Inr None
           else if sc \<ge> length (scopes st) then Inl Undef
           else case scopes st ! sc of
             None \<Rightarrow> Inl Undef
           | Some parent \<Rightarrow> varLookup_loop n st name parent)"

definition varLookup :: "'a symst_scheme \<Rightarrow> string \<Rightarrow> nat \<Rightarrow> nat option res" where
  "varLookup st name sc = varLookup_loop (Suc (length (scopes st))) st name sc"

definition cup_var_value :: "cvar option \<Rightarrow> u64 option" where
  "cup_var_value v = map_option var_value v"

definition cup_var_type :: "cvar option \<Rightarrow> tref option" where
  "cup_var_type v = (case v of None \<Rightarrow> None | Some v \<Rightarrow> var_type v)"

section \<open>Slot arithmetic\<close>

text \<open>With a power of two of slots, the mask takes the remainder.\<close>

lemma and_pow2_minus_1:
  assumes "k < 64"
  shows "unat (w AND (of_nat (2 ^ k) - 1 :: u64)) = unat w mod 2 ^ k"
proof -
  have "(of_nat (2 ^ k) - 1 :: u64) = mask k" by (simp add: mask_eq_exp_minus_1)
  then have "w AND (of_nat (2 ^ k) - 1) = take_bit k w" by (simp add: take_bit_eq_mask)
  moreover have "unat (take_bit k w) = unat w mod 2 ^ k"
    by (simp add: unsigned_take_bit_eq flip: take_bit_eq_mod)
  ultimately show ?thesis by simp
qed

text \<open>The slot that is \<open>d\<close> steps after \<open>h\<close>.\<close>

definition slot_at :: "nat \<Rightarrow> nat \<Rightarrow> nat \<Rightarrow> nat" where
  "slot_at n h d = (h + d) mod n"

definition home :: "nat \<Rightarrow> string \<Rightarrow> nat \<Rightarrow> nat" where
  "home n name sc = unat (hash_key name sc) mod n"

lemma slot_step:
  assumes "k < 64" and "unat (i :: u64) < 2 ^ k"
  shows "unat ((i + 1) AND (of_nat (2 ^ k) - 1)) = Suc (unat i) mod 2 ^ k"
proof -
  have "Suc (unat i) < 2 ^ 64 \<or> Suc (unat i) = 2 ^ 64" using unsigned_less [of i, where ?'a = nat] by auto
  then have "unat (i + 1) mod 2 ^ k = Suc (unat i) mod 2 ^ k"
  proof
    assume "Suc (unat i) = 2 ^ 64"
    moreover have "(2::nat) ^ k dvd 2 ^ 64" using assms(1) by (intro le_imp_power_dvd) simp
    moreover have "unat (i + 1) = 0" using calculation(1) by (simp add: unat_word_ariths)
    ultimately show ?thesis by (simp add: dvd_imp_mod_0)
  qed (simp add: unat_word_ariths)
  then show ?thesis using and_pow2_minus_1 [OF assms(1)] by simp
qed

lemma slot_at_Suc: "slot_at n (Suc h mod n) d = slot_at n h (Suc d)"
  by (simp add: slot_at_def mod_add_left_eq)

lemma slot_at_less: "0 < n \<Longrightarrow> slot_at n h d < n"
  by (simp add: slot_at_def)

lemma slot_at_inj:
  assumes "slot_at n h d = slot_at n h e" and "d < n" and "e < n"
  shows "d = e"
proof -
  have le: "d = e" if "slot_at n h d = slot_at n h e" "d \<le> e" "e < n" for d e
  proof -
    have "n dvd (h + e) - (h + d)"
      using that by (intro mod_eq_dvd_iff_nat [THEN iffD1]) (simp_all add: slot_at_def)
    then show ?thesis using that by (auto dest: dvd_imp_le)
  qed
  show ?thesis
  proof (cases "d \<le> e")
    case True
    with assms le show ?thesis by blast
  next
    case False
    with assms le [of e d] show ?thesis by simp
  qed
qed

lemma slot_at_covers:
  assumes "i < n"
  shows "\<exists>d < n. slot_at n h d = i"
proof -
  have "inj_on (slot_at n h) {..<n}" using slot_at_inj by (intro inj_onI) auto
  moreover have "slot_at n h ` {..<n} \<subseteq> {..<n}" using assms by (auto intro: slot_at_less)
  ultimately have "slot_at n h ` {..<n} = {..<n}" by (simp add: endo_inj_surj)
  with assms show ?thesis by (metis imageE lessThan_iff)
qed

section \<open>The table invariant\<close>

text \<open>
  Variable \<open>v\<close> sits \<open>d\<close> steps after its home slot, and every slot it was displaced past belongs to
  a variable that was entered before it.
\<close>

definition placed :: "cvar list \<Rightarrow> nat list \<Rightarrow> nat \<Rightarrow> nat \<Rightarrow> bool" where
  "placed vs tab v d \<longleftrightarrow>
     (let h = home (length tab) (var_name (vs ! v)) (var_scope (vs ! v))
      in d < length tab \<and> tab ! slot_at (length tab) h d = Suc v \<and>
         (\<forall>e < d. tab ! slot_at (length tab) h e \<noteq> 0 \<and> tab ! slot_at (length tab) h e \<le> v))"

text \<open>The table over the first \<open>n\<close> variables.\<close>

definition map_ok :: "cvar list \<Rightarrow> nat list \<Rightarrow> nat \<Rightarrow> bool" where
  "map_ok vs tab n \<longleftrightarrow>
     (\<forall>x \<in> set tab. x \<le> n) \<and> length (filter (\<lambda>x. x \<noteq> 0) tab) = n \<and> (\<forall>v < n. \<exists>d. placed vs tab v d)"

definition vars_ok :: "'a symst_scheme \<Rightarrow> bool" where
  "vars_ok st \<longleftrightarrow>
     (vars_cap st = 0 \<and> vars st = []) \<or>
     (\<exists>k. k < 58 \<and> vars_cap st = VAR_SIZE * 2 ^ k \<and> length (vars_map st) = 2 ^ k \<and>
        map_ok (vars st) (vars_map st) (length (vars st)) \<and> length (vars st) \<le> 2 ^ k)"

lemma vars_mask_pow: "vars_mask (VAR_SIZE * 2 ^ k) = of_nat (2 ^ k) - 1"
  by (simp add: vars_mask_def VAR_SIZE_def)

lemma home_index:
  assumes "k < 64"
  shows "unat (hash_key name sc AND (of_nat (2 ^ k) - 1)) = slot_at (2 ^ k) (home (2 ^ k) name sc) 0"
  using and_pow2_minus_1 [OF assms] by (simp add: home_def slot_at_def)

lemma free_slot_finds:
  assumes "k < 64" and "length tab = 2 ^ k" and "unat i = slot_at (2 ^ k) h 0"
    and "d < n" and "tab ! slot_at (2 ^ k) h d = 0" and "\<forall>e < d. tab ! slot_at (2 ^ k) h e \<noteq> 0"
  shows "\<exists>j. free_slot n tab (of_nat (2 ^ k) - 1) i = Inr j \<and> unat j = slot_at (2 ^ k) h d"
  using assms(3-6)
proof (induction n arbitrary: i h d)
  case (Suc n)
  have lt: "unat i < length tab" using Suc.prems(1) assms(2) by (simp add: slot_at_less)
  show ?case
  proof (cases d)
    case 0
    with Suc.prems lt show ?thesis by (intro exI [of _ i]) (simp add: assms(2))
  next
    case (Suc d')
    have busy: "tab ! unat i \<noteq> 0" using Suc.prems(1,4) Suc by simp
    let ?i = "(i + 1) AND (of_nat (2 ^ k) - 1)"
    have step: "unat ?i = Suc (unat i) mod 2 ^ k"
      using lt assms(1,2) by (intro slot_step) simp_all
    have next_slot: "unat ?i = slot_at (2 ^ k) (Suc h mod 2 ^ k) 0"
      using Suc.prems(1) by (subst step) (simp add: slot_at_def mod_Suc_eq)
    have "\<exists>j. free_slot n tab (of_nat (2 ^ k) - 1) ?i = Inr j \<and> unat j = slot_at (2 ^ k) (Suc h mod 2 ^ k) d'"
      using Suc.IH [OF next_slot, of d'] Suc.prems(2-4) Suc by (auto simp: slot_at_Suc)
    with busy lt Suc show ?thesis by (simp add: slot_at_Suc)
  qed
qed simp

lemma find_slot_finds:
  assumes "k < 64" and "length tab = 2 ^ k" and "\<forall>x \<in> set tab. x \<le> length vs"
    and "unat i = slot_at (2 ^ k) h 0"
    and "\<forall>e < d. tab ! slot_at (2 ^ k) h e \<noteq> 0 \<and>
       \<not> (var_scope (vs ! (tab ! slot_at (2 ^ k) h e - 1)) = sc \<and> var_name (vs ! (tab ! slot_at (2 ^ k) h e - 1)) = name)"
    and "d \<le> n"
    and "d < n \<Longrightarrow> tab ! slot_at (2 ^ k) h d = 0 \<or> (var_scope (vs ! (tab ! slot_at (2 ^ k) h d - 1)) = sc \<and>
       var_name (vs ! (tab ! slot_at (2 ^ k) h d - 1)) = name)"
  shows "find_slot n vs tab (of_nat (2 ^ k) - 1) name sc i =
    Inr (if d < n \<and> tab ! slot_at (2 ^ k) h d \<noteq> 0 then Some (tab ! slot_at (2 ^ k) h d - 1) else None)"
  using assms(4-7)
proof (induction n arbitrary: i h d)
  case (Suc n)
  have lt: "unat i < length tab" using Suc.prems(1) assms(2) by (simp add: slot_at_less)
  have le: "tab ! unat i \<le> length vs" using lt assms(3) by simp
  show ?case
  proof (cases d)
    case 0
    with Suc.prems lt le show ?thesis by (auto simp: Let_def assms(2))
  next
    case (Suc d')
    let ?i = "(i + 1) AND (of_nat (2 ^ k) - 1)"
    have step: "unat ?i = Suc (unat i) mod 2 ^ k"
      using lt assms(1,2) by (intro slot_step) simp_all
    have next_slot: "unat ?i = slot_at (2 ^ k) (Suc h mod 2 ^ k) 0"
      using Suc.prems(1) by (subst step) (simp add: slot_at_def mod_Suc_eq)
    have "find_slot n vs tab (of_nat (2 ^ k) - 1) name sc ?i =
        Inr (if d' < n \<and> tab ! slot_at (2 ^ k) (Suc h mod 2 ^ k) d' \<noteq> 0
             then Some (tab ! slot_at (2 ^ k) (Suc h mod 2 ^ k) d' - 1) else None)"
      using Suc.IH [OF next_slot, of d'] Suc.prems(2-4) Suc by (auto simp: slot_at_Suc)
    moreover have "tab ! unat i \<noteq> 0" "\<not> (var_scope (vs ! (tab ! unat i - 1)) = sc \<and> var_name (vs ! (tab ! unat i - 1)) = name)"
      using Suc.prems(1,2) Suc by auto
    ultimately show ?thesis using lt le Suc by (auto simp: Let_def slot_at_Suc)
  qed
qed simp

lemma count_update:
  assumes "i < length tab" and "tab ! i = 0" and "x \<noteq> 0"
  shows "length (filter (\<lambda>x. x \<noteq> 0) (tab[i := x])) = Suc (length (filter (\<lambda>x. x \<noteq> 0) tab))"
proof -
  have "filter (\<lambda>x. x \<noteq> 0) tab = filter (\<lambda>x. x \<noteq> 0) (take i tab) @ filter (\<lambda>x. x \<noteq> 0) (drop (Suc i) tab)"
    using assms by (subst id_take_nth_drop [OF assms(1)]) simp
  then show ?thesis using assms by (simp add: upd_conv_take_nth_drop)
qed

lemma first_free:
  assumes "length (filter (\<lambda>x. x \<noteq> 0) tab) < length tab"
  obtains d where "d < length tab" and "tab ! slot_at (length tab) h d = (0::nat)"
    and "\<forall>e < d. tab ! slot_at (length tab) h e \<noteq> 0"
proof -
  obtain i where i: "i < length tab" "tab ! i = 0"
  proof (rule ccontr)
    assume "\<not> thesis"
    then have "\<forall>x \<in> set tab. x \<noteq> 0" using that by (metis in_set_conv_nth)
    then have "filter (\<lambda>x. x \<noteq> 0) tab = tab" by (simp add: filter_id_conv)
    with assms show False by simp
  qed
  obtain d0 where d0: "d0 < length tab" "slot_at (length tab) h d0 = i" using slot_at_covers [OF i(1)] by blast
  define d where "d = (LEAST d. tab ! slot_at (length tab) h d = 0)"
  have "tab ! slot_at (length tab) h d0 = 0" by (simp add: d0 i)
  then have "tab ! slot_at (length tab) h d = 0" "d \<le> d0"
    unfolding d_def by (rule LeastI, rule Least_le)
  moreover have "\<forall>e < d. tab ! slot_at (length tab) h e \<noteq> 0"
    using not_less_Least unfolding d_def by blast
  moreover have "d < length tab" using calculation(2) d0(1) by simp
  ultimately show thesis using that by blast
qed

lemma placed_update:
  assumes "placed vs tab v d" and "tab ! i = 0" and "i < length tab"
  shows "placed vs (tab[i := x]) v d"
proof -
  let ?h = "home (length tab) (var_name (vs ! v)) (var_scope (vs ! v))"
  have "i \<noteq> slot_at (length tab) ?h e" if "e \<le> d" for e
    using assms(1,2) that by (auto simp: placed_def Let_def le_less)
  then have "tab[i := x] ! slot_at (length tab) ?h e = tab ! slot_at (length tab) ?h e" if "e \<le> d" for e
    using that by simp
  with assms(1) show ?thesis by (auto simp: placed_def Let_def)
qed

lemma varInsert_ok:
  assumes "k < 64" and "length tab = 2 ^ k" and "map_ok vs tab n" and "n < length vs" and "n < 2 ^ k"
  shows "\<exists>tab'. varInsert vs (VAR_SIZE * 2 ^ k) tab n = Inr tab' \<and> length tab' = 2 ^ k \<and> map_ok vs tab' (Suc n)"
proof -
  let ?name = "var_name (vs ! n)" and ?sc = "var_scope (vs ! n)"
  let ?h = "home (2 ^ k) ?name ?sc"
  have count: "length (filter (\<lambda>x. x \<noteq> 0) tab) = n" and le: "\<forall>x \<in> set tab. x \<le> n"
    using assms(3) by (auto simp: map_ok_def)
  then have "length (filter (\<lambda>x. x \<noteq> 0) tab) < length tab" using assms(2,5) by simp
  then obtain d where d: "d < 2 ^ k" "tab ! slot_at (2 ^ k) ?h d = 0" "\<forall>e < d. tab ! slot_at (2 ^ k) ?h e \<noteq> 0"
    using first_free [of tab ?h] assms(2) by metis
  let ?i = "slot_at (2 ^ k) ?h d"
  have i: "?i < length tab" using assms(2) by (simp add: slot_at_less)
  obtain j where j: "free_slot (Suc (length tab)) tab (of_nat (2 ^ k) - 1)
      (hash_key ?name ?sc AND (of_nat (2 ^ k) - 1)) = Inr j" "unat j = ?i"
    using free_slot_finds [OF assms(1,2) home_index [OF assms(1)], of d "Suc (length tab)" ?name ?sc] d assms(2)
    by (auto simp del: free_slot.simps)
  have run: "varInsert vs (VAR_SIZE * 2 ^ k) tab n = Inr (tab[?i := Suc n])"
    using assms(4) j unfolding varInsert_def vars_mask_pow by (simp del: free_slot.simps of_nat_power)
  have new: "placed vs (tab[?i := Suc n]) n d"
  proof -
    have "?i \<noteq> slot_at (2 ^ k) ?h e" if "e < d" for e using d(2,3) that by auto
    moreover have "tab ! slot_at (2 ^ k) ?h e \<le> n" for e
      using le assms(2) by (simp add: slot_at_less)
    ultimately show ?thesis using d i assms(2) by (auto simp: placed_def Let_def)
  qed
  have "\<exists>d. placed vs (tab[?i := Suc n]) v d" if "v < Suc n" for v
  proof (cases "v = n")
    case False
    with that have "v < n" by simp
    with assms(3) obtain e where "placed vs tab v e" unfolding map_ok_def by blast
    from placed_update [OF this d(2) i] show ?thesis by blast
  qed (use new in blast)
  moreover have "\<forall>x \<in> set (tab[?i := Suc n]). x \<le> Suc n"
    using le set_update_subset_insert [of tab ?i "Suc n"] by fastforce
  moreover have "length (filter (\<lambda>x. x \<noteq> 0) (tab[?i := Suc n])) = Suc n"
    using count_update [OF i d(2)] count by simp
  ultimately have "map_ok vs (tab[?i := Suc n]) (Suc n)" by (auto simp: map_ok_def)
  with run assms(2) show ?thesis by simp
qed

lemma varInsert_all_ok:
  assumes "k < 64" and "m \<le> length vs" and "m \<le> 2 ^ k"
  shows "n \<le> m \<Longrightarrow> length tab = 2 ^ k \<Longrightarrow> map_ok vs tab n \<Longrightarrow>
    \<exists>tab'. varInsert_all vs (VAR_SIZE * 2 ^ k) tab [n..<m] = Inr tab' \<and> length tab' = 2 ^ k \<and> map_ok vs tab' m"
proof (induction "m - n" arbitrary: n tab)
  case 0
  then show ?case by simp
next
  case (Suc x)
  then have n: "n < m" by simp
  obtain tab1 where tab1: "varInsert vs (VAR_SIZE * 2 ^ k) tab n = Inr tab1" "length tab1 = 2 ^ k" "map_ok vs tab1 (Suc n)"
    using varInsert_ok [OF assms(1) Suc.prems(2,3)] n assms(2,3) by auto
  have "x = m - Suc n" using Suc.hyps(2) by simp
  from Suc.hyps(1) [OF this _ tab1(2,3)] n tab1(1) show ?case by (simp add: upt_conv_Cons)
qed

lemma map_ok_empty: "map_ok vs (replicate n 0) 0"
  by (simp add: map_ok_def)

lemma map_ok_extend:
  assumes "map_ok vs tab (length vs)"
  shows "map_ok (vs @ [v]) tab (length vs)"
proof -
  have "placed (vs @ [v]) tab i d \<longleftrightarrow> placed vs tab i d" if "i < length vs" for i d
    using that by (simp add: placed_def nth_append)
  with assms show ?thesis by (simp add: map_ok_def)
qed

section \<open>Looking a variable up\<close>

definition var_is :: "string \<Rightarrow> nat \<Rightarrow> cvar \<Rightarrow> bool" where
  "var_is name sc v \<longleftrightarrow> var_scope v = sc \<and> var_name v = name"

lemma varFind_first:
  assumes "vars_ok st"
  shows "varFind st name sc = Inr (first_index (var_is name sc) (vars st))"
proof (cases "vars_cap st = 0")
  case True
  then have "vars st = []" using assms by (auto simp: vars_ok_def VAR_SIZE_def)
  with True show ?thesis by (simp add: varFind_def)
next
  case False
  then obtain k where k: "k < 58" "vars_cap st = VAR_SIZE * 2 ^ k" "length (vars_map st) = 2 ^ k"
      "map_ok (vars st) (vars_map st) (length (vars st))"
    using assms by (auto simp: vars_ok_def)
  let ?tab = "vars_map st" and ?vs = "vars st" and ?h = "home (2 ^ k) name sc"
  have k64: "k < 64" using k(1) by simp
  have le: "\<forall>x \<in> set ?tab. x \<le> length ?vs" using k(4) by (simp add: map_ok_def)
  note find = find_slot_finds [OF k64 k(3) le home_index [OF k64, of name sc], where sc = sc and name = name]
  have slots: "vars_cap st div VAR_SIZE = 2 ^ k" using k(2) by (simp add: VAR_SIZE_def)
  have run: "varFind st name sc = find_slot (2 ^ k) ?vs ?tab (of_nat (2 ^ k) - 1) name sc
      (hash_key name sc AND (of_nat (2 ^ k) - 1))"
    using False slots by (simp add: varFind_def Let_def k(2) vars_mask_pow)
  show ?thesis
  proof (cases "first_index (var_is name sc) ?vs")
    case (Some v)
    then have v: "v < length ?vs" "var_is name sc (?vs ! v)" "\<forall>u < v. \<not> var_is name sc (?vs ! u)"
      by (simp_all add: first_index_Some)
    then obtain d where d: "placed ?vs ?tab v d" using k(4) by (auto simp: map_ok_def)
    have name: "var_name (?vs ! v) = name" "var_scope (?vs ! v) = sc" using v(2) by (simp_all add: var_is_def)
    have pl: "d < 2 ^ k" "?tab ! slot_at (2 ^ k) ?h d = Suc v"
        "\<forall>e < d. ?tab ! slot_at (2 ^ k) ?h e \<noteq> 0 \<and> ?tab ! slot_at (2 ^ k) ?h e \<le> v"
      using d k(3) by (simp_all add: placed_def Let_def name)
    have earlier: "\<forall>e < d. ?tab ! slot_at (2 ^ k) ?h e \<noteq> 0 \<and>
       \<not> (var_scope (?vs ! (?tab ! slot_at (2 ^ k) ?h e - 1)) = sc \<and> var_name (?vs ! (?tab ! slot_at (2 ^ k) ?h e - 1)) = name)"
    proof (intro allI impI conjI)
      fix e assume "e < d"
      with pl(3) have "?tab ! slot_at (2 ^ k) ?h e \<noteq> 0" "?tab ! slot_at (2 ^ k) ?h e - 1 < v" by auto
      with v(3) show "?tab ! slot_at (2 ^ k) ?h e \<noteq> 0"
        "\<not> (var_scope (?vs ! (?tab ! slot_at (2 ^ k) ?h e - 1)) = sc \<and> var_name (?vs ! (?tab ! slot_at (2 ^ k) ?h e - 1)) = name)"
        by (auto simp: var_is_def)
    qed
    have "find_slot (2 ^ k) ?vs ?tab (of_nat (2 ^ k) - 1) name sc (hash_key name sc AND (of_nat (2 ^ k) - 1)) =
        Inr (if d < 2 ^ k \<and> ?tab ! slot_at (2 ^ k) ?h d \<noteq> 0 then Some (?tab ! slot_at (2 ^ k) ?h d - 1) else None)"
      by (rule find [OF earlier]) (use pl name in auto)
    with run Some pl show ?thesis by simp
  next
    case None
    then have none: "\<forall>v \<in> set ?vs. \<not> var_is name sc v" by (simp add: first_index_None)
    let ?stop = "\<lambda>d. 2 ^ k \<le> d \<or> ?tab ! slot_at (2 ^ k) ?h d = 0"
    define d where "d = (LEAST d. ?stop d)"
    have stop: "?stop d" unfolding d_def by (rule LeastI [of ?stop "2 ^ k"]) simp
    have "d \<le> 2 ^ k" unfolding d_def by (rule Least_le) simp
    have before: "\<not> ?stop e" if "e < d" for e using that not_less_Least unfolding d_def by blast
    have earlier: "\<forall>e < d. ?tab ! slot_at (2 ^ k) ?h e \<noteq> 0 \<and>
       \<not> (var_scope (?vs ! (?tab ! slot_at (2 ^ k) ?h e - 1)) = sc \<and> var_name (?vs ! (?tab ! slot_at (2 ^ k) ?h e - 1)) = name)"
    proof (intro allI impI)
      fix e assume "e < d"
      then have nz: "?tab ! slot_at (2 ^ k) ?h e \<noteq> 0" using before by simp
      moreover have "?tab ! slot_at (2 ^ k) ?h e \<le> length ?vs" using le k(3) by (simp add: slot_at_less)
      ultimately have "?vs ! (?tab ! slot_at (2 ^ k) ?h e - 1) \<in> set ?vs" by simp
      with none nz show "?tab ! slot_at (2 ^ k) ?h e \<noteq> 0 \<and>
       \<not> (var_scope (?vs ! (?tab ! slot_at (2 ^ k) ?h e - 1)) = sc \<and> var_name (?vs ! (?tab ! slot_at (2 ^ k) ?h e - 1)) = name)"
        by (auto simp: var_is_def)
    qed
    have "find_slot (2 ^ k) ?vs ?tab (of_nat (2 ^ k) - 1) name sc (hash_key name sc AND (of_nat (2 ^ k) - 1)) =
        Inr (if d < 2 ^ k \<and> ?tab ! slot_at (2 ^ k) ?h d \<noteq> 0 then Some (?tab ! slot_at (2 ^ k) ?h d - 1) else None)"
      by (rule find [OF earlier \<open>d \<le> 2 ^ k\<close>]) (use stop in auto)
    with run None stop show ?thesis by auto
  qed
qed

section \<open>Entering a variable\<close>

lemma push_cap_grow: "push_cap 0 VAR_SIZE = VAR_SIZE * 2 ^ 1"
  by (simp add: push_cap_def VAR_SIZE_def INITIAL_CAPACITY_def grow_cap.simps)

lemma push_cap_double: "push_cap (VAR_SIZE * 2 ^ k) (VAR_SIZE * Suc (2 ^ k)) = VAR_SIZE * 2 ^ Suc k"
proof -
  have "(2::nat) ^ k < 2 ^ k * 2" by simp
  then show ?thesis
    by (simp add: push_cap_def VAR_SIZE_def grow_cap.simps [of "32 * 2 ^ k"] grow_cap.simps [of "64 * 2 ^ k"])
qed

definition new_var :: "string \<Rightarrow> tref option \<Rightarrow> u64 \<Rightarrow> nat \<Rightarrow> cvar" where
  "new_var name type val sc = \<lparr>var_name = name, var_type = type, var_value = val, var_scope = sc\<rparr>"

lemma rebuild_ok:
  assumes "k < 58" and "length vs \<le> 2 ^ k"
  shows "\<exists>tab. varInsert_all vs (VAR_SIZE * 2 ^ k) (replicate (VAR_SIZE * 2 ^ k div VAR_SIZE) 0) [0..<length vs] = Inr tab \<and>
    length tab = 2 ^ k \<and> map_ok vs tab (length vs)"
proof -
  have "VAR_SIZE * 2 ^ k div VAR_SIZE = 2 ^ k" by (simp add: VAR_SIZE_def)
  with varInsert_all_ok [of k "length vs" vs 0 "replicate (2 ^ k) 0"] map_ok_empty assms show ?thesis by simp
qed

lemma cap_small: "k < 58 \<Longrightarrow> VAR_SIZE * 2 ^ k < (2::nat) ^ 63"
proof -
  assume "k < 58"
  then have "(2::nat) ^ (5 + k) < 2 ^ 63" by (intro power_strict_increasing) simp_all
  then show ?thesis by (simp add: VAR_SIZE_def power_add)
qed

lemma putVar_cases:
  assumes "vars_ok st"
  shows "(putVar st name type val sc = Inl (Exit 1) \<and> 2 ^ 57 \<le> length (vars st)) \<or>
    (\<exists>cap tab. putVar st name type val sc =
      Inr (st\<lparr>vars := vars st @ [new_var name type val sc], vars_cap := cap, vars_map := tab\<rparr>) \<and>
    vars_ok (st\<lparr>vars := vars st @ [new_var name type val sc], vars_cap := cap, vars_map := tab\<rparr>))"
proof -
  let ?vs = "vars st @ [new_var name type val sc]"
  note put = putVar_def Let_def new_var_def [symmetric]
  consider (empty) "vars_cap st = 0" "vars st = []"
    | (room) k where "k < 58" "vars_cap st = VAR_SIZE * 2 ^ k" "length (vars_map st) = 2 ^ k"
        "map_ok (vars st) (vars_map st) (length (vars st))" "length (vars st) < 2 ^ k"
    | (full) k where "k < 58" "vars_cap st = VAR_SIZE * 2 ^ k" "length (vars st) = 2 ^ k"
    using assms(1) unfolding vars_ok_def by (metis le_neq_implies_less)
  then show ?thesis
  proof cases
    case empty
    obtain tab where tab: "varInsert_all ?vs (VAR_SIZE * 2 ^ 1) (replicate (VAR_SIZE * 2 ^ 1 div VAR_SIZE) 0) [0..<length ?vs] = Inr tab"
        "length tab = 2 ^ 1" "map_ok ?vs tab (length ?vs)"
      using rebuild_ok [of 1 ?vs] empty by auto
    have cap: "push_cap (vars_cap st) (VAR_SIZE * length ?vs) = VAR_SIZE * 2 ^ 1"
      using push_cap_grow empty by simp
    have "VAR_SIZE * 2 ^ 1 \<noteq> vars_cap st" using empty by (simp add: VAR_SIZE_def)
    then have "putVar st name type val sc = Inr (st\<lparr>vars := ?vs, vars_cap := VAR_SIZE * 2 ^ 1, vars_map := tab\<rparr>)"
      unfolding put cap using tab(1) cap_small [of 1] by simp
    moreover have "vars_ok (st\<lparr>vars := ?vs, vars_cap := VAR_SIZE * 2 ^ 1, vars_map := tab\<rparr>)"
      unfolding vars_ok_def using tab empty by (intro disjI2 exI [of _ 1]) simp
    ultimately show ?thesis by blast
  next
    case room
    have cap: "push_cap (vars_cap st) (VAR_SIZE * length ?vs) = vars_cap st"
      using room by (simp add: push_cap_def VAR_SIZE_def)
    obtain tab where tab: "varInsert ?vs (VAR_SIZE * 2 ^ k) (vars_map st) (length (vars st)) = Inr tab"
        "length tab = 2 ^ k" "map_ok ?vs tab (Suc (length (vars st)))"
      using varInsert_ok [of k "vars_map st" ?vs "length (vars st)"] map_ok_extend [OF room(4)] room by auto
    have "putVar st name type val sc = Inr (st\<lparr>vars := ?vs, vars_cap := vars_cap st, vars_map := tab\<rparr>)"
      unfolding put cap using tab(1) room(2) cap_small [OF room(1)] by simp
    moreover have "vars_ok (st\<lparr>vars := ?vs, vars_cap := vars_cap st, vars_map := tab\<rparr>)"
      unfolding vars_ok_def using tab room by (intro disjI2 exI [of _ k]) simp
    ultimately show ?thesis by blast
  next
    case full
    have cap: "push_cap (vars_cap st) (VAR_SIZE * length ?vs) = VAR_SIZE * 2 ^ Suc k"
      using push_cap_double [of k] full by simp
    show ?thesis
    proof (cases "k = 57")
      case True
      then have "putVar st name type val sc = Inl (Exit 1)"
        unfolding put cap by (simp add: VAR_SIZE_def)
      with full(3) True show ?thesis by simp
    next
      case False
    then have k: "Suc k < 58" using full(1) by simp
    obtain tab where tab: "varInsert_all ?vs (VAR_SIZE * 2 ^ Suc k) (replicate (VAR_SIZE * 2 ^ Suc k div VAR_SIZE) 0)
          [0..<length ?vs] = Inr tab" "length tab = 2 ^ Suc k" "map_ok ?vs tab (length ?vs)"
      using rebuild_ok [OF k, of ?vs] full by auto
    have "VAR_SIZE * 2 ^ Suc k \<noteq> vars_cap st" using full by (simp add: VAR_SIZE_def)
    then have "putVar st name type val sc = Inr (st\<lparr>vars := ?vs, vars_cap := VAR_SIZE * 2 ^ Suc k, vars_map := tab\<rparr>)"
      unfolding put cap using tab(1) cap_small [OF k] by simp
    moreover have "vars_ok (st\<lparr>vars := ?vs, vars_cap := VAR_SIZE * 2 ^ Suc k, vars_map := tab\<rparr>)"
      unfolding vars_ok_def using tab full k by (intro disjI2 exI [of _ "Suc k"]) simp
    ultimately show ?thesis by blast
    qed
  qed
qed

lemma putVar_ok:
  assumes "vars_ok st" and "length (vars st) < 2 ^ 56"
  shows "\<exists>cap tab. putVar st name type val sc =
      Inr (st\<lparr>vars := vars st @ [new_var name type val sc], vars_cap := cap, vars_map := tab\<rparr>) \<and>
    vars_ok (st\<lparr>vars := vars st @ [new_var name type val sc], vars_cap := cap, vars_map := tab\<rparr>)"
proof -
  have "\<not> 2 ^ 57 \<le> length (vars st)" using assms(2) by simp
  with putVar_cases [OF assms(1)] show ?thesis by blast
qed

lemma putVar_ensures:
  assumes "vars_ok st"
  shows "ensures (putVar st name type val sc) (\<lambda>st'. vars_ok st' \<and> (\<exists>cap tab.
    st' = st\<lparr>vars := vars st @ [new_var name type val sc], vars_cap := cap, vars_map := tab\<rparr>))"
  using putVar_cases [OF assms, of name type val sc]
  by (elim disjE exE conjE) (simp, simp only: ensures_Inr, blast)


section \<open>What the compiler relies on\<close>

text \<open>
  A table that only grows: entering a key always works and puts it at the end, and finding a key
  gives the first place it was entered at. The search through a list of keys, innermost first,
  is what \<^verbatim>\<open>varLookup\<close> does with the scopes.
\<close>

locale symbol_table =
  fixes put :: "'s \<Rightarrow> 'k \<Rightarrow> 's res"
    and find :: "'s \<Rightarrow> 'k \<Rightarrow> nat option res"
    and inv :: "'s \<Rightarrow> bool"
    and keys :: "'s \<Rightarrow> 'k list"
    and limit :: nat
  assumes put_ok: "inv s \<Longrightarrow> length (keys s) < limit \<Longrightarrow> \<exists>s'. put s k = Inr s' \<and> inv s' \<and> keys s' = keys s @ [k]"
    and find_ok: "inv s \<Longrightarrow> find s k = Inr (first_index ((=) k) (keys s))"
begin

fun put_all :: "'s \<Rightarrow> 'k list \<Rightarrow> 's res" where
  "put_all s [] = Inr s"
| "put_all s (k # ks) = rbind (put s k) (\<lambda>s. put_all s ks)"

fun find_chain :: "'s \<Rightarrow> 'k list \<Rightarrow> nat option res" where
  "find_chain s [] = Inr None"
| "find_chain s (k # ks) =
     rbind (find s k) (\<lambda>v. case v of Some i \<Rightarrow> Inr (Some i) | None \<Rightarrow> find_chain s ks)"

lemma put_all_ok:
  assumes "inv s" and "length (keys s) + length ks \<le> limit"
  shows "\<exists>s'. put_all s ks = Inr s' \<and> inv s' \<and> keys s' = keys s @ ks"
  using assms
proof (induction ks arbitrary: s)
  case (Cons k ks)
  then obtain s1 where s1: "put s k = Inr s1" "inv s1" "keys s1 = keys s @ [k]"
    using put_ok [of s k] by auto
  with Cons.IH [of s1] Cons.prems show ?case by auto
qed simp

lemma put_all_find:
  assumes "inv s" and "length (keys s) + length ks \<le> limit" and "put_all s ks = Inr s'"
  shows "find s' k = Inr (first_index ((=) k) (keys s @ ks))"
  using put_all_ok [OF assms(1,2)] assms(3) find_ok by auto

lemma find_stable:
  assumes "inv s" and "length (keys s) < limit" and "put s k = Inr s'" and "find s k' = Inr (Some i)"
  shows "find s' k' = Inr (Some i)"
proof -
  have "inv s'" "keys s' = keys s @ [k]" using put_ok [OF assms(1,2), of k] assms(3) by auto
  with assms(1,4) show ?thesis by (simp add: find_ok first_index_append)
qed

lemma find_chain_ok:
  assumes "inv s"
  shows "find_chain s ks = Inr (case first_index (\<lambda>k. k \<in> set (keys s)) ks of
      None \<Rightarrow> None | Some j \<Rightarrow> first_index ((=) (ks ! j)) (keys s))"
proof (induction ks)
  case (Cons k ks)
  show ?case
  proof (cases "k \<in> set (keys s)")
    case True
    then obtain i where "first_index ((=) k) (keys s) = Some i"
      by (cases "first_index ((=) k) (keys s)") (auto simp: first_index_None)
    with True assms show ?thesis by (simp add: find_ok)
  next
    case False
    then have "first_index ((=) k) (keys s) = None" by (auto simp: first_index_None)
    with False Cons assms show ?thesis
      by (cases "first_index (\<lambda>k. k \<in> set (keys s)) ks") (simp_all add: find_ok)
  qed
qed simp

end

definition var_key :: "cvar \<Rightarrow> string \<times> nat" where
  "var_key v = (var_name v, var_scope v)"

definition var_keys :: "'a symst_scheme \<Rightarrow> (string \<times> nat) list" where
  "var_keys st = map var_key (vars st)"

lemma first_index_map: "first_index p (map f xs) = first_index (\<lambda>x. p (f x)) xs"
  by (induction xs) auto

lemma var_is_key: "var_is name sc = (\<lambda>v. (name, sc) = var_key v)"
  by (auto simp: var_is_def var_key_def)

interpretation vt: symbol_table "\<lambda>st k. putVar st (fst k) None 0 (snd k)" "\<lambda>st k. varFind st (fst k) (snd k)"
    vars_ok var_keys "2 ^ 56"
proof unfold_locales
  fix st :: "'a symst_scheme" and k
  assume "vars_ok st" and "length (var_keys st) < 2 ^ 56"
  then show "\<exists>s'. putVar st (fst k) None 0 (snd k) = Inr s' \<and> vars_ok s' \<and> var_keys s' = var_keys st @ [k]"
    using putVar_ok [of st "fst k" None 0 "snd k"] by (auto simp: var_keys_def new_var_def var_key_def)
next
  fix st :: "'a symst_scheme" and k
  assume "vars_ok st"
  then show "varFind st (fst k) (snd k) = Inr (first_index ((=) k) (var_keys st))"
    using varFind_first [of st "fst k" "snd k"] by (simp add: var_keys_def first_index_map var_is_key)
qed

definition sym_init :: symst where
  "sym_init = \<lparr>input_stream = [], priv_stream = None, tok = T_EOF, loc_col = 0, loc_line = 0, tok_val = PVal 0,
     data_sec = [], scopes = [], scope = 0, vars = [], vars_cap = 0, vars_map = []\<rparr>"

text \<open>C8: The variable table. Whatever variables are entered one after the other (fewer than \<open>2\<^sup>5\<^sup>6\<close>),
  through every growth and rehash, no insertion fails or runs forever and no probe leaves the
  table; afterwards \<^verbatim>\<open>varFind\<close> gives, for every name and scope, the first variable that was
  entered with them, and nothing for the others.\<close>

theorem variable_table_correct:
  assumes "length ks \<le> 2 ^ 56"
  shows "\<exists>st. vt.put_all sym_init ks = Inr st \<and> vars_ok st \<and> var_keys st = ks \<and>
    (\<forall>name sc. varFind st name sc = Inr (first_index ((=) (name, sc)) ks))"
proof -
  have init: "vars_ok sym_init" "var_keys sym_init = []"
    by (simp_all add: sym_init_def vars_ok_def var_keys_def)
  with vt.put_all_ok [of sym_init ks] assms obtain st where
    st: "vt.put_all sym_init ks = Inr st" "vars_ok st" "var_keys st = ks" by auto
  then have "varFind st name sc = Inr (first_index ((=) (name, sc)) ks)" for name sc
    using vt.find_ok [of st "(name, sc)"] by simp
  with st show ?thesis by blast
qed

theorem variable_table_correct_witness:
  "\<exists>st. vt.put_all sym_init [(''x'', 0), (''y'', 0), (''x'', 1), (''x'', 0)] = Inr st \<and>
     varFind st ''x'' 1 = Inr (Some 2) \<and> varFind st ''x'' 0 = Inr (Some 0) \<and> varFind st ''y'' 1 = Inr None"
proof -
  have "length [(''x'', 0), (''y'', 0), (''x'', 1), (''x'', 0 :: nat)] \<le> 2 ^ 56" by simp
  from variable_table_correct [OF this] show ?thesis by (auto simp: numeral_2_eq_2)
qed

section \<open>Nested scopes\<close>

definition scopes_ok :: "'a symst_scheme \<Rightarrow> bool" where
  "scopes_ok st \<longleftrightarrow>
     (scopes st = [] \<and> scope st = 0) \<or>
     (scope st < length (scopes st) \<and> scopes st ! 0 = None \<and>
      (\<forall>i < length (scopes st). 0 < i \<longrightarrow> (\<exists>p < i. scopes st ! i = Some p)))"

text \<open>A scope and the scopes around it, innermost first.\<close>

function scope_chain :: "nat option list \<Rightarrow> nat \<Rightarrow> nat list" where
  "scope_chain ss sc =
     sc # (case if sc < length ss then ss ! sc else None of
             Some p \<Rightarrow> if p < sc then scope_chain ss p else []
           | None \<Rightarrow> [])"
  by pat_completeness auto
termination
  by (relation "measure snd") auto

declare scope_chain.simps [simp del]

lemma varLookup_loop_chain:
  assumes "vars_ok st" and "scopes_ok st" and "sc < n" and "sc < length (scopes st) \<or> sc = 0"
  shows "varLookup_loop n st name sc = vt.find_chain st (map (Pair name) (scope_chain (scopes st) sc))"
  using assms(3,4)
proof (induction n arbitrary: sc)
  case (Suc n)
  show ?case
  proof (cases "sc = 0")
    case True
    have "scope_chain (scopes st) 0 = [0]"
      using assms(2) by (subst scope_chain.simps) (auto simp: scopes_ok_def)
    with True show ?thesis
      using vt.find_ok [OF assms(1), of "(name, 0)"] by (simp split: option.splits)
  next
    case False
    with Suc.prems assms(2) obtain p where p: "scopes st ! sc = Some p" "p < sc" "sc < length (scopes st)"
      by (auto simp: scopes_ok_def)
    have "scope_chain (scopes st) sc = sc # scope_chain (scopes st) p"
      using p by (subst scope_chain.simps) simp
    moreover have "varLookup_loop n st name p = vt.find_chain st (map (Pair name) (scope_chain (scopes st) p))"
      using Suc.IH [of p] Suc.prems p by simp
    ultimately show ?thesis
      using False p vt.find_ok [OF assms(1), of "(name, sc)"] by (simp split: option.splits)
  qed
qed simp

lemma varLookup_chain:
  assumes "vars_ok st" and "scopes_ok st" and "sc < length (scopes st) \<or> sc = 0"
  shows "varLookup st name sc = vt.find_chain st (map (Pair name) (scope_chain (scopes st) sc))"
  using varLookup_loop_chain [OF assms(1,2) _ assms(3)] assms(3) by (auto simp: varLookup_def simp del: varLookup_loop.simps)

text \<open>C27: \<^verbatim>\<open>varLookup\<close> always returns. Its result is the variable of that name in the innermost scope
  around the given one that has any, and of several in that scope the first entered; nothing
  if no scope around has the name.\<close>

theorem varLookup_innermost:
  assumes "vars_ok st" and "scopes_ok st" and "sc < length (scopes st) \<or> sc = 0"
  shows "varLookup st name sc =
    Inr (case first_index (\<lambda>c. (name, c) \<in> set (var_keys st)) (scope_chain (scopes st) sc) of
           None \<Rightarrow> None
         | Some j \<Rightarrow> first_index ((=) (name, scope_chain (scopes st) sc ! j)) (var_keys st))"
  unfolding varLookup_chain [OF assms] vt.find_chain_ok [OF assms(1)] first_index_map
  by (cases "first_index (\<lambda>c. (name, c) \<in> set (var_keys st)) (scope_chain (scopes st) sc)")
    (auto dest: first_index_Some [THEN iffD1])

text \<open>In a scope that does not exist, only that scope itself is searched.\<close>

lemma varLookup_any:
  assumes "vars_ok st" and "scopes_ok st"
  shows "ensures (varLookup st name sc) (\<lambda>v. \<forall>i. v = Some i \<longrightarrow> i < length (vars st))"
proof -
  have bound: "i < length (vars st)" if "first_index p (var_keys st) = Some i" for p i
    using that by (simp add: first_index_Some var_keys_def)
  show ?thesis
  proof (cases "sc < length (scopes st) \<or> sc = 0")
    case True
    have "i < length (vars st)" if "vt.find_chain st ks = Inr (Some i)" for ks i
      using that bound by (auto simp: vt.find_chain_ok [OF assms(1)] split: option.splits)
    then show ?thesis
      by (simp add: ensures_def varLookup_chain [OF assms True] vt.find_chain_ok [OF assms(1)])
  next
    case False
    then show ?thesis
      using vt.find_ok [OF assms(1), of "(name, sc)"] bound by (auto simp: varLookup_def split: option.splits)
  qed
qed

lemma varLookup_ensures:
  assumes "vars_ok st" and "scopes_ok st"
  shows "ensures (varLookup st name (scope st)) (\<lambda>v. \<forall>i. v = Some i \<longrightarrow> i < length (vars st))"
  by (rule varLookup_any [OF assms])

lemma scope_enter_ok:
  assumes "scopes_ok st"
  shows "scopes_ok (snd (scope_enter st)) \<and> length (scopes st) \<le> length (scopes (snd (scope_enter st)))"
  using assms
  by (cases "scopes st = []")
    (auto simp: scopes_ok_def scope_enter_def scope_ensure_root_def Let_def nth_append less_Suc_eq)

lemma scope_enter_same [simp]:
  "vars (snd (scope_enter st)) = vars st" "vars_cap (snd (scope_enter st)) = vars_cap st"
  "vars_map (snd (scope_enter st)) = vars_map st" "input_stream (snd (scope_enter st)) = input_stream st"
  "priv_stream (snd (scope_enter st)) = priv_stream st" "tok (snd (scope_enter st)) = tok st"
  by (simp_all add: scope_enter_def scope_ensure_root_def Let_def)

lemma scope_leave_ensures:
  assumes "scopes_ok st"
  shows "ensures (scope_leave st) (\<lambda>st'. scopes_ok st' \<and> (\<exists>p. st' = st\<lparr>scope := p\<rparr>))"
  using assms
  by (auto simp: scope_leave_def scopes_ok_def ensures_rbind split: option.splits)

definition two_scopes :: symst where
  "two_scopes = sym_init\<lparr>scopes := [None, Some 0], scope := 1\<rparr>"

theorem varLookup_innermost_witness:
  "varLookup two_scopes ''x'' 1 = Inr None"
proof -
  have "vars_ok two_scopes" "scopes_ok two_scopes" "var_keys two_scopes = []"
    by (simp_all add: two_scopes_def sym_init_def vars_ok_def scopes_ok_def var_keys_def less_Suc_eq)
  then show ?thesis
    using varLookup_innermost [of two_scopes 1 "''x''"] by (simp add: first_index_None two_scopes_def split: option.splits)
qed

text \<open>C28: Entering a scope makes a new innermost scope around which the scopes are those around the old
  one; leaving it gives the old scope back, and the root scope cannot be left.\<close>

theorem scope_enter_leave:
  assumes "scopes_ok st"
  shows "(let (new, st') = scope_enter st
    in scopes_ok st' \<and> scope st' = new \<and> (\<exists>st''. scope_leave st' = Inr st'' \<and> scope st'' = scope st \<and> scopes_ok st'') \<and>
       scope_chain (scopes st') new = new # scope_chain (scopes st') (scope st) \<and>
       (scopes st \<noteq> [] \<longrightarrow> (\<forall>sc < length (scopes st). scope_chain (scopes st') sc = scope_chain (scopes st) sc))) \<and>
    (scope st = 0 \<longrightarrow> scope_leave st = Inl Abort)"
proof -
  have keep: "scope_chain (ss @ xs) sc = scope_chain ss sc" if "sc < length ss" for ss xs sc
    using that
  proof (induction sc rule: less_induct)
    case (less sc)
    then show ?case by (subst (1 2) scope_chain.simps) (auto simp: nth_append split: option.splits)
  qed
  have new: "scope_chain (ss @ [Some p]) (length ss) = length ss # scope_chain (ss @ [Some p]) p" if "p < length ss" for ss p
    using that by (subst scope_chain.simps) (simp add: nth_append)
  show ?thesis
  proof (cases "scopes st = []")
    case True
    with assms new [of 0 "[None]"] show ?thesis
      by (auto simp: scopes_ok_def scope_enter_def scope_ensure_root_def scope_leave_def Let_def less_Suc_eq)
  next
    case False
    with assms have ok: "scope st < length (scopes st)" "scopes st ! 0 = None"
      "\<forall>i < length (scopes st). 0 < i \<longrightarrow> (\<exists>p < i. scopes st ! i = Some p)"
      by (auto simp: scopes_ok_def)
    then show ?thesis
      using False keep [of _ "scopes st"] new [OF ok(1)]
      by (auto simp: scopes_ok_def scope_enter_def scope_ensure_root_def scope_leave_def Let_def nth_append less_Suc_eq)
  qed
qed

theorem scope_enter_leave_witness:
  "scope_chain (scopes (snd (scope_enter two_scopes))) 2 = [2, 1, 0]"
proof -
  have "scopes_ok two_scopes" by (simp add: two_scopes_def sym_init_def scopes_ok_def less_Suc_eq)
  from scope_enter_leave [OF this]
  have "scope_chain (scopes (snd (scope_enter two_scopes))) 2 = 2 # scope_chain (scopes two_scopes) 1"
    by (auto simp: scope_enter_def scope_ensure_root_def two_scopes_def sym_init_def Let_def eval_nat_numeral)
  then show ?thesis
    by (simp add: two_scopes_def scope_chain.simps)
qed

end
