(* ===== verification/Cup_Parser.thy ===== *)
theory Cup_Parser
  imports Cup_Symbols
begin

text \<open>
  The parser of \<^verbatim>\<open>src/parser.c\<close>: \<^verbatim>\<open>statement\<close>, the operator precedences of \<^verbatim>\<open>getPower\<close>, and the
  prefix forms and the operator loop of \<^verbatim>\<open>primary\<close>.

  A \<^verbatim>\<open>Nodes\<close> vector is the list of its cells; the empty list is the null pointer. Text messages
  are left out. \<^verbatim>\<open>primary\<close> and \<^verbatim>\<open>statement\<close> call each other; the model passes the recursive call as
  the argument \<open>rec\<close> and ties the knot with a bound on the depth, which also bounds the loops.
  What the parser calls in other files, \<^verbatim>\<open>importModule\<close>, \<^verbatim>\<open>externalModule\<close> and
  \<^verbatim>\<open>externalSymbol\<close>, is passed as well.
\<close>

section \<open>State\<close>

text \<open>\<open>temp\<close> is \<^verbatim>\<open>tempmem\<close> as an array of type pointers, which keeps what was written before.\<close>

record parst = symst +
  types :: types
  temp :: "slot list"

record 's hooks =
  import_module :: "'s \<Rightarrow> 's res"
  external_module :: "'s \<Rightarrow> 's res"
  external_symbol :: "'s \<Rightarrow> string \<Rightarrow> u64 \<Rightarrow> 's res"

text \<open>\<^verbatim>\<open>state->nodes.node\<close> and \<^verbatim>\<open>state->nodes\<close>: the token alone, and the token with its payload.\<close>

definition node :: "'a lexst_scheme \<Rightarrow> cell" where
  "node st = CTok (tok st) (loc_col st) (loc_line st)"

definition node2 :: "'a lexst_scheme \<Rightarrow> cell list" where
  "node2 st = [node st, CPay (tok_val st)]"

text \<open>A token in the place of the current one, and with a value.\<close>

definition node_as :: "'a lexst_scheme \<Rightarrow> ctt \<Rightarrow> cell" where
  "node_as st t = CTok t (loc_col st) (loc_line st)"

definition CUPDEFPOWER :: nat where "CUPDEFPOWER = 2"

definition nodes_token :: "cell list \<Rightarrow> ctt res" where
  "nodes_token cs = (case cs of [] \<Rightarrow> Inl Undef | c # _ \<Rightarrow> cell_token c)"

text \<open>\<^verbatim>\<open>nodes.data[1].value\<close>.\<close>

definition nodes_value :: "cell list \<Rightarrow> u64 res" where
  "nodes_value cs = (if length cs < 2 then Inl Undef else cell_value (cs ! 1))"

section \<open>Operator precedence\<close>

definition getPower :: "ctt \<Rightarrow> nat" where
  "getPower t =
     (if t = T_EOF then 0
      else if t \<in> {T_IF, T_RETURN, T_NL, T_CRB, T_CCB, T_CSB} then 1
      else if t = T_COMMA then 2
      else if t \<in> {T_EQ, T_ADDEQ, T_SUBEQ, T_MULEQ, T_DIVEQ, T_MODEQ, T_ANDEQ, T_OREQ, T_XOREQ} then 3
      else if t \<in> {T_OR, T_AND, T_XOR} then 6
      else if t \<in> {T_EQEQ, T_NOTEQ} then 8
      else if t \<in> {T_LESSEQ, T_GREATEQ, T_LESS, T_GREAT} then 10
      else if t \<in> {T_ADD, T_SUB} then 12
      else if t \<in> {T_MUL, T_DIV, T_MOD} then 14
      else if t = T_DOT then 16
      else if t = T_CALL then 18
      else if t = T_OCB then 1
      else if t = T_OSB then CUPDEFPOWER
      else UINT8_MAX)"

section \<open>Statements\<close>

type_synonym ('s) parse_fun = "'s \<Rightarrow> nat \<Rightarrow> (cell list \<times> 's) res"

definition statement :: "'a parst_scheme parse_fun \<Rightarrow> 'a parst_scheme \<Rightarrow> (cell list \<times> 'a parst_scheme) res" where
  "statement rec st =
     rbind (rec st CUPDEFPOWER) (\<lambda>(n, st).
       if tok st = T_NL then rbind (getToken st False) (\<lambda>st. Inr (n, st)) else Inr (n, st))"

definition expectAndNext :: "ctt \<Rightarrow> 'a parst_scheme \<Rightarrow> 'a parst_scheme res" where
  "expectAndNext t st = (if tok st \<noteq> t then Inl (Exit 1) else getToken st True)"

section \<open>Prefix forms\<close>

definition prim_import :: "'a parst_scheme hooks \<Rightarrow> 'a parst_scheme \<Rightarrow> (cell list \<times> 'a parst_scheme) res" where
  "prim_import hk st =
     rbind (getToken st True) (\<lambda>st.
       if tok st \<noteq> T_STRING then Inr ([], st)
       else rbind (import_module hk st) (\<lambda>st.
            rbind (getToken st True) (\<lambda>st. Inr ([], st))))"

primrec external_loop :: "nat \<Rightarrow> 'a parst_scheme hooks \<Rightarrow> 'a parst_scheme \<Rightarrow> (cell list \<times> 'a parst_scheme) res" where
  "external_loop 0 hk st = Inl Loop"
| "external_loop (Suc n) hk st =
     (if tok st \<noteq> T_IDENTIFIER then Inr ([], st)
      else case tok_val st of
        PStr name \<Rightarrow>
          rbind (getToken st True) (\<lambda>st.
            if tok st \<noteq> T_STRING then Inr ([], st)
            else case tok_val st of
              PVal i \<Rightarrow>
                rbind (external_symbol hk st name i) (\<lambda>st.
                rbind (getToken st True) (\<lambda>st. external_loop n hk st))
            | _ \<Rightarrow> Inl Undef)
      | _ \<Rightarrow> Inl Undef)"

definition prim_external :: "nat \<Rightarrow> 'a parst_scheme hooks \<Rightarrow> 'a parst_scheme \<Rightarrow> (cell list \<times> 'a parst_scheme) res" where
  "prim_external n hk st =
     rbind (getToken st True) (\<lambda>st.
       if tok st \<noteq> T_STRING then Inr ([], st)
       else rbind (external_module hk st) (\<lambda>st.
            rbind (getToken st True) (\<lambda>st. external_loop n hk st)))"

text \<open>The type of a function with \<open>argc\<close> parameters, made from what the scratch memory holds.\<close>

definition function_type :: "'a parst_scheme \<Rightarrow> u64 \<Rightarrow> (tref \<times> 'a parst_scheme) res" where
  "function_type st argc =
     rbind (cup_talloc 0 (unat (8 * (argc + 2)))) (\<lambda>_.
     rbind (guard (unat (argc + 1) < length (temp st)) Undef) (\<lambda>_.
       let tmp = (temp st)[unat (argc + 1) := SType void_ref]
       in rbind (cup_type (types st) CUP_TYPE_FUNCTION (ucast (argc + 1)) (DSlots tmp)) (\<lambda>(r, ts).
            Inr (r, st\<lparr>temp := tmp, types := ts\<rparr>))))"

definition declare_function :: "'a parst_scheme \<Rightarrow> string \<Rightarrow> 'a parst_scheme res" where
  "declare_function st name =
     rbind (varLookup st name (scope st)) (\<lambda>v.
       case v of
         None \<Rightarrow> putVar st name None 0 (scope st)
       | Some i \<Rightarrow>
           (case var_type (vars st ! i) of
              None \<Rightarrow> Inr st
            | Some t \<Rightarrow> if t \<noteq> void_ref then Inl (Exit 1) else Inr st))"

definition prim_function ::
  "'a parst_scheme parse_fun \<Rightarrow> 'a parst_scheme \<Rightarrow> (cell list \<times> 'a parst_scheme) res" where
  "prim_function rec st =
     (let n = node st in
      rbind (getToken st True) (\<lambda>st.
        if tok st = T_AT then rbind (getToken st True) (\<lambda>st. Inr ([], st))
        else if tok st \<noteq> T_IDENTIFIER then Inr ([], st)
        else case tok_val st of
          PStr name \<Rightarrow>
            (let left = n # node2 st in
             rbind (declare_function st name) (\<lambda>st.
             rbind (getToken st True) (\<lambda>st.
             let st = snd (scope_enter st);
                 comma = [node_as st T_COMMA, CPay (PVal 1)]
             in rbind (statement rec st) (\<lambda>(args, st).
                rbind (if args \<noteq> [] then nodes_token args else Inr T_EOF) (\<lambda>first.
                rbind (if first = T_COMMA then nodes_value args else Inr 1) (\<lambda>argc.
                let left = (if first = T_COMMA then left else left @ comma)
                in rbind (function_type st argc) (\<lambda>(type, st).
                   rbind (varLookup st name (scope st)) (\<lambda>v.
                   case v of
                     None \<Rightarrow> Inl Abort
                   | Some i \<Rightarrow>
                       (let st = st\<lparr>vars := (vars st)[i := (vars st ! i)\<lparr>var_type := Some type\<rparr>]\<rparr>
                        in rbind (statement rec st) (\<lambda>(block, st).
                           rbind (scope_leave st) (\<lambda>st.
                             Inr (left @ args @ block, st))))))))))))
        | _ \<Rightarrow> Inl Undef))"

definition prim_while ::
  "'a parst_scheme parse_fun \<Rightarrow> 'a parst_scheme \<Rightarrow> (cell list \<times> 'a parst_scheme) res" where
  "prim_while rec st =
     (let n = node st in
      rbind (getToken st False) (\<lambda>st.
      rbind (statement rec st) (\<lambda>(cond, st).
      rbind (statement rec st) (\<lambda>(body, st). Inr (n # cond @ body, st)))))"

definition prim_return ::
  "'a parst_scheme parse_fun \<Rightarrow> 'a parst_scheme \<Rightarrow> (cell list \<times> 'a parst_scheme) res" where
  "prim_return rec st =
     (let n = node st in
      rbind (getToken st False) (\<lambda>st.
      rbind (statement rec st) (\<lambda>(e, st). Inr (n # e, st))))"

text \<open>\<^verbatim>\<open>T_SUB\<close> and \<^verbatim>\<open>T_NOT\<close>: the operand is a whole expression of the lowest power.\<close>

definition prim_unary ::
  "'a parst_scheme parse_fun \<Rightarrow> ctt \<Rightarrow> 'a parst_scheme \<Rightarrow> (cell list \<times> 'a parst_scheme) res" where
  "prim_unary rec t st =
     (let n = node_as st t in
      rbind (getToken st True) (\<lambda>st.
      rbind (rec st CUPDEFPOWER) (\<lambda>(e, st). Inr (n # e, st))))"

text \<open>A name that is seen inside a scope and has no variable yet gets one without a type.\<close>

definition enter_name :: "'a parst_scheme \<Rightarrow> string \<Rightarrow> 'a parst_scheme res" where
  "enter_name st name =
     (if scope st \<noteq> 0 then
        rbind (varLookup st name (scope st)) (\<lambda>v.
          if v = None then putVar st name None 0 (scope st) else Inr st)
      else Inr st)"

definition prim_identifier :: "'a parst_scheme \<Rightarrow> (cell list \<times> 'a parst_scheme) res" where
  "prim_identifier st =
     (case tok_val st of
        PStr name \<Rightarrow>
          (let left = node2 st in
           rbind (enter_name st name) (\<lambda>st.
           rbind (getToken st True) (\<lambda>st. Inr (left, st))))
      | _ \<Rightarrow> Inl Undef)"

definition prim_number :: "'a parst_scheme \<Rightarrow> (cell list \<times> 'a parst_scheme) res" where
  "prim_number st =
     (case tok_val st of
        PVal v \<Rightarrow>
          rbind (getToken st True) (\<lambda>st1.
            if tok st1 = T_DOT then
              rbind (getToken st1 True) (\<lambda>st2.
                if tok st2 = T_NUMBER then
                  (case tok_val st2 of
                     PVal f \<Rightarrow> rbind (getToken st2 True) (\<lambda>st3.
                       Inr ([node_as st T_DOUBLE, CPay (PDbl v (Some f))], st3))
                   | _ \<Rightarrow> Inl Undef)
                else Inr ([node_as st T_DOUBLE, CPay (PDbl v None)], st2))
            else Inr (node2 st, st1))
      | _ \<Rightarrow> Inl Undef)"

definition prim_paren ::
  "'a parst_scheme parse_fun \<Rightarrow> 'a parst_scheme \<Rightarrow> (cell list \<times> 'a parst_scheme) res" where
  "prim_paren rec st =
     rbind (getToken st False) (\<lambda>st.
       if tok st \<noteq> T_CRB then
         rbind (statement rec st) (\<lambda>(left, st).
         rbind (expectAndNext T_CRB st) (\<lambda>st. Inr (left, st)))
       else
         (let left = [node_as st T_COMMA, CPay (tok_val st)]
          in rbind (getToken st True) (\<lambda>st. Inr (left, st))))"

text \<open>The statements of a block; the count in the second cell is the number of those with nodes.\<close>

primrec block_loop ::
  "nat \<Rightarrow> 'a parst_scheme parse_fun \<Rightarrow> cell \<Rightarrow> u64 \<Rightarrow> cell list \<Rightarrow> 'a parst_scheme \<Rightarrow>
   (cell list \<times> 'a parst_scheme) res" where
  "block_loop 0 rec n count body st = Inl Loop"
| "block_loop (Suc k) rec n count body st =
     (if tok st = T_CCB then Inr (n # CPay (PVal count) # body, st)
      else rbind (statement rec st) (\<lambda>(block, st).
        block_loop k rec n (if block \<noteq> [] then count + 1 else count) (body @ block) st))"

definition prim_block ::
  "nat \<Rightarrow> 'a parst_scheme parse_fun \<Rightarrow> 'a parst_scheme \<Rightarrow> (cell list \<times> 'a parst_scheme) res" where
  "prim_block k rec st =
     (case tok_val st of
        PVal count \<Rightarrow>
          (let n = node_as st N_BLOCK in
           rbind (getToken st False) (\<lambda>st.
           let st = snd (scope_enter st)
           in rbind (block_loop k rec n count [] st) (\<lambda>(left, st).
              rbind (getToken st True) (\<lambda>st.
              rbind (scope_leave st) (\<lambda>st. Inr (left, st))))))
      | _ \<Rightarrow> Inl Undef)"

text \<open>The zeroed room of an array literal in the data section.\<close>

definition array_room :: "u64 \<Rightarrow> 'a parst_scheme \<Rightarrow> u64 \<times> 'a parst_scheme" where
  "array_room count st =
     (of_nat (length (data_sec st)),
      st\<lparr>data_sec := data_sec st @ replicate (unat (count * 8)) NUL\<rparr>)"

text \<open>What stands between the brackets: the element count and the cells. \<open>v\<close> is the value the
  opening bracket came with and \<open>comma\<close> a comma node in its place.\<close>

definition array_content ::
  "'a parst_scheme parse_fun \<Rightarrow> payload \<Rightarrow> cell \<Rightarrow> 'a parst_scheme \<Rightarrow> (u64 \<times> cell list \<times> 'a parst_scheme) res" where
  "array_content rec v comma st =
     (let none = (\<lambda>st. rbind (cell_value (CPay v)) (\<lambda>count. Inr (count, [comma, CPay (PVal 0)], st)))
      in if tok st \<noteq> T_CSB then
           rbind (rec st CUPDEFPOWER) (\<lambda>(body, st).
             if body \<noteq> [] then
               rbind (nodes_token body) (\<lambda>first.
               rbind (if first = T_COMMA then nodes_value body else Inr 1) (\<lambda>count.
                 Inr (count, body, st)))
             else none st)
         else none st)"

definition prim_array ::
  "'a parst_scheme parse_fun \<Rightarrow> 'a parst_scheme \<Rightarrow> (cell list \<times> 'a parst_scheme) res" where
  "prim_array rec st =
     (let n = node_as st N_ARRAY; v = tok_val st; comma = node_as st T_COMMA
      in rbind (getToken st False) (\<lambda>st.
         rbind (array_content rec v comma st) (\<lambda>(count, body, st).
         rbind (expectAndNext T_CSB (snd (array_room count st))) (\<lambda>st'.
           Inr (n # CPay (PVal (fst (array_room count st))) # body, st')))))"

definition prim_if ::
  "'a parst_scheme parse_fun \<Rightarrow> 'a parst_scheme \<Rightarrow> (cell list \<times> 'a parst_scheme) res" where
  "prim_if rec st =
     (let n = node st in
      rbind (getToken st False) (\<lambda>st.
      rbind (statement rec st) (\<lambda>(cond, st).
      rbind (statement rec st) (\<lambda>(body, st).
        if tok st = T_ELSE then
          (let e = node st in
           rbind (getToken st False) (\<lambda>st.
           rbind (statement rec st) (\<lambda>(alt, st). Inr (e # n # cond @ body @ alt, st))))
        else Inr (n # cond @ body, st)))))"

text \<open>One token that stands for itself, with or without its payload.\<close>

definition prim_token :: "cell list \<Rightarrow> 'a parst_scheme \<Rightarrow> (cell list \<times> 'a parst_scheme) res" where
  "prim_token left st = rbind (getToken st True) (\<lambda>st. Inr (left, st))"

text \<open>The \<^verbatim>\<open>switch\<close> of \<^verbatim>\<open>primary\<close>; the second component says whether the operator loop follows
  (\<^verbatim>\<open>break\<close>) or the form is returned as it is.\<close>

definition prim_prefix ::
  "'a parst_scheme hooks \<Rightarrow> nat \<Rightarrow> 'a parst_scheme parse_fun \<Rightarrow> 'a parst_scheme \<Rightarrow>
   (cell list \<times> 'a parst_scheme) res \<times> bool" where
  "prim_prefix hk k rec st =
     (case tok st of
        T_IMPORT \<Rightarrow> (prim_import hk st, False)
      | T_EXTERNAL \<Rightarrow> (prim_external k hk st, False)
      | T_AT \<Rightarrow> (prim_function rec st, False)
      | T_BREAK \<Rightarrow> (prim_token [node st] st, True)
      | T_CONTINUE \<Rightarrow> (prim_token [node st] st, True)
      | T_WHILE \<Rightarrow> (prim_while rec st, False)
      | T_RETURN \<Rightarrow> (prim_return rec st, True)
      | T_SUB \<Rightarrow> (prim_unary rec N_UNARY st, True)
      | T_NOT \<Rightarrow> (prim_unary rec T_NOT st, True)
      | T_IDENTIFIER \<Rightarrow> (prim_identifier st, True)
      | T_STRING \<Rightarrow> (prim_token (node2 st) st, True)
      | T_NUMBER \<Rightarrow> (prim_number st, True)
      | T_THIS \<Rightarrow> (prim_token [node st] st, True)
      | T_CALL \<Rightarrow> (prim_paren rec st, True)
      | T_OCB \<Rightarrow> (prim_block k rec st, False)
      | T_OSB \<Rightarrow> (prim_array rec st, True)
      | T_IF \<Rightarrow> (prim_if rec st, True)
      | T_VARG \<Rightarrow> (prim_token [node st] st, True)
      | T_AND \<Rightarrow> (Inl Abort, False)
      | _ \<Rightarrow> (Inl (Exit 1), False))"

section \<open>The operator loop\<close>

text \<open>The right operand: a pair of brackets with nothing between them, or a recursive call.\<close>

definition op_right ::
  "'a parst_scheme parse_fun \<Rightarrow> cell \<Rightarrow> ctt \<Rightarrow> 'a parst_scheme \<Rightarrow> (cell list \<times> 'a parst_scheme) res" where
  "op_right rec comma t st =
     (if t = T_CALL \<and> tok st = T_CRB \<or> t = T_OSB \<and> tok st = T_CSB then Inr ([comma, CPay (PVal 0)], st)
      else
        (let power = (if t = T_CALL \<or> t = T_OSB then CUPDEFPOWER else getPower t)
         in if power = 16 then
              rbind (rec (st\<lparr>scope := 0\<rparr>) 16) (\<lambda>(right, st'). Inr (right, st'\<lparr>scope := scope st\<rparr>))
            else rec st power))"

text \<open>
  What an operator does with its operands. Popping the two cells of a comma node that holds
  nothing else releases the vector, whose pointer is then pushed with size zero.
\<close>

definition op_apply ::
  "cell \<Rightarrow> ctt \<Rightarrow> cell list \<Rightarrow> cell list \<Rightarrow> 'a parst_scheme \<Rightarrow> (cell list \<times> 'a parst_scheme) res" where
  "op_apply n t left right st =
     (case t of
        T_DOT \<Rightarrow> Inr (n # left @ right, st)
      | T_CALL \<Rightarrow>
          (if tok st \<noteq> T_CRB then Inl (Exit 1)
           else rbind (getToken st True) (\<lambda>st.
                rbind (nodes_token right) (\<lambda>first.
                  if first \<noteq> T_COMMA then
                    (case n of
                       CTok _ col line \<Rightarrow> Inr (n # left @ [CTok T_COMMA col line, CPay (PVal 1)] @ right, st)
                     | _ \<Rightarrow> Inl Undef)
                  else Inr (n # left @ right, st))))
      | T_EQ \<Rightarrow> Inr (n # right @ left, st)
      | T_COMMA \<Rightarrow>
          rbind (nodes_token right) (\<lambda>first.
            if first = T_COMMA then
              rbind (nodes_value right) (\<lambda>v.
                if length right \<le> 2 then Inl Abort
                else Inr (n # CPay (PVal (v + 1)) # left @ drop 2 right, st))
            else Inr (n # CPay (PVal 2) # left @ right, st))
      | T_OSB \<Rightarrow>
          (if tok st \<noteq> T_CSB then Inl (Exit 1)
           else rbind (getToken st True) (\<lambda>st. Inr (n # left @ right, st)))
      | _ \<Rightarrow>
          if t \<in> {T_ADD, T_ADDEQ, T_EQEQ, T_LESS, T_MUL, T_LESSEQ, T_SUB} then Inr (n # left @ right, st)
          else Inl (Exit 1))"

primrec op_loop ::
  "nat \<Rightarrow> 'a parst_scheme parse_fun \<Rightarrow> nat \<Rightarrow> cell list \<Rightarrow> 'a parst_scheme \<Rightarrow> (cell list \<times> 'a parst_scheme) res" where
  "op_loop 0 rec mpower left st = Inl Loop"
| "op_loop (Suc k) rec mpower left st =
     (let t = tok st; n = node st; comma = node_as st T_COMMA
      in if getPower t = UINT8_MAX then Inl (Exit 1)
         else if getPower t < mpower then Inr (left, st)
         else
           rbind (getToken st False) (\<lambda>st.
           rbind (op_right rec comma t st) (\<lambda>(right, st).
           rbind (op_apply n t left right st) (\<lambda>(left, st). op_loop k rec mpower left st))))"

text \<open>\<^verbatim>\<open>primary\<close> at most \<open>n\<close> calls deep, with loops of at most \<open>n\<close> rounds.\<close>

primrec primary :: "'a parst_scheme hooks \<Rightarrow> nat \<Rightarrow> 'a parst_scheme parse_fun" where
  "primary hk 0 st mpower = Inl Loop"
| "primary hk (Suc n) st mpower =
     (case prim_prefix hk n (primary hk n) st of
        (r, loops) \<Rightarrow>
          rbind r (\<lambda>(left, st). if loops then op_loop n (primary hk n) mpower left st else Inr (left, st)))"

section \<open>What a parsing step keeps\<close>

lemma idToken_rest [simp]: "lexst.more (snd (idToken st s)) = lexst.more st"
  by (simp add: idToken_def)

lemma lex_string_rest [simp]: "lexst.more (lex_string s st) = lexst.more st"
  by (simp add: lex_string_def Let_def split: option.splits)

lemma lex_token_rest [simp]: "lexst.more (lex_token s st) = lexst.more st"
  by (simp add: lex_token_def Let_def split: option.splits prod.splits)

lemma same_rest:
  fixes a b :: "'a parst_scheme"
  assumes "lexst.more a = lexst.more b"
  shows "scopes a = scopes b" "scope a = scope b" "vars a = vars b" "vars_cap a = vars_cap b"
    "vars_map a = vars_map b" "types a = types b" "temp a = temp b"
  using assms by (cases a; cases b; simp)+

lemma getToken_rest:
  assumes "getToken st space = Inr st'"
  shows "lexst.more st' = lexst.more st"
  using assms by (auto simp: getToken_def Let_def res_simps)

lemmas getToken_more = same_rest [OF getToken_rest]

text \<open>What the parts of the invariant depend on.\<close>

lemma lex_ok_cong: "input_stream st' = input_stream st \<Longrightarrow> priv_stream st' = priv_stream st \<Longrightarrow> lex_ok st' = lex_ok st"
  by (cases "priv_stream st") (simp_all add: lex_ok_def)

lemma vars_ok_cong:
  "vars st' = vars st \<Longrightarrow> vars_cap st' = vars_cap st \<Longrightarrow> vars_map st' = vars_map st \<Longrightarrow> vars_ok st' = vars_ok st"
  by (simp add: vars_ok_def)

lemma scopes_ok_cong: "scopes st' = scopes st \<Longrightarrow> scope st' = scope st \<Longrightarrow> scopes_ok st' = scopes_ok st"
  by (simp add: scopes_ok_def)

definition temp_ok :: "slot list \<Rightarrow> bool" where
  "temp_ok ss \<longleftrightarrow> length ss = TEMP_CAP div 8 \<and> (\<forall>s \<in> set ss. s = SNull \<or> s = SType void_ref)"

definition par_ok :: "'a parst_scheme \<Rightarrow> bool" where
  "par_ok st \<longleftrightarrow>
     lex_ok st \<and> vars_ok st \<and> scopes_ok st \<and> scopes st \<noteq> [] \<and> types_ok (types st) \<and> temp_ok (temp st)"

text \<open>The text that is left to read; the end-of-file token is worth one step less than any other.\<close>

definition to_read :: "'a lexst_scheme \<Rightarrow> nat" where
  "to_read st = length (input_stream st) + (if tok st = T_EOF then 0 else 1)"

definition adv :: "'a parst_scheme \<Rightarrow> 'a parst_scheme \<Rightarrow> bool" where
  "adv st st' \<longleftrightarrow> par_ok st' \<and> length (scopes st) \<le> length (scopes st') \<and> to_read st' \<le> to_read st"

definition adv1 :: "'a parst_scheme \<Rightarrow> 'a parst_scheme \<Rightarrow> bool" where
  "adv1 st st' \<longleftrightarrow> par_ok st' \<and> length (scopes st) \<le> length (scopes st') \<and> to_read st' < to_read st"

lemma adv_refl: "par_ok st \<Longrightarrow> adv st st"
  by (simp add: adv_def)

lemma adv_trans: "adv st st1 \<Longrightarrow> adv st1 st2 \<Longrightarrow> adv st st2"
  by (auto simp: adv_def)

lemma adv1_trans: "adv1 st st1 \<Longrightarrow> adv st1 st2 \<Longrightarrow> adv1 st st2"
  by (auto simp: adv_def adv1_def)

lemma adv1_adv: "adv1 st st1 \<Longrightarrow> adv st st1"
  by (auto simp: adv_def adv1_def)

lemma adv1_par: "adv1 st st1 \<Longrightarrow> par_ok st1"
  by (simp add: adv1_def)

lemma adv_par: "adv st st1 \<Longrightarrow> par_ok st1"
  by (simp add: adv_def)

lemma getToken_adv1:
  assumes "par_ok st" and "tok st \<noteq> T_EOF"
  shows "ensures (getToken st space) (adv1 st)"
proof -
  have "lex_ok st" using assms(1) by (simp add: par_ok_def)
  then obtain st' sk pre where st': "getToken st space = Inr st'" "lex_ok st'"
      "input_stream st = sk @ pre @ input_stream st'"
      "if tok st' = T_EOF then pre = [] \<and> cur (input_stream st') = CHR 0x00 else pre \<noteq> []"
    using getToken_progress [of st space] by blast
  note more = getToken_more [OF st'(1)]
  have "par_ok st'"
    using assms(1) st'(2) more vars_ok_cong [OF more(3-5)] scopes_ok_cong [OF more(1,2)] by (simp add: par_ok_def)
  moreover have "to_read st' < to_read st"
    using st'(3,4) assms(2) by (auto simp: to_read_def split: if_splits)
  ultimately show ?thesis using st'(1) more by (simp add: adv1_def)
qed

text \<open>Sequencing: a first part that consumes something, then parts that do not go back.\<close>

lemma ensures_bindI:
  assumes "ensures m P" and "\<And>x. P x \<Longrightarrow> ensures (f x) Q"
  shows "ensures (rbind m f) Q"
  unfolding ensures_rbind by (rule ensures_mono [OF assms])

lemma ensures_bind_pairI:
  assumes "ensures m (\<lambda>(x, st1). P x st1)" and "\<And>x st1. P x st1 \<Longrightarrow> ensures (f x st1) Q"
  shows "ensures (rbind m (case_prod f)) Q"
  using assms by (cases m) auto

lemma putVar_adv:
  assumes "par_ok st"
  shows "ensures (putVar st name type val sc) (\<lambda>st'. adv st st' \<and> tok st' = tok st)"
proof -
  have "vars_ok st" using assms by (simp add: par_ok_def)
  from putVar_ensures [OF this, of name type val sc] show ?thesis
  proof (rule ensures_mono, elim conjE exE, hypsubst)
    fix cap tab
    let ?st = "st\<lparr>vars := vars st @ [new_var name type val sc], vars_cap := cap, vars_map := tab\<rparr>"
    assume "vars_ok ?st"
    moreover have "lex_ok ?st = lex_ok st" by (rule lex_ok_cong) simp_all
    moreover have "scopes_ok ?st = scopes_ok st" by (rule scopes_ok_cong) simp_all
    ultimately show "adv st ?st \<and> tok ?st = tok st" using assms by (simp add: adv_def par_ok_def to_read_def)
  qed
qed

lemma varLookup_par:
  assumes "par_ok st"
  shows "ensures (varLookup st name (scope st)) (\<lambda>v. \<forall>i. v = Some i \<longrightarrow> i < length (vars st))"
  by (rule varLookup_ensures) (use assms in \<open>simp_all add: par_ok_def\<close>)

lemma scope_enter_adv:
  assumes "par_ok st"
  shows "adv st (snd (scope_enter st)) \<and> tok (snd (scope_enter st)) = tok st"
proof -
  have same: "types (snd (scope_enter st)) = types st" "temp (snd (scope_enter st)) = temp st"
    "scopes (snd (scope_enter st)) \<noteq> []"
    by (simp_all add: scope_enter_def scope_ensure_root_def Let_def)
  show ?thesis
    using assms scope_enter_ok [of st] same lex_ok_cong [of "snd (scope_enter st)" st] vars_ok_cong [of "snd (scope_enter st)" st]
    by (simp add: adv_def par_ok_def to_read_def)
qed

lemma scope_leave_adv:
  assumes "par_ok st"
  shows "ensures (scope_leave st) (adv st)"
proof -
  have "scopes_ok st" using assms by (simp add: par_ok_def)
  from scope_leave_ensures [OF this] show ?thesis
  proof (rule ensures_mono, elim conjE exE, hypsubst)
    fix p assume "scopes_ok (st\<lparr>scope := p\<rparr>)"
    then show "adv st (st\<lparr>scope := p\<rparr>)"
      using assms lex_ok_cong [of "st\<lparr>scope := p\<rparr>" st] vars_ok_cong [of "st\<lparr>scope := p\<rparr>" st]
      by (simp add: adv_def par_ok_def to_read_def)
  qed
qed

lemma function_type_adv:
  assumes "par_ok st"
  shows "ensures (function_type st argc) (\<lambda>(r, st'). adv st st' \<and> tok st' = tok st)"
proof -
  let ?tmp = "(temp st)[unat (argc + 1) := SType void_ref]"
  have tmp: "temp_ok ?tmp"
    using assms set_update_subset_insert [of "temp st"] by (fastforce simp: par_ok_def temp_ok_def)
  have ts: "types_ok (types st)" using assms by (simp add: par_ok_def)
  have data: "data_ok (types st) (DSlots ?tmp)"
    using tmp by (auto simp: data_ok_def temp_ok_def slot_ok_def ref_ok_def is_basic_def)
  have "ensures (cup_type (types st) CUP_TYPE_FUNCTION (ucast (argc + 1)) (DSlots ?tmp)) (\<lambda>(r, ts). types_ok ts)"
    using cup_type_no_loop [OF ts data] cup_type_ok [OF ts data] by (auto simp: ensures_def)
  then have "ensures (cup_type (types st) CUP_TYPE_FUNCTION (ucast (argc + 1)) (DSlots ?tmp))
      (\<lambda>(r, ts). adv st (st\<lparr>temp := ?tmp, types := ts\<rparr>))"
  proof (rule ensures_mono, clarify)
    fix r ts assume "types_ok ts"
    let ?st = "st\<lparr>temp := ?tmp, types := ts\<rparr>"
    show "adv st ?st"
      using assms tmp \<open>types_ok ts\<close> lex_ok_cong [of ?st st] vars_ok_cong [of ?st st] scopes_ok_cong [of ?st st]
      by (simp add: adv_def par_ok_def to_read_def)
  qed
  then show ?thesis
    by (auto simp: function_type_def Let_def cup_talloc_def case_prod_unfold ensures_rbind)
qed

lemma update_same:
  assumes "\<And>x. f (g x) = f x"
  shows "f (xs[i := g (xs ! i)] ! j) = f (xs ! j)"
proof (cases "i = j \<and> i < length xs")
  case False
  then have "xs[i := g (xs ! i)] ! j = xs ! j" by (metis list_update_beyond not_le nth_list_update_neq)
  then show ?thesis by simp
qed (use assms in auto)

lemma set_type_adv:
  assumes "par_ok st"
  shows "adv st (st\<lparr>vars := (vars st)[i := (vars st ! i)\<lparr>var_type := t\<rparr>]\<rparr>)"
proof -
  have keep: "var_name ((vars st)[i := (vars st ! i)\<lparr>var_type := t\<rparr>] ! j) = var_name (vars st ! j)"
    "var_scope ((vars st)[i := (vars st ! i)\<lparr>var_type := t\<rparr>] ! j) = var_scope (vars st ! j)" for j
    by (rule update_same, simp)+
  let ?st = "st\<lparr>vars := (vars st)[i := (vars st ! i)\<lparr>var_type := t\<rparr>]\<rparr>"
  have "map_ok ((vars st)[i := (vars st ! i)\<lparr>var_type := t\<rparr>]) tab n = map_ok (vars st) tab n" for tab n
    by (simp add: map_ok_def placed_def keep)
  then have "vars_ok ?st = vars_ok st" by (simp add: vars_ok_def)
  moreover have "lex_ok ?st = lex_ok st" by (rule lex_ok_cong) simp_all
  moreover have "scopes_ok ?st = scopes_ok st" by (rule scopes_ok_cong) simp_all
  ultimately show ?thesis using assms by (simp add: adv_def par_ok_def to_read_def)
qed

section \<open>Function definitions\<close>

lemma new_args_void:
  assumes "n < length ss" and "ss ! n = SType void_ref" and "\<forall>s \<in> set ss. s = SNull \<or> s = SType void_ref"
  shows "new_args rec ts (Suc n) ss = Inl Abort"
  using assms
proof (induction n arbitrary: ss)
  case 0
  then show ?case by (cases ss) auto
next
  case (Suc n)
  then obtain s ss' where ss: "ss = s # ss'" by (cases ss) auto
  with Suc have "new_args rec ts (Suc n) ss' = Inl Abort" by simp
  with ss Suc.prems(3) show ?case by (auto simp del: new_args.simps(3) simp add: new_args.simps(3) [of rec ts "Suc n"])
qed

lemma no_function_found:
  "\<forall>c \<in> set cs. ct_kind c \<noteq> CUP_TYPE_FUNCTION \<Longrightarrow> cup_type_getEx ts CUP_TYPE_FUNCTION n d i cs = Inr None"
  by (induction cs arbitrary: i) auto


definition blank_state :: parst where
  "blank_state = \<lparr>input_stream = [], priv_stream = None, tok = T_EOF, loc_col = 0, loc_line = 0,
     tok_val = PVal 0, data_sec = [], scopes = [None], scope = 0, vars = [], vars_cap = 0, vars_map = [],
     types = [], temp = replicate (TEMP_CAP div 8) SNull\<rparr>"


section \<open>The parser returns\<close>

text \<open>A recursive call that may be used on less than \<open>n\<close> units of text.\<close>

definition rec_ok :: "nat \<Rightarrow> 'a parst_scheme parse_fun \<Rightarrow> bool" where
  "rec_ok n rec \<longleftrightarrow>
     (\<forall>st p. par_ok st \<longrightarrow> to_read st < n \<longrightarrow> 0 < p \<longrightarrow> ensures (rec st p) (\<lambda>(x, st'). adv1 st st'))"

lemma tok_step:
  assumes "par_ok st" and "tok st \<noteq> T_EOF" and "\<And>st1. adv1 st st1 \<Longrightarrow> ensures (f st1) Q"
  shows "ensures (rbind (getToken st space) f) Q"
  by (rule ensures_bindI [OF getToken_adv1]) (use assms in auto)

lemma rec_step:
  assumes "rec_ok n rec" and "par_ok st" and "to_read st < n" and "0 < p" and "\<And>x st1. adv1 st st1 \<Longrightarrow> ensures (f x st1) Q"
  shows "ensures (rbind (rec st p) (case_prod f)) Q"
  by (rule ensures_bind_pairI [of _ "\<lambda>x. adv1 st"]) (use assms in \<open>auto simp: rec_ok_def\<close>)

lemma statement_ok:
  assumes "rec_ok n rec" and "par_ok st" and "to_read st < n"
  shows "ensures (statement rec st) (\<lambda>(x, st'). adv1 st st')"
  unfolding statement_def
  by (rule rec_step [OF assms]) (auto simp: adv1_def CUPDEFPOWER_def intro!: tok_step)

lemma stmt_step:
  assumes "rec_ok n rec" and "par_ok st" and "to_read st < n" and "\<And>x st1. adv1 st st1 \<Longrightarrow> ensures (f x st1) Q"
  shows "ensures (rbind (statement rec st) (case_prod f)) Q"
  by (rule ensures_bind_pairI [OF statement_ok]) (use assms in auto)

lemma expect_step:
  assumes "par_ok st" and "t \<noteq> T_EOF" and "\<And>st1. adv1 st st1 \<Longrightarrow> ensures (f st1) Q"
  shows "ensures (rbind (expectAndNext t st) f) Q"
  using assms by (auto simp: expectAndNext_def intro!: tok_step)

lemma prim_while_ok:
  assumes "rec_ok n rec" and "par_ok st" and "tok st \<noteq> T_EOF" and "to_read st \<le> n"
  shows "ensures (prim_while rec st) (\<lambda>(x, st'). adv1 st st')"
  unfolding prim_while_def Let_def
  by (intro tok_step stmt_step [OF assms(1)]) (use assms in \<open>auto simp: adv1_def\<close>)

lemma prim_return_ok:
  assumes "rec_ok n rec" and "par_ok st" and "tok st \<noteq> T_EOF" and "to_read st \<le> n"
  shows "ensures (prim_return rec st) (\<lambda>(x, st'). adv1 st st')"
  unfolding prim_return_def Let_def
  by (intro tok_step stmt_step [OF assms(1)]) (use assms in \<open>auto simp: adv1_def\<close>)

lemma prim_unary_ok:
  assumes "rec_ok n rec" and "par_ok st" and "tok st \<noteq> T_EOF" and "to_read st \<le> n"
  shows "ensures (prim_unary rec t st) (\<lambda>(x, st'). adv1 st st')"
  unfolding prim_unary_def Let_def
  by (intro tok_step rec_step [OF assms(1)]) (use assms in \<open>auto simp: adv1_def CUPDEFPOWER_def\<close>)

lemma prim_token_ok:
  assumes "par_ok st" and "tok st \<noteq> T_EOF"
  shows "ensures (prim_token left st) (\<lambda>(x, st'). adv1 st st')"
  unfolding prim_token_def by (intro tok_step) (use assms in auto)

lemma prim_paren_ok:
  assumes "rec_ok n rec" and "par_ok st" and "tok st \<noteq> T_EOF" and "to_read st \<le> n"
  shows "ensures (prim_paren rec st) (\<lambda>(x, st'). adv1 st st')"
  unfolding prim_paren_def Let_def
proof (rule tok_step [OF assms(2,3)])
  fix st1 assume st1: "adv1 st st1"
  show "ensures (if tok st1 \<noteq> T_CRB
      then rbind (statement rec st1) (\<lambda>(left, st). rbind (expectAndNext T_CRB st) (\<lambda>st. Inr (left, st)))
      else rbind (getToken st1 True) (\<lambda>st. Inr ([node_as st1 T_COMMA, CPay (tok_val st1)], st)))
    (\<lambda>(x, st'). adv1 st st')"
  proof (cases "tok st1 = T_CRB")
    case True
    then show ?thesis using st1
      by simp (intro tok_step; auto simp: adv1_def)
  next
    case False
    have "ensures (rbind (statement rec st1) (\<lambda>(left, st). rbind (expectAndNext T_CRB st) (\<lambda>st. Inr (left, st))))
        (\<lambda>(x, st'). adv1 st st')"
      by (rule stmt_step [OF assms(1)]) (use st1 assms in \<open>auto simp: adv1_def intro!: expect_step\<close>)
    with False show ?thesis by simp
  qed
qed

lemma prim_number_ok:
  assumes "par_ok st" and "tok st \<noteq> T_EOF"
  shows "ensures (prim_number st) (\<lambda>(x, st'). adv1 st st')"
  unfolding prim_number_def
  using assms
  by (auto simp: adv1_def intro!: tok_step split: payload.splits)

lemma enter_name_adv:
  assumes "par_ok st"
  shows "ensures (enter_name st name) (\<lambda>st'. adv st st' \<and> tok st' = tok st)"
  using assms putVar_adv [OF assms]
  by (auto simp: enter_name_def adv_refl intro!: ensures_bindI [OF varLookup_par [OF assms]])

lemma prim_identifier_ok:
  assumes "par_ok st" and "tok st \<noteq> T_EOF"
  shows "ensures (prim_identifier st) (\<lambda>(x, st'). adv1 st st')"
  unfolding prim_identifier_def Let_def
  using assms(2)
  by (auto simp: adv1_def adv_def split: payload.splits
      intro!: tok_step ensures_bindI [OF enter_name_adv [OF assms(1)]])

lemma prim_if_ok:
  assumes "rec_ok n rec" and "par_ok st" and "tok st \<noteq> T_EOF" and "to_read st \<le> n"
  shows "ensures (prim_if rec st) (\<lambda>(x, st'). adv1 st st')"
  unfolding prim_if_def Let_def
proof (intro tok_step stmt_step [OF assms(1)], goal_cases)
  case (7 st1 c st2 b st3)
  then show ?case
    using assms
    by (auto simp: adv1_def intro!: tok_step stmt_step [OF assms(1)])
qed (use assms in \<open>auto simp: adv1_def\<close>)

lemma block_loop_ok:
  assumes "rec_ok n rec"
  shows "par_ok st \<Longrightarrow> to_read st < k \<Longrightarrow> k \<le> n \<Longrightarrow>
    ensures (block_loop k rec nd count body st) (\<lambda>(x, st'). adv st st' \<and> tok st' = T_CCB)"
proof (induction k arbitrary: st count body)
  case (Suc k)
  show ?case
  proof (cases "tok st = T_CCB")
    case True
    with Suc.prems show ?thesis by (simp add: adv_refl)
  next
    case False
    have "ensures (rbind (statement rec st) (\<lambda>(block, st).
        block_loop k rec nd (if block \<noteq> [] then count + 1 else count) (body @ block) st))
        (\<lambda>(x, st'). adv st st' \<and> tok st' = T_CCB)"
    proof (rule stmt_step [OF assms])
      show "par_ok st" "to_read st < n" using Suc.prems by simp_all
      fix x st1 assume st1: "adv1 st st1"
      then have "ensures (block_loop k rec nd (if x \<noteq> [] then count + 1 else count) (body @ x) st1)
          (\<lambda>(x, st'). adv st1 st' \<and> tok st' = T_CCB)"
        using Suc.prems by (intro Suc.IH) (auto simp: adv1_def)
      then show "ensures (block_loop k rec nd (if x \<noteq> [] then count + 1 else count) (body @ x) st1)
          (\<lambda>(x, st'). adv st st' \<and> tok st' = T_CCB)"
        by (rule ensures_mono) (use st1 adv_trans adv1_adv in blast)
    qed
    with False show ?thesis by simp
  qed
qed simp

lemma prim_block_ok:
  assumes "rec_ok n rec" and "par_ok st" and "tok st \<noteq> T_EOF" and "to_read st \<le> n"
  shows "ensures (prim_block n rec st) (\<lambda>(x, st'). adv1 st st')"
proof (cases "tok_val st")
  case (PVal count)
  have "ensures (rbind (getToken st False) (\<lambda>st.
      rbind (block_loop n rec nd count [] (snd (scope_enter st))) (\<lambda>(left, st).
      rbind (getToken st True) (\<lambda>st. rbind (scope_leave st) (\<lambda>st. Inr (left, st)))))) (\<lambda>(x, st'). adv1 st st')" for nd
  proof (rule tok_step [OF assms(2,3)])
    fix st1 assume st1: "adv1 st st1"
    let ?st2 = "snd (scope_enter st1)"
    have st2: "adv1 st ?st2" using st1 scope_enter_adv [OF adv1_par [OF st1]] adv1_trans by blast
    have loop: "ensures (block_loop n rec nd count [] ?st2) (\<lambda>(x, st'). adv ?st2 st' \<and> tok st' = T_CCB)"
      using block_loop_ok [OF assms(1), of ?st2 n] st2 assms(4) by (simp add: adv1_def)
    show "ensures (rbind (block_loop n rec nd count [] ?st2) (\<lambda>(left, st).
      rbind (getToken st True) (\<lambda>st. rbind (scope_leave st) (\<lambda>st. Inr (left, st))))) (\<lambda>(x, st'). adv1 st st')"
    proof (rule ensures_bind_pairI [OF loop], elim conjE)
      fix x st3 assume st3: "adv ?st2 st3" "tok st3 = T_CCB"
      have "adv1 st st3" using adv1_trans [OF st2 st3(1)] .
      then show "ensures (rbind (getToken st3 True) (\<lambda>st. rbind (scope_leave st) (\<lambda>st. Inr (x, st)))) (\<lambda>(x, st'). adv1 st st')"
        using st3(2)
        by (intro tok_step ensures_bindI [OF scope_leave_adv])
          (auto simp: adv1_def adv_def)
    qed
  qed
  with PVal show ?thesis by (simp add: prim_block_def Let_def)
qed (simp_all add: prim_block_def)

lemma nodes_value_ensures: "ensures (nodes_value cs) (\<lambda>_. True)"
  by (cases "cs ! 1" rule: cell_value.cases) (auto simp: nodes_value_def)

lemma nodes_token_ensures: "ensures (nodes_token cs) (\<lambda>_. True)"
  by (auto simp: nodes_token_def split: list.splits) (metis cell_token.simps cell.exhaust ensures_Inl ensures_Inr halt.distinct(11))

lemma cell_value_ensures: "ensures (cell_value c) (\<lambda>_. True)"
  by (cases c rule: cell_value.cases) auto

lemma array_room_adv: "par_ok st \<Longrightarrow> adv st (snd (array_room count st)) \<and> tok (snd (array_room count st)) = tok st"
proof -
  assume par: "par_ok st"
  let ?st = "snd (array_room count st)"
  have "lex_ok ?st = lex_ok st" "vars_ok ?st = vars_ok st" "scopes_ok ?st = scopes_ok st"
    by (rule lex_ok_cong vars_ok_cong scopes_ok_cong; simp add: array_room_def)+
  with par show ?thesis by (simp add: adv_def par_ok_def to_read_def array_room_def)
qed

lemma array_content_ok:
  assumes "rec_ok n rec" and "par_ok st" and "to_read st < n"
  shows "ensures (array_content rec v comma st) (\<lambda>(count, body, st'). adv st st')"
  unfolding array_content_def Let_def
  using assms
  by (auto simp: adv_refl CUPDEFPOWER_def intro!: rec_step [OF assms(1)] ensures_bindI [OF nodes_token_ensures]
      ensures_bindI [OF nodes_value_ensures] ensures_bindI [OF cell_value_ensures] adv1_adv)

lemma prim_array_ok:
  assumes "rec_ok n rec" and "par_ok st" and "tok st \<noteq> T_EOF" and "to_read st \<le> n"
  shows "ensures (prim_array rec st) (\<lambda>(x, st'). adv1 st st')"
  unfolding prim_array_def Let_def
proof (rule tok_step [OF assms(2,3)])
  fix st1 assume st1: "adv1 st st1"
  then have less: "to_read st1 < n" using assms(4) by (simp add: adv1_def)
  have room: "adv1 st (snd (array_room count st2))" if "adv st1 st2" for count st2
    using st1 that array_room_adv [OF adv_par [OF that], of count] by (auto simp: adv_def adv1_def)
  show "ensures (rbind (array_content rec (tok_val st) (node_as st T_COMMA) st1) (\<lambda>(count, body, st1).
      rbind (expectAndNext T_CSB (snd (array_room count st1))) (\<lambda>st'.
        Inr (node_as st N_ARRAY # CPay (PVal (fst (array_room count st1))) # body, st')))) (\<lambda>(x, st'). adv1 st st')"
  proof (rule ensures_bindI [OF array_content_ok [OF assms(1) adv1_par [OF st1] less]], clarify)
    fix count body st2 assume "adv st1 st2"
    then have "adv1 st (snd (array_room count st2))" by (rule room)
    then show "ensures (rbind (expectAndNext T_CSB (snd (array_room count st2))) (\<lambda>st'.
        Inr (node_as st N_ARRAY # CPay (PVal (fst (array_room count st2))) # body, st'))) (\<lambda>(x, st'). adv1 st st')"
      by (intro expect_step) (auto simp: adv1_def)
  qed
qed

lemma declare_function_adv:
  assumes "par_ok st"
  shows "ensures (declare_function st name) (\<lambda>st'. adv st st' \<and> tok st' = tok st)"
  using assms putVar_adv [OF assms]
  by (auto simp: declare_function_def adv_refl intro!: ensures_bindI [OF varLookup_par [OF assms]]
      split: option.splits)

lemma prim_function_ok:
  assumes "rec_ok n rec" and "par_ok st" and "tok st \<noteq> T_EOF" and "to_read st \<le> n"
  shows "ensures (prim_function rec st) (\<lambda>(x, st'). adv1 st st')"
proof -
  have body: "ensures (rbind (statement rec st1) (\<lambda>(block, st). rbind (scope_leave st) (\<lambda>st. Inr (pre @ block, st))))
      (\<lambda>(x, st'). adv1 st st')" if "adv1 st st1" for st1 pre
    using that assms(4)
    by (intro stmt_step [OF assms(1)] ensures_bindI [OF scope_leave_adv]) (auto simp: adv1_def adv_def)
  have typed: "ensures (rbind (function_type st1 argc) (\<lambda>(type, st).
      rbind (varLookup st name (scope st)) (\<lambda>v. case v of None \<Rightarrow> Inl Abort
        | Some i \<Rightarrow> rbind (statement rec (st\<lparr>vars := (vars st)[i := (vars st ! i)\<lparr>var_type := Some type\<rparr>]\<rparr>))
            (\<lambda>(block, st). rbind (scope_leave st) (\<lambda>st. Inr (pre @ block, st)))))) (\<lambda>(x, st'). adv1 st st')"
    if "adv1 st st1" for st1 argc name pre
  proof (rule ensures_bind_pairI [OF function_type_adv [OF adv1_par [OF that]]], elim conjE)
    fix type st2 assume "adv st1 st2"
    with that have st2: "adv1 st st2" by (rule adv1_trans)
    have "adv1 st (st2\<lparr>vars := (vars st2)[i := (vars st2 ! i)\<lparr>var_type := Some type\<rparr>]\<rparr>)" for i
      using st2 set_type_adv [OF adv1_par [OF st2]] adv1_trans by blast
    then show "ensures (rbind (varLookup st2 name (scope st2)) (\<lambda>v. case v of None \<Rightarrow> Inl Abort
        | Some i \<Rightarrow> rbind (statement rec (st2\<lparr>vars := (vars st2)[i := (vars st2 ! i)\<lparr>var_type := Some type\<rparr>]\<rparr>))
            (\<lambda>(block, st). rbind (scope_leave st) (\<lambda>st. Inr (pre @ block, st))))) (\<lambda>(x, st'). adv1 st st')"
      by (intro ensures_bindI [OF varLookup_par [OF adv1_par [OF st2]]]) (auto intro: body split: option.splits)
  qed
  have entered: "adv1 st (snd (scope_enter st1))" if "adv1 st st1" for st1
    using scope_enter_adv [OF adv1_par [OF that]] adv1_trans [OF that] by blast
  have trans: "adv1 st st2" if "adv1 st st1" "adv1 st1 st2 \<or> adv st1 st2" for st1 st2
    using that by (auto simp: adv1_def adv_def)
  show ?thesis
    unfolding prim_function_def Let_def
  proof (rule tok_step [OF assms(2,3)], goal_cases)
    case (1 st1)
    show ?case
    proof (cases "tok st1 = T_AT")
      case True
      then show ?thesis using 1 by (auto intro!: tok_step simp: adv1_def)
    next
      case at: False
      show ?thesis
      proof (cases "tok st1 = T_IDENTIFIER \<and> (\<exists>name. tok_val st1 = PStr name)")
        case False
        with at 1 show ?thesis by (auto split: payload.splits)
      next
        case True
        then obtain name where name: "tok st1 = T_IDENTIFIER" "tok_val st1 = PStr name" by blast
        have args: "ensures (rbind (statement rec (snd (scope_enter st3))) (\<lambda>(args, st).
            rbind (if args \<noteq> [] then nodes_token args else Inr T_EOF) (\<lambda>first.
            rbind (if first = T_COMMA then nodes_value args else Inr 1) (\<lambda>argc.
            rbind (function_type st argc) (\<lambda>(type, st).
            rbind (varLookup st name (scope st)) (\<lambda>v. case v of None \<Rightarrow> Inl Abort
              | Some i \<Rightarrow> rbind (statement rec (st\<lparr>vars := (vars st)[i := (vars st ! i)\<lparr>var_type := Some type\<rparr>]\<rparr>))
                  (\<lambda>(block, st). rbind (scope_leave st) (\<lambda>st.
                    Inr ((if first = T_COMMA then left else left @ comma) @ args @ block, st))))))))) (\<lambda>(x, st'). adv1 st st')"
          if "adv1 st st3" for st3 left comma
        proof (rule stmt_step [OF assms(1)])
          show "par_ok (snd (scope_enter st3))" "to_read (snd (scope_enter st3)) < n"
            using entered [OF that] assms(4) by (auto simp: adv1_def)
          fix args st4 assume "adv1 (snd (scope_enter st3)) st4"
          then have st4: "adv1 st st4" using entered [OF that] by (auto simp: adv1_def)
          have "ensures (if args \<noteq> [] then nodes_token args else Inr T_EOF) (\<lambda>_. True)"
            using nodes_token_ensures by simp
          then show "ensures (rbind (if args \<noteq> [] then nodes_token args else Inr T_EOF) (\<lambda>first.
            rbind (if first = T_COMMA then nodes_value args else Inr 1) (\<lambda>argc.
            rbind (function_type st4 argc) (\<lambda>(type, st).
            rbind (varLookup st name (scope st)) (\<lambda>v. case v of None \<Rightarrow> Inl Abort
              | Some i \<Rightarrow> rbind (statement rec (st\<lparr>vars := (vars st)[i := (vars st ! i)\<lparr>var_type := Some type\<rparr>]\<rparr>))
                  (\<lambda>(block, st). rbind (scope_leave st) (\<lambda>st.
                    Inr ((if first = T_COMMA then left else left @ comma) @ args @ block, st)))))))) (\<lambda>(x, st'). adv1 st st')"
          proof (rule ensures_bindI, goal_cases)
            case (1 first)
            have "ensures (if first = T_COMMA then nodes_value args else Inr 1) (\<lambda>_. True)"
              using nodes_value_ensures by simp
            then show ?case
              by (rule ensures_bindI) (simp only: append_assoc [symmetric], rule typed [OF st4])
          qed
        qed
        show ?thesis
          using at name 1
          by (auto simp: name intro!: ensures_bindI [OF declare_function_adv] tok_step args dest: trans adv1_par
              intro: trans)
      qed
    qed
  qed
qed

text \<open>
  The parser against the code that loads modules: whatever the three calls do to the compiler's
  tables, they neither move the input nor break the tables.
\<close>

locale parser_env =
  fixes hk :: "'a parst_scheme hooks"
  assumes import_module_keeps:
      "par_ok st \<Longrightarrow> ensures (import_module hk st) (\<lambda>st'. adv st st' \<and> tok st' = tok st)"
    and external_module_keeps:
      "par_ok st \<Longrightarrow> ensures (external_module hk st) (\<lambda>st'. adv st st' \<and> tok st' = tok st)"
    and external_symbol_keeps:
      "par_ok st \<Longrightarrow> ensures (external_symbol hk st name i) (\<lambda>st'. adv st st' \<and> tok st' = tok st)"
begin

lemma prim_import_ok:
  assumes "par_ok st" and "tok st \<noteq> T_EOF"
  shows "ensures (prim_import hk st) (\<lambda>(x, st'). adv1 st st')"
  unfolding prim_import_def
proof (rule tok_step [OF assms])
  fix st1 assume st1: "adv1 st st1"
  have "ensures (rbind (import_module hk st1) (\<lambda>st. rbind (getToken st True) (\<lambda>st. Inr ([], st)))) (\<lambda>(x, st'). adv1 st st')"
    if "tok st1 = T_STRING"
    using st1 that
    by (intro ensures_bindI [OF import_module_keeps [OF adv1_par [OF st1]]] tok_step) (auto simp: adv1_def adv_def)
  then show "ensures (if tok st1 \<noteq> T_STRING then Inr ([], st1)
      else rbind (import_module hk st1) (\<lambda>st. rbind (getToken st True) (\<lambda>st. Inr ([], st)))) (\<lambda>(x, st'). adv1 st st')"
    using st1 by auto
qed

lemma external_loop_ok:
  "par_ok st \<Longrightarrow> to_read st < n \<Longrightarrow> ensures (external_loop n hk st) (\<lambda>(x, st'). adv st st')"
proof (induction n arbitrary: st)
  case (Suc n)
  show ?case
  proof (cases "tok st = T_IDENTIFIER \<and> (\<exists>name. tok_val st = PStr name)")
    case False
    with Suc.prems show ?thesis by (auto simp: adv_refl split: payload.splits)
  next
    case True
    then obtain name where name: "tok st = T_IDENTIFIER" "tok_val st = PStr name" by blast
    have "ensures (rbind (getToken st True) (\<lambda>st.
            if tok st \<noteq> T_STRING then Inr ([], st)
            else case tok_val st of
              PVal i \<Rightarrow> rbind (external_symbol hk st name i) (\<lambda>st. rbind (getToken st True) (\<lambda>st. external_loop n hk st))
            | _ \<Rightarrow> Inl Undef)) (\<lambda>(x, st'). adv st st')"
    proof (rule tok_step)
      fix st1 assume st1: "adv1 st st1"
      have "ensures (rbind (external_symbol hk st1 name i) (\<lambda>st. rbind (getToken st True) (\<lambda>st. external_loop n hk st)))
          (\<lambda>(x, st'). adv st st')" if str: "tok st1 = T_STRING" for i
      proof (rule ensures_bindI [OF external_symbol_keeps [OF adv1_par [OF st1]]], elim conjE)
        fix st2 assume st2: "adv st1 st2" "tok st2 = tok st1"
        show "ensures (rbind (getToken st2 True) (\<lambda>st. external_loop n hk st)) (\<lambda>(x, st'). adv st st')"
        proof (rule tok_step)
          fix st3 assume st3: "adv1 st2 st3"
          have all: "adv1 st st3" using st1 st2(1) st3 by (auto simp: adv1_def adv_def)
          then have "ensures (external_loop n hk st3) (\<lambda>(x, st'). adv st3 st')"
            using Suc.prems by (intro Suc.IH) (auto simp: adv1_def)
          then show "ensures (external_loop n hk st3) (\<lambda>(x, st'). adv st st')"
            by (rule ensures_mono) (use all adv1_adv adv_trans in blast)
        qed (use st2 str adv_par in auto)
      qed
      then show "ensures (if tok st1 \<noteq> T_STRING then Inr ([], st1)
            else case tok_val st1 of
              PVal i \<Rightarrow> rbind (external_symbol hk st1 name i) (\<lambda>st. rbind (getToken st True) (\<lambda>st. external_loop n hk st))
            | _ \<Rightarrow> Inl Undef) (\<lambda>(x, st'). adv st st')"
        using adv1_adv [OF st1] by (auto split: payload.splits)
    qed (use Suc.prems name in simp_all)
    with name show ?thesis by simp
  qed
qed simp

lemma prim_external_ok:
  assumes "par_ok st" and "tok st \<noteq> T_EOF" and "to_read st \<le> n"
  shows "ensures (prim_external n hk st) (\<lambda>(x, st'). adv1 st st')"
  unfolding prim_external_def
proof (rule tok_step [OF assms(1,2)])
  fix st1 assume st1: "adv1 st st1"
  have "ensures (rbind (external_module hk st1) (\<lambda>st. rbind (getToken st True) (\<lambda>st. external_loop n hk st)))
      (\<lambda>(x, st'). adv1 st st')" if str: "tok st1 = T_STRING"
  proof (rule ensures_bindI [OF external_module_keeps [OF adv1_par [OF st1]]], elim conjE)
    fix st2 assume st2: "adv st1 st2" "tok st2 = tok st1"
    show "ensures (rbind (getToken st2 True) (\<lambda>st. external_loop n hk st)) (\<lambda>(x, st'). adv1 st st')"
    proof (rule tok_step)
      fix st3 assume st3: "adv1 st2 st3"
      have all: "adv1 st st3" using st1 st2(1) st3 by (auto simp: adv1_def adv_def)
      then have "ensures (external_loop n hk st3) (\<lambda>(x, st'). adv st3 st')"
        using assms(3) by (intro external_loop_ok) (auto simp: adv1_def)
      then show "ensures (external_loop n hk st3) (\<lambda>(x, st'). adv1 st st')"
        by (rule ensures_mono) (use all adv1_trans in blast)
    qed (use st2 str adv_par in auto)
  qed
  then show "ensures (if tok st1 \<noteq> T_STRING then Inr ([], st1)
      else rbind (external_module hk st1) (\<lambda>st. rbind (getToken st True) (\<lambda>st. external_loop n hk st))) (\<lambda>(x, st'). adv1 st st')"
    using st1 by auto
qed

end

text \<open>The operator loop. A power of zero would let the loop run past the end of the text.\<close>

lemma power_token: "getPower t \<noteq> 0 \<Longrightarrow> t \<noteq> T_EOF"
  by (auto simp: getPower_def)

lemma set_scope_adv:
  assumes "par_ok st" and "sc < length (scopes st)"
  shows "adv st (st\<lparr>scope := sc\<rparr>) \<and> to_read (st\<lparr>scope := sc\<rparr>) = to_read st"
proof -
  let ?st = "st\<lparr>scope := sc\<rparr>"
  have "lex_ok ?st = lex_ok st" "vars_ok ?st = vars_ok st" by (rule lex_ok_cong vars_ok_cong; simp)+
  with assms show ?thesis by (auto simp: adv_def par_ok_def to_read_def scopes_ok_def)
qed

lemma op_right_ok:
  assumes "rec_ok n rec" and "par_ok st" and "to_read st < n" and "t \<noteq> T_EOF"
  shows "ensures (op_right rec comma t st) (\<lambda>(x, st'). adv st st')"
proof -
  have power: "0 < getPower t" using assms(4) by (simp add: getPower_def CUPDEFPOWER_def UINT8_MAX_def)
  have direct: "ensures (rec st p) (\<lambda>(x, st'). adv st st')" if "0 < p" for p
  proof (rule ensures_mono)
    show "ensures (rec st p) (\<lambda>(x, st'). adv1 st st')" using assms(1-3) that by (simp add: rec_ok_def)
  qed (auto intro: adv1_adv)
  have field: "ensures (rbind (rec (st\<lparr>scope := 0\<rparr>) 16) (\<lambda>(right, st'). Inr (right, st'\<lparr>scope := scope st\<rparr>)))
      (\<lambda>(x, st'). adv st st')"
  proof (rule rec_step [OF assms(1)])
    have root: "adv st (st\<lparr>scope := 0\<rparr>) \<and> to_read (st\<lparr>scope := 0\<rparr>) = to_read st"
      using assms(2) by (intro set_scope_adv) (auto simp: par_ok_def)
    then show "par_ok (st\<lparr>scope := 0\<rparr>)" "to_read (st\<lparr>scope := 0\<rparr>) < n" using assms(3) by (auto simp: adv_def)
    fix x st1 assume st1: "adv1 (st\<lparr>scope := 0\<rparr>) st1"
    then have "scope st < length (scopes st1)" using assms(2) by (auto simp: par_ok_def scopes_ok_def adv1_def)
    from set_scope_adv [OF adv1_par [OF st1] this] show "ensures (Inr (x, st1\<lparr>scope := scope st\<rparr>)) (\<lambda>(x, st'). adv st st')"
      using root st1 by (auto simp: adv_def adv1_def)
  qed simp
  show ?thesis
  proof (cases "t = T_CALL \<and> tok st = T_CRB \<or> t = T_OSB \<and> tok st = T_CSB")
    case True
    with assms(2) show ?thesis by (simp add: op_right_def adv_refl)
  next
    case False
    let ?p = "if t = T_CALL \<or> t = T_OSB then CUPDEFPOWER else getPower t"
    have "0 < ?p" using power by (simp add: CUPDEFPOWER_def)
    moreover have "op_right rec comma t st =
        (if ?p = 16 then rbind (rec (st\<lparr>scope := 0\<rparr>) 16) (\<lambda>(right, st'). Inr (right, st'\<lparr>scope := scope st\<rparr>))
         else rec st ?p)"
      using False by (simp only: op_right_def Let_def if_False)
    ultimately show ?thesis using field direct [of ?p] by presburger
  qed
qed

lemma op_apply_ok:
  assumes "par_ok st"
  shows "ensures (op_apply n t left right st) (\<lambda>(x, st'). adv st st')"
proof -
  have skip: "ensures (rbind (getToken st True) f) (\<lambda>(x, st'). adv st st')"
    if "tok st \<noteq> T_EOF" "\<And>st1. adv1 st st1 \<Longrightarrow> ensures (f st1) (\<lambda>(x, st'). adv st1 st')" for f
    using assms that by (intro tok_step) (auto intro: ensures_mono [OF that(2)] simp: adv1_def adv_def)
  note steps = ensures_bindI [OF nodes_token_ensures] ensures_bindI [OF nodes_value_ensures]
  consider "t = T_CALL" | "t = T_COMMA" | "t = T_OSB" | "t \<notin> {T_CALL, T_COMMA, T_OSB}" by blast
  then show ?thesis
  proof cases
    case 1
    then show ?thesis
      using assms by (auto simp: op_apply_def adv_refl adv1_par intro!: skip steps split: cell.splits)
  next
    case 2
    then show ?thesis using assms by (auto simp: op_apply_def adv_refl intro!: steps)
  next
    case 3
    then show ?thesis using assms by (auto simp: op_apply_def adv_refl adv1_par intro!: skip)
  next
    case 4
    then show ?thesis using assms by (cases t) (simp_all add: op_apply_def adv_refl)
  qed
qed

lemma op_loop_ok:
  assumes "rec_ok n rec" and "0 < mpower"
  shows "par_ok st \<Longrightarrow> to_read st < k \<Longrightarrow> k \<le> n \<Longrightarrow>
    ensures (op_loop k rec mpower left st) (\<lambda>(x, st'). adv st st')"
proof (induction k arbitrary: st left)
  case (Suc k)
  show ?case
  proof (cases "getPower (tok st) = UINT8_MAX \<or> getPower (tok st) < mpower")
    case True
    with Suc.prems show ?thesis by (auto simp: adv_refl Let_def)
  next
    case False
    then have eof: "tok st \<noteq> T_EOF" using assms(2) power_token [of "tok st"] by simp
    have "ensures (rbind (getToken st False) (\<lambda>st1.
           rbind (op_right rec (node_as st T_COMMA) (tok st) st1) (\<lambda>(right, st2).
           rbind (op_apply (node st) (tok st) left right st2) (\<lambda>(left, st3). op_loop k rec mpower left st3))))
         (\<lambda>(x, st'). adv st st')"
    proof (rule tok_step [OF Suc.prems(1) eof])
      fix st1 assume st1: "adv1 st st1"
      then have less: "to_read st1 < n" using Suc.prems by (simp add: adv1_def)
      show "ensures (rbind (op_right rec (node_as st T_COMMA) (tok st) st1) (\<lambda>(right, st2).
           rbind (op_apply (node st) (tok st) left right st2) (\<lambda>(left, st3). op_loop k rec mpower left st3)))
         (\<lambda>(x, st'). adv st st')"
      proof (rule ensures_bind_pairI [OF op_right_ok [OF assms(1) adv1_par [OF st1] less eof]])
        fix right st2 assume st2: "adv st1 st2"
        show "ensures (rbind (op_apply (node st) (tok st) left right st2) (\<lambda>(left, st3). op_loop k rec mpower left st3))
          (\<lambda>(x, st'). adv st st')"
        proof (rule ensures_bind_pairI [OF op_apply_ok [OF adv_par [OF st2]]])
          fix left' st3 assume st3: "adv st2 st3"
          have all: "adv1 st st3" using st1 st2 st3 by (auto simp: adv1_def adv_def)
          then have "ensures (op_loop k rec mpower left' st3) (\<lambda>(x, st'). adv st3 st')"
            using Suc.prems by (intro Suc.IH) (auto simp: adv1_def)
          then show "ensures (op_loop k rec mpower left' st3) (\<lambda>(x, st'). adv st st')"
            by (rule ensures_mono) (use all adv1_adv adv_trans in blast)
        qed
      qed
    qed
    with False show ?thesis by (simp add: Let_def)
  qed
qed simp

context parser_env
begin

lemma prim_prefix_ok:
  assumes "rec_ok n rec" and "par_ok st" and "to_read st \<le> n"
  shows "ensures (fst (prim_prefix hk n rec st)) (\<lambda>(x, st'). adv1 st st')"
proof -
  note with_rec = prim_function_ok prim_while_ok prim_return_ok prim_unary_ok prim_paren_ok prim_block_ok
    prim_array_ok prim_if_ok
  note direct = prim_import_ok prim_external_ok prim_identifier_ok prim_number_ok prim_token_ok
  show ?thesis
    by (cases "tok st") (auto simp: prim_prefix_def intro!: with_rec [OF assms(1,2)] direct assms)
qed

lemma primary_rec_ok: "rec_ok n (primary hk n)"
proof (induction n)
  case 0
  then show ?case by (simp add: rec_ok_def)
next
  case (Suc n)
  have "ensures (primary hk (Suc n) st p) (\<lambda>(x, st'). adv1 st st')"
    if "par_ok st" "to_read st < Suc n" "0 < p" for st p
  proof -
    obtain r loops where r: "prim_prefix hk n (primary hk n) st = (r, loops)" by fastforce
    then have first: "ensures r (\<lambda>(x, st'). adv1 st st')"
      using prim_prefix_ok [OF Suc that(1)] that(2) by simp
    have "ensures (rbind r (\<lambda>(left, st). if loops then op_loop n (primary hk n) p left st else Inr (left, st)))
        (\<lambda>(x, st'). adv1 st st')"
    proof (rule ensures_bind_pairI [OF first])
      fix x st1 assume st1: "adv1 st st1"
      have "ensures (op_loop n (primary hk n) p x st1) (\<lambda>(x, st'). adv st1 st')"
        using st1 that by (intro op_loop_ok [OF Suc]) (auto simp: adv1_def)
      then have "ensures (op_loop n (primary hk n) p x st1) (\<lambda>(x, st'). adv1 st st')"
        by (rule ensures_mono) (use st1 adv1_trans in blast)
      with st1 show "ensures (if loops then op_loop n (primary hk n) p x st1 else Inr (x, st1)) (\<lambda>(x, st'). adv1 st st')"
        by simp
    qed
    with r show ?thesis by simp
  qed
  then show ?case by (simp add: rec_ok_def)
qed

text \<open>With one call more than there is text, the parser returns or stops the process.\<close>

lemma primary_returns:
  assumes "par_ok st" and "to_read st < n" and "0 < p"
  shows "ensures (primary hk n st p) (\<lambda>(x, st'). adv1 st st')"
  using primary_rec_ok assms by (simp add: rec_ok_def)

lemma statement_returns:
  assumes "par_ok st" and "to_read st < n"
  shows "ensures (statement (primary hk n) st) (\<lambda>(x, st'). adv1 st st')"
  using statement_ok [OF primary_rec_ok assms] .

end

end
