(* ===== verification/Cup_Codegen.thy ===== *)
theory Cup_Codegen
  imports Cup_X64 Cup_Parser
begin

text \<open>
  The code generator of \<^verbatim>\<open>src/codegen/x64codegen.c\<close> from the node stream to bytes: register pools,
  leaves, operators, arrays, assignments, calls, functions, conditions and loops.

  All that a call changes is one record: the code so far, the register state of the function, the
  rest of the node stream, the jumps to the epilogue, the functions whose addresses are to be filled
  in, and the scope. What it only reads is the environment: the symbol and type tables and the
  addresses of the variable table and of the data section. \<^verbatim>\<open>codegen_expr\<close> calls itself and
  \<^verbatim>\<open>codegen_func\<close>; as in the parser, the recursive call is an argument, with a bound on the depth.
\<close>

section \<open>State\<close>

record fnst =
  fbusy :: u16
  cs_used :: u16
  fdepth :: u32

record gen =
  gcode :: bytes
  fn :: fnst
  git :: "cell list"
  grets :: "nat list"
  grell :: "(nat option \<times> nat) list"
  gscope :: nat

text \<open>The variable a relocation fills in is given by its index; \<^const>\<open>None\<close> is the entry point.\<close>

record genv =
  ge_sym :: symst
  ge_types :: types
  vars_base :: u64
  data_base :: u64

definition emit :: "bytes \<Rightarrow> gen \<Rightarrow> gen" where
  "emit bs g = g\<lparr>gcode := gcode g @ bs\<rparr>"

text \<open>\<^verbatim>\<open>&v->value\<close> and \<^verbatim>\<open>getData(state, i)\<close> as addresses; offset 16 is that of the field in \<^verbatim>\<open>CVariable\<close>.\<close>

definition var_addr :: "genv \<Rightarrow> nat \<Rightarrow> u64" where
  "var_addr env i = vars_base env + of_nat (VAR_SIZE * i + 16)"

definition data_addr :: "genv \<Rightarrow> u64 \<Rightarrow> u64" where
  "data_addr env i = (case getData (data_sec (ge_sym env)) i of None \<Rightarrow> 0 | Some _ \<Rightarrow> data_base env + i)"

section \<open>Register pools\<close>

definition pool_scratch :: "reg list" where "pool_scratch = [R10, R9, R8, RSI, RDI, RCX, RDX]"
definition pool_saved :: "reg list" where "pool_saved = [R12, R13, R14, R15, RBX]"
definition sysv_arg_regs :: "reg list" where "sysv_arg_regs = [RDI, RSI, RDX, RCX, R8, R9]"

definition reg_bit :: "reg \<Rightarrow> u16" where "reg_bit r = push_bit (unat r) 1"

definition reg_pick :: "reg list \<Rightarrow> reg \<Rightarrow> gen \<Rightarrow> (reg \<times> gen) res" where
  "reg_pick pool avoid g =
     (case find (\<lambda>r. \<not> (r = avoid \<or> fbusy (fn g) AND reg_bit r \<noteq> 0)) pool of
        None \<Rightarrow> Inl (Exit 1)
      | Some r \<Rightarrow> Inr (r, g\<lparr>fn := (fn g)\<lparr>fbusy := fbusy (fn g) OR reg_bit r\<rparr>\<rparr>))"

definition pick_scratch :: "reg \<Rightarrow> gen \<Rightarrow> (reg \<times> gen) res" where
  "pick_scratch avoid g = reg_pick pool_scratch avoid g"

definition pick_saved :: "reg \<Rightarrow> gen \<Rightarrow> (reg \<times> gen) res" where
  "pick_saved avoid g =
     rbind (reg_pick pool_saved avoid g) (\<lambda>(r, g).
       Inr (r, g\<lparr>fn := (fn g)\<lparr>cs_used := cs_used (fn g) OR reg_bit r\<rparr>\<rparr>))"

definition reg_free :: "reg \<Rightarrow> gen \<Rightarrow> gen" where
  "reg_free r g = g\<lparr>fn := (fn g)\<lparr>fbusy := fbusy (fn g) AND NOT (reg_bit r)\<rparr>\<rparr>"

definition emit_push :: "reg \<Rightarrow> gen \<Rightarrow> gen" where
  "emit_push r g = emit (push_bytes r) (g\<lparr>fn := (fn g)\<lparr>fdepth := fdepth (fn g) + 1\<rparr>\<rparr>)"

definition emit_pop :: "reg \<Rightarrow> gen \<Rightarrow> gen" where
  "emit_pop r g = emit (pop_bytes r) (g\<lparr>fn := (fn g)\<lparr>fdepth := fdepth (fn g) - 1\<rparr>\<rparr>)"

text \<open>A jump with its displacement still to be filled in, and where the displacement is.\<close>

definition emit_jmp_rel32 :: "gen \<Rightarrow> nat \<times> gen" where
  "emit_jmp_rel32 g = (length (gcode g) + 1, emit (jmp_rel32 0) g)"

definition emit_jcc_rel32 :: "u8 \<Rightarrow> gen \<Rightarrow> nat \<times> gen" where
  "emit_jcc_rel32 cc g = (length (gcode g) + 2, emit (jcc_rel32 cc 0) g)"

definition overwrite :: "nat \<Rightarrow> bytes \<Rightarrow> bytes \<Rightarrow> bytes" where
  "overwrite at bs cs = take at cs @ bs @ drop (at + length bs) cs"

definition patch_rel :: "nat \<Rightarrow> nat \<Rightarrow> gen \<Rightarrow> gen res" where
  "patch_rel patch target g =
     (let delta = int target - int (patch + 4)
      in if delta < - (2 ^ 31) \<or> delta > 2 ^ 31 - 1 then Inl (Exit 1)
         else Inr (g\<lparr>gcode := overwrite patch (le_bytes 4 (word_of_int delta :: u32)) (gcode g)\<rparr>))"

section \<open>The node stream\<close>

definition getNode :: "gen \<Rightarrow> (cell \<times> gen) res" where
  "getNode g = (case git g of [] \<Rightarrow> Inl (Exit 1) | c # cs \<Rightarrow> Inr (c, g\<lparr>git := cs\<rparr>))"

definition getValue :: "gen \<Rightarrow> (u64 \<times> gen) res" where
  "getValue g = rbind (getNode g) (\<lambda>(c, g). rbind (cell_value c) (\<lambda>v. Inr (v, g)))"

definition peekToken :: "gen \<Rightarrow> ctt res" where
  "peekToken g = (case git g of [] \<Rightarrow> Inl (Exit 1) | c # _ \<Rightarrow> cell_token c)"

definition leaf_size :: "cell list \<Rightarrow> nat res" where
  "leaf_size cs =
     (case cs of
        [] \<Rightarrow> Inr 0
      | c # _ \<Rightarrow> rbind (cell_token c) (\<lambda>t.
          let sz = (if t \<in> {T_NUMBER, T_STRING, T_MSTRING, N_VARIABLE, N_ADDRESS} then 2
                    else if t = T_THIS then 1 else 0)
          in Inr (if sz \<le> length cs then sz else 0)))"

definition is_small_imm :: "cell list \<Rightarrow> u32 option res" where
  "is_small_imm cs =
     (if length cs < 2 then Inr None
      else rbind (cell_token (cs ! 0)) (\<lambda>t.
        if t \<noteq> T_NUMBER then Inr None
        else rbind (cell_value (cs ! 1)) (\<lambda>v. Inr (if v > INT32_MAX then None else Some (ucast v)))))"

text \<open>The address of a leaf that has one, with its variable.\<close>

definition leaf_address :: "genv \<Rightarrow> nat \<Rightarrow> cell list \<Rightarrow> (u64 \<times> nat option) option res" where
  "leaf_address env sc cs =
     (let known = (\<lambda>name. rbind (varLookup (ge_sym env) name sc) (\<lambda>v.
            case v of None \<Rightarrow> Inl (Exit 1) | Some i \<Rightarrow> Inr (Some (var_addr env i, Some i))))
      in case cs of
           [] \<Rightarrow> Inr None
         | c # _ \<Rightarrow> rbind (cell_token c) (\<lambda>t.
             if t = N_ADDRESS then
               (if length cs < 2 then Inr None
                else rbind (cell_value (cs ! 1)) (\<lambda>a. Inr (Some (a, None))))
             else if t = N_VARIABLE then
               (if length cs < 2 then Inr None else rbind (cell_name (cs ! 1)) known)
             else if t = T_THIS then known ''$''
             else Inr None))"

type_synonym expr_fun = "reg \<Rightarrow> reg \<Rightarrow> gen \<Rightarrow> (u64 \<times> nat option \<times> gen) res"

text \<open>A call whose value has to be a single one: \<^verbatim>\<open>expect_single(EXPR(...), what)\<close>.\<close>

definition single :: "expr_fun \<Rightarrow> reg \<Rightarrow> reg \<Rightarrow> gen \<Rightarrow> gen res" where
  "single rec treg sreg g =
     rbind (rec treg sreg g) (\<lambda>(count, _, g). if count \<noteq> 0 then Inl (Exit 1) else Inr g)"

definition gen_leaf :: "expr_fun \<Rightarrow> reg \<Rightarrow> cell list \<Rightarrow> gen \<Rightarrow> gen res" where
  "gen_leaf rec reg leaf g =
     rbind (rec reg reg (g\<lparr>git := leaf\<rparr>)) (\<lambda>(_, _, g'). Inr (g'\<lparr>git := git g\<rparr>))"

text \<open>A leaf at the head of the stream, evaluated and skipped.\<close>

definition next_leaf :: "expr_fun \<Rightarrow> reg \<Rightarrow> nat \<Rightarrow> gen \<Rightarrow> gen res" where
  "next_leaf rec reg sz g =
     rbind (gen_leaf rec reg (take sz (git g)) g) (\<lambda>g. Inr (g\<lparr>git := drop sz (git g)\<rparr>))"

section \<open>Operators\<close>

definition is_compare :: "ctt \<Rightarrow> bool" where
  "is_compare t \<longleftrightarrow> t = T_LESS \<or> t = T_LESSEQ \<or> t = T_EQEQ"

definition compare_cc :: "ctt \<Rightarrow> u8" where
  "compare_cc t = (if t = T_LESS then CC_L else if t = T_LESSEQ then CC_LE else CC_E)"

text \<open>The loop that finds the exponent of a power of two.\<close>

fun shift_of :: "nat \<Rightarrow> nat \<Rightarrow> nat \<Rightarrow> nat" where
  "shift_of 0 sh imm = sh"
| "shift_of (Suc n) sh imm = (if 2 ^ sh \<noteq> imm then shift_of n (Suc sh) imm else sh)"

definition gen_alu_imm :: "ctt \<Rightarrow> reg \<Rightarrow> u32 \<Rightarrow> gen \<Rightarrow> gen res" where
  "gen_alu_imm t dst imm g =
     (case t of
        T_ADD \<Rightarrow> Inr (if imm \<noteq> 0 then emit (emit_alu_imm 0 dst imm) g else g)
      | T_SUB \<Rightarrow> Inr (if imm \<noteq> 0 then emit (emit_alu_imm 5 dst imm) g else g)
      | T_MUL \<Rightarrow>
          (if imm = 1 then Inr g
           else if 0 < sint imm \<and> imm AND (imm - 1) = 0 then
             Inr (emit (emit_shl_imm dst (of_nat (shift_of 31 0 (unat imm)))) g)
           else Inr (emit (emit_imul_imm dst imm) g))
      | _ \<Rightarrow> Inl (Exit 1))"

definition gen_alu_rr :: "ctt \<Rightarrow> reg \<Rightarrow> reg \<Rightarrow> gen \<Rightarrow> gen res" where
  "gen_alu_rr t dst src g =
     (case t of
        T_ADD \<Rightarrow> Inr (emit (emit_add_rr dst src) g)
      | T_SUB \<Rightarrow> Inr (emit (emit_sub_rr dst src) g)
      | T_MUL \<Rightarrow> Inr (emit (emit_imul_rr dst src) g)
      | _ \<Rightarrow> Inl (Exit 1))"

text \<open>
  The operand at the head of the stream, next to a value in \<open>treg\<close>: a leaf goes to a scratch
  register; for anything else the value moves to a saved register first, as the operand is evaluated
  into \<open>treg\<close>. \<open>on_leaf\<close> and \<open>on_deep\<close> get that other register; the result is the one with the value.
\<close>

definition with_operand ::
  "expr_fun \<Rightarrow> reg \<Rightarrow> (reg \<Rightarrow> gen \<Rightarrow> gen res) \<Rightarrow> (reg \<Rightarrow> gen \<Rightarrow> gen res) \<Rightarrow> gen \<Rightarrow> (reg \<times> gen) res" where
  "with_operand rec treg on_leaf on_deep g =
     rbind (leaf_size (git g)) (\<lambda>lsz.
       if lsz \<noteq> 0 then
         rbind (pick_scratch treg g) (\<lambda>(r, g).
         rbind (next_leaf rec r lsz g) (\<lambda>g.
         rbind (on_leaf r g) (\<lambda>g. Inr (treg, reg_free r g))))
       else
         rbind (pick_saved treg g) (\<lambda>(l, g).
         rbind (single rec treg treg (emit (emit_mov_rr l treg) g)) (\<lambda>g.
         rbind (on_deep l g) (\<lambda>g. Inr (l, reg_free l g)))))"

definition gen_op_imm :: "ctt \<Rightarrow> reg \<Rightarrow> u32 \<Rightarrow> gen \<Rightarrow> gen res" where
  "gen_op_imm nt treg v g =
     (if is_compare nt then Inr (emit (emit_alu_imm 7 treg v) g) else gen_alu_imm nt treg v g)"

definition gen_op_rr :: "ctt \<Rightarrow> reg \<Rightarrow> reg \<Rightarrow> gen \<Rightarrow> gen res" where
  "gen_op_rr nt dst src g =
     (if is_compare nt then Inr (emit (emit_cmp_rr dst src) g) else gen_alu_rr nt dst src g)"

text \<open>The right operand, combined with the left one in \<open>treg\<close>: the register with the result.\<close>

definition gen_right :: "expr_fun \<Rightarrow> ctt \<Rightarrow> reg \<Rightarrow> gen \<Rightarrow> (reg \<times> gen) res" where
  "gen_right rec nt treg g =
     rbind (is_small_imm (git g)) (\<lambda>imm.
       case imm of
         Some v \<Rightarrow> rbind (gen_op_imm nt treg v (g\<lparr>git := drop 2 (git g)\<rparr>)) (\<lambda>g. Inr (treg, g))
       | None \<Rightarrow> with_operand rec treg (gen_op_rr nt treg) (\<lambda>l. gen_op_rr nt l treg) g)"

definition gen_binary :: "expr_fun \<Rightarrow> ctt \<Rightarrow> reg \<Rightarrow> bool \<Rightarrow> gen \<Rightarrow> (u8 \<times> gen) res" where
  "gen_binary rec nt treg flags_only g =
     rbind (single rec treg treg g) (\<lambda>g.
     rbind (gen_right rec nt treg g) (\<lambda>(r, g).
       if is_compare nt then
         (if flags_only then Inr (compare_cc nt, g)
          else Inr (0, emit (emit_setcc_zx (compare_cc nt) treg) g))
       else Inr (0, emit (emit_mov_rr treg r) g)))"

definition gen_jump_if_false :: "expr_fun \<Rightarrow> gen \<Rightarrow> (nat \<times> gen) res" where
  "gen_jump_if_false rec g =
     rbind (peekToken g) (\<lambda>t.
       if is_compare t then
         rbind (gen_binary rec t RAX True (g\<lparr>git := drop 1 (git g)\<rparr>)) (\<lambda>(cc, g).
           Inr (emit_jcc_rel32 (cc XOR 1) g))
       else
         rbind (single rec RAX RAX g) (\<lambda>g. Inr (emit_jcc_rel32 CC_E (emit (emit_test_rr RAX RAX) g))))"

section \<open>Leaves, arrays and assignments\<close>

definition gen_variable :: "genv \<Rightarrow> reg \<Rightarrow> reg \<Rightarrow> cell list \<Rightarrow> ctt \<Rightarrow> gen \<Rightarrow> (u64 \<times> nat option \<times> gen) res" where
  "gen_variable env treg sreg cs t g =
     rbind (leaf_address env (gscope g) cs) (\<lambda>leaf.
       case leaf of
         None \<Rightarrow> Inl (Exit 1)
       | Some (addr, var) \<Rightarrow>
           (let g = g\<lparr>git := drop (if t = T_THIS then 1 else 2) cs\<rparr>
            in if sreg \<noteq> ANY \<and> treg = RAX then Inr (0, var, emit (emit_load_rax_abs addr) g)
               else Inr (0, var, emit (emit_mov_imm64 treg addr @ (if sreg \<noteq> ANY then emit_load treg treg 0 else [])) g)))"

definition array_element :: "expr_fun \<Rightarrow> reg \<Rightarrow> u64 \<Rightarrow> gen \<Rightarrow> gen res" where
  "array_element rec p i g =
     (let disp = ucast (i * 8) :: u32
      in rbind (is_small_imm (git g)) (\<lambda>imm.
           case imm of
             Some v \<Rightarrow> Inr (emit (emit_store_imm32 p disp v) (g\<lparr>git := drop 2 (git g)\<rparr>))
           | None \<Rightarrow>
               rbind (pick_scratch p g) (\<lambda>(e, g).
               rbind (single rec e e g) (\<lambda>g.
                 Inr (reg_free e (emit (emit_store p disp e) g))))))"

primrec array_elements :: "nat \<Rightarrow> expr_fun \<Rightarrow> reg \<Rightarrow> u64 \<Rightarrow> u64 \<Rightarrow> gen \<Rightarrow> gen res" where
  "array_elements 0 rec p i count g = Inl Loop"
| "array_elements (Suc n) rec p i count g =
     (if \<not> i < count then Inr g
      else rbind (array_element rec p i g) (\<lambda>g. array_elements n rec p (i + 1) count g))"

definition gen_array :: "nat \<Rightarrow> expr_fun \<Rightarrow> genv \<Rightarrow> reg \<Rightarrow> gen \<Rightarrow> gen res" where
  "gen_array n rec env treg g =
     rbind (getValue g) (\<lambda>(data, g).
     rbind (peekToken g) (\<lambda>t.
       if t \<noteq> T_COMMA then Inl (Exit 1)
       else
         rbind (getValue (g\<lparr>git := drop 1 (git g)\<rparr>)) (\<lambda>(count, g).
         rbind (pick_saved treg g) (\<lambda>(p, g).
         rbind (array_elements n rec p 0 count (emit (emit_mov_imm64 p (data_addr env data)) g)) (\<lambda>g.
           Inr (reg_free p (emit (emit_mov_rr treg p) g)))))))"

definition gen_index :: "expr_fun \<Rightarrow> reg \<Rightarrow> reg \<Rightarrow> gen \<Rightarrow> gen res" where
  "gen_index rec treg sreg g =
     rbind (single rec treg treg g) (\<lambda>g.
     rbind (is_small_imm (git g)) (\<lambda>imm.
     rbind (case imm of
              Some v \<Rightarrow>
                if unat v \<le> 2147483647 div 8 then
                  (let g = g\<lparr>git := drop 2 (git g)\<rparr>
                   in Inr (treg, if v \<noteq> 0 then emit (emit_alu_imm 0 treg (v * 8)) g else g))
                else with_operand rec treg (\<lambda>r g. Inr (emit (emit_lea_idx8 treg treg r) g))
                       (\<lambda>l g. Inr (emit (emit_lea_idx8 treg l treg) g)) g
            | None \<Rightarrow>
                with_operand rec treg (\<lambda>r g. Inr (emit (emit_lea_idx8 treg treg r) g))
                  (\<lambda>l g. Inr (emit (emit_lea_idx8 treg l treg) g)) g) (\<lambda>(_, g).
       Inr (if sreg \<noteq> ANY then emit (emit_load treg treg 0) g else g))))"

definition assign_leaf :: "expr_fun \<Rightarrow> reg \<Rightarrow> u64 \<Rightarrow> gen \<Rightarrow> gen res" where
  "assign_leaf rec treg addr g =
     rbind (single rec treg treg g) (\<lambda>g.
       if treg = RAX then Inr (emit (emit_store_rax_abs addr) g)
       else rbind (pick_scratch treg g) (\<lambda>(a, g).
         Inr (reg_free a (emit (emit_mov_imm64 a addr @ emit_store a 0 treg) g))))"

definition gen_assign :: "expr_fun \<Rightarrow> genv \<Rightarrow> reg \<Rightarrow> gen \<Rightarrow> gen res" where
  "gen_assign rec env treg g =
     rbind (leaf_address env (gscope g) (git g)) (\<lambda>leaf.
       case leaf of
         Some (addr, _) \<Rightarrow>
           rbind (peekToken g) (\<lambda>t.
             assign_leaf rec treg addr (g\<lparr>git := drop (if t = T_THIS then 1 else 2) (git g)\<rparr>))
       | None \<Rightarrow>
           rbind (single rec treg ANY g) (\<lambda>g.
           rbind (with_operand rec treg (\<lambda>v g. Inr (emit (emit_store treg 0 v @ emit_mov_rr treg v) g))
                    (\<lambda>a g. Inr (emit (emit_store a 0 treg) g)) g) (\<lambda>(_, g). Inr g)))"

definition gen_add_assign :: "expr_fun \<Rightarrow> reg \<Rightarrow> gen \<Rightarrow> gen res" where
  "gen_add_assign rec treg g =
     rbind (single rec treg ANY g) (\<lambda>g.
     rbind (with_operand rec treg (\<lambda>v g. Inr (emit (emit_add_mem_reg treg 0 v @ emit_load treg treg 0) g))
              (\<lambda>a g. Inr (emit (emit_add_mem_reg a 0 treg @ emit_load treg a 0) g)) g) (\<lambda>(_, g). Inr g))"

section \<open>Calls\<close>

text \<open>The callee or an argument: a leaf is set aside, anything else is evaluated and pushed.\<close>

definition set_aside :: "expr_fun \<Rightarrow> gen \<Rightarrow> (cell list option \<times> gen) res" where
  "set_aside rec g =
     rbind (leaf_size (git g)) (\<lambda>sz.
       if sz \<noteq> 0 then Inr (Some (take sz (git g)), g\<lparr>git := drop sz (git g)\<rparr>)
       else rbind (single rec RAX RAX g) (\<lambda>g. Inr (None, emit_push RAX g)))"

primrec call_args :: "nat \<Rightarrow> expr_fun \<Rightarrow> gen \<Rightarrow> (cell list option list \<times> gen) res" where
  "call_args 0 rec g = Inr ([], g)"
| "call_args (Suc n) rec g =
     rbind (set_aside rec g) (\<lambda>(x, g). rbind (call_args n rec g) (\<lambda>(xs, g). Inr (x # xs, g)))"

text \<open>Pushed arguments are popped from the last one on; then the leaves are loaded.\<close>

fun pop_args :: "(reg \<times> cell list option) list \<Rightarrow> gen \<Rightarrow> gen" where
  "pop_args [] g = g"
| "pop_args ((r, x) # xs) g = pop_args xs (if x = None then emit_pop r g else g)"

fun load_args :: "expr_fun \<Rightarrow> (reg \<times> cell list option) list \<Rightarrow> gen \<Rightarrow> gen res" where
  "load_args rec [] g = Inr g"
| "load_args rec ((r, None) # xs) g = load_args rec xs g"
| "load_args rec ((r, Some leaf) # xs) g = rbind (gen_leaf rec r leaf g) (\<lambda>g. load_args rec xs g)"

text \<open>The call itself, with the stack aligned around it.\<close>

definition call_now :: "reg \<Rightarrow> gen \<Rightarrow> gen" where
  "call_now treg g =
     (let align = fdepth (fn g) AND 1 \<noteq> 0
      in emit ((if align then emit_rsp_adjust (- 8) else []) @ emit_xor32_rr RAX RAX @ emit_call_reg R11 @
               (if align then emit_rsp_adjust 8 else []) @ emit_mov_rr treg RAX) g)"

definition call_with :: "expr_fun \<Rightarrow> reg \<Rightarrow> cell list option \<Rightarrow> u64 \<Rightarrow> gen \<Rightarrow> gen res" where
  "call_with rec treg callee count g =
     (if count > 6 then Inl (Exit 1)
      else
        rbind (call_args (unat count) rec g) (\<lambda>(xs, g).
        let args = zip sysv_arg_regs xs
        in rbind (load_args rec args (pop_args (rev args) g)) (\<lambda>g.
           rbind (case callee of Some leaf \<Rightarrow> gen_leaf rec R11 leaf g | None \<Rightarrow> Inr (emit_pop R11 g)) (\<lambda>g.
             Inr (call_now treg g)))))"

definition gen_call :: "expr_fun \<Rightarrow> reg \<Rightarrow> gen \<Rightarrow> gen res" where
  "gen_call rec treg g =
     rbind (set_aside rec g) (\<lambda>(callee, g).
     rbind (peekToken g) (\<lambda>t.
       if t \<noteq> T_COMMA then Inl (Exit 1)
       else rbind (getValue (g\<lparr>git := drop 1 (git g)\<rparr>)) (\<lambda>(count, g). call_with rec treg callee count g)))"

section \<open>Statements\<close>

text \<open>\<open>count\<close> grows by the number of statements a block announces.\<close>

primrec statements :: "nat \<Rightarrow> expr_fun \<Rightarrow> u64 \<Rightarrow> u64 \<Rightarrow> gen \<Rightarrow> gen res" where
  "statements 0 rec j count g = Inl Loop"
| "statements (Suc n) rec j count g =
     (if \<not> j < count then Inr g
      else rbind (rec RAX ANY g) (\<lambda>(i, _, g). statements n rec (j + 1) (if i \<noteq> 0 then count + i else count) g))"

definition gen_if :: "nat \<Rightarrow> expr_fun \<Rightarrow> gen \<Rightarrow> gen res" where
  "gen_if n rec g =
     rbind (gen_jump_if_false rec g) (\<lambda>(patch, g).
     rbind (statements n rec 0 1 g) (\<lambda>g.
       patch_rel patch (length (gcode g)) g))"

definition gen_while :: "nat \<Rightarrow> expr_fun \<Rightarrow> gen \<Rightarrow> gen res" where
  "gen_while n rec g =
     (let condition_target = length (gcode g)
      in rbind (gen_jump_if_false rec g) (\<lambda>(exit_patch, g).
         rbind (statements n rec 0 1 g) (\<lambda>g.
         let (jmp, g) = emit_jmp_rel32 g
         in rbind (patch_rel jmp condition_target g) (\<lambda>g.
            patch_rel exit_patch (length (gcode g)) g))))"

definition gen_return :: "expr_fun \<Rightarrow> gen \<Rightarrow> gen res" where
  "gen_return rec g =
     rbind (rec RAX RAX g) (\<lambda>(i, _, g).
       if i \<noteq> 0 then Inl (Exit (unat i))
       else (let (jmp, g) = emit_jmp_rel32 g in Inr (g\<lparr>grets := grets g @ [jmp]\<rparr>)))"

section \<open>Functions\<close>

definition CS_SAVE_ORDER :: "reg list" where "CS_SAVE_ORDER = [RBX, R12, R13, R14, R15]"
definition FRAME_SIZE :: u32 where "FRAME_SIZE = 48"
definition SAVE_SLOT_SIZE :: nat where "SAVE_SLOT_SIZE = 4"

definition slot_disp :: "nat \<Rightarrow> u32" where "slot_disp k = - of_nat (8 * (k + 1))"

definition bufmove_dynamic :: "nat \<Rightarrow> nat \<Rightarrow> bytes \<Rightarrow> bytes" where
  "bufmove_dynamic start len bs = (if len = 0 \<or> start = 0 then bs else take len (drop start bs) @ take start bs)"

text \<open>The parameters: one cell for each, whose address is where its register is stored.\<close>

primrec store_params :: "nat \<Rightarrow> expr_fun \<Rightarrow> nat \<Rightarrow> nat \<Rightarrow> gen \<Rightarrow> gen res" where
  "store_params 0 rec j arg_count g = Inl Loop"
| "store_params (Suc n) rec j arg_count g =
     (if \<not> j < arg_count then Inr g
      else rbind (rec RAX ANY g) (\<lambda>(_, _, g).
           if j < length sysv_arg_regs then
             store_params n rec (Suc j) arg_count (emit (emit_store RAX 0 (sysv_arg_regs ! j)) g)
           else Inl Undef))"

definition prologue :: "gen \<Rightarrow> gen" where
  "prologue g =
     (let g = emit_push RBP g; g = g\<lparr>fn := (fn g)\<lparr>fdepth := 0\<rparr>\<rparr>
      in emit (emit_mov_rr RBP RSP @ emit_alu_imm 5 RSP FRAME_SIZE @
               concat (map (\<lambda>k. emit_store RBP (slot_disp k) (CS_SAVE_ORDER ! k)) [0..<5]) @
               emit_xor32_rr RAX RAX) g)"

text \<open>The saves of registers the body never used, and the frame when there are none, become NOPs.\<close>

definition used_saves :: "fnst \<Rightarrow> nat list" where
  "used_saves f = filter (\<lambda>k. cs_used f AND reg_bit (CS_SAVE_ORDER ! k) \<noteq> 0) [0..<5]"

definition drop_saves :: "nat \<Rightarrow> nat \<Rightarrow> gen \<Rightarrow> gen" where
  "drop_saves sub_at slots_at g =
     (let used = used_saves (fn g);
          bs = fold (\<lambda>k. overwrite (slots_at + k * SAVE_SLOT_SIZE) nop4) (filter (\<lambda>k. k \<notin> set used) [0..<5]) (gcode g)
      in g\<lparr>gcode := (if used = [] then overwrite sub_at nop4 bs else bs)\<rparr>)"

definition drop_last_jump :: "gen \<Rightarrow> gen" where
  "drop_last_jump g =
     (if grets g \<noteq> [] \<and> last (grets g) + 4 = length (gcode g) \<and> 5 \<le> length (gcode g) \<and>
         gcode g ! (last (grets g) - 1) = 0xE9
      then g\<lparr>gcode := take (length (gcode g) - 5) (gcode g), grets := butlast (grets g)\<rparr> else g)"

fun patch_returns :: "nat list \<Rightarrow> gen \<Rightarrow> gen res" where
  "patch_returns [] g = Inr g"
| "patch_returns (r # rs) g = rbind (patch_rel r (length (gcode g)) g) (\<lambda>g. patch_returns rs g)"

definition epilogue :: "gen \<Rightarrow> gen" where
  "epilogue g =
     emit (concat (map (\<lambda>k. emit_load (CS_SAVE_ORDER ! k) RBP (slot_disp k)) (used_saves (fn g))) @
           emit_leave @ emit_ret) g"

text \<open>A function that does not start the module is moved to its front.\<close>

definition move_front :: "nat \<Rightarrow> gen \<Rightarrow> gen" where
  "move_front save g =
     (if save = 0 then g
      else
        (let n = length (gcode g) - save
         in g\<lparr>gcode := bufmove_dynamic save n (gcode g),
              grell := map (\<lambda>(v, p). (v, p + n)) (butlast (grell g)) @ [last (grell g)]\<rparr>))"

definition codegen_func :: "nat \<Rightarrow> expr_fun \<Rightarrow> nat option \<Rightarrow> nat \<Rightarrow> gen \<Rightarrow> gen res" where
  "codegen_func n rec var arg_count g0 =
     (let save = length (gcode g0);
          g = g0\<lparr>fn := \<lparr>fbusy = 0, cs_used = 0, fdepth = 0\<rparr>, grell := grell g0 @ [(var, 0)], grets := []\<rparr>;
          sub_at = save + length (push_bytes RBP @ emit_mov_rr RBP RSP);
          slots_at = sub_at + length (emit_alu_imm 5 RSP FRAME_SIZE)
      in rbind (if arg_count \<noteq> 0 then
                  rbind (rec RAX ANY (prologue g)) (\<lambda>(c, _, g).
                    if of_nat arg_count \<noteq> c then Inl (Exit 17) else store_params n rec 0 arg_count g)
                else Inr (prologue g)) (\<lambda>g.
         rbind (statements n rec 0 1 g) (\<lambda>g.
         let g = drop_last_jump (drop_saves sub_at slots_at g)
         in rbind (patch_returns (rev (grets g)) g) (\<lambda>g.
              Inr (move_front save ((epilogue g)\<lparr>fn := fn g0, grets := grets g0\<rparr>))))))"

definition gen_function :: "nat \<Rightarrow> expr_fun \<Rightarrow> genv \<Rightarrow> gen \<Rightarrow> gen res" where
  "gen_function n rec env g0 =
     rbind (rec RAX RAX g0) (\<lambda>(c, var, g).
     if c \<noteq> 0 then Inl (Exit 1)
     else case var of
       None \<Rightarrow> Inl (Exit 1)
     | Some i \<Rightarrow>
         (case var_type (vars (ge_sym env) ! i) of
            None \<Rightarrow> Inl (Exit 1)
          | Some r \<Rightarrow>
              rbind (deref (ge_types env) r) (\<lambda>ty.
                if ct_kind ty \<noteq> CUP_TYPE_FUNCTION then Inl (Exit 1)
                else
                  (let g = g\<lparr>gscope := Suc (gscope g)\<rparr>; arg_count = unat (ct_size ty)
                   in rbind (if arg_count = 0 then
                               rbind (rec RAX ANY g) (\<lambda>(c, _, g). if c \<noteq> 0 then Inl (Exit 17) else Inr g)
                             else Inr g) (\<lambda>g.
                      codegen_func n rec (Some i) arg_count (g\<lparr>gcode := take (length (gcode g0)) (gcode g)\<rparr>))))))"

section \<open>Expressions\<close>

definition no_var :: "gen res \<Rightarrow> (u64 \<times> nat option \<times> gen) res" where
  "no_var r = rbind r (\<lambda>g. Inr (0, None, g))"

text \<open>One node with token \<open>t\<close>, at the head of \<open>cs\<close>; \<open>g\<close> stands behind it.\<close>

definition gen_node :: "nat \<Rightarrow> expr_fun \<Rightarrow> genv \<Rightarrow> reg \<Rightarrow> reg \<Rightarrow> cell list \<Rightarrow> ctt \<Rightarrow> gen \<Rightarrow> (u64 \<times> nat option \<times> gen) res" where
  "gen_node n rec env treg sreg cs t g =
     (if t = N_BLOCK then rbind (getValue (g\<lparr>gscope := Suc (gscope g)\<rparr>)) (\<lambda>(v, g). Inr (v, None, g))
      else if t = T_COMMA then rbind (getValue g) (\<lambda>(v, g). Inr (v, None, g))
      else if t = T_NUMBER then no_var (rbind (getValue g) (\<lambda>(v, g). Inr (emit (emit_mov_const treg v) g)))
      else if t = T_STRING \<or> t = T_MSTRING then
        no_var (rbind (getValue g) (\<lambda>(v, g). Inr (emit (emit_mov_imm64 treg (data_addr env v)) g)))
      else if t = T_THIS \<or> t = N_VARIABLE \<or> t = N_ADDRESS then gen_variable env treg sreg cs t g
      else if t = N_ARRAY then no_var (gen_array n rec env treg g)
      else if t = T_OSB then no_var (gen_index rec treg sreg g)
      else if t = T_EQ then no_var (gen_assign rec env treg g)
      else if t = T_ADDEQ then no_var (gen_add_assign rec treg g)
      else if t \<in> {T_ADD, T_SUB, T_MUL, T_EQEQ, T_LESS, T_LESSEQ} then
        no_var (rbind (gen_binary rec t treg False g) (\<lambda>(_, g). Inr g))
      else if t = T_CALL then no_var (gen_call rec treg g)
      else if t = T_AT then no_var (gen_function n rec env g)
      else if t = T_IF then no_var (gen_if n rec g)
      else if t = T_WHILE then no_var (gen_while n rec g)
      else if t = T_RETURN then no_var (gen_return rec g)
      else Inl (Exit 1))"

primrec codegen_expr :: "nat \<Rightarrow> genv \<Rightarrow> expr_fun" where
  "codegen_expr 0 env treg sreg g = Inl Loop"
| "codegen_expr (Suc n) env treg sreg g0 =
     rbind (getNode g0) (\<lambda>(c, g).
     rbind (cell_token c) (\<lambda>t. gen_node n (codegen_expr n env) env treg sreg (git g0) t g))"

section \<open>What every part of the generator keeps\<close>

text \<open>
  Registers that were reserved stay reserved and no others are, pushes and pops balance, a register
  of the saved pool that was used stays recorded, code and scope do not shrink, and no cell is read
  twice.
\<close>

definition kept :: "gen \<Rightarrow> gen \<Rightarrow> bool" where
  "kept g g' \<longleftrightarrow>
     fbusy (fn g') = fbusy (fn g) \<and> fdepth (fn g') = fdepth (fn g) \<and>
     cs_used (fn g) AND cs_used (fn g') = cs_used (fn g) \<and>
     length (gcode g) \<le> length (gcode g') \<and> gscope g \<le> gscope g' \<and> length (git g') \<le> length (git g)"

lemma kept_refl: "kept g g"
  by (simp add: kept_def)

lemma kept_trans: "kept g g1 \<Longrightarrow> kept g1 g2 \<Longrightarrow> kept g g2"
  unfolding kept_def by (metis (no_types, lifting) and.assoc order_trans)

lemma kept_git: "kept g g' \<Longrightarrow> length (git g') \<le> length (git g)"
  by (simp add: kept_def)

lemma emit_simps [simp]:
  "fn (emit bs g) = fn g" "git (emit bs g) = git g" "grets (emit bs g) = grets g" "gscope (emit bs g) = gscope g"
  "gcode (emit bs g) = gcode g @ bs" "grell (emit bs g) = grell g"
  by (simp_all add: emit_def)

lemma kept_emit: "kept g g' \<Longrightarrow> kept g (emit bs g')"
  by (auto simp: kept_def)

lemma kept_skip: "kept g g' \<Longrightarrow> kept g (g'\<lparr>git := drop n (git g')\<rparr>)"
  by (auto simp: kept_def)

text \<open>A reserved register and its release.\<close>

definition holds :: "reg \<Rightarrow> gen \<Rightarrow> gen \<Rightarrow> bool" where
  "holds r g g' \<longleftrightarrow> fbusy (fn g) AND reg_bit r = 0 \<and>
     kept (g\<lparr>fn := (fn g)\<lparr>fbusy := fbusy (fn g) OR reg_bit r\<rparr>\<rparr>) g'"

lemma reg_pick_holds:
  assumes "reg_pick pool avoid g = Inr (r, g')"
  shows "holds r g g'" and "r \<in> set pool" and "r \<noteq> avoid"
  using assms by (auto simp: reg_pick_def holds_def kept_refl find_Some_iff split: option.splits)

lemma reg_pick_ensures: "ensures (reg_pick pool avoid g) (\<lambda>(r, g'). holds r g g' \<and> git g' = git g)"
  using reg_pick_holds(1) [of pool avoid g]
  by (auto simp: reg_pick_def split: option.splits)

lemma and_or_self: "(a :: 'a::len word) AND (a OR b) = a"
  by (rule bit_word_eqI) (auto simp: bit_simps)

lemma holds_used: "holds r g g' \<Longrightarrow> holds r g (g'\<lparr>fn := (fn g')\<lparr>cs_used := cs_used (fn g') OR b\<rparr>\<rparr>)"
proof -
  have "c AND d = c \<Longrightarrow> c AND (d OR b) = c" for c d :: u16
    by (metis and_or_self and.assoc)
  then show "holds r g g' \<Longrightarrow> holds r g (g'\<lparr>fn := (fn g')\<lparr>cs_used := cs_used (fn g') OR b\<rparr>\<rparr>)"
    by (simp add: holds_def kept_def)
qed

lemma pick_scratch_ensures: "ensures (pick_scratch avoid g) (\<lambda>(r, g'). holds r g g' \<and> git g' = git g)"
  unfolding pick_scratch_def by (rule reg_pick_ensures)

lemma pick_saved_ensures: "ensures (pick_saved avoid g) (\<lambda>(r, g'). holds r g g' \<and> git g' = git g)"
  unfolding pick_saved_def
  by (rule ensures_bind_pairI [OF reg_pick_ensures]) (auto intro: holds_used)

lemma clear_bit:
  assumes "a AND b = (0 :: 'a::len word)"
  shows "(a OR b) AND NOT b = a"
proof (rule bit_word_eqI)
  fix n assume "n < LENGTH('a)"
  have "\<not> bit (a AND b) n" using assms by simp
  then show "bit ((a OR b) AND NOT b) n = bit a n" using \<open>n < LENGTH('a)\<close> by (auto simp: bit_simps)
qed

lemma holds_free: "holds r g g' \<Longrightarrow> kept g (reg_free r g')"
  by (auto simp: holds_def kept_def reg_free_def clear_bit)

lemma reg_free_git [simp]: "git (reg_free r g) = git g"
  by (simp add: reg_free_def)

lemma holds_kept: "holds r g g' \<Longrightarrow> kept g' g'' \<Longrightarrow> holds r g g''"
  using kept_trans by (auto simp: holds_def)

lemma holds_emit: "holds r g g' \<Longrightarrow> holds r g (emit bs g')"
  by (rule holds_kept [OF _ kept_emit [OF kept_refl]])

lemma holds_past: "holds r g g1 \<Longrightarrow> kept (emit bs g1) g2 \<Longrightarrow> holds r g g2"
  using holds_kept holds_emit by blast

text \<open>The recursive call on less than \<open>n\<close> cells, and the steps the parts are made of.\<close>

definition rec_gen :: "nat \<Rightarrow> expr_fun \<Rightarrow> bool" where
  "rec_gen n rec \<longleftrightarrow>
     (\<forall>treg sreg g. length (git g) < n \<longrightarrow>
        ensures (rec treg sreg g) (\<lambda>(_, _, g'). kept g g' \<and> length (git g') < length (git g)))"

lemma rec_genD:
  "rec_gen n rec \<Longrightarrow> length (git g) < n \<Longrightarrow>
   ensures (rec treg sreg g) (\<lambda>(_, _, g'). kept g g' \<and> length (git g') < length (git g))"
  by (simp add: rec_gen_def)

lemma rec_gen_step:
  assumes "rec_gen n rec" and "length (git g) < n"
    and "\<And>c v g'. kept g g' \<Longrightarrow> length (git g') < length (git g) \<Longrightarrow> ensures (f c v g') Q"
  shows "ensures (rbind (rec treg sreg g) (\<lambda>(c, v, g'). f c v g')) Q"
  by (rule ensures_bindI [OF rec_genD [OF assms(1,2)]]) (use assms(3) in auto)

lemma single_step:
  assumes "rec_gen n rec" and "length (git g) < n"
    and "\<And>g'. kept g g' \<Longrightarrow> length (git g') < length (git g) \<Longrightarrow> ensures (f g') Q"
  shows "ensures (rbind (single rec treg sreg g) f) Q"
  unfolding single_def rbind_assoc
  by (rule ensures_bindI [OF rec_genD [OF assms(1,2)]]) (use assms(3) in auto)

lemma gen_leaf_step:
  assumes "rec_gen n rec" and "length leaf < n" and "\<And>g'. kept g g' \<Longrightarrow> git g' = git g \<Longrightarrow> ensures (f g') Q"
  shows "ensures (rbind (gen_leaf rec r leaf g) f) Q"
  unfolding gen_leaf_def rbind_assoc
proof (rule ensures_bindI [OF rec_genD [OF assms(1), of "g\<lparr>git := leaf\<rparr>"]])
  show "length (git (g\<lparr>git := leaf\<rparr>)) < n" using assms(2) by simp
next
  fix x :: "u64 \<times> nat option \<times> gen"
  obtain c v g' where x: "x = (c, v, g')" by (cases x)
  assume "case x of (_, _, g') \<Rightarrow> kept (g\<lparr>git := leaf\<rparr>) g' \<and> length (git g') < length (git (g\<lparr>git := leaf\<rparr>))"
  then have "kept (g\<lparr>git := leaf\<rparr>) g'" by (simp add: x)
  then have "kept g (g'\<lparr>git := git g\<rparr>)" by (auto simp: kept_def)
  then show "ensures (rbind (case x of (_, _, g') \<Rightarrow> Inr (g'\<lparr>git := git g\<rparr>)) f) Q" using assms(3) by (simp add: x)
qed

lemma next_leaf_step:
  assumes "rec_gen n rec" and "length (git g) < n" and "sz \<le> length (git g)" and "sz \<noteq> 0"
    and "\<And>g'. kept g g' \<Longrightarrow> length (git g') < length (git g) \<Longrightarrow> ensures (f g') Q"
  shows "ensures (rbind (next_leaf rec r sz g) f) Q"
  unfolding next_leaf_def rbind_assoc
proof (rule gen_leaf_step [OF assms(1)])
  fix g' assume g': "kept g g'" "git g' = git g"
  have "kept g (g'\<lparr>git := drop sz (git g')\<rparr>)" using g'(1) by (rule kept_skip)
  then show "ensures (rbind (Inr (g'\<lparr>git := drop sz (git g')\<rparr>)) f) Q"
    using assms(3-5) g'(2) by simp
qed (use assms(2) in simp)

lemma leaf_size_step:
  assumes "\<And>sz. sz \<le> length cs \<Longrightarrow> ensures (f sz) Q"
  shows "ensures (rbind (leaf_size cs) f) Q"
proof (cases cs)
  case (Cons c cs')
  then show ?thesis using assms by (cases c) (auto simp: leaf_size_def Let_def)
qed (use assms in \<open>simp add: leaf_size_def\<close>)

lemma small_imm_step:
  assumes "\<And>x. (x \<noteq> None \<Longrightarrow> 2 \<le> length cs) \<Longrightarrow> ensures (f x) Q"
  shows "ensures (rbind (is_small_imm cs) f) Q"
proof -
  have "ensures (is_small_imm cs) (\<lambda>x. x \<noteq> None \<longrightarrow> 2 \<le> length cs)"
    by (cases "cs ! 0"; cases "cs ! 1" rule: cell_value.cases) (auto simp: is_small_imm_def)
  then show ?thesis by (rule ensures_bindI) (use assms in blast)
qed

lemma getNode_ensures: "ensures (getNode g) (\<lambda>(c, g'). g' = g\<lparr>git := drop 1 (git g)\<rparr> \<and> git g \<noteq> [])"
  by (auto simp: getNode_def split: list.splits)

lemma getValue_step:
  assumes "\<And>v. git g \<noteq> [] \<Longrightarrow> ensures (f v (g\<lparr>git := drop 1 (git g)\<rparr>)) Q"
  shows "ensures (rbind (getValue g) (\<lambda>(v, g). f v g)) Q"
proof -
  have "ensures (getValue g) (\<lambda>(v, g'). g' = g\<lparr>git := drop 1 (git g)\<rparr> \<and> git g \<noteq> [])"
    unfolding getValue_def
    by (rule ensures_bind_pairI [OF getNode_ensures]) (auto intro: ensures_bindI [OF cell_value_ensures])
  then show ?thesis by (rule ensures_bindI) (use assms in auto)
qed

lemma peekToken_step:
  assumes "\<And>t. git g \<noteq> [] \<Longrightarrow> ensures (f t) Q"
  shows "ensures (rbind (peekToken g) f) Q"
proof (cases "git g")
  case (Cons c cs)
  then show ?thesis using assms by (cases c) (auto simp: peekToken_def)
qed (simp add: peekToken_def)

lemma patch_rel_step:
  assumes "\<And>g'. kept g g' \<Longrightarrow> git g' = git g \<Longrightarrow> ensures (f g') Q"
  shows "ensures (rbind (patch_rel p t g) f) Q"
proof -
  have "length (gcode g) \<le> length (overwrite p bs (gcode g))" for bs
    by (auto simp: overwrite_def)
  then have "kept g (g\<lparr>gcode := overwrite p bs (gcode g)\<rparr>)" for bs
    by (auto simp: kept_def)
  then show ?thesis using assms by (auto simp: patch_rel_def Let_def)
qed

lemma scratch_step:
  assumes "\<And>r g'. holds r g g' \<Longrightarrow> git g' = git g \<Longrightarrow> ensures (f r g') Q"
  shows "ensures (rbind (pick_scratch avoid g) (\<lambda>(r, g). f r g)) Q"
  by (rule ensures_bind_pairI [OF pick_scratch_ensures]) (use assms in auto)

lemma saved_step:
  assumes "\<And>r g'. holds r g g' \<Longrightarrow> git g' = git g \<Longrightarrow> ensures (f r g') Q"
  shows "ensures (rbind (pick_saved avoid g) (\<lambda>(r, g). f r g)) Q"
  by (rule ensures_bind_pairI [OF pick_saved_ensures]) (use assms in auto)

text \<open>The parts.\<close>

lemma gen_alu_imm_ensures: "ensures (gen_alu_imm t dst v g) (\<lambda>g'. kept g g' \<and> git g' = git g)"
  by (cases t) (auto simp: gen_alu_imm_def intro: kept_refl kept_emit)

lemma gen_alu_rr_ensures: "ensures (gen_alu_rr t dst src g) (\<lambda>g'. kept g g' \<and> git g' = git g)"
  by (cases t) (auto simp: gen_alu_rr_def intro: kept_refl kept_emit)

lemma gen_op_imm_ensures: "ensures (gen_op_imm t dst v g) (\<lambda>g'. kept g g' \<and> git g' = git g)"
  using gen_alu_imm_ensures by (auto simp: gen_op_imm_def intro: kept_refl kept_emit)

lemma gen_op_rr_ensures: "ensures (gen_op_rr t dst src g) (\<lambda>g'. kept g g' \<and> git g' = git g)"
  using gen_alu_rr_ensures by (auto simp: gen_op_rr_def intro: kept_refl kept_emit)

lemma kept_skip_self: "kept g (g\<lparr>git := drop k (git g)\<rparr>)"
  by (rule kept_skip [OF kept_refl])

text \<open>The code for an operator with its second operand in a register.\<close>

definition plain :: "(reg \<Rightarrow> gen \<Rightarrow> gen res) \<Rightarrow> bool" where
  "plain f \<longleftrightarrow> (\<forall>r g. ensures (f r g) (\<lambda>g'. kept g g' \<and> git g' = git g))"

lemma plain_emit [simp]: "plain (\<lambda>r g. Inr (emit (bs r) g))"
  by (auto simp: plain_def intro: kept_emit kept_refl)

lemma plain_op [simp]: "plain (gen_op_rr nt treg)" "plain (\<lambda>l. gen_op_rr nt l treg)"
  using gen_op_rr_ensures by (simp_all add: plain_def)

lemma with_operand_ok:
  assumes "rec_gen n rec" and "length (git g) < n" and "plain f" and "plain h"
  shows "ensures (with_operand rec treg f h g) (\<lambda>(_, g'). kept g g')"
proof -
  have finish: "ensures (rbind (k r g2) (\<lambda>g. Inr (x, reg_free r g))) (\<lambda>(_, g'). kept g g')"
    if "plain k" "holds r g g2" for k r g2 and x :: reg
  proof (rule ensures_bindI)
    show "ensures (k r g2) (\<lambda>g'. kept g2 g' \<and> git g' = git g2)" using that(1) by (simp add: plain_def)
  qed (use holds_free holds_kept [OF that(2)] in simp)
  have leaf: "ensures (rbind (pick_scratch treg g) (\<lambda>(r, g). rbind (next_leaf rec r sz g) (\<lambda>g.
      rbind (f r g) (\<lambda>g. Inr (treg, reg_free r g))))) (\<lambda>(_, g'). kept g g')"
    if "sz \<le> length (git g)" "sz \<noteq> 0" for sz
    by (rule scratch_step, rule next_leaf_step [OF assms(1)])
      (use that assms(2,3) finish holds_kept in auto)
  have deep: "ensures (rbind (pick_saved treg g) (\<lambda>(l, g). rbind (single rec treg treg (emit (emit_mov_rr l treg) g)) (\<lambda>g.
      rbind (h l g) (\<lambda>g. Inr (l, reg_free l g))))) (\<lambda>(_, g'). kept g g')"
    by (rule saved_step, rule single_step [OF assms(1)])
      (use assms(2,4) finish holds_past in auto)
  show ?thesis
    unfolding with_operand_def by (rule leaf_size_step) (use leaf deep in simp)
qed

lemma gen_right_ok:
  assumes "rec_gen n rec" and "length (git g) < n"
  shows "ensures (gen_right rec nt treg g) (\<lambda>(_, g'). kept g g')"
  unfolding gen_right_def
proof (rule small_imm_step)
  fix imm :: "u32 option"
  have "ensures (rbind (gen_op_imm nt treg v (g\<lparr>git := drop 2 (git g)\<rparr>)) (\<lambda>g. Inr (treg, g))) (\<lambda>(_, g'). kept g g')" for v
    by (rule ensures_bindI [OF gen_op_imm_ensures]) (use kept_trans [OF kept_skip_self] in auto)
  then show "ensures (case imm of
         Some v \<Rightarrow> rbind (gen_op_imm nt treg v (g\<lparr>git := drop 2 (git g)\<rparr>)) (\<lambda>g. Inr (treg, g))
       | None \<Rightarrow> with_operand rec treg (gen_op_rr nt treg) (\<lambda>l. gen_op_rr nt l treg) g) (\<lambda>(_, g'). kept g g')"
    using with_operand_ok [OF assms] by (auto split: option.splits)
qed

lemma gen_binary_ok:
  assumes "rec_gen n rec" and "length (git g) < n"
  shows "ensures (gen_binary rec nt treg flags g) (\<lambda>(_, g'). kept g g' \<and> length (git g') < length (git g))"
  unfolding gen_binary_def
proof (rule single_step [OF assms])
  fix g1 assume g1: "kept g g1" "length (git g1) < length (git g)"
  then have "length (git g1) < n" using assms(2) by simp
  from gen_right_ok [OF assms(1) this, of nt treg]
  show "ensures (rbind (gen_right rec nt treg g1) (\<lambda>(r, g).
       if is_compare nt then
         (if flags then Inr (compare_cc nt, g)
          else Inr (0, emit (emit_setcc_zx (compare_cc nt) treg) g))
       else Inr (0, emit (emit_mov_rr treg r) g))) (\<lambda>(_, g'). kept g g' \<and> length (git g') < length (git g))"
  proof (rule ensures_bind_pairI)
    fix r g2 assume "kept g1 g2"
    then have "kept g g2" "length (git g2) < length (git g)" using g1 kept_trans kept_git by (blast, fastforce)
    then show "ensures (if is_compare nt then
         (if flags then Inr (compare_cc nt, g2)
          else Inr (0, emit (emit_setcc_zx (compare_cc nt) treg) g2))
       else Inr (0, emit (emit_mov_rr treg r) g2)) (\<lambda>(_, g'). kept g g' \<and> length (git g') < length (git g))"
      by (simp add: kept_emit)
  qed
qed

lemma gen_jump_if_false_ok:
  assumes "rec_gen n rec" and "length (git g) < n"
  shows "ensures (gen_jump_if_false rec g) (\<lambda>(_, g'). kept g g' \<and> length (git g') < length (git g))"
  unfolding gen_jump_if_false_def
proof (rule peekToken_step)
  fix t assume ne: "git g \<noteq> []"
  have cmp: "ensures (rbind (gen_binary rec t RAX True (g\<lparr>git := drop 1 (git g)\<rparr>)) (\<lambda>(cc, g).
      Inr (emit_jcc_rel32 (cc XOR 1) g))) (\<lambda>(_, g'). kept g g' \<and> length (git g') < length (git g))"
    by (rule ensures_bindI [OF gen_binary_ok [OF assms(1)]])
      (use assms(2) kept_trans [OF kept_skip_self] in \<open>auto simp: emit_jcc_rel32_def intro!: kept_emit\<close>)
  have other: "ensures (rbind (single rec RAX RAX g) (\<lambda>g.
      Inr (emit_jcc_rel32 CC_E (emit (emit_test_rr RAX RAX) g)))) (\<lambda>(_, g'). kept g g' \<and> length (git g') < length (git g))"
    by (rule single_step [OF assms]) (auto simp: emit_jcc_rel32_def intro: kept_emit)
  show "ensures (if is_compare t then
         rbind (gen_binary rec t RAX True (g\<lparr>git := drop 1 (git g)\<rparr>)) (\<lambda>(cc, g). Inr (emit_jcc_rel32 (cc XOR 1) g))
       else rbind (single rec RAX RAX g) (\<lambda>g. Inr (emit_jcc_rel32 CC_E (emit (emit_test_rr RAX RAX) g))))
    (\<lambda>(_, g'). kept g g' \<and> length (git g') < length (git g))"
    using cmp other by simp
qed

definition env_ok :: "genv \<Rightarrow> bool" where
  "env_ok env \<longleftrightarrow> vars_ok (ge_sym env) \<and> scopes_ok (ge_sym env)"

lemma leaf_address_ensures:
  assumes "env_ok env"
  shows "ensures (leaf_address env sc cs) (\<lambda>x. case x of None \<Rightarrow> True | Some (_, v) \<Rightarrow> cs \<noteq> [])"
proof -
  have known: "ensures (rbind (varLookup (ge_sym env) name sc) (\<lambda>v.
      case v of None \<Rightarrow> Inl (Exit 1) | Some i \<Rightarrow> Inr (Some (var_addr env i, Some i))))
      (\<lambda>x. case x of None \<Rightarrow> True | Some (_, v) \<Rightarrow> True)" for name
    by (rule ensures_bindI [OF varLookup_any]) (use assms in \<open>auto simp: env_ok_def split: option.splits\<close>)
  have name: "ensures (cell_name d) (\<lambda>_. True)" for d by (cases d rule: cell_name.cases) auto
  show ?thesis
  proof (cases cs)
    case (Cons c cs')
    then show ?thesis
      using known by (cases c)
        (auto simp: leaf_address_def Let_def intro!: ensures_bindI [OF name] ensures_bindI [OF cell_value_ensures])
  qed (simp add: leaf_address_def)
qed

lemma array_element_ok:
  assumes "rec_gen n rec" and "length (git g) < n"
  shows "ensures (array_element rec p i g) (\<lambda>g'. kept g g' \<and> length (git g') < length (git g))"
  unfolding array_element_def Let_def
proof (rule small_imm_step)
  fix imm :: "u32 option" assume imm: "imm \<noteq> None \<Longrightarrow> 2 \<le> length (git g)"
  have "ensures (rbind (pick_scratch p g) (\<lambda>(e, g). rbind (single rec e e g) (\<lambda>g.
      Inr (reg_free e (emit (emit_store p (ucast (i * 8)) e) g))))) (\<lambda>g'. kept g g' \<and> length (git g') < length (git g))"
    by (rule scratch_step, rule single_step [OF assms(1)])
      (use assms(2) in \<open>auto intro: holds_free holds_emit holds_kept\<close>)
  then show "ensures (case imm of
        Some v \<Rightarrow> Inr (emit (emit_store_imm32 p (ucast (i * 8)) v) (g\<lparr>git := drop 2 (git g)\<rparr>))
      | None \<Rightarrow> rbind (pick_scratch p g) (\<lambda>(e, g). rbind (single rec e e g) (\<lambda>g.
          Inr (reg_free e (emit (emit_store p (ucast (i * 8)) e) g))))) (\<lambda>g'. kept g g' \<and> length (git g') < length (git g))"
    using imm by (cases imm) (auto intro: kept_emit kept_skip_self)
qed

lemma array_elements_ok:
  assumes "rec_gen n rec"
  shows "length (git g) < k \<Longrightarrow> k \<le> n \<Longrightarrow> ensures (array_elements k rec p i count g) (\<lambda>g'. kept g g')"
proof (induction k arbitrary: i g)
  case (Suc k)
  show ?case
  proof (cases "i < count")
    case True
    have "ensures (rbind (array_element rec p i g) (\<lambda>g. array_elements k rec p (i + 1) count g)) (\<lambda>g'. kept g g')"
    proof (rule ensures_bindI [OF array_element_ok [OF assms]])
      fix g1 assume g1: "kept g g1 \<and> length (git g1) < length (git g)"
      then have "ensures (array_elements k rec p (i + 1) count g1) (\<lambda>g'. kept g1 g')"
        using Suc.prems by (intro Suc.IH) auto
      then show "ensures (array_elements k rec p (i + 1) count g1) (\<lambda>g'. kept g g')"
        by (rule ensures_mono) (use g1 kept_trans in blast)
    qed (use Suc.prems in simp)
    with True show ?thesis by simp
  qed (simp add: kept_refl)
qed simp

lemma gen_array_ok:
  assumes "rec_gen n rec" and "length (git g) < n"
  shows "ensures (gen_array n rec env treg g) (\<lambda>g'. kept g g')"
  unfolding gen_array_def
proof (rule getValue_step, rule peekToken_step)
  fix data t
  let ?g2 = "g\<lparr>git := drop 1 (git g)\<rparr>"
  have list: "ensures (rbind (getValue (?g2\<lparr>git := drop 1 (git ?g2)\<rparr>)) (\<lambda>(count, g).
      rbind (pick_saved treg g) (\<lambda>(p, g).
      rbind (array_elements n rec p 0 count (emit (emit_mov_imm64 p (data_addr env data)) g)) (\<lambda>g.
        Inr (reg_free p (emit (emit_mov_rr treg p) g)))))) (\<lambda>g'. kept g g')"
  proof (rule getValue_step, rule saved_step, rule ensures_bindI [OF array_elements_ok [OF assms(1)]])
    fix v p g4 g5
    let ?g3 = "?g2\<lparr>git := drop 1 (git ?g2)\<rparr>\<lparr>git := drop 1 (git (?g2\<lparr>git := drop 1 (git ?g2)\<rparr>))\<rparr>"
    assume h: "holds p ?g3 g4" "git g4 = git ?g3" and k: "kept (emit (emit_mov_imm64 p (data_addr env data)) g4) g5"
    have "holds p ?g3 g5" by (rule holds_past [OF h(1) k])
    then have "kept ?g3 (reg_free p (emit (emit_mov_rr treg p) g5))" by (intro holds_free holds_emit)
    moreover have "kept g ?g3"
      using kept_skip [OF kept_skip [OF kept_skip_self [of g 1], of 1], of 1] by simp
    ultimately show "ensures (Inr (reg_free p (emit (emit_mov_rr treg p) g5))) (\<lambda>g'. kept g g')"
      using kept_trans by simp
  qed (use assms(2) in auto)
  then show "ensures (if t \<noteq> T_COMMA then Inl (Exit 1)
       else
         rbind (getValue (?g2\<lparr>git := drop 1 (git ?g2)\<rparr>)) (\<lambda>(count, g).
         rbind (pick_saved treg g) (\<lambda>(p, g).
         rbind (array_elements n rec p 0 count (emit (emit_mov_imm64 p (data_addr env data)) g)) (\<lambda>g.
           Inr (reg_free p (emit (emit_mov_rr treg p) g)))))) (\<lambda>g'. kept g g')"
    by simp
qed

lemma gen_index_ok:
  assumes "rec_gen n rec" and "length (git g) < n"
  shows "ensures (gen_index rec treg sreg g) (\<lambda>g'. kept g g')"
  unfolding gen_index_def
proof (rule single_step [OF assms], rule small_imm_step)
  fix g1 and imm :: "u32 option"
  assume g1: "kept g g1" "length (git g1) < length (git g)"
  let ?with = "with_operand rec treg (\<lambda>r g. Inr (emit (emit_lea_idx8 treg treg r) g))
      (\<lambda>l g. Inr (emit (emit_lea_idx8 treg l treg) g)) g1"
  have deep: "ensures ?with (\<lambda>(_, g'). kept g1 g')"
    by (rule with_operand_ok [OF assms(1)]) (use g1(2) assms(2) in simp_all)
  have "ensures (case imm of
              Some v \<Rightarrow>
                if unat v \<le> 2147483647 div 8 then
                  (let g = g1\<lparr>git := drop 2 (git g1)\<rparr>
                   in Inr (treg, if v \<noteq> 0 then emit (emit_alu_imm 0 treg (v * 8)) g else g))
                else ?with
            | None \<Rightarrow> ?with) (\<lambda>(_, g'). kept g1 g')"
    using deep by (auto simp: Let_def kept_emit kept_skip_self split: option.splits)
  then show "ensures (rbind (case imm of
              Some v \<Rightarrow>
                if unat v \<le> 2147483647 div 8 then
                  (let g = g1\<lparr>git := drop 2 (git g1)\<rparr>
                   in Inr (treg, if v \<noteq> 0 then emit (emit_alu_imm 0 treg (v * 8)) g else g))
                else ?with
            | None \<Rightarrow> ?with) (\<lambda>(_, g).
       Inr (if sreg \<noteq> ANY then emit (emit_load treg treg 0) g else g))) (\<lambda>g'. kept g g')"
    by (rule ensures_bindI) (use kept_trans [OF g1(1)] in \<open>auto intro!: kept_emit\<close>)
qed

lemma assign_leaf_ok:
  assumes "rec_gen n rec" and "length (git g) < n"
  shows "ensures (assign_leaf rec treg addr g) (\<lambda>g'. kept g g')"
  unfolding assign_leaf_def
proof (rule single_step [OF assms])
  fix g1 assume g1: "kept g g1"
  have "ensures (rbind (pick_scratch treg g1) (\<lambda>(a, g).
      Inr (reg_free a (emit (emit_mov_imm64 a addr @ emit_store a 0 treg) g)))) (\<lambda>g'. kept g g')"
    by (rule scratch_step) (use kept_trans [OF g1] holds_free holds_emit in auto)
  then show "ensures (if treg = RAX then Inr (emit (emit_store_rax_abs addr) g1)
       else rbind (pick_scratch treg g1) (\<lambda>(a, g).
         Inr (reg_free a (emit (emit_mov_imm64 a addr @ emit_store a 0 treg) g)))) (\<lambda>g'. kept g g')"
    using g1 by (simp add: kept_emit)
qed

lemma gen_assign_ok:
  assumes "rec_gen n rec" and "length (git g) < n" and "env_ok env"
  shows "ensures (gen_assign rec env treg g) (\<lambda>g'. kept g g')"
  unfolding gen_assign_def
proof (rule ensures_bindI [OF leaf_address_ensures [OF assms(3)]])
  fix leaf :: "(u64 \<times> nat option) option"
  have known: "ensures (rbind (peekToken g) (\<lambda>t. assign_leaf rec treg addr (g\<lparr>git := drop (if t = T_THIS then 1 else 2) (git g)\<rparr>)))
      (\<lambda>g'. kept g g')" for addr
  proof (rule peekToken_step)
    fix t
    let ?g1 = "g\<lparr>git := drop (if t = T_THIS then 1 else 2) (git g)\<rparr>"
    have "kept g ?g1" by (rule kept_skip_self)
    moreover have "ensures (assign_leaf rec treg addr ?g1) (\<lambda>g'. kept ?g1 g')"
      by (rule assign_leaf_ok [OF assms(1)]) (use assms(2) in simp)
    ultimately show "ensures (assign_leaf rec treg addr ?g1) (\<lambda>g'. kept g g')"
      using kept_trans by (blast intro: ensures_mono)
  qed
  have other: "ensures (rbind (single rec treg ANY g) (\<lambda>g.
           rbind (with_operand rec treg (\<lambda>v g. Inr (emit (emit_store treg 0 v @ emit_mov_rr treg v) g))
                    (\<lambda>a g. Inr (emit (emit_store a 0 treg) g)) g) (\<lambda>(_, g). Inr g))) (\<lambda>g'. kept g g')"
    by (rule single_step [OF assms(1,2)], rule ensures_bindI [OF with_operand_ok [OF assms(1)]])
      (use assms(2) kept_trans in auto)
  show "ensures (case leaf of
         Some (addr, _) \<Rightarrow>
           rbind (peekToken g) (\<lambda>t. assign_leaf rec treg addr (g\<lparr>git := drop (if t = T_THIS then 1 else 2) (git g)\<rparr>))
       | None \<Rightarrow>
           rbind (single rec treg ANY g) (\<lambda>g.
           rbind (with_operand rec treg (\<lambda>v g. Inr (emit (emit_store treg 0 v @ emit_mov_rr treg v) g))
                    (\<lambda>a g. Inr (emit (emit_store a 0 treg) g)) g) (\<lambda>(_, g). Inr g))) (\<lambda>g'. kept g g')"
    using known other by (cases leaf) auto
qed

lemma gen_add_assign_ok:
  assumes "rec_gen n rec" and "length (git g) < n"
  shows "ensures (gen_add_assign rec treg g) (\<lambda>g'. kept g g')"
  unfolding gen_add_assign_def
  by (rule single_step [OF assms], rule ensures_bindI [OF with_operand_ok [OF assms(1)]])
    (use assms(2) kept_trans in auto)

text \<open>Pushes that are still outstanding.\<close>

definition deeper :: "nat \<Rightarrow> gen \<Rightarrow> gen" where
  "deeper m g = g\<lparr>fn := (fn g)\<lparr>fdepth := fdepth (fn g) + of_nat m\<rparr>\<rparr>"

lemma deeper_simps [simp]: "deeper 0 g = g" "git (deeper m g) = git g"
  by (simp_all add: deeper_def)

lemma deeper_add: "kept (deeper m g) g1 \<Longrightarrow> kept (deeper k g1) g2 \<Longrightarrow> kept (deeper (m + k) g) g2"
  unfolding kept_def deeper_def by (auto simp: algebra_simps) (metis and.assoc)

lemma push_deeper: "kept g g1 \<Longrightarrow> kept (deeper 1 g) (emit_push r g1)"
  by (auto simp: kept_def deeper_def emit_push_def)

lemma pop_deeper: "kept (deeper (Suc m) g) g1 \<Longrightarrow> kept (deeper m g) (emit_pop r g1)"
  by (auto simp: kept_def deeper_def emit_pop_def)

lemma emit_push_git [simp]: "git (emit_push r g) = git g" "git (emit_pop r g) = git g"
  by (simp_all add: emit_push_def emit_pop_def)

definition aside :: "cell list option \<Rightarrow> nat" where
  "aside x = (if x = None then 1 else 0)"

lemma aside_simps [simp]: "aside None = 1" "aside (Some y) = 0"
  by (simp_all add: aside_def)

definition aside_ok :: "nat \<Rightarrow> cell list option \<Rightarrow> bool" where
  "aside_ok n x \<longleftrightarrow> (case x of None \<Rightarrow> True | Some leaf \<Rightarrow> length leaf < n)"

lemma set_aside_ok:
  assumes "rec_gen n rec" and "length (git g) < n"
  shows "ensures (set_aside rec g) (\<lambda>(x, g'). kept (deeper (aside x) g) g' \<and> aside_ok n x)"
  unfolding set_aside_def
proof (rule leaf_size_step)
  fix sz assume sz: "sz \<le> length (git g)"
  have "ensures (rbind (single rec RAX RAX g) (\<lambda>g. Inr (None, emit_push RAX g)))
      (\<lambda>(x, g'). kept (deeper (aside x) g) g' \<and> aside_ok n x)"
    by (rule single_step [OF assms]) (use push_deeper in \<open>simp add: aside_def aside_ok_def\<close>)
  then show "ensures (if sz \<noteq> 0 then Inr (Some (take sz (git g)), g\<lparr>git := drop sz (git g)\<rparr>)
      else rbind (single rec RAX RAX g) (\<lambda>g. Inr (None, emit_push RAX g)))
      (\<lambda>(x, g'). kept (deeper (aside x) g) g' \<and> aside_ok n x)"
    using kept_skip_self [of g sz] assms(2) by (simp add: aside_def aside_ok_def min_less_iff_disj)
qed

definition args_done :: "nat \<Rightarrow> nat \<Rightarrow> gen \<Rightarrow> cell list option list \<Rightarrow> gen \<Rightarrow> bool" where
  "args_done n k g xs g' \<longleftrightarrow>
     length xs = k \<and> kept (deeper (sum_list (map aside xs)) g) g' \<and> list_all (aside_ok n) xs"

lemma call_args_ok:
  assumes "rec_gen n rec" and "length (git g) < n"
  shows "ensures (call_args k rec g) (\<lambda>(xs, g'). args_done n k g xs g')"
  using assms(2)
proof (induction k arbitrary: g)
  case 0
  then show ?case by (simp add: kept_refl args_done_def)
next
  case (Suc k)
  show ?case
    unfolding call_args.simps
  proof (rule ensures_bind_pairI [OF set_aside_ok [OF assms(1) Suc.prems]], elim conjE)
    fix x g1 assume x: "kept (deeper (aside x) g) g1" "aside_ok n x"
    have "length (git g1) < n" using kept_git [OF x(1)] Suc.prems by simp
    then show "ensures (rbind (call_args k rec g1) (\<lambda>(xs, g). Inr (x # xs, g))) (\<lambda>(xs, g'). args_done n (Suc k) g xs g')"
      by (rule ensures_bind_pairI [OF Suc.IH]) (use x deeper_add [OF x(1)] in \<open>auto simp: args_done_def\<close>)
  qed
qed

lemma pop_args_ok:
  "kept (deeper (sum_list (map aside (map snd args)) + m) g) g1 \<Longrightarrow> kept (deeper m g) (pop_args args g1)"
proof (induction args arbitrary: g1)
  case (Cons a args)
  obtain r x where a: "a = (r, x)" by fastforce
  show ?case
  proof (cases x)
    case None
    have "kept (deeper (sum_list (map aside (map snd args)) + m) g) (emit_pop r g1)"
      using Cons.prems pop_deeper a None by simp
    then show ?thesis using Cons.IH a None by simp
  next
    case (Some y)
    then show ?thesis using Cons a by simp
  qed
qed simp

lemma pop_args_git [simp]: "git (pop_args args g) = git g"
  by (induction args g rule: pop_args.induct) auto

lemma load_args_ok:
  assumes "rec_gen n rec" and "list_all (aside_ok n) (map snd args)"
  shows "ensures (load_args rec args g) (\<lambda>g'. kept g g' \<and> git g' = git g)"
  using assms(2)
proof (induction args arbitrary: g)
  case Nil
  then show ?case by (simp add: kept_refl)
next
  case (Cons a args)
  obtain r x where a: "a = (r, x)" by fastforce
  show ?case
  proof (cases x)
    case None
    then show ?thesis using Cons a by simp
  next
    case (Some leaf)
    have "ensures (rbind (gen_leaf rec r leaf g) (\<lambda>g. load_args rec args g)) (\<lambda>g'. kept g g' \<and> git g' = git g)"
    proof (rule gen_leaf_step [OF assms(1)])
      fix g1 assume g1: "kept g g1" "git g1 = git g"
      have "ensures (load_args rec args g1) (\<lambda>g'. kept g1 g' \<and> git g' = git g1)" using Cons by simp
      then show "ensures (load_args rec args g1) (\<lambda>g'. kept g g' \<and> git g' = git g)"
        by (rule ensures_mono) (use g1 kept_trans in auto)
    qed (use Cons.prems a Some in \<open>simp add: aside_ok_def\<close>)
    then show ?thesis by (simp add: a Some)
  qed
qed

lemma zip_args:
  assumes "length xs \<le> 6"
  shows "map snd (zip sysv_arg_regs xs) = xs"
  using assms by (intro map_snd_zip_take [THEN trans]) (simp add: sysv_arg_regs_def)

lemma call_with_ok:
  assumes "rec_gen n rec" and "length (git g) < n" and "aside_ok n callee" and "kept (deeper (aside callee) g0) g"
  shows "ensures (call_with rec treg callee count g) (\<lambda>g'. kept g0 g')"
proof -
  have loaded: "ensures (case callee of Some leaf \<Rightarrow> gen_leaf rec R11 leaf g4 | None \<Rightarrow> Inr (emit_pop R11 g4)) (\<lambda>g'. kept g0 g')"
    if g4: "kept (deeper (aside callee) g0) g4" for g4
  proof (cases callee)
    case None
    then show ?thesis using g4 pop_deeper [of 0 g0 g4] by (simp add: aside_def)
  next
    case (Some leaf)
    have "ensures (rbind (gen_leaf rec R11 leaf g4) Inr) (\<lambda>g'. kept g0 g')"
      by (rule gen_leaf_step [OF assms(1)]) (use assms(3) Some g4 kept_trans in \<open>auto simp: aside_ok_def aside_def\<close>)
    then show ?thesis using Some by (simp add: ensures_rbind)
  qed
  show ?thesis
    unfolding call_with_def Let_def
  proof (cases "count > 6")
    case False
    then have six: "unat count \<le> 6" by (simp add: word_less_nat_alt)
    have "ensures (rbind (call_args (unat count) rec g) (\<lambda>(xs, g).
          rbind (load_args rec (zip sysv_arg_regs xs) (pop_args (rev (zip sysv_arg_regs xs)) g)) (\<lambda>g.
          rbind (case callee of Some leaf \<Rightarrow> gen_leaf rec R11 leaf g | None \<Rightarrow> Inr (emit_pop R11 g)) (\<lambda>g.
            Inr (call_now treg g))))) (\<lambda>g'. kept g0 g')"
    proof (rule ensures_bind_pairI [OF call_args_ok [OF assms(1,2)]])
      fix xs g2 assume x: "args_done n (unat count) g xs g2"
      then have snd: "map snd (zip sysv_arg_regs xs) = xs" using six zip_args [of xs] by (simp add: args_done_def)
      have "kept (deeper 0 g) (pop_args (rev (zip sysv_arg_regs xs)) g2)"
        by (rule pop_args_ok) (use x snd in \<open>simp add: args_done_def sum_list_rev flip: rev_map\<close>)
      then have "kept (deeper (aside callee) g0) (pop_args (rev (zip sysv_arg_regs xs)) g2)"
        using assms(4) kept_trans by simp
      then have "ensures (load_args rec (zip sysv_arg_regs xs) (pop_args (rev (zip sysv_arg_regs xs)) g2))
          (\<lambda>g'. kept (deeper (aside callee) g0) g')"
        using x kept_trans by (intro ensures_mono [OF load_args_ok [OF assms(1)]]) (auto simp: snd args_done_def)
      then show "ensures (rbind (load_args rec (zip sysv_arg_regs xs) (pop_args (rev (zip sysv_arg_regs xs)) g2)) (\<lambda>g.
          rbind (case callee of Some leaf \<Rightarrow> gen_leaf rec R11 leaf g | None \<Rightarrow> Inr (emit_pop R11 g)) (\<lambda>g.
            Inr (call_now treg g)))) (\<lambda>g'. kept g0 g')"
      proof (rule ensures_bindI)
        fix g3 assume "kept (deeper (aside callee) g0) g3"
        from loaded [OF this] show "ensures (rbind (case callee of Some leaf \<Rightarrow> gen_leaf rec R11 leaf g3 | None \<Rightarrow> Inr (emit_pop R11 g3))
            (\<lambda>g. Inr (call_now treg g))) (\<lambda>g'. kept g0 g')"
          by (rule ensures_bindI) (simp add: call_now_def Let_def kept_emit)
      qed
    qed
    with False show "ensures (if 6 < count then Inl (Exit 1) else rbind (call_args (unat count) rec g) (\<lambda>(xs, g).
          rbind (load_args rec (zip sysv_arg_regs xs) (pop_args (rev (zip sysv_arg_regs xs)) g)) (\<lambda>g.
          rbind (case callee of Some leaf \<Rightarrow> gen_leaf rec R11 leaf g | None \<Rightarrow> Inr (emit_pop R11 g)) (\<lambda>g.
            Inr (call_now treg g))))) (\<lambda>g'. kept g0 g')" by simp
  qed simp
qed

lemma gen_call_ok:
  assumes "rec_gen n rec" and "length (git g) < n"
  shows "ensures (gen_call rec treg g) (\<lambda>g'. kept g g')"
  unfolding gen_call_def
proof (rule ensures_bind_pairI [OF set_aside_ok [OF assms]], elim conjE, rule peekToken_step)
  fix callee g1 t assume g1: "kept (deeper (aside callee) g) g1" "aside_ok n callee"
  have less: "length (git g1) < n" using kept_git [OF g1(1)] assms(2) by simp
  have "ensures (rbind (getValue (g1\<lparr>git := drop 1 (git g1)\<rparr>)) (\<lambda>(count, g). call_with rec treg callee count g)) (\<lambda>g'. kept g g')"
  proof (rule getValue_step)
    fix v let ?g2 = "g1\<lparr>git := drop 1 (git g1)\<rparr>" let ?g3 = "?g2\<lparr>git := drop 1 (git ?g2)\<rparr>"
    have "kept (deeper (aside callee) g) ?g3" using kept_skip [OF kept_skip [OF g1(1)]] by blast
    then show "ensures (call_with rec treg callee v ?g3) (\<lambda>g'. kept g g')"
      by (rule call_with_ok [OF assms(1) _ g1(2), rotated]) (use less in simp)
  qed
  then show "ensures (if t \<noteq> T_COMMA then Inl (Exit 1)
       else rbind (getValue (g1\<lparr>git := drop 1 (git g1)\<rparr>)) (\<lambda>(count, g). call_with rec treg callee count g)) (\<lambda>g'. kept g g')"
    by simp
qed

subsection \<open>Statements and functions\<close>

lemma statements_ok:
  assumes "rec_gen n rec"
  shows "length (git g) < k \<Longrightarrow> k \<le> n \<Longrightarrow> ensures (statements k rec j count g) (\<lambda>g'. kept g g')"
proof (induction k arbitrary: j count g)
  case (Suc k)
  show ?case
  proof (cases "j < count")
    case True
    have "ensures (rbind (rec RAX ANY g) (\<lambda>(i, v, g). statements k rec (j + 1) (if i \<noteq> 0 then count + i else count) g)) (\<lambda>g'. kept g g')"
    proof (rule rec_gen_step [OF assms])
      fix i and v :: "nat option" and g1 assume g1: "kept g g1" "length (git g1) < length (git g)"
      have "ensures (statements k rec (j + 1) (if i \<noteq> 0 then count + i else count) g1) (\<lambda>g'. kept g1 g')"
        using Suc.prems g1 by (intro Suc.IH) auto
      then show "ensures (statements k rec (j + 1) (if i \<noteq> 0 then count + i else count) g1) (\<lambda>g'. kept g g')"
        by (rule ensures_mono) (use g1 kept_trans in blast)
    qed (use Suc.prems in simp)
    with True show ?thesis by simp
  qed (simp add: kept_refl)
qed simp

lemma body_step:
  assumes "rec_gen n rec" and "length (git g) < n" and "kept g0 g" and "\<And>g'. kept g0 g' \<Longrightarrow> ensures (f g') Q"
  shows "ensures (rbind (statements n rec 0 1 g) f) Q"
  by (rule ensures_bindI [OF statements_ok [OF assms(1,2) order_refl]]) (use assms(3,4) kept_trans in blast)

lemma gen_if_ok:
  assumes "rec_gen n rec" and "length (git g) < n"
  shows "ensures (gen_if n rec g) (\<lambda>g'. kept g g')"
  unfolding gen_if_def
proof (rule ensures_bind_pairI [OF gen_jump_if_false_ok [OF assms]], elim conjE)
  fix p g1 assume "kept g g1" "length (git g1) < length (git g)"
  then show "ensures (rbind (statements n rec 0 1 g1) (\<lambda>g. patch_rel p (length (gcode g)) g)) (\<lambda>g'. kept g g')"
    using assms(2) patch_rel_step [where f = Inr] kept_trans
    by (intro body_step [OF assms(1)]) (auto simp: ensures_rbind)
qed

lemma gen_while_ok:
  assumes "rec_gen n rec" and "length (git g) < n"
  shows "ensures (gen_while n rec g) (\<lambda>g'. kept g g')"
  unfolding gen_while_def Let_def
proof (rule ensures_bind_pairI [OF gen_jump_if_false_ok [OF assms]], elim conjE)
  fix p g1 assume g1: "kept g g1" "length (git g1) < length (git g)"
  show "ensures (rbind (statements n rec 0 1 g1) (\<lambda>g.
         case emit_jmp_rel32 g of (jmp, g') \<Rightarrow> rbind (patch_rel jmp (length (gcode g0)) g') (\<lambda>g.
            patch_rel p (length (gcode g)) g))) (\<lambda>g'. kept g g')" for g0
  proof (rule body_step [OF assms(1) _ g1(1)])
    fix g2 assume g2: "kept g g2"
    show "ensures (case emit_jmp_rel32 g2 of (jmp, g') \<Rightarrow> rbind (patch_rel jmp (length (gcode g0)) g') (\<lambda>g.
            patch_rel p (length (gcode g)) g)) (\<lambda>g'. kept g g')"
      unfolding emit_jmp_rel32_def prod.case
    proof (rule patch_rel_step)
      fix g3 assume "kept (emit (jmp_rel32 0) g2) g3"
      then have "kept g g3" using g2 kept_emit kept_trans by blast
      then show "ensures (patch_rel p (length (gcode g3)) g3) (\<lambda>g'. kept g g')"
        using patch_rel_step [where f = Inr and g = g3] kept_trans by (auto simp: ensures_rbind)
    qed
  qed (use g1 assms(2) in simp)
qed

lemma kept_rets: "kept g g' \<Longrightarrow> kept g (g'\<lparr>grets := xs\<rparr>)"
  by (simp add: kept_def)

lemma gen_return_ok:
  assumes "rec_gen n rec" and "length (git g) < n"
  shows "ensures (gen_return rec g) (\<lambda>g'. kept g g')"
  unfolding gen_return_def
  by (rule rec_gen_step [OF assms]) (auto simp: emit_jmp_rel32_def intro: kept_rets kept_emit)

text \<open>A function has register state of its own; what is left of \<^const>\<open>kept\<close> while it is generated.\<close>

definition grows :: "gen \<Rightarrow> gen \<Rightarrow> bool" where
  "grows g g' \<longleftrightarrow> length (gcode g) \<le> length (gcode g') \<and> gscope g \<le> gscope g' \<and> length (git g') \<le> length (git g)"

lemma kept_grows: "kept g g' \<Longrightarrow> grows g g'"
  by (simp add: kept_def grows_def)

lemma grows_refl: "grows g g"
  by (simp add: grows_def)

lemma grows_trans: "grows g g1 \<Longrightarrow> grows g1 g2 \<Longrightarrow> grows g g2"
  by (simp add: grows_def)

lemma grows_kept: "grows g g1 \<Longrightarrow> kept g1 g2 \<Longrightarrow> grows g g2"
  using grows_trans kept_grows by blast

lemma store_params_ok:
  assumes "rec_gen n rec"
  shows "length (git g) < k \<Longrightarrow> k \<le> n \<Longrightarrow> ensures (store_params k rec j c g) (\<lambda>g'. kept g g')"
proof (induction k arbitrary: j g)
  case (Suc k)
  show ?case
  proof (cases "j < c")
    case True
    have "ensures (rbind (rec RAX ANY g) (\<lambda>(x, v, g).
           if j < length sysv_arg_regs then store_params k rec (Suc j) c (emit (emit_store RAX 0 (sysv_arg_regs ! j)) g)
           else Inl Undef)) (\<lambda>g'. kept g g')"
    proof (rule rec_gen_step [OF assms])
      fix i :: u64 and v :: "nat option" and g1 assume g1: "kept g g1" "length (git g1) < length (git g)"
      let ?g2 = "emit (emit_store RAX 0 (sysv_arg_regs ! j)) g1"
      have "ensures (store_params k rec (Suc j) c ?g2) (\<lambda>g'. kept ?g2 g')"
        using Suc.prems g1 by (intro Suc.IH) auto
      moreover have "kept g ?g2" using g1 by (simp add: kept_emit)
      ultimately show "ensures (if j < length sysv_arg_regs then store_params k rec (Suc j) c ?g2 else Inl Undef) (\<lambda>g'. kept g g')"
        using kept_trans by (auto elim: ensures_mono)
    qed (use Suc.prems in simp)
    with True show ?thesis by simp
  qed (simp add: kept_refl)
qed simp

lemma overwrite_length: "length bs \<le> length (overwrite p xs bs)"
  by (simp add: overwrite_def)

lemma fold_overwrite_length: "length bs \<le> length (fold (\<lambda>k. overwrite (f k) xs) ks bs)"
proof (induction ks arbitrary: bs)
  case (Cons k ks)
  have "length bs \<le> length (overwrite (f k) xs bs)" by (rule overwrite_length)
  also have "\<dots> \<le> length (fold (\<lambda>k. overwrite (f k) xs) ks (overwrite (f k) xs bs))" by (rule Cons)
  finally show ?case by simp
qed simp

lemma drop_saves_grows: "grows g (drop_saves a b g)"
proof -
  define bs where "bs = fold (\<lambda>k. overwrite (b + k * SAVE_SLOT_SIZE) nop4)
    (filter (\<lambda>k. k \<notin> set (used_saves (fn g))) [0..<5]) (gcode g)"
  have "length (gcode g) \<le> length bs" unfolding bs_def by (rule fold_overwrite_length)
  moreover have "length bs \<le> length (overwrite a nop4 bs)" by (rule overwrite_length)
  ultimately show ?thesis unfolding drop_saves_def Let_def bs_def [symmetric] by (simp add: grows_def)
qed

lemma drop_last_jump_grows:
  assumes "grows g0 g" and "length (gcode g0) + 5 \<le> length (gcode g)"
  shows "grows g0 (drop_last_jump g)"
  using assms by (auto simp: drop_last_jump_def grows_def)

lemma patch_returns_ok: "ensures (patch_returns rs g) (\<lambda>g'. kept g g')"
proof (induction rs arbitrary: g)
  case (Cons r rs)
  show ?case
    unfolding patch_returns.simps
  proof (rule patch_rel_step)
    fix g1 assume "kept g g1"
    moreover have "ensures (patch_returns rs g1) (\<lambda>g'. kept g1 g')" by (rule Cons)
    ultimately show "ensures (patch_returns rs g1) (\<lambda>g'. kept g g')"
      using kept_trans by (blast intro: ensures_mono)
  qed
qed (simp add: kept_refl)

lemma move_front_grows: "grows g0 g \<Longrightarrow> length (gcode g0) = k \<Longrightarrow> grows g0 (move_front k g)"
  by (auto simp: move_front_def grows_def bufmove_dynamic_def Let_def)

lemma fn_simps [simp]:
  "fn (move_front k g) = fn g" "git (move_front k g) = git g" "gscope (move_front k g) = gscope g"
  by (simp_all add: move_front_def Let_def)

lemma grows_fields: "grows g0 g \<Longrightarrow> grows g0 (g\<lparr>fn := f, grets := xs\<rparr>)" "grows g0 g \<Longrightarrow> grows g0 (emit bs g)"
  by (simp_all add: grows_def)

lemma prologue_grows:
  "grows g0 g \<Longrightarrow> grows g0 (prologue g)" "length (gcode g) + 5 \<le> length (gcode (prologue g))" "git (prologue g) = git g"
  by (simp_all add: prologue_def Let_def grows_def emit_push_def push_bytes_def emit_mov_rr_def emit_rr_def
      emit_rex_def emit_modrm_rr_def emit_alu_imm_def)

lemma codegen_func_ok:
  assumes "rec_gen n rec" and "length (git g0) < n"
  shows "ensures (codegen_func n rec var c g0) (\<lambda>g'. grows g0 g' \<and> fn g' = fn g0)"
proof -
  define start where "start = g0\<lparr>fn := \<lparr>fbusy = 0, cs_used = 0, fdepth = 0\<rparr>, grell := grell g0 @ [(var, 0)], grets := []\<rparr>"
  define long where "long g \<longleftrightarrow> grows g0 g \<and> length (gcode g0) + 5 \<le> length (gcode g)" for g
  have long_kept: "long g \<Longrightarrow> kept g g' \<Longrightarrow> long g'" for g g'
    using grows_kept by (auto simp: long_def kept_def)
  have begun: "long (prologue start)" "git (prologue start) = git g0"
    using prologue_grows(1) [of g0 start] prologue_grows(2,3) [of start] by (simp_all add: start_def grows_def long_def)
  have finish: "ensures (rbind (patch_returns (rev (grets g)) g) (\<lambda>g.
      Inr (move_front (length (gcode g0)) ((epilogue g)\<lparr>fn := fn g0, grets := grets g0\<rparr>)))) (\<lambda>g'. grows g0 g' \<and> fn g' = fn g0)"
    if "grows g0 g" for g
    by (rule ensures_bindI [OF patch_returns_ok])
      (use grows_kept [OF that] in \<open>auto simp: epilogue_def intro!: move_front_grows grows_fields\<close>)
  have tail: "ensures (rbind (statements n rec 0 1 g) (\<lambda>g.
         let g = drop_last_jump (drop_saves a b g)
         in rbind (patch_returns (rev (grets g)) g) (\<lambda>g.
              Inr (move_front (length (gcode g0)) ((epilogue g)\<lparr>fn := fn g0, grets := grets g0\<rparr>)))))
      (\<lambda>g'. grows g0 g' \<and> fn g' = fn g0)" if "long g" "length (git g) < n" for g a b
  proof (rule body_step [OF assms(1) that(2) kept_refl])
    fix g1 assume "kept g g1"
    then have "long g1" using that(1) long_kept by blast
    then have "grows g0 (drop_last_jump (drop_saves a b g1))"
      using drop_saves_grows [of g1 a b] by (intro drop_last_jump_grows) (auto simp: long_def grows_def)
    then show "ensures (let g = drop_last_jump (drop_saves a b g1)
         in rbind (patch_returns (rev (grets g)) g) (\<lambda>g.
              Inr (move_front (length (gcode g0)) ((epilogue g)\<lparr>fn := fn g0, grets := grets g0\<rparr>))))
      (\<lambda>g'. grows g0 g' \<and> fn g' = fn g0)" using finish by (simp add: Let_def)
  qed
  have params: "ensures (if c \<noteq> 0 then rbind (rec RAX ANY (prologue start)) (\<lambda>(x, _, g).
      if of_nat c \<noteq> x then Inl (Exit 17) else store_params n rec 0 c g) else Inr (prologue start))
      (\<lambda>g. long g \<and> length (git g) < n)"
  proof -
    have "ensures (rbind (rec RAX ANY (prologue start)) (\<lambda>(x, v, g).
      if of_nat c \<noteq> x then Inl (Exit 17) else store_params n rec 0 c g)) (\<lambda>g. long g \<and> length (git g) < n)"
    proof (rule rec_gen_step [OF assms(1)])
      fix x :: u64 and v :: "nat option" and g1
      assume g1: "kept (prologue start) g1" "length (git g1) < length (git (prologue start))"
      then have less: "length (git g1) < n" using assms(2) begun(2) by simp
      have "long g1" using g1 begun(1) long_kept by blast
      then have "long g2 \<and> length (git g2) < n" if "kept g1 g2" for g2
        using that less long_kept kept_git [OF that] by (auto intro: le_less_trans)
      then show "ensures (if of_nat c \<noteq> x then Inl (Exit 17) else store_params n rec 0 c g1) (\<lambda>g. long g \<and> length (git g) < n)"
        using ensures_mono [OF store_params_ok [OF assms(1) less order_refl]] by simp
    qed (use assms(2) begun(2) in simp)
    then show ?thesis using begun assms(2) by simp
  qed
  show ?thesis
    unfolding codegen_func_def Let_def start_def [symmetric]
    by (rule ensures_bindI [OF params]) (use tail in \<open>simp add: Let_def\<close>)
qed

lemma gen_function_ok:
  assumes "rec_gen n rec" and "length (git g0) < n"
  shows "ensures (gen_function n rec env g0) (\<lambda>g'. kept g0 g')"
  unfolding gen_function_def
proof (rule rec_gen_step [OF assms])
  fix c :: u64 and var :: "nat option" and g
  assume g: "kept g0 g" "length (git g) < length (git g0)"
  define cut where "cut g' = g'\<lparr>gcode := take (length (gcode g0)) (gcode g')\<rparr>" for g' :: gen
  define up where "up = g\<lparr>gscope := Suc (gscope g)\<rparr>"
  have up: "kept g0 up" "length (git up) < n" using g assms(2) by (simp_all add: up_def kept_def)
  have body: "ensures (codegen_func n rec v k (cut g1)) (\<lambda>g'. kept g0 g')" if g1: "kept g0 g1" "length (git g1) < n" for g1 v k
  proof (rule ensures_mono [OF codegen_func_ok [OF assms(1)]])
    show "length (git (cut g1)) < n" using g1(2) by (simp add: cut_def)
    fix g' assume "grows (cut g1) g' \<and> fn g' = fn (cut g1)"
    with g1(1) show "kept g0 g'" by (auto simp: cut_def kept_def grows_def)
  qed
  have "ensures (if k = 0 then rbind (rec RAX ANY up) (\<lambda>(c, v, g). if c \<noteq> 0 then Inl (Exit 17) else Inr g) else Inr up)
      (\<lambda>g1. kept g0 g1 \<and> length (git g1) < n)" for k :: nat
  proof -
    have "ensures (rbind (rec RAX ANY up) (\<lambda>(c, v, g). if c \<noteq> 0 then Inl (Exit 17) else Inr g)) (\<lambda>g1. kept g0 g1 \<and> length (git g1) < n)"
      by (rule rec_gen_step [OF assms(1) up(2)]) (use kept_trans [OF up(1)] up(2) in auto)
    then show ?thesis using up by simp
  qed
  then have named: "ensures (rbind (if k = 0 then rbind (rec RAX ANY up) (\<lambda>(c, v, g). if c \<noteq> 0 then Inl (Exit 17) else Inr g)
      else Inr up) (\<lambda>g. codegen_func n rec w k (cut g))) (\<lambda>g'. kept g0 g')" for k w
    by (rule ensures_bindI) (use body in blast)
  have "ensures (deref ts r) (\<lambda>_. True)" for ts r by (auto simp: deref_def split: tref.splits)
  note deref = ensures_bindI [OF this]
  show "ensures (if c \<noteq> 0 then Inl (Exit 1)
     else case var of
       None \<Rightarrow> Inl (Exit 1)
     | Some i \<Rightarrow>
         (case var_type (vars (ge_sym env) ! i) of
            None \<Rightarrow> Inl (Exit 1)
          | Some r \<Rightarrow>
              rbind (deref (ge_types env) r) (\<lambda>ty.
                if ct_kind ty \<noteq> CUP_TYPE_FUNCTION then Inl (Exit 1)
                else
                  (let g = g\<lparr>gscope := Suc (gscope g)\<rparr>; arg_count = unat (ct_size ty)
                   in rbind (if arg_count = 0 then
                               rbind (rec RAX ANY g) (\<lambda>(c, _, g). if c \<noteq> 0 then Inl (Exit 17) else Inr g)
                             else Inr g) (\<lambda>g.
                      codegen_func n rec (Some i) arg_count (g\<lparr>gcode := take (length (gcode g0)) (gcode g)\<rparr>)))))) (\<lambda>g'. kept g0 g')"
    unfolding up_def [symmetric] cut_def [symmetric] Let_def
    using named by (auto split: option.splits intro!: deref)
qed

lemma no_var_ok: "ensures r P \<Longrightarrow> ensures (no_var r) (\<lambda>(_, _, g). P g)"
  unfolding no_var_def by (erule ensures_bindI) simp

lemma gen_variable_ok:
  assumes "env_ok env"
  shows "ensures (gen_variable env treg sreg cs t g) (\<lambda>(_, _, g'). \<exists>k bs. k \<noteq> 0 \<and> cs \<noteq> [] \<and> g' = emit bs (g\<lparr>git := drop k cs\<rparr>))"
  unfolding gen_variable_def
  by (rule ensures_bindI [OF leaf_address_ensures [OF assms]])
    (auto simp: Let_def split: option.splits intro: exI [of _ 1] exI [of _ 2])

text \<open>Every node the generator handles.\<close>

lemma gen_node_ok:
  assumes "env_ok env" and "rec_gen n rec" and "length (git g) < n" and "g = g0\<lparr>git := drop 1 (git g0)\<rparr>" and "git g0 \<noteq> []"
  shows "ensures (gen_node n rec env treg sreg (git g0) t g) (\<lambda>(_, _, g'). kept g0 g' \<and> length (git g') < length (git g0))"
    (is "ensures _ ?Q")
proof -
  have g: "kept g0 g" "length (git g) < length (git g0)" using assms(4,5) kept_skip_self [of g0 1] by auto
  have through: "kept g g' \<Longrightarrow> kept g0 g' \<and> length (git g') < length (git g0)" for g'
    using g kept_trans kept_git by fastforce
  have fine: "ensures r (\<lambda>g'. kept g g') \<Longrightarrow> ensures (no_var r) ?Q" for r
    using through by (intro no_var_ok) (auto elim: ensures_mono)
  note parts = gen_array_ok gen_index_ok gen_add_assign_ok gen_call_ok gen_function_ok gen_if_ok gen_while_ok gen_return_ok
  note parts = parts [OF assms(2,3)] gen_assign_ok [OF assms(2,3,1)]
  have binary: "ensures (rbind (gen_binary rec t treg False g) (\<lambda>(_, g). Inr g)) (\<lambda>g'. kept g g')"
    by (rule ensures_bindI [OF gen_binary_ok [OF assms(2,3)]]) auto
  have num: "ensures (rbind (getValue g) (\<lambda>(v, g). Inr (emit (f v) g))) (\<lambda>g'. kept g g')" for f
    by (rule getValue_step) (simp add: kept_emit kept_skip_self)
  have count: "ensures (rbind (getValue g1) (\<lambda>(v, g). Inr (v, None, g))) ?Q" if "kept g g1" for g1
    by (rule getValue_step) (use through [OF kept_skip [OF that, of 1]] in simp)
  have var: "ensures (gen_variable env treg sreg (git g0) t g) ?Q"
    by (rule ensures_mono [OF gen_variable_ok [OF assms(1)]])
      (use assms(4,5) kept_skip_self [of g0] in \<open>auto intro!: kept_emit\<close>)
  have up: "kept g (g\<lparr>gscope := Suc (gscope g)\<rparr>)" by (simp add: kept_def)
  show ?thesis
    unfolding gen_node_def
    using count [OF up] count [OF kept_refl] var fine [OF num] fine [OF binary] parts [THEN fine]
    by simp
qed

lemma codegen_expr_rec_ok:
  assumes "env_ok env"
  shows "rec_gen n (codegen_expr n env)"
proof (induction n)
  case (Suc n)
  show ?case
    unfolding rec_gen_def
  proof (intro allI impI)
    fix treg sreg and g0 :: gen assume less: "length (git g0) < Suc n"
    show "ensures (codegen_expr (Suc n) env treg sreg g0) (\<lambda>(_, _, g'). kept g0 g' \<and> length (git g') < length (git g0))"
      unfolding codegen_expr.simps
    proof (rule ensures_bind_pairI [OF getNode_ensures], elim conjE)
      fix c g assume g: "g = g0\<lparr>git := drop 1 (git g0)\<rparr>" "git g0 \<noteq> []"
      then have "length (git g) < n" using less by (cases "git g0") auto
      from gen_node_ok [OF assms Suc.IH this g]
      show "ensures (rbind (cell_token c) (\<lambda>t. gen_node n (codegen_expr n env) env treg sreg (git g0) t g))
          (\<lambda>(_, _, g'). kept g0 g' \<and> length (git g') < length (git g0))" by (cases c) auto
    qed
  qed
qed (simp add: rec_gen_def)

section \<open>Properties\<close>

definition blank_env :: genv where
  "blank_env = \<lparr>ge_sym = symst.truncate blank_state, ge_types = [], vars_base = 0, data_base = 0\<rparr>"

definition gen_start :: "nat \<Rightarrow> cell list \<Rightarrow> gen" where
  "gen_start sc cs = \<lparr>gcode = [], fn = \<lparr>fbusy = 0, cs_used = 0, fdepth = 0\<rparr>, git = cs, grets = [], grell = [], gscope = sc\<rparr>"

lemma env_ok_blank: "env_ok blank_env"
  by (simp add: env_ok_def blank_env_def blank_state_def vars_ok_def scopes_ok_def symst.truncate_def)

text \<open>C11: The code generator returns on every list of nodes: with a call depth of one more than the
  number of nodes it does not run out. Where it succeeds, exactly the registers that were reserved
  before are reserved after, as many pushes as pops were emitted, the callee-saved registers
  recorded as used still are, code was only added, and it has read at least one node.\<close>

theorem codegen_expr_balanced:
  assumes "env_ok env"
  shows "codegen_expr (Suc (length (git g))) env treg sreg g \<noteq> Inl Loop \<and>
    (\<forall>c v g'. codegen_expr (Suc (length (git g))) env treg sreg g = Inr (c, v, g') \<longrightarrow>
       fbusy (fn g') = fbusy (fn g) \<and> fdepth (fn g') = fdepth (fn g) \<and>
       cs_used (fn g) AND cs_used (fn g') = cs_used (fn g) \<and>
       length (gcode g) \<le> length (gcode g') \<and> length (git g') < length (git g))"
  using rec_genD [OF codegen_expr_rec_ok [OF assms], of g "Suc (length (git g))" treg sreg]
  by (auto simp: ensures_def kept_def)

theorem codegen_expr_balanced_witness:
  "codegen_expr (Suc (length (git (gen_start 0 [CTok T_NUMBER 0 0])))) blank_env RAX RAX (gen_start 0 [CTok T_NUMBER 0 0]) \<noteq> Inl Loop"
  using codegen_expr_balanced [OF env_ok_blank] by blast


text \<open>The generator takes the first operand of an assignment for its target. The nodes
  \<open>=\<close>, \<open>b\<close>, \<open>a\<close> load \<open>a\<close> and store it in \<open>b\<close>, although the parser makes them of \<^verbatim>\<open>a = b\<close>.\<close>

theorem assignment_to_first_operand:
  assumes "git g = CTok T_EQ c1 l1 # CTok N_VARIABLE c2 l2 # CPay (PStr b) # CTok N_VARIABLE c3 l3 # CPay (PStr a) # rest"
    and "varLookup (ge_sym env) a (gscope g) = Inr (Some i)" and "varLookup (ge_sym env) b (gscope g) = Inr (Some j)"
  shows "codegen_expr (Suc (Suc n)) env RAX sreg g =
    Inr (0, None, g\<lparr>git := rest, gcode := gcode g @ emit_load_rax_abs (var_addr env i) @ emit_store_rax_abs (var_addr env j)\<rparr>)"
  using assms
  by (simp add: getNode_def gen_node_def gen_assign_def assign_leaf_def leaf_address_def peekToken_def single_def
      gen_variable_def no_var_def emit_def)

theorem assignment_to_first_operand_witness:
  "\<exists>env g. codegen_expr (Suc (Suc 0)) env RAX RAX
       (gen_start 0 [CTok T_EQ 0 0, CTok N_VARIABLE 0 0, CPay (PStr ''b''), CTok N_VARIABLE 0 0, CPay (PStr ''a'')]) = Inr g"
proof -
  have "vars_ok sym_init" "var_keys sym_init = []"
    by (simp_all add: sym_init_def vars_ok_def var_keys_def)
  then obtain sym :: symst where "vars_ok sym" "var_keys sym = [(''a'', 0), (''b'', 0)]"
    using vt.put_all_ok [of sym_init "[(''a'', 0), (''b'', 0)]"] by auto
  then have "varFind sym name sc = Inr (first_index ((=) (name, sc)) [(''a'', 0), (''b'', 0)])" for name sc
    using vt.find_ok [of sym "(name, sc)"] by simp
  then have "varLookup sym ''a'' 0 = Inr (Some 0)" "varLookup sym ''b'' 0 = Inr (Some 1)"
    by (simp_all add: varLookup_def)
  then show ?thesis
    using assignment_to_first_operand [of "gen_start 0 [CTok T_EQ 0 0, CTok N_VARIABLE 0 0, CPay (PStr ''b''), CTok N_VARIABLE 0 0, CPay (PStr ''a'')]"
        0 0 0 0 "''b''" 0 0 "''a''" "[]" "blank_env\<lparr>ge_sym := sym\<rparr>" 0 1 0 RAX]
    by (intro exI) (simp add: gen_start_def)
qed

end
