(* ===== verification/Cup_Expression.thy ===== *)
theory Cup_Expression
  imports Cup_Parser
begin

text \<open>
  What the operator loop of \<^verbatim>\<open>src/parser.c\<close> computes, against a grammar: expression trees, the token
  sequence a tree is written as, the cells it stands for, and which trees the loop reads back. The
  grammar is that of code outside any scope, where reading a name enters no variable.
\<close>

section \<open>Expression trees\<close>

datatype expr =
    Num u64
  | Str u64
  | Name string
  | This
  | Group expr
  | Neg expr
  | Inv expr
  | Bin ctt expr expr
  | Comma expr expr
  | Call expr "expr option"
  | Index expr "expr option"

text \<open>The operators that combine two operands; assignment and member access are among them.\<close>

definition bin_ops :: "ctt set" where
  "bin_ops = {T_EQ, T_DOT, T_ADD, T_ADDEQ, T_EQEQ, T_LESS, T_MUL, T_LESSEQ, T_SUB}"

type_synonym token = "ctt \<times> payload option"

text \<open>The tokens of a tree, and its cells without the source locations.\<close>

fun print_expr :: "expr \<Rightarrow> token list" where
  "print_expr (Num v) = [(T_NUMBER, Some (PVal v))]"
| "print_expr (Str i) = [(T_STRING, Some (PVal i))]"
| "print_expr (Name s) = [(T_IDENTIFIER, Some (PStr s))]"
| "print_expr This = [(T_THIS, None)]"
| "print_expr (Group e) = (T_CALL, None) # print_expr e @ [(T_CRB, None)]"
| "print_expr (Neg e) = (T_SUB, None) # print_expr e"
| "print_expr (Inv e) = (T_NOT, None) # print_expr e"
| "print_expr (Bin t l r) = print_expr l @ (t, None) # print_expr r"
| "print_expr (Comma l r) = print_expr l @ (T_COMMA, None) # print_expr r"
| "print_expr (Call f None) = print_expr f @ [(T_CALL, None), (T_CRB, None)]"
| "print_expr (Call f (Some a)) = print_expr f @ (T_CALL, None) # print_expr a @ [(T_CRB, None)]"
| "print_expr (Index l None) = print_expr l @ [(T_OSB, None), (T_CSB, None)]"
| "print_expr (Index l (Some i)) = print_expr l @ (T_OSB, None) # print_expr i @ [(T_CSB, None)]"

fun strip :: "cell \<Rightarrow> cell" where
  "strip (CTok t c l) = CTok t 0 0"
| "strip (CPay p) = CPay p"

abbreviation tk :: "ctt \<Rightarrow> cell" where "tk t \<equiv> CTok t 0 0"

definition comma_first :: "cell list \<Rightarrow> bool" where
  "comma_first cs \<longleftrightarrow> take 1 cs = [tk T_COMMA]"

fun count_of :: "cell list \<Rightarrow> u64" where
  "count_of (_ # CPay (PVal v) # _) = v"
| "count_of _ = 0"

definition as_list :: "cell list \<Rightarrow> cell list" where
  "as_list cs = (if comma_first cs then cs else tk T_COMMA # CPay (PVal 1) # cs)"

definition join :: "cell list \<Rightarrow> cell list \<Rightarrow> cell list" where
  "join l r =
     (if comma_first r then tk T_COMMA # CPay (PVal (count_of r + 1)) # l @ drop 2 r
      else tk T_COMMA # CPay (PVal 2) # l @ r)"

fun cells :: "expr \<Rightarrow> cell list" where
  "cells (Num v) = [tk T_NUMBER, CPay (PVal v)]"
| "cells (Str i) = [tk T_STRING, CPay (PVal i)]"
| "cells (Name s) = [tk T_IDENTIFIER, CPay (PStr s)]"
| "cells This = [tk T_THIS]"
| "cells (Group e) = cells e"
| "cells (Neg e) = tk N_UNARY # cells e"
| "cells (Inv e) = tk T_NOT # cells e"
| "cells (Bin t l r) = (if t = T_EQ then tk t # cells r @ cells l else tk t # cells l @ cells r)"
| "cells (Comma l r) = join (cells l) (cells r)"
| "cells (Call f None) = tk T_CALL # cells f @ [tk T_COMMA, CPay (PVal 0)]"
| "cells (Call f (Some a)) = tk T_CALL # cells f @ as_list (cells a)"
| "cells (Index l None) = tk T_OSB # cells l @ [tk T_COMMA, CPay (PVal 0)]"
| "cells (Index l (Some i)) = tk T_OSB # cells l @ cells i"

text \<open>
  \<open>stops q e\<close>: an operator of power \<open>q\<close> that follows \<open>e\<close> takes the whole of \<open>e\<close> as its left operand.
  A unary operator lets no operator of power two or more follow its operand, and a number
  followed by a dot is the beginning of another number.
\<close>

fun stops :: "nat \<Rightarrow> expr \<Rightarrow> bool" where
  "stops q (Num v) = (q \<noteq> 16)"
| "stops q (Neg e) = (q < 2 \<and> stops q e)"
| "stops q (Inv e) = (q < 2 \<and> stops q e)"
| "stops q (Bin t l r) = (q < getPower t \<and> stops q r)"
| "stops q (Comma l r) = (q < 2 \<and> stops q r)"
| "stops q _ = True"

text \<open>
  \<open>canon p e\<close>: the tokens of \<open>e\<close> are read back as \<open>e\<close> by the loop that takes operators of power
  \<open>p\<close> and more. The right operand of an operator may be of the power of that operator, the left
  operand must be of a higher one: chains of operators lean to the right.
\<close>

fun canon :: "nat \<Rightarrow> expr \<Rightarrow> bool" where
  "canon p (Group e) = canon 2 e"
| "canon p (Neg e) = canon 2 e"
| "canon p (Inv e) = canon 2 e"
| "canon p (Bin t l r) =
     (t \<in> bin_ops \<and> p \<le> getPower t \<and> canon p l \<and> stops (getPower t) l \<and> canon (getPower t) r)"
| "canon p (Comma l r) = (p \<le> 2 \<and> canon p l \<and> stops 2 l \<and> canon 2 r)"
| "canon p (Call f None) = (p \<le> 18 \<and> canon p f \<and> stops 18 f)"
| "canon p (Call f (Some a)) = (p \<le> 18 \<and> canon p f \<and> stops 18 f \<and> canon 2 a)"
| "canon p (Index l None) = (p \<le> 2 \<and> canon p l \<and> stops 2 l)"
| "canon p (Index l (Some i)) = (p \<le> 2 \<and> canon p l \<and> stops 2 l \<and> canon 2 i)"
| "canon p _ = True"

section \<open>Token sources\<close>

text \<open>The tokens the lexer delivers from a state on, the current one first.\<close>

definition is_token :: "'a lexst_scheme \<Rightarrow> token \<Rightarrow> bool" where
  "is_token st t \<longleftrightarrow> tok st = fst t \<and> (case snd t of None \<Rightarrow> True | Some v \<Rightarrow> tok_val st = v)"

primrec feeds :: "token list \<Rightarrow> 'a lexst_scheme \<Rightarrow> bool" where
  "feeds [] st = True"
| "feeds (t # ts) st =
     (is_token st t \<and>
      (\<forall>space. case getToken st space of Inl _ \<Rightarrow> False | Inr st' \<Rightarrow> feeds ts st'))"

definition shape :: "cell list \<Rightarrow> cell list" where "shape = map strip"

lemma shape_simps [simp]:
  "shape [] = []" "shape (c # cs) = strip c # shape cs" "shape (cs @ ds) = shape cs @ shape ds"
  "strip (node st) = tk (tok st)" "strip (node_as st t) = tk t"
  by (simp_all add: shape_def node_def node_as_def)

lemma feeds_step:
  assumes "feeds (t # t' # ts) st"
  obtains st' where "getToken st space = Inr st'" "feeds (t' # ts) st'" "lexst.more st' = lexst.more st"
proof -
  have "case getToken st space of Inl _ \<Rightarrow> False | Inr st' \<Rightarrow> feeds (t' # ts) st'" using assms by (simp only: feeds.simps)
  then show thesis using getToken_rest that by (auto split: sum.splits)
qed

lemma feeds_tok: "feeds ((t, v) # ts) st \<Longrightarrow> tok st = t"
  by (simp add: is_token_def)

lemma feeds_val: "feeds ((t, Some v) # ts) st \<Longrightarrow> tok_val st = v"
  by (simp add: is_token_def)

lemma print_nonempty: "print_expr e \<noteq> []"
  by (induction e rule: print_expr.induct) auto

text \<open>The first token of an expression closes nothing.\<close>

lemma print_first: "print_expr e = t # ts \<Longrightarrow> fst t \<notin> {T_CRB, T_CSB, T_NL}"
proof (induction e arbitrary: ts rule: print_expr.induct)
  case (5 e) then show ?case by auto
qed (auto simp: append_eq_Cons_conv print_nonempty)

lemma cells_first:
  "canon p e \<Longrightarrow> \<exists>t cs. cells e = tk t # cs \<and> (t = T_COMMA \<longrightarrow> (\<exists>v c ds. cs = CPay (PVal v) # c # ds))"
proof (induction p e rule: canon.induct)
  case (4 p t l r)
  then have "t \<noteq> T_COMMA" by (auto simp: bin_ops_def)
  then show ?case by simp
next
  case (5 p l r)
  obtain t cs where l: "cells l = tk t # cs" using 5 by auto
  obtain t' cs' where r: "cells r = tk t' # cs'" "t' = T_COMMA \<longrightarrow> (\<exists>v c ds. cs' = CPay (PVal v) # c # ds)"
    using 5 by auto
  show ?case using l r by (cases "t' = T_COMMA") (auto simp: join_def comma_first_def)
qed auto

lemma canon_stops: "canon p e \<Longrightarrow> q < 2 \<Longrightarrow> 2 \<le> p \<Longrightarrow> stops q e"
proof (induction p e rule: canon.induct)
  case (4 p t l r)
  then show ?case by auto
qed auto

section \<open>The loop reads trees back\<close>

text \<open>
  \<open>reads hk p ts x st st'\<close>: with enough calls, \<^verbatim>\<open>primary\<close> at power \<open>p\<close> started in \<open>st\<close> gets to its loop
  with the cells \<open>x\<close> in state \<open>st'\<close>, which goes on with the tokens \<open>ts\<close>.
\<close>

definition reads ::
  "'a parst_scheme hooks \<Rightarrow> nat \<Rightarrow> token list \<Rightarrow> cell list \<Rightarrow> 'a parst_scheme \<Rightarrow> 'a parst_scheme \<Rightarrow> bool" where
  "reads hk p ts x st st' \<longleftrightarrow>
     feeds ts st' \<and> lexst.more st' = lexst.more st \<and>
     (\<exists>d N. \<forall>n \<ge> N. primary hk (Suc n) st p = op_loop (n - d) (primary hk n) p x st')"

definition returns ::
  "'a parst_scheme hooks \<Rightarrow> nat \<Rightarrow> token list \<Rightarrow> cell list \<Rightarrow> 'a parst_scheme \<Rightarrow> 'a parst_scheme \<Rightarrow> bool" where
  "returns hk p ts x st st' \<longleftrightarrow>
     feeds ts st' \<and> lexst.more st' = lexst.more st \<and> (\<exists>N. \<forall>n \<ge> N. primary hk n st p = Inr (x, st'))"

lemma reads_returns:
  assumes "reads hk p ((t, v) # ts) x st st'" and "getPower t < p" and "getPower t \<noteq> UINT8_MAX"
  shows "returns hk p ((t, v) # ts) x st st'"
proof -
  obtain d N where run: "\<And>n. N \<le> n \<Longrightarrow> primary hk (Suc n) st p = op_loop (n - d) (primary hk n) p x st'"
    using assms(1) by (auto simp: reads_def)
  have t: "tok st' = t" using assms(1) by (auto simp: reads_def is_token_def)
  have "primary hk n st p = Inr (x, st')" if "N + d + 2 \<le> n" for n
  proof -
    define k where "k = n - d - 2"
    then have k: "n = Suc (Suc k + d)" using that by simp
    then have "primary hk n st p = op_loop (Suc k) (primary hk (Suc k + d)) p x st'"
      using run [of "Suc k + d"] that by simp
    then show ?thesis using t assms(2,3) by simp
  qed
  then show ?thesis using assms(1) by (auto simp: returns_def reads_def)
qed

lemma scope_more:
  fixes st :: "'a parst_scheme"
  shows "lexst.more st' = lexst.more st \<Longrightarrow> scope st' = scope st"
  by (rule same_rest)

text \<open>A prefix form that ends with its token.\<close>

lemma reads_prefix:
  assumes "\<exists>N. \<forall>n \<ge> N. prim_prefix hk n (primary hk n) st = (Inr (x, st'), True)"
    and "feeds ts st'" and "lexst.more st' = lexst.more st"
  shows "reads hk p ts x st st'"
proof -
  obtain N where "\<And>n. N \<le> n \<Longrightarrow> prim_prefix hk n (primary hk n) st = (Inr (x, st'), True)"
    using assms(1) by blast
  then have "\<forall>n \<ge> N. primary hk (Suc n) st p = op_loop (n - 0) (primary hk n) p x st'" by simp
  then show ?thesis using assms(2,3) unfolding reads_def by blast
qed

text \<open>One operator: the loop has \<open>left\<close>, reads the right operand and goes on.\<close>

lemma reads_op:
  assumes "reads hk p ts x st st1"
    and "p \<le> getPower (tok st1)" and "getPower (tok st1) \<noteq> UINT8_MAX"
    and "getToken st1 False = Inr st2" and "lexst.more st2 = lexst.more st1"
    and "\<exists>N. \<forall>n \<ge> N. op_right (primary hk n) (node_as st1 T_COMMA) (tok st1) st2 = Inr (y, st3)"
    and "lexst.more st3 = lexst.more st2"
    and "op_apply (node st1) (tok st1) x y st3 = Inr (z, st4)" and "lexst.more st4 = lexst.more st3" and "feeds ts' st4"
  shows "reads hk p ts' z st st4"
proof -
  obtain d N where run: "\<And>n. N \<le> n \<Longrightarrow> primary hk (Suc n) st p = op_loop (n - d) (primary hk n) p x st1"
    using assms(1) by (auto simp: reads_def)
  obtain M where M: "\<And>n. M \<le> n \<Longrightarrow> op_right (primary hk n) (node_as st1 T_COMMA) (tok st1) st2 = Inr (y, st3)"
    using assms(6) by blast
  have "primary hk (Suc n) st p = op_loop (n - Suc d) (primary hk n) p z st4" if "N + M + Suc d \<le> n" for n
  proof -
    have "n - d = Suc (n - Suc d)" using that by simp
    then show ?thesis using run [of n] M [of n] that assms(2-4,8) by (simp add: Let_def)
  qed
  then show ?thesis using assms by (auto simp: reads_def)
qed

text \<open>What follows an expression that is a whole argument, index or operand of a unary operator.\<close>

lemma operand:
  assumes "\<And>st. scope st = 0 \<Longrightarrow> feeds (print_expr e @ (t, v) # ts) st \<Longrightarrow>
      \<exists>x st'. reads hk q ((t, v) # ts) x st st' \<and> shape x = cells e"
    and "scope st = 0" and "feeds (print_expr e @ (t, v) # ts) st" and "getPower t < q" and "q \<le> 18"
  obtains x st' where "feeds ((t, v) # ts) st'" "lexst.more st' = lexst.more st" "scope st' = 0"
    "\<exists>N. \<forall>n \<ge> N. primary hk n st q = Inr (x, st')" "shape x = cells e"
proof -
  obtain x st' where run: "reads hk q ((t, v) # ts) x st st'" "shape x = cells e" using assms(1-3) by blast
  have "returns hk q ((t, v) # ts) x st st'"
    by (rule reads_returns [OF run(1)]) (use assms(4,5) in \<open>simp_all add: UINT8_MAX_def\<close>)
  then show thesis using that run(2) scope_more [of st' st] assms(2) by (auto simp: returns_def)
qed

lemma nodes_of_cells:
  assumes "canon p e" and "shape x = cells e"
  obtains t c l xs where "x = CTok t c l # xs" "nodes_token x = Inr t"
    "t = T_COMMA \<longrightarrow> (\<exists>v d ds. xs = CPay (PVal v) # d # ds)" "cells e = tk t # shape xs"
proof -
  obtain t cs where t: "cells e = tk t # cs" "t = T_COMMA \<longrightarrow> (\<exists>v c ds. cs = CPay (PVal v) # c # ds)"
    using cells_first [OF assms(1)] by blast
  obtain y xs where x: "x = y # xs" "strip y = tk t" "shape xs = cs"
    using assms(2) t(1) by (cases x) auto
  obtain c l where y: "y = CTok t c l" using x(2) by (cases y) auto
  have "\<exists>v d ds. xs = CPay (PVal v) # d # ds" if "t = T_COMMA"
  proof -
    have "\<exists>v c ds. shape xs = CPay (PVal v) # c # ds" using t(2) that x(3) by simp
    then obtain v c ds where "shape xs = CPay (PVal v) # c # ds" by blast
    then obtain z zs where z: "xs = z # zs" "strip z = CPay (PVal v)" "shape zs = c # ds"
      by (cases xs) auto
    moreover have "z = CPay (PVal v)" using z(2) by (cases z) auto
    moreover obtain d dd where "zs = d # dd" using z(3) by (cases zs) auto
    ultimately show ?thesis by blast
  qed
  then show thesis using that x y t(1) by (simp add: nodes_token_def)
qed

lemma powers [simp]:
  "getPower T_CALL = 18" "getPower T_OSB = 2" "getPower T_COMMA = 2" "getPower T_DOT = 16"
  "getPower T_CRB = 1" "getPower T_CSB = 1"
  by (simp_all add: getPower_def CUPDEFPOWER_def)

lemma bin_power: "t \<in> bin_ops \<Longrightarrow> 3 \<le> getPower t \<and> getPower t \<le> 16"
  by (auto simp: bin_ops_def getPower_def)

lemma root_scope:
  fixes st :: "'a parst_scheme"
  shows "scope st = 0 \<Longrightarrow> st\<lparr>scope := 0\<rparr> = st"
  by (cases st) simp

lemma op_right_operator:
  assumes "\<exists>N. \<forall>n \<ge> N. primary hk n st (getPower t) = Inr (y, st')"
    and "t \<noteq> T_CALL" "t \<noteq> T_OSB" and "scope st = 0" and "scope st' = 0"
  shows "\<exists>N. \<forall>n \<ge> N. op_right (primary hk n) c t st = Inr (y, st')"
proof -
  have "op_right (primary hk n) c t st = Inr (y, st')" if "primary hk n st (getPower t) = Inr (y, st')" for n
    using that assms(2-5) by (auto simp: op_right_def Let_def root_scope)
  then show ?thesis using assms(1) by blast
qed

lemma op_right_bracket:
  assumes "\<exists>N. \<forall>n \<ge> N. primary hk n st 2 = Inr (y, st')"
    and "t = T_CALL \<or> t = T_OSB" and "tok st \<notin> {T_CRB, T_CSB}"
  shows "\<exists>N. \<forall>n \<ge> N. op_right (primary hk n) c t st = Inr (y, st')"
proof -
  have "op_right (primary hk n) c t st = Inr (y, st')" if "primary hk n st 2 = Inr (y, st')" for n
    using that assms(2,3) by (auto simp: op_right_def Let_def CUPDEFPOWER_def)
  then show ?thesis using assms(1) by blast
qed

text \<open>The cells an operator makes of its operands.\<close>

lemma apply_binary:
  assumes "t \<in> bin_ops" and "shape x = cells l" and "shape y = cells r" and "tok st = t"
  shows "\<exists>z. op_apply (node st) t x y st' = Inr (z, st') \<and> shape z = cells (Bin t l r)"
  using assms by (auto simp: bin_ops_def op_apply_def)

lemma comma_first_iff: "comma_first (c # cs) \<longleftrightarrow> c = tk T_COMMA"
  by (simp add: comma_first_def)

lemma apply_comma:
  assumes "canon p r" and "shape x = cells l" and "shape y = cells r" and "tok st = T_COMMA"
  shows "\<exists>z. op_apply (node st) T_COMMA x y st' = Inr (z, st') \<and> shape z = cells (Comma l r)"
proof -
  obtain t c k xs where y: "y = CTok t c k # xs" "nodes_token y = Inr t"
    "t = T_COMMA \<longrightarrow> (\<exists>v d ds. xs = CPay (PVal v) # d # ds)" "cells r = tk t # shape xs"
    by (rule nodes_of_cells [OF assms(1,3)])
  show ?thesis
  proof (cases "t = T_COMMA")
    case True
    then obtain v d ds where "xs = CPay (PVal v) # d # ds" using y(3) by blast
    then show ?thesis using True y assms(2,4)
      by (simp add: op_apply_def nodes_token_def nodes_value_def join_def comma_first_iff)
  next
    case False
    then show ?thesis using y assms(2,4)
      by (simp add: op_apply_def nodes_token_def join_def comma_first_iff)
  qed
qed

lemma apply_call:
  assumes "canon p a" and "shape x = cells f" and "shape y = cells a" and "tok st = T_CALL" and "tok st' = T_CRB"
    and "getToken st' True = Inr st''"
  shows "\<exists>z. op_apply (node st) T_CALL x y st' = Inr (z, st'') \<and> shape z = cells (Call f (Some a))"
proof -
  obtain t c k xs where y: "y = CTok t c k # xs" "nodes_token y = Inr t"
    "t = T_COMMA \<longrightarrow> (\<exists>v d ds. xs = CPay (PVal v) # d # ds)" "cells a = tk t # shape xs"
    by (rule nodes_of_cells [OF assms(1,3)])
  show ?thesis
    using y assms(2-6) by (cases "t = T_COMMA") (simp_all add: op_apply_def node_def as_list_def comma_first_iff)
qed

lemma reads_reach:
  assumes "reads hk p ((t, v) # t' # ts) x st st1" and "scope st = 0"
  obtains st2 where "tok st1 = t" "getToken st1 space = Inr st2" "feeds (t' # ts) st2" "lexst.more st2 = lexst.more st1"
    "scope st1 = 0" "scope st2 = 0"
proof -
  have f: "feeds ((t, v) # t' # ts) st1" "lexst.more st1 = lexst.more st" using assms(1) by (auto simp: reads_def)
  obtain st2 where st2: "getToken st1 space = Inr st2" "feeds (t' # ts) st2" "lexst.more st2 = lexst.more st1"
    by (rule feeds_step [OF f(1)])
  show thesis
    by (rule that [OF feeds_tok [OF f(1)] st2]) (use assms(2) scope_more f(2) st2(3) in metis)+
qed

text \<open>One operator whose right operand is an expression, and one pair of brackets.\<close>

lemma reads_binary:
  fixes st st1 :: "'a parst_scheme"
  assumes left: "reads hk p ((o', None) # print_expr r @ (t, v) # ts) x st st1" and "scope st = 0"
    and o': "o' \<in> bin_ops \<or> o' = T_COMMA" "p \<le> getPower o'" and next': "getPower t < getPower o'"
    and right: "\<And>st. scope st = 0 \<Longrightarrow> feeds (print_expr r @ (t, v) # ts) st \<Longrightarrow>
      \<exists>y st'. reads hk (getPower o') ((t, v) # ts) y st st' \<and> shape y = cells r"
    and make: "\<And>y (st3 :: 'a parst_scheme). shape y = cells r \<Longrightarrow> tok st1 = o' \<Longrightarrow>
      \<exists>z. op_apply (node st1) o' x y st3 = Inr (z, st3) \<and> shape z = w"
  shows "\<exists>z st'. reads hk p ((t, v) # ts) z st st' \<and> shape z = w"
proof -
  have small: "getPower o' \<le> 18" using o'(1) bin_power [of o'] by auto
  obtain u us where us: "print_expr r @ (t, v) # ts = u # us" using print_nonempty [of r] by (cases "print_expr r") auto
  obtain st2 where st2: "tok st1 = o'" "getToken st1 False = Inr st2" "feeds (u # us) st2"
      "lexst.more st2 = lexst.more st1" "scope st2 = 0"
    by (rule reads_reach [OF left [unfolded us] assms(2)])
  obtain y st3 where st3: "feeds ((t, v) # ts) st3" "lexst.more st3 = lexst.more st2" "scope st3 = 0"
      "\<exists>N. \<forall>n \<ge> N. primary hk n st2 (getPower o') = Inr (y, st3)" "shape y = cells r"
    by (rule operand [OF right st2(5) st2(3) [folded us] next' small])
  obtain z where z: "op_apply (node st1) o' x y st3 = Inr (z, st3)" "shape z = w" using make [OF st3(5) st2(1)] by blast
  have not: "o' \<noteq> T_CALL" "o' \<noteq> T_OSB" using o'(1) by (auto simp: bin_ops_def)
  have "reads hk p ((t, v) # ts) z st st3"
    by (rule reads_op [OF left _ _ st2(2,4) _ st3(2) _ refl st3(1)])
      (use o'(2) small st2(1) z(1) op_right_operator [OF st3(4) not st2(5) st3(3)] in \<open>simp_all add: UINT8_MAX_def\<close>)
  then show ?thesis using z(2) by blast
qed

lemma reads_bracket:
  fixes st st1 :: "'a parst_scheme"
  assumes left: "reads hk p ((o', None) # print_expr r @ (c', None) # (t, v) # ts) x st st1" and "scope st = 0"
    and o': "o' = T_CALL \<and> c' = T_CRB \<or> o' = T_OSB \<and> c' = T_CSB" "p \<le> getPower o'"
    and right: "\<And>st. scope st = 0 \<Longrightarrow> feeds (print_expr r @ (c', None) # (t, v) # ts) st \<Longrightarrow>
      \<exists>y st'. reads hk 2 ((c', None) # (t, v) # ts) y st st' \<and> shape y = cells r"
    and make: "\<And>y (st3 :: 'a parst_scheme) st4. shape y = cells r \<Longrightarrow> tok st1 = o' \<Longrightarrow> tok st3 = c' \<Longrightarrow> getToken st3 True = Inr st4 \<Longrightarrow>
      \<exists>z. op_apply (node st1) o' x y st3 = Inr (z, st4) \<and> shape z = w"
  shows "\<exists>z st'. reads hk p ((t, v) # ts) z st st' \<and> shape z = w"
proof -
  have close: "getPower c' < 2" "getPower o' \<noteq> UINT8_MAX" using o'(1) by (auto simp: UINT8_MAX_def)
  obtain u us us' where us: "print_expr r = u # us'" "print_expr r @ (c', None) # (t, v) # ts = u # us"
    using print_nonempty [of r] by (cases "print_expr r") auto
  obtain st2 where st2: "tok st1 = o'" "getToken st1 False = Inr st2" "feeds (u # us) st2"
      "lexst.more st2 = lexst.more st1" "scope st2 = 0"
    by (rule reads_reach [OF left [unfolded us(2)] assms(2)])
  obtain y st3 where st3: "feeds ((c', None) # (t, v) # ts) st3" "lexst.more st3 = lexst.more st2"
      "\<exists>N. \<forall>n \<ge> N. primary hk n st2 2 = Inr (y, st3)" "shape y = cells r"
    by (rule operand [OF right st2(5) st2(3) [folded us(2)] close(1)]) simp_all
  obtain st4 where st4: "getToken st3 True = Inr st4" "feeds ((t, v) # ts) st4" "lexst.more st4 = lexst.more st3"
    by (rule feeds_step [OF st3(1)])
  obtain z where z: "op_apply (node st1) o' x y st3 = Inr (z, st4)" "shape z = w"
    using make [OF st3(4) st2(1) feeds_tok [OF st3(1)] st4(1)] by blast
  have "tok st2 = fst u" using st2(3) by (cases u) (simp add: is_token_def)
  then have "tok st2 \<notin> {T_CRB, T_CSB}" using print_first [OF us(1)] by auto
  from op_right_bracket [OF st3(3) _ this] o'(1)
  have right': "\<exists>N. \<forall>n \<ge> N. op_right (primary hk n) (node_as st1 T_COMMA) o' st2 = Inr (y, st3)" by blast
  have "reads hk p ((t, v) # ts) z st st4"
    by (rule reads_op [OF left _ _ st2(2,4) _ st3(2) _ st4(3,2)]) (use o'(2) close(2) st2(1) z(1) right' in simp_all)
  then show ?thesis using z(2) by blast
qed

text \<open>A pair of brackets with nothing between them.\<close>

lemma reads_empty_bracket:
  assumes left: "reads hk p ((o', None) # (c', None) # (t, v) # ts) x st st1" and "scope st = 0"
    and o': "o' = T_CALL \<and> c' = T_CRB \<or> o' = T_OSB \<and> c' = T_CSB" "p \<le> getPower o'"
  shows "\<exists>z st'. reads hk p ((t, v) # ts) z st st' \<and> shape z = tk o' # shape x @ [tk T_COMMA, CPay (PVal 0)]"
proof -
  obtain st2 where st2: "tok st1 = o'" "getToken st1 False = Inr st2" "feeds ((c', None) # (t, v) # ts) st2"
      "lexst.more st2 = lexst.more st1"
    by (rule reads_reach [OF left assms(2)])
  obtain st4 where st4: "getToken st2 True = Inr st4" "feeds ((t, v) # ts) st4" "lexst.more st4 = lexst.more st2"
    by (rule feeds_step [OF st2(3)])
  let ?y = "[node_as st1 T_COMMA, CPay (PVal 0)]" and ?z = "node st1 # x @ [node_as st1 T_COMMA, CPay (PVal 0)]"
  have tok: "tok st2 = c'" by (rule feeds_tok [OF st2(3)])
  have right': "op_right rec (node_as st1 T_COMMA) o' st2 = Inr (?y, st2)" for rec
    using o'(1) tok by (auto simp: op_right_def)
  have apply': "op_apply (node st1) o' x ?y st2 = Inr (?z, st4)"
    using o'(1) tok st4(1) by (auto simp: op_apply_def nodes_token_def node_as_def)
  have "reads hk p ((t, v) # ts) ?z st st4"
    by (rule reads_op [OF left _ _ st2(2,4) _ refl _ st4(3,2)])
      (use o' st2(1) right' apply' in \<open>auto simp: UINT8_MAX_def\<close>)
  then show ?thesis using st2(1) by (intro exI conjI) auto
qed

section \<open>The round trip\<close>

lemma prim_atom:
  assumes "feeds (u # (t, v) # ts) st" and "fst u \<in> {T_STRING, T_THIS}"
  obtains x st' where "feeds ((t, v) # ts) st'" "lexst.more st' = lexst.more st"
    "\<And>hk k rec. prim_prefix hk k rec st = (Inr (x, st'), True)"
    "x = (if fst u = T_STRING then node2 st else [node st])"
proof -
  obtain st' where st': "getToken st True = Inr st'" "feeds ((t, v) # ts) st'" "lexst.more st' = lexst.more st"
    by (rule feeds_step [OF assms(1)])
  have "tok st = fst u" using assms(1) by (cases u) (simp add: is_token_def)
  with st' assms(2) show thesis
    by (intro that [of st' "if fst u = T_STRING then node2 st else [node st]"])
      (auto simp: prim_prefix_def prim_token_def)
qed

lemma reads_string:
  assumes "feeds ((T_STRING, Some (PVal i)) # (t, v) # ts) st"
  shows "\<exists>x st'. reads hk p ((t, v) # ts) x st st' \<and> shape x = cells (Str i)"
proof -
  obtain x st' where x: "feeds ((t, v) # ts) st'" "lexst.more st' = lexst.more st"
    "\<And>k rec. prim_prefix hk k rec st = (Inr (x, st'), True)" "x = node2 st"
    by (rule prim_atom [OF assms]) auto
  have "shape x = cells (Str i)" using feeds_tok [OF assms] feeds_val [OF assms] x(4) by (simp add: node2_def)
  then show ?thesis using reads_prefix [OF _ x(1,2)] x(3) by blast
qed

lemma reads_this:
  assumes "feeds ((T_THIS, None) # (t, v) # ts) st"
  shows "\<exists>x st'. reads hk p ((t, v) # ts) x st st' \<and> shape x = cells This"
proof -
  obtain x st' where x: "feeds ((t, v) # ts) st'" "lexst.more st' = lexst.more st"
    "\<And>k rec. prim_prefix hk k rec st = (Inr (x, st'), True)" "x = [node st]"
    by (rule prim_atom [OF assms]) auto
  have "shape x = cells This" using feeds_tok [OF assms] x(4) by simp
  then show ?thesis using reads_prefix [OF _ x(1,2)] x(3) by blast
qed

lemma reads_name:
  assumes "feeds ((T_IDENTIFIER, Some (PStr n)) # (t, v) # ts) st" and "scope st = 0"
  shows "\<exists>x st'. reads hk p ((t, v) # ts) x st st' \<and> shape x = cells (Name n)"
proof -
  obtain st' where st': "getToken st True = Inr st'" "feeds ((t, v) # ts) st'" "lexst.more st' = lexst.more st"
    by (rule feeds_step [OF assms(1)])
  note t = feeds_tok [OF assms(1)] feeds_val [OF assms(1)]
  have "prim_prefix hk k rec st = (Inr (node2 st, st'), True)" for k rec
    using st'(1) t assms(2) by (simp add: prim_prefix_def prim_identifier_def enter_name_def)
  then have "reads hk p ((t, v) # ts) (node2 st) st st'" by (intro reads_prefix [OF _ st'(2,3)]) blast
  moreover have "shape (node2 st) = cells (Name n)" using t by (simp add: node2_def)
  ultimately show ?thesis by blast
qed

lemma reads_number:
  assumes "feeds ((T_NUMBER, Some (PVal i)) # (t, v) # ts) st" and "t \<noteq> T_DOT"
  shows "\<exists>x st'. reads hk p ((t, v) # ts) x st st' \<and> shape x = cells (Num i)"
proof -
  obtain st' where st': "getToken st True = Inr st'" "feeds ((t, v) # ts) st'" "lexst.more st' = lexst.more st"
    by (rule feeds_step [OF assms(1)])
  note t = feeds_tok [OF assms(1)] feeds_val [OF assms(1)]
  have "prim_prefix hk k rec st = (Inr (node2 st, st'), True)" for k rec
    using st'(1) t assms(2) feeds_tok [OF st'(2)] by (simp add: prim_prefix_def prim_number_def)
  then have "reads hk p ((t, v) # ts) (node2 st) st st'" by (intro reads_prefix [OF _ st'(2,3)]) blast
  moreover have "shape (node2 st) = cells (Num i)" using t by (simp add: node2_def)
  ultimately show ?thesis by blast
qed

text \<open>Unary operators and parentheses, whose operand is a whole expression.\<close>

lemma reads_unary:
  fixes st :: "'a parst_scheme"
  assumes "feeds ((u, None) # print_expr e @ (t, v) # ts) st" and "scope st = 0" and "getPower t < 2"
    and u: "u = T_SUB \<and> w = N_UNARY \<or> u = T_NOT \<and> w = T_NOT"
    and "\<And>st :: 'a parst_scheme. scope st = 0 \<Longrightarrow> feeds (print_expr e @ (t, v) # ts) st \<Longrightarrow>
      \<exists>y st'. reads hk 2 ((t, v) # ts) y st st' \<and> shape y = cells e"
  shows "\<exists>x st'. reads hk p ((t, v) # ts) x st st' \<and> shape x = tk w # cells e"
proof -
  obtain k ks where ks: "print_expr e @ (t, v) # ts = k # ks" using print_nonempty [of e] by (cases "print_expr e") auto
  obtain st1 where st1: "getToken st True = Inr st1" "feeds (k # ks) st1" "lexst.more st1 = lexst.more st"
    by (rule feeds_step [OF assms(1) [unfolded ks]])
  have sc: "scope st1 = 0" using scope_more [OF st1(3)] assms(2) by simp
  obtain y st2 where st2: "feeds ((t, v) # ts) st2" "lexst.more st2 = lexst.more st1"
      "\<exists>N. \<forall>n \<ge> N. primary hk n st1 2 = Inr (y, st2)" "shape y = cells e"
    by (rule operand [OF assms(5) sc st1(2) [folded ks] assms(3)]) simp_all
  have tok: "tok st = u" using feeds_tok [OF assms(1)] .
  have run: "prim_prefix hk n (primary hk n) st = (Inr (node_as st w # y, st2), True)"
    if "primary hk n st1 2 = Inr (y, st2)" for n
    using u tok st1(1) that by (auto simp: prim_prefix_def prim_unary_def CUPDEFPOWER_def)
  have "\<exists>N. \<forall>n \<ge> N. prim_prefix hk n (primary hk n) st = (Inr (node_as st w # y, st2), True)"
    using st2(3) run by blast
  then have "reads hk p ((t, v) # ts) (node_as st w # y) st st2"
    by (rule reads_prefix) (use st2 st1(3) in simp_all)
  moreover have "shape (node_as st w # y) = tk w # cells e" using st2(4) by simp
  ultimately show ?thesis by blast
qed

lemma reads_group:
  fixes st :: "'a parst_scheme"
  assumes "feeds ((T_CALL, None) # print_expr e @ (T_CRB, None) # (t, v) # ts) st" and "scope st = 0"
    and "\<And>st :: 'a parst_scheme. scope st = 0 \<Longrightarrow> feeds (print_expr e @ (T_CRB, None) # (t, v) # ts) st \<Longrightarrow>
      \<exists>y st'. reads hk 2 ((T_CRB, None) # (t, v) # ts) y st st' \<and> shape y = cells e"
  shows "\<exists>x st'. reads hk p ((t, v) # ts) x st st' \<and> shape x = cells e"
proof -
  obtain k ks ks' where ks: "print_expr e = k # ks'" "print_expr e @ (T_CRB, None) # (t, v) # ts = k # ks"
    using print_nonempty [of e] by (cases "print_expr e") auto
  obtain st1 where st1: "getToken st False = Inr st1" "feeds (k # ks) st1" "lexst.more st1 = lexst.more st"
    by (rule feeds_step [OF assms(1) [unfolded ks(2)]])
  have sc: "scope st1 = 0" using scope_more [OF st1(3)] assms(2) by simp
  obtain y st2 where st2: "feeds ((T_CRB, None) # (t, v) # ts) st2" "lexst.more st2 = lexst.more st1"
      "\<exists>N. \<forall>n \<ge> N. primary hk n st1 2 = Inr (y, st2)" "shape y = cells e"
    by (rule operand [OF assms(3) sc st1(2) [folded ks(2)]]) simp_all
  obtain st3 where st3: "getToken st2 True = Inr st3" "feeds ((t, v) # ts) st3" "lexst.more st3 = lexst.more st2"
    by (rule feeds_step [OF st2(1)])
  have "tok st1 = fst k" using st1(2) by (cases k) (simp add: is_token_def)
  then have tok: "tok st = T_CALL" "tok st1 \<noteq> T_CRB" "tok st2 = T_CRB"
    using feeds_tok [OF assms(1)] print_first [OF ks(1)] feeds_tok [OF st2(1)] by auto
  have run: "prim_prefix hk n (primary hk n) st = (Inr (y, st3), True)" if "primary hk n st1 2 = Inr (y, st2)" for n
    using tok st1(1) st3(1) that
    by (simp add: prim_prefix_def prim_paren_def statement_def expectAndNext_def CUPDEFPOWER_def)
  have "\<exists>N. \<forall>n \<ge> N. prim_prefix hk n (primary hk n) st = (Inr (y, st3), True)"
    using st2(3) run by blast
  then have "reads hk p ((t, v) # ts) y st st3"
    by (rule reads_prefix) (use st3 st2(2) st1(3) in simp_all)
  then show ?thesis using st2(4) by blast
qed

lemma reads_expr:
  fixes st :: "'a parst_scheme"
  assumes "canon p e" and "stops (getPower t) e" and "scope st = 0" and "feeds (print_expr e @ (t, v) # ts) st"
  shows "\<exists>x st'. reads hk p ((t, v) # ts) x st st' \<and> shape x = cells e"
  using assms
proof (induction p e arbitrary: st t v ts rule: canon.induct [case_names group neg inv bin comma callnone call indexnone index num str name this])
  case (group p e)
  have f: "feeds ((T_CALL, None) # print_expr e @ (T_CRB, None) # (t, v) # ts) st" using group by simp
  have c: "canon 2 e" "stops 1 e" using group canon_stops [of 2 e 1] by simp_all
  have "\<exists>x st'. reads hk p ((t, v) # ts) x st st' \<and> shape x = cells e"
    by (rule reads_group [OF f group(4)]) (use group.IH c in simp)
  then show ?case by simp
next
  case (neg p e)
  have p2: "getPower t < 2" "stops (getPower t) e" using neg by simp_all
  have "feeds ((T_SUB, None) # print_expr e @ (t, v) # ts) st" using neg by simp
  from reads_unary [OF this neg(4) p2(1), where w = N_UNARY] neg p2(2) show ?case by simp
next
  case (inv p e)
  have p2: "getPower t < 2" "stops (getPower t) e" using inv by simp_all
  have "feeds ((T_NOT, None) # print_expr e @ (t, v) # ts) st" using inv by simp
  from reads_unary [OF this inv(4) p2(1), where w = T_NOT] inv p2(2) show ?case by simp
next
  case (bin p u l r)
  have c: "u \<in> bin_ops" "p \<le> getPower u" "canon p l" "stops (getPower u) l" "canon (getPower u) r"
    and n: "getPower t < getPower u" "stops (getPower t) r" using bin by simp_all
  have "feeds (print_expr l @ (u, None) # print_expr r @ (t, v) # ts) st" using bin by simp
  from bin.IH(1) [OF c(3,4) bin(5) this] obtain x st1 where
    x: "reads hk p ((u, None) # print_expr r @ (t, v) # ts) x st st1" "shape x = cells l" by blast
  have make: "\<exists>z. op_apply (node st1) u x y st3 = Inr (z, st3) \<and> shape z = cells (Bin u l r)"
    if "shape y = cells r" "tok st1 = u" for y and st3 :: "'a parst_scheme"
    using apply_binary [OF c(1) x(2) that] .
  show ?case
    by (rule reads_binary [OF x(1) bin(5) _ c(2) n(1) bin.IH(2) [OF c(5) n(2)] make]) (use c(1) in simp_all)
next
  case (comma p l r)
  have c: "p \<le> 2" "canon p l" "stops 2 l" "canon 2 r" and n: "getPower t < 2" "stops (getPower t) r" using comma by simp_all
  have "feeds (print_expr l @ (T_COMMA, None) # print_expr r @ (t, v) # ts) st" using comma by simp
  from comma.IH(1) [OF c(2) _ comma(5) this] c(3) obtain x st1 where
    x: "reads hk p ((T_COMMA, None) # print_expr r @ (t, v) # ts) x st st1" "shape x = cells l" by auto
  show ?case
    by (rule reads_binary [OF x(1) comma(5)])
      (use c n comma.IH(2) apply_comma [OF c(4) x(2)] in auto)
next
  case (callnone p f)
  have "feeds (print_expr f @ (T_CALL, None) # (T_CRB, None) # (t, v) # ts) st" using callnone by simp
  from callnone.IH [OF _ _ callnone(4) this] callnone(2) obtain x st1 where
    x: "reads hk p ((T_CALL, None) # (T_CRB, None) # (t, v) # ts) x st st1" "shape x = cells f" by auto
  from reads_empty_bracket [OF x(1) callnone(4)] callnone(2) x(2) show ?case by simp
next
  case (call p f a)
  have c: "p \<le> 18" "canon p f" "stops 18 f" "canon 2 a" using call by simp_all
  have "feeds (print_expr f @ (T_CALL, None) # print_expr a @ (T_CRB, None) # (t, v) # ts) st" using call by simp
  from call.IH(1) [OF c(2) _ call(5) this] c(3) obtain x st1 where
    x: "reads hk p ((T_CALL, None) # print_expr a @ (T_CRB, None) # (t, v) # ts) x st st1" "shape x = cells f" by auto
  show ?case
    by (rule reads_bracket [OF x(1) call(5)])
      (use c call.IH(2) canon_stops [OF c(4)] apply_call [OF c(4) x(2)] in auto)
next
  case (indexnone p l)
  have "feeds (print_expr l @ (T_OSB, None) # (T_CSB, None) # (t, v) # ts) st" using indexnone by simp
  from indexnone.IH [OF _ _ indexnone(4) this] indexnone(2) obtain x st1 where
    x: "reads hk p ((T_OSB, None) # (T_CSB, None) # (t, v) # ts) x st st1" "shape x = cells l" by auto
  from reads_empty_bracket [OF x(1) indexnone(4)] indexnone(2) x(2) show ?case by simp
next
  case (index p l i)
  have c: "p \<le> 2" "canon p l" "stops 2 l" "canon 2 i" using index by simp_all
  have "feeds (print_expr l @ (T_OSB, None) # print_expr i @ (T_CSB, None) # (t, v) # ts) st" using index by simp
  from index.IH(1) [OF c(2) _ index(5) this] c(3) obtain x st1 where
    x: "reads hk p ((T_OSB, None) # print_expr i @ (T_CSB, None) # (t, v) # ts) x st st1" "shape x = cells l" by auto
  show ?case
    by (rule reads_bracket [OF x(1) index(5)])
      (use c index.IH(2) canon_stops [OF c(4)] x(2) in \<open>auto simp: op_apply_def\<close>)
next
  case (num p i)
  then have "t \<noteq> T_DOT" by auto
  then show ?case using num reads_number [of i t v ts st hk p] by simp
next
  case (str p i)
  then show ?case using reads_string [of i t v ts st hk p] by simp
next
  case (name p n)
  then show ?case using reads_name [of n t v ts st hk p] by simp
next
  case (this p)
  then show ?case using reads_this [of t v ts st hk p] by simp
qed

abbreviation start_state :: "string \<Rightarrow> parst" where
  "start_state text \<equiv> blank_state\<lparr>input_stream := text\<rparr>"

text \<open>C3: The parser reads an expression tree back. Outside any scope, on the tokens of a tree that has its
  canonical form, followed by a token of power zero or one, \<^verbatim>\<open>primary\<close> at the default power returns
  the cells of that tree, leaves the following token for its caller and changes nothing but the
  lexer's part of the state, whatever the module loader does.\<close>

theorem expression_round_trip:
  fixes st :: "'a parst_scheme"
  assumes "canon CUPDEFPOWER e" and "scope st = 0" and "feeds (print_expr e @ (t, v) # ts) st" and "getPower t < 2"
  shows "\<exists>x st'. (\<exists>N. \<forall>n \<ge> N. primary hk n st CUPDEFPOWER = Inr (x, st')) \<and> shape x = cells e \<and>
    feeds ((t, v) # ts) st' \<and> lexst.more st' = lexst.more st"
proof -
  have c: "canon 2 e" using assms(1) by (simp add: CUPDEFPOWER_def)
  obtain x st' where x: "reads hk 2 ((t, v) # ts) x st st'" "shape x = cells e"
    using reads_expr [OF c canon_stops [OF c assms(4) order_refl] assms(2,3)] by blast
  have "returns hk 2 ((t, v) # ts) x st st'"
    by (rule reads_returns [OF x(1)]) (use assms(4) in \<open>simp_all add: UINT8_MAX_def\<close>)
  then show ?thesis using x(2) by (auto simp: returns_def CUPDEFPOWER_def)
qed

text \<open>The tokens a source text begins with, checked by running the lexer.\<close>

definition text_feeds :: "string \<Rightarrow> token list \<Rightarrow> bool" where
  "text_feeds text ts \<longleftrightarrow>
     (case getToken (start_state text) True of Inl _ \<Rightarrow> False | Inr st \<Rightarrow> scope st = 0 \<and> feeds ts st)"

lemma text_feedsD:
  assumes "text_feeds text ts"
  obtains st where "getToken (start_state text) True = Inr st" "scope st = 0" "feeds ts st"
  using assms by (auto simp: text_feeds_def split: sum.splits)

lemma feeds_example: "text_feeds ''1-x*3''
    (print_expr (Bin T_SUB (Num 1) (Bin T_MUL (Name ''x'') (Num 3))) @
     [(T_EOF, None)])"
  by code_simp

theorem expression_round_trip_witness:
  "\<exists>st. getToken (start_state ''1-x*3'') True = Inr st \<and>
     (\<forall>hk. \<exists>x st'. (\<exists>N. \<forall>n \<ge> N. primary hk n st CUPDEFPOWER = Inr (x, st')) \<and>
        shape x = [tk T_SUB, tk T_NUMBER, CPay (PVal 1),
          tk T_MUL, tk T_IDENTIFIER, CPay (PStr ''x''), tk T_NUMBER, CPay (PVal 3)])"
proof -
  let ?e = "Bin T_SUB (Num 1) (Bin T_MUL (Name ''x'') (Num 3))"
  obtain st where st: "getToken (start_state ''1-x*3'') True = Inr st" "scope st = 0"
      "feeds (print_expr ?e @ [(T_EOF, None)]) st"
    by (rule text_feedsD [OF feeds_example])
  have canon: "canon CUPDEFPOWER ?e" by (simp add: CUPDEFPOWER_def bin_ops_def getPower_def)
  have "\<exists>x st'. (\<exists>N. \<forall>n \<ge> N. primary hk n st CUPDEFPOWER = Inr (x, st')) \<and> shape x = cells ?e" for hk
    using expression_round_trip [OF canon st(2,3), of hk] by (auto simp: getPower_def)
  with st(1) show ?thesis by auto
qed

text \<open>Operators of one level group to the right, subtraction too, so \<^verbatim>\<open>a - b - c\<close> is read as
  \<^verbatim>\<open>a - (b - c)\<close>; an index applies to the whole expression before it, so \<^verbatim>\<open>a + b[c]\<close> is read as
  \<^verbatim>\<open>(a + b)[c]\<close>; and a unary minus applies to everything after it, so \<^verbatim>\<open>-a + b\<close> is read as
  \<^verbatim>\<open>-(a + b)\<close>.\<close>

theorem operator_grouping:
  fixes st :: "'a parst_scheme"
  assumes "scope st = 0" and "getPower t < 2" and "o' \<in> bin_ops" and "o' \<noteq> T_EQ" and "o' \<noteq> T_DOT"
    and "a \<in> range Num \<union> range Str \<union> range Name" and "b \<in> range Num \<union> range Str \<union> range Name"
    and "c \<in> range Num \<union> range Str \<union> range Name"
    and "feeds (ts @ [(t, v)]) st"
    and "(ts, cs) \<in>
      {(print_expr a @ (o', None) # print_expr b @ (o', None) # print_expr c,
        tk o' # cells a @ tk o' # cells b @ cells c),
       (print_expr a @ (o', None) # print_expr b @ (T_OSB, None) # print_expr c @ [(T_CSB, None)],
        tk T_OSB # tk o' # cells a @ cells b @ cells c),
       ((T_SUB, None) # print_expr a @ (o', None) # print_expr b, tk N_UNARY # tk o' # cells a @ cells b)}"
  shows "\<exists>x st' N. (\<forall>n \<ge> N. primary hk n st CUPDEFPOWER = Inr (x, st')) \<and> shape x = cs"
proof -
  define e where "e = (if hd ts = (T_SUB, None) then Neg (Bin o' a b)
     else if last ts = (T_CSB, None) then Index (Bin o' a b) (Some c) else Bin o' a (Bin o' b c))"
  have atom: "canon p d" "q \<noteq> 16 \<Longrightarrow> stops q d" "\<exists>u w. print_expr d = [(u, Some w)]"
    if "d \<in> range Num \<union> range Str \<union> range Name" for d p q using that by auto
  have power: "3 \<le> getPower o'" "getPower o' \<noteq> 16"
    using assms(3,5) by (auto simp: bin_ops_def getPower_def)
  have e: "ts = print_expr e" "cells e = cs" "canon 2 e"
    using assms(3-5,10) atom [OF assms(6)] atom [OF assms(7)] atom [OF assms(8)] power by (auto simp: e_def)
  obtain x st' where x: "reads hk 2 [(t, v)] x st st'" "shape x = cs"
    using reads_expr [OF e(3) canon_stops [OF e(3) assms(2) order_refl] assms(1)] assms(9) e(1,2) by blast
  have "returns hk 2 [(t, v)] x st st'"
    by (rule reads_returns [OF x(1)]) (use assms(2) in \<open>simp_all add: UINT8_MAX_def\<close>)
  then show ?thesis using x(2) by (auto simp: returns_def CUPDEFPOWER_def)
qed

theorem operator_grouping_witness:
  "\<exists>st. getToken (start_state ''10-3-2'') True = Inr st \<and>
     (\<forall>hk. \<exists>x st' N. (\<forall>n \<ge> N. primary hk n st CUPDEFPOWER = Inr (x, st')) \<and>
        shape x = [tk T_SUB, tk T_NUMBER, CPay (PVal 10), tk T_SUB, tk T_NUMBER, CPay (PVal 3), tk T_NUMBER, CPay (PVal 2)])"
proof -
  have "text_feeds ''10-3-2'' ([(T_NUMBER, Some (PVal 10)), (T_SUB, None), (T_NUMBER, Some (PVal 3)), (T_SUB, None),
      (T_NUMBER, Some (PVal 2))] @ [(T_EOF, None)])" by code_simp
  then obtain st where st: "getToken (start_state ''10-3-2'') True = Inr st" "scope st = 0"
      "feeds ([(T_NUMBER, Some (PVal 10)), (T_SUB, None), (T_NUMBER, Some (PVal 3)), (T_SUB, None),
        (T_NUMBER, Some (PVal 2))] @ [(T_EOF, None)]) st"
    by (rule text_feedsD)
  have power: "getPower T_EOF < 2" by (simp add: getPower_def)
  note grouping = operator_grouping [OF st(2) power _ _ _ _ _ _ st(3), of T_SUB "Num 10" "Num 3" "Num 2"]
  show ?thesis using st(1) grouping by (simp add: bin_ops_def)
qed

text \<open>A number with a fraction. The tokens digits, dot, digits make one double from the value of the first
  number and the value of the second; the text of the second is not looked at again, so digits that
  do not change its value, such as leading zeros, are lost. Without digits after the dot the double
  has no fraction, and the token after the dot is the next one.\<close>

theorem double_literal:
  fixes st :: "'a parst_scheme"
  assumes "scope st = 0" and "getPower t < 2" and "t \<noteq> T_DOT" and "t \<noteq> T_NUMBER"
    and "feeds ((T_NUMBER, Some (PVal i)) # (T_DOT, None) # ts) st"
    and "ts = (T_NUMBER, Some (PVal f)) # (t, v) # us \<and> w = Some f \<or> ts = (t, v) # us \<and> w = None"
  shows "\<exists>x st'. (\<exists>N. \<forall>n \<ge> N. primary hk n st CUPDEFPOWER = Inr (x, st')) \<and>
    shape x = [tk T_DOUBLE, CPay (PDbl i w)] \<and> feeds ((t, v) # us) st'"
proof -
  obtain u us' where us': "ts = u # us'" using assms(6) by auto
  obtain st1 where st1: "getToken st True = Inr st1" "feeds ((T_DOT, None) # ts) st1" "lexst.more st1 = lexst.more st"
    by (rule feeds_step [OF assms(5)])
  obtain st2 where st2: "getToken st1 True = Inr st2" "feeds ts st2" "lexst.more st2 = lexst.more st1"
    using feeds_step [OF st1(2) [unfolded us'], of True] us' by metis
  have tok: "tok st = T_NUMBER" "tok_val st = PVal i" "tok st1 = T_DOT"
    using feeds_tok [OF assms(5)] feeds_val [OF assms(5)] feeds_tok [OF st1(2)] by simp_all
  have "\<exists>st'. (\<forall>k rec. prim_prefix hk k rec st = (Inr ([node_as st T_DOUBLE, CPay (PDbl i w)], st'), True)) \<and>
      feeds ((t, v) # us) st' \<and> lexst.more st' = lexst.more st"
  proof (cases w)
    case None
    then have ts: "ts = (t, v) # us" using assms(6) by auto
    have "tok st2 = t" using feeds_tok st2(2) ts by blast
    then show ?thesis
      using None assms(4) tok st1(1,3) st2 ts by (auto simp: prim_prefix_def prim_number_def)
  next
    case (Some f')
    then have ts: "ts = (T_NUMBER, Some (PVal f)) # (t, v) # us" "f' = f" using assms(6) by auto
    obtain st3 where st3: "getToken st2 True = Inr st3" "feeds ((t, v) # us) st3" "lexst.more st3 = lexst.more st2"
      by (rule feeds_step [OF st2(2) [unfolded ts(1)]])
    have "tok st2 = T_NUMBER" "tok_val st2 = PVal f"
      using feeds_tok [OF st2(2) [unfolded ts(1)]] feeds_val [OF st2(2) [unfolded ts(1)]] by simp_all
    then show ?thesis
      using Some tok st1(1,3) st2(1,3) st3 ts(2) by (auto simp: prim_prefix_def prim_number_def)
  qed
  then obtain st' where run: "\<And>k rec. prim_prefix hk k rec st = (Inr ([node_as st T_DOUBLE, CPay (PDbl i w)], st'), True)"
    and st': "feeds ((t, v) # us) st'" "lexst.more st' = lexst.more st" by blast
  have "reads hk 2 ((t, v) # us) [node_as st T_DOUBLE, CPay (PDbl i w)] st st'"
    by (rule reads_prefix [OF _ st']) (use run in blast)
  then have "returns hk 2 ((t, v) # us) [node_as st T_DOUBLE, CPay (PDbl i w)] st st'"
    by (rule reads_returns) (use assms(2) in \<open>simp_all add: UINT8_MAX_def\<close>)
  then have "(\<exists>N. \<forall>n \<ge> N. primary hk n st CUPDEFPOWER = Inr ([node_as st T_DOUBLE, CPay (PDbl i w)], st')) \<and>
      shape [node_as st T_DOUBLE, CPay (PDbl i w)] = [tk T_DOUBLE, CPay (PDbl i w)] \<and> feeds ((t, v) # us) st'"
    by (simp add: returns_def CUPDEFPOWER_def)
  then show ?thesis by blast
qed

theorem double_literal_witness:
  "(\<exists>st. getToken (start_state ''1.5'') True = Inr st \<and>
     (\<forall>hk. \<exists>x st' N. (\<forall>n \<ge> N. primary hk n st CUPDEFPOWER = Inr (x, st')) \<and>
        shape x = [tk T_DOUBLE, CPay (PDbl 1 (Some 5))])) \<and>
   (\<exists>st. getToken (start_state ''1.05'') True = Inr st \<and>
     (\<forall>hk. \<exists>x st' N. (\<forall>n \<ge> N. primary hk n st CUPDEFPOWER = Inr (x, st')) \<and>
        shape x = [tk T_DOUBLE, CPay (PDbl 1 (Some 5))]))"
proof -
  have literal: "\<exists>st. getToken (start_state input) True = Inr st \<and>
     (\<forall>hk. \<exists>x st' N. (\<forall>n \<ge> N. primary hk n st CUPDEFPOWER = Inr (x, st')) \<and>
        shape x = [tk T_DOUBLE, CPay (PDbl 1 (Some 5))])"
    if "text_feeds input [(T_NUMBER, Some (PVal 1)), (T_DOT, None), (T_NUMBER, Some (PVal 5)), (T_EOF, None)]" for input
  proof -
    from that obtain st where st: "getToken (start_state input) True = Inr st" "scope st = 0"
        "feeds [(T_NUMBER, Some (PVal 1)), (T_DOT, None), (T_NUMBER, Some (PVal 5)), (T_EOF, None)] st"
      by (rule text_feedsD)
    have power: "getPower T_EOF < 2" by (simp add: getPower_def)
    have "\<exists>x st'. (\<exists>N. \<forall>n \<ge> N. primary hk n st CUPDEFPOWER = Inr (x, st')) \<and>
        shape x = [tk T_DOUBLE, CPay (PDbl 1 (Some 5))] \<and> feeds [(T_EOF, None)] st'" for hk
      by (rule double_literal [OF st(2) power _ _ st(3)]) simp_all
    with st(1) show ?thesis by blast
  qed
  have "text_feeds ''1.5'' [(T_NUMBER, Some (PVal 1)), (T_DOT, None), (T_NUMBER, Some (PVal 5)), (T_EOF, None)]"
    "text_feeds ''1.05'' [(T_NUMBER, Some (PVal 1)), (T_DOT, None), (T_NUMBER, Some (PVal 5)), (T_EOF, None)]"
    by code_simp+
  then show ?thesis using literal by blast
qed

end
