(* ===== verification/Cup_Machine.thy ===== *)
theory Cup_Machine
  imports Cup_Codegen Cup_Expression
begin

text \<open>
  What the generated code does: a machine for the instructions of \<open>Cup_X64\<close>, with registers, flags
  and byte memory, that runs the bytes of the code buffer, and theorems that the code of an
  expression, of a condition and of a function computes what the nodes mean.

  The machine follows the instruction set of the processor. Code and data are apart: the code is a
  list of bytes the program counter points into, and stores do not change it. Calls of functions
  are not run.
\<close>

section \<open>The machine\<close>

text \<open>Flags: zero, sign and overflow; \<^const>\<open>None\<close> after an instruction that leaves one of them undefined.\<close>

record mach =
  regs :: "reg \<Rightarrow> u64"
  mem :: "u64 \<Rightarrow> u8"
  flg :: "(bool \<times> bool \<times> bool) option"

definition load64 :: "(u64 \<Rightarrow> u8) \<Rightarrow> u64 \<Rightarrow> u64" where
  "load64 m a = le_word (map (\<lambda>i. m (a + of_nat i)) [0..<8])"

definition store64 :: "u64 \<Rightarrow> u64 \<Rightarrow> (u64 \<Rightarrow> u8) \<Rightarrow> u64 \<Rightarrow> u8" where
  "store64 a v m = (\<lambda>x. if unat (x - a) < 8 then le_bytes 8 v ! unat (x - a) else m x)"

definition set_reg :: "reg \<Rightarrow> u64 \<Rightarrow> mach \<Rightarrow> mach" where
  "set_reg r v s = s\<lparr>regs := (regs s)(r := v)\<rparr>"

definition addr_of :: "mach \<Rightarrow> reg \<Rightarrow> u32 \<Rightarrow> u64" where
  "addr_of s b d = regs s b + scast d"

definition result_flags :: "u64 \<Rightarrow> bool \<Rightarrow> (bool \<times> bool \<times> bool) option" where
  "result_flags v over = Some (v = 0, sint v < 0, over)"

definition add_flags :: "u64 \<Rightarrow> u64 \<Rightarrow> (bool \<times> bool \<times> bool) option" where
  "add_flags a b = result_flags (a + b) (sint (a + b) \<noteq> sint a + sint b)"

definition sub_flags :: "u64 \<Rightarrow> u64 \<Rightarrow> (bool \<times> bool \<times> bool) option" where
  "sub_flags a b = result_flags (a - b) (sint (a - b) \<noteq> sint a - sint b)"

text \<open>The conditions that the code tests; the lowest bit of a condition code negates it.\<close>

definition holds_cc :: "u8 \<Rightarrow> bool \<times> bool \<times> bool \<Rightarrow> bool option" where
  "holds_cc cc f =
     (case f of (z, n, v) \<Rightarrow>
        let base = (if drop_bit 1 cc = 2 then Some z
                    else if drop_bit 1 cc = 6 then Some (n \<noteq> v)
                    else if drop_bit 1 cc = 7 then Some (z \<or> n \<noteq> v)
                    else None)
        in map_option (\<lambda>b. b \<noteq> bit cc 0) base)"

definition flag_cc :: "u8 \<Rightarrow> mach \<Rightarrow> bool option" where
  "flag_cc cc s = Option.bind (flg s) (holds_cc cc)"

text \<open>A register with its lowest byte replaced by 0 or 1.\<close>

definition set_byte :: "bool \<Rightarrow> u64 \<Rightarrow> u64" where
  "set_byte b v = v AND NOT 0xFF OR of_bool b"

text \<open>One instruction that goes on with the next one.\<close>

fun effect :: "instr \<Rightarrow> mach \<Rightarrow> mach option" where
  "effect (MovRR d r) s = Some (set_reg d (regs s r) s)"
| "effect (Load d b disp) s = Some (set_reg d (load64 (mem s) (addr_of s b disp)) s)"
| "effect (Store b disp r) s = Some (s\<lparr>mem := store64 (addr_of s b disp) (regs s r) (mem s)\<rparr>)"
| "effect (StoreImm b disp v) s = Some (s\<lparr>mem := store64 (addr_of s b disp) (scast v) (mem s)\<rparr>)"
| "effect (AddMem b disp r) s =
     (let a = addr_of s b disp; x = load64 (mem s) a
      in Some (s\<lparr>mem := store64 a (x + regs s r) (mem s), flg := add_flags x (regs s r)\<rparr>))"
| "effect (LeaIdx8 d b i) s = Some (set_reg d (regs s b + 8 * regs s i) s)"
| "effect (MovImm r v) s = Some (set_reg r v s)"
| "effect (LoadRaxAbs a) s = Some (set_reg RAX (load64 (mem s) a) s)"
| "effect (StoreRaxAbs a) s = Some (s\<lparr>mem := store64 a (regs s RAX) (mem s)\<rparr>)"
| "effect (AddImm r v) s = Some ((set_reg r (regs s r + scast v) s)\<lparr>flg := add_flags (regs s r) (scast v)\<rparr>)"
| "effect (SubImm r v) s = Some ((set_reg r (regs s r - scast v) s)\<lparr>flg := sub_flags (regs s r) (scast v)\<rparr>)"
| "effect (CmpImm r v) s = Some (s\<lparr>flg := sub_flags (regs s r) (scast v)\<rparr>)"
| "effect (AddRR d r) s = Some ((set_reg d (regs s d + regs s r) s)\<lparr>flg := add_flags (regs s d) (regs s r)\<rparr>)"
| "effect (SubRR d r) s = Some ((set_reg d (regs s d - regs s r) s)\<lparr>flg := sub_flags (regs s d) (regs s r)\<rparr>)"
| "effect (CmpRR d r) s = Some (s\<lparr>flg := sub_flags (regs s d) (regs s r)\<rparr>)"
| "effect (TestRR a b) s = Some (s\<lparr>flg := result_flags (regs s a AND regs s b) False\<rparr>)"
| "effect (XorRR32 d r) s =
     (let v = ucast (ucast (regs s d) XOR ucast (regs s r) :: u32)
      in Some ((set_reg d v s)\<lparr>flg := Some (v = 0, bit v 31, False)\<rparr>))"
| "effect (ImulImm d r v) s = Some ((set_reg d (regs s r * scast v) s)\<lparr>flg := None\<rparr>)"
| "effect (ImulRR d r) s = Some ((set_reg d (regs s d * regs s r) s)\<lparr>flg := None\<rparr>)"
| "effect (ShlImm r n) s = Some ((set_reg r (push_bit (unat (n AND 63)) (regs s r)) s)\<lparr>flg := None\<rparr>)"
| "effect (SetCC cc r) s =
     map_option (\<lambda>b. set_reg r (set_byte b (regs s r)) s) (flag_cc cc s)"
| "effect (Movzx8 d r) s = Some (set_reg d (regs s r AND 0xFF) s)"
| "effect (Push r) s =
     (let sp = regs s RSP - 8 in Some (set_reg RSP sp (s\<lparr>mem := store64 sp (regs s r) (mem s)\<rparr>)))"
| "effect (Pop r) s =
     (let sp = regs s RSP in Some (set_reg r (load64 (mem s) sp) (set_reg RSP (sp + 8) s)))"
| "effect Leave s =
     (let sp = regs s RBP in Some (set_reg RBP (load64 (mem s) sp) (set_reg RSP (sp + 8) s)))"
| "effect Nop s = Some s"
| "effect _ s = None"

text \<open>A jump counts from the end of its instruction.\<close>

definition jump :: "nat \<Rightarrow> u32 \<Rightarrow> nat option" where
  "jump next d = (if int next + sint d < 0 then None else Some (nat (int next + sint d)))"

definition step :: "bytes \<Rightarrow> nat \<times> mach \<Rightarrow> (nat \<times> mach) option" where
  "step code c =
     (case c of (pc, s) \<Rightarrow>
        case decode (drop pc code) of
          None \<Rightarrow> None
        | Some (i, rest) \<Rightarrow>
            let next = length code - length rest
            in case i of
                 Jmp d \<Rightarrow> map_option (\<lambda>p. (p, s)) (jump next d)
               | Jcc cc d \<Rightarrow>
                   (case flag_cc cc s of
                      None \<Rightarrow> None
                    | Some b \<Rightarrow> if b then map_option (\<lambda>p. (p, s)) (jump next d) else Some (next, s))
               | _ \<Rightarrow> map_option (\<lambda>s. (next, s)) (effect i s))"

inductive steps :: "bytes \<Rightarrow> nat \<times> mach \<Rightarrow> nat \<times> mach \<Rightarrow> bool" for code where
  refl: "steps code c c"
| more: "step code c = Some c' \<Longrightarrow> steps code c' c'' \<Longrightarrow> steps code c c''"

lemma steps_trans: "steps code a b \<Longrightarrow> steps code b c \<Longrightarrow> steps code a c"
  by (induction rule: steps.induct) (auto intro: steps.more)

lemma step_steps: "step code c = Some c' \<Longrightarrow> steps code c c'"
  by (rule steps.more [OF _ steps.refl])

section \<open>Bytes and instructions\<close>

definition encodes :: "bytes \<Rightarrow> instr \<Rightarrow> bool" where
  "encodes bs i \<longleftrightarrow> (\<forall>rest. decode (bs @ rest) = Some (i, rest))"

lemma encodes_asm: "encodable i \<Longrightarrow> encodes (asm i) i"
  by (simp add: encodes_def decode_asm)

inductive coded :: "bytes \<Rightarrow> instr list \<Rightarrow> bool" where
  none: "coded [] []"
| next_one: "encodes b i \<Longrightarrow> coded bs is \<Longrightarrow> coded (b @ bs) (i # is)"

lemma coded_one: "encodes b i \<Longrightarrow> coded b [i]"
  using coded.next_one [OF _ coded.none] by fastforce

lemma coded_append: "coded a is \<Longrightarrow> coded b js \<Longrightarrow> coded (a @ b) (is @ js)"
  by (induction rule: coded.induct) (auto intro: coded.next_one)

primrec effects :: "instr list \<Rightarrow> mach \<Rightarrow> mach option" where
  "effects [] s = Some s"
| "effects (i # is) s = Option.bind (effect i s) (effects is)"

lemma effects_append: "effects (is @ js) s = Option.bind (effects is s) (effects js)"
proof (induction "is" arbitrary: s)
  case (Cons i "is")
  show ?case by (cases "effect i s") (simp_all add: Cons)
qed simp

text \<open>Straight-line code, wherever it stands, runs from its start to its end.\<close>

lemma step_effect:
  assumes "encodes b i" and "effect i s = Some s'"
  shows "step (pre @ b @ post) (length pre, s) = Some (length (pre @ b), s')"
proof -
  have "decode (drop (length pre) (pre @ b @ post)) = Some (i, post)"
    using assms(1) by (simp add: encodes_def)
  with assms(2) show ?thesis
    by (cases i) (simp_all add: step_def)
qed

lemma steps_effects:
  "coded bs is \<Longrightarrow> effects is s = Some s' \<Longrightarrow> steps (pre @ bs @ post) (length pre, s) (length (pre @ bs), s')"
proof (induction arbitrary: pre s rule: coded.induct)
  case none
  then show ?case by (simp add: steps.refl)
next
  case (next_one b i bs "is")
  then obtain s1 where s1: "effect i s = Some s1" "effects is s1 = Some s'"
    by (auto simp: bind_eq_Some_conv)
  have "step (pre @ b @ bs @ post) (length pre, s) = Some (length (pre @ b), s1)"
    using step_effect [OF next_one.hyps(1) s1(1), of pre "bs @ post"] by simp
  moreover have "steps ((pre @ b) @ bs @ post) (length (pre @ b), s1) (length ((pre @ b) @ bs), s')"
    by (rule next_one.IH [OF s1(2)])
  ultimately show ?case by (auto intro: steps.more)
qed

section \<open>What a piece of code does\<close>

text \<open>Straight-line code that runs from every state with \<open>P\<close>, and how the states are related.\<close>

definition does :: "(mach \<Rightarrow> bool) \<Rightarrow> bytes \<Rightarrow> (mach \<Rightarrow> mach \<Rightarrow> bool) \<Rightarrow> bool" where
  "does P bs Q \<longleftrightarrow> (\<exists>is. coded bs is \<and> (\<forall>s. P s \<longrightarrow> (\<exists>s'. effects is s = Some s' \<and> Q s s')))"

abbreviation always :: "mach \<Rightarrow> bool" where "always \<equiv> \<lambda>_. True"

lemma effects_one: "Option.bind x (effects []) = x"
  by (cases x) simp_all

lemma doesI: "encodes bs i \<Longrightarrow> (\<And>s. P s \<Longrightarrow> \<exists>s'. effect i s = Some s' \<and> Q s s') \<Longrightarrow> does P bs Q"
  unfolding does_def by (rule exI [of _ "[i]"]) (simp add: coded_one effects_one)

lemma does_nothing: "(\<And>s. P s \<Longrightarrow> Q s s) \<Longrightarrow> does P [] Q"
  unfolding does_def by (rule exI [of _ "[]"]) (auto intro: coded.none)

lemma does_mono: "does P bs Q \<Longrightarrow> (\<And>s s'. P s \<Longrightarrow> Q s s' \<Longrightarrow> Q' s s') \<Longrightarrow> does P bs Q'"
  unfolding does_def by meson

lemma does_seq:
  assumes "does P a Q1" and "does P' b Q2" and "\<And>s s1. P s \<Longrightarrow> Q1 s s1 \<Longrightarrow> P' s1"
    and "\<And>s s1 s2. P s \<Longrightarrow> Q1 s s1 \<Longrightarrow> Q2 s1 s2 \<Longrightarrow> Q s s2"
  shows "does P (a @ b) Q"
proof -
  obtain is1 where is1: "coded a is1" "\<And>s. P s \<Longrightarrow> \<exists>s'. effects is1 s = Some s' \<and> Q1 s s'"
    using assms(1) by (auto simp: does_def)
  obtain is2 where is2: "coded b is2" "\<And>s. P' s \<Longrightarrow> \<exists>s'. effects is2 s = Some s' \<and> Q2 s s'"
    using assms(2) by (auto simp: does_def)
  have "\<exists>s2. effects (is1 @ is2) s = Some s2 \<and> Q s s2" if "P s" for s
  proof -
    obtain s1 where s1: "effects is1 s = Some s1" "Q1 s s1" using is1(2) \<open>P s\<close> by blast
    obtain s2 where "effects is2 s1 = Some s2" "Q2 s1 s2" using is2(2) assms(3) \<open>P s\<close> s1(2) by blast
    then show ?thesis using s1 assms(4) \<open>P s\<close> by (auto simp: effects_append)
  qed
  with coded_append [OF is1(1) is2(1)] show ?thesis by (auto simp: does_def)
qed

lemma does_steps:
  assumes "does P bs Q" and "P s"
  shows "\<exists>s'. steps (pre @ bs @ post) (length pre, s) (length (pre @ bs), s') \<and> Q s s'"
  using assms steps_effects [of bs _ s _ pre post] unfolding does_def by blast

named_theorems does_intros "what the encoders' bytes do"

lemma does_mov_rr [does_intros]:
  "is_reg d \<Longrightarrow> is_reg r \<Longrightarrow> does always (emit_mov_rr d r) (\<lambda>s s'. s' = set_reg d (regs s r) s)"
proof (cases "d = r")
  case True
  then show ?thesis by (simp add: emit_mov_rr_def) (rule does_nothing, simp add: set_reg_def)
next
  case False
  assume "is_reg d" "is_reg r"
  with False encodes_asm [of "MovRR d r"] show ?thesis by (auto simp: emit_mov_rr_def intro: doesI)
qed

lemma does_mov_imm64 [does_intros]: "is_reg r \<Longrightarrow> does always (emit_mov_imm64 r v) (\<lambda>s s'. s' = set_reg r v s)"
  by (rule doesI [of _ "MovImm r v"]) (simp_all add: encodes_def decode_mov_imm64)

lemma does_mov_const [does_intros]: "is_reg r \<Longrightarrow> does always (emit_mov_const r v) (\<lambda>s s'. s' = set_reg r v s)"
  by (rule doesI [of _ "MovImm r v"]) (simp_all add: encodes_def decode_mov_const)

lemma does_load [does_intros]:
  "is_reg d \<Longrightarrow> is_reg b \<Longrightarrow>
     does always (emit_load d b disp) (\<lambda>s s'. s' = set_reg d (load64 (mem s) (regs s b + scast disp)) s)"
  using encodes_asm [of "Load d b disp"] by (auto simp: addr_of_def intro: doesI)

lemma does_store [does_intros]:
  "is_reg b \<Longrightarrow> is_reg r \<Longrightarrow>
     does always (emit_store b disp r) (\<lambda>s s'. s' = s\<lparr>mem := store64 (regs s b + scast disp) (regs s r) (mem s)\<rparr>)"
  using encodes_asm [of "Store b disp r"] by (auto simp: addr_of_def intro: doesI)

lemma does_load_rax_abs [does_intros]:
  "does always (emit_load_rax_abs a) (\<lambda>s s'. s' = set_reg RAX (load64 (mem s) a) s)"
  using encodes_asm [of "LoadRaxAbs a"] by (auto intro: doesI)

lemma does_alu_imm [does_intros]:
  "is_reg r \<Longrightarrow> does always (emit_alu_imm 0 r v) (\<lambda>s s'. s' = (set_reg r (regs s r + scast v) s)\<lparr>flg := add_flags (regs s r) (scast v)\<rparr>)"
  "is_reg r \<Longrightarrow> does always (emit_alu_imm 5 r v) (\<lambda>s s'. s' = (set_reg r (regs s r - scast v) s)\<lparr>flg := sub_flags (regs s r) (scast v)\<rparr>)"
  "is_reg r \<Longrightarrow> does always (emit_alu_imm 7 r v) (\<lambda>s s'. s' = s\<lparr>flg := sub_flags (regs s r) (scast v)\<rparr>)"
  using encodes_asm [of "AddImm r v"] encodes_asm [of "SubImm r v"] encodes_asm [of "CmpImm r v"]
  by (auto intro: doesI)

lemma does_alu_rr [does_intros]:
  assumes "is_reg d" "is_reg r"
  shows "does always (emit_add_rr d r) (\<lambda>s s'. s' = (set_reg d (regs s d + regs s r) s)\<lparr>flg := add_flags (regs s d) (regs s r)\<rparr>)"
    and "does always (emit_sub_rr d r) (\<lambda>s s'. s' = (set_reg d (regs s d - regs s r) s)\<lparr>flg := sub_flags (regs s d) (regs s r)\<rparr>)"
    and "does always (emit_cmp_rr d r) (\<lambda>s s'. s' = s\<lparr>flg := sub_flags (regs s d) (regs s r)\<rparr>)"
    and "does always (emit_test_rr d r) (\<lambda>s s'. s' = s\<lparr>flg := result_flags (regs s d AND regs s r) False\<rparr>)"
    and "does always (emit_imul_rr d r) (\<lambda>s s'. s' = (set_reg d (regs s d * regs s r) s)\<lparr>flg := None\<rparr>)"
  using assms encodes_asm [of "AddRR d r"] encodes_asm [of "SubRR d r"] encodes_asm [of "CmpRR d r"]
    encodes_asm [of "TestRR d r"] encodes_asm [of "ImulRR d r"]
  by (auto intro: doesI)

lemma does_mul_imm [does_intros]:
  assumes "is_reg r"
  shows "does always (emit_imul_imm r v) (\<lambda>s s'. s' = (set_reg r (regs s r * scast v) s)\<lparr>flg := None\<rparr>)"
    and "does always (emit_shl_imm r n) (\<lambda>s s'. s' = (set_reg r (push_bit (unat (n AND 63)) (regs s r)) s)\<lparr>flg := None\<rparr>)"
  using assms encodes_asm [of "ImulImm r r v"] encodes_asm [of "ShlImm r n"] by (auto intro: doesI)

lemma low_byte: "set_byte b x AND 0xFF = of_bool b"
proof -
  have byte: "(0xFF :: u64) = mask 8" by (simp add: mask_eq_exp_minus_1)
  show ?thesis
    unfolding set_byte_def byte by (rule bit_word_eqI) (cases b; auto simp: bit_simps)
qed

lemma does_setcc_zx [does_intros]:
  assumes "is_reg r" and "cc < 16"
  shows "does (\<lambda>s. flag_cc cc s \<noteq> None) (emit_setcc_zx cc r)
    (\<lambda>s s'. s' = set_reg r (of_bool (the (flag_cc cc s))) s)"
proof -
  have bytes: "emit_setcc_zx cc r = asm (SetCC cc r) @ asm (Movzx8 r r)"
    by (simp add: emit_setcc_zx_def)
  have "does (\<lambda>s. flag_cc cc s \<noteq> None) (asm (SetCC cc r))
      (\<lambda>s s'. s' = set_reg r (set_byte (the (flag_cc cc s)) (regs s r)) s)"
    by (rule doesI [OF encodes_asm]) (use assms in auto)
  moreover have "does always (asm (Movzx8 r r)) (\<lambda>s s'. s' = set_reg r (regs s r AND 0xFF) s)"
    by (rule doesI [OF encodes_asm]) (use assms in auto)
  ultimately show ?thesis
    unfolding bytes by (rule does_seq) (simp_all add: set_reg_def low_byte)
qed

section \<open>The operators\<close>

definition arith_ops :: "ctt set" where "arith_ops = {T_ADD, T_SUB, T_MUL, T_EQEQ, T_LESS, T_LESSEQ}"

definition compares :: "ctt \<Rightarrow> u64 \<Rightarrow> u64 \<Rightarrow> bool" where
  "compares t x y = (if t = T_LESS then sint x < sint y else if t = T_LESSEQ then sint x \<le> sint y else x = y)"

definition op_value :: "ctt \<Rightarrow> u64 \<Rightarrow> u64 \<Rightarrow> u64" where
  "op_value t x y =
     (if t = T_ADD then x + y else if t = T_SUB then x - y else if t = T_MUL then x * y else of_bool (compares t x y))"

lemma sint_diff: "\<exists>k. sint (a - b :: u64) = sint a - sint b + k * 2 ^ 64"
proof -
  have "word_of_int (sint (a - b)) = (word_of_int (sint a - sint b) :: u64)" by simp
  then have "take_bit LENGTH(64) (sint (a - b)) = take_bit LENGTH(64) (sint a - sint b)"
    by (simp only: word_of_int_eq_iff)
  then have "sint (a - b) mod 2 ^ 64 = (sint a - sint b) mod 2 ^ 64"
    by (simp only: take_bit_eq_mod len_num0 len_bit0 len_num1) simp
  then show ?thesis by (metis mod_eqE add_diff_cancel_left' diff_add_cancel mult.commute)
qed

lemma less_flags: "((sint (a - b :: u64) < 0) = (sint (a - b) = sint a - sint b)) = (sint a < sint b)"
proof -
  obtain k where k: "sint (a - b) = sint a - sint b + k * 2 ^ 64" using sint_diff by blast
  have range: "- (2 ^ 63) \<le> sint x" "sint x < 2 ^ 63" for x :: u64
    using sint_ge [of x] sint_lt [of x] by simp_all
  show ?thesis
    using k range [of a] range [of b] range [of "a - b"] by auto
qed

lemma less_flags_not: "((sint (a - b :: u64) < 0) = (sint (a - b) \<noteq> sint a - sint b)) = (\<not> sint a < sint b)"
  using less_flags [of a b] by blast

lemma compare_flags:
  assumes "is_compare t" and "flg s = sub_flags a b"
  shows "flag_cc (compare_cc t) s = Some (compares t a b)" and "flag_cc (compare_cc t XOR 1) s = Some (\<not> compares t a b)"
proof -
  have bits: "drop_bit 1 CC_L = 6" "drop_bit 1 CC_LE = 7" "drop_bit 1 CC_E = 2" "\<not> bit CC_L 0" "\<not> bit CC_LE 0" "\<not> bit CC_E 0"
      "drop_bit 1 (CC_L XOR 1) = 6" "drop_bit 1 (CC_LE XOR 1) = 7" "drop_bit 1 (CC_E XOR 1) = 2"
      "bit (CC_L XOR 1) 0" "bit (CC_LE XOR 1) 0" "bit (CC_E XOR 1) 0"
    by code_simp+
  have le: "sint a \<le> sint b \<longleftrightarrow> a = b \<or> sint a < sint b"
    by (metis order_le_less signed_word_eqI)
  have zero: "a - b = 0 \<longleftrightarrow> a = b" by simp
  show "flag_cc (compare_cc t) s = Some (compares t a b)"
    using assms unfolding is_compare_def
    by (elim disjE) (simp_all add: flag_cc_def sub_flags_def result_flags_def holds_cc_def compare_cc_def compares_def
        bits zero less_flags le Let_def del: not_less)
  show "flag_cc (compare_cc t XOR 1) s = Some (\<not> compares t a b)"
    using assms unfolding is_compare_def
    by (elim disjE) (simp_all add: flag_cc_def sub_flags_def result_flags_def holds_cc_def compare_cc_def compares_def
        bits zero less_flags_not le Let_def del: not_less)
qed

text \<open>A word with one bit set: the shift that the code finds is the exponent.\<close>

lemma power_of_two:
  assumes "0 < sint (imm :: u32)" and "imm AND (imm - 1) = 0"
  shows "\<exists>k < 31. unat imm = 2 ^ k"
proof -
  have "imm \<noteq> 0" using assms(1) by auto
  then have pos: "1 \<le> unat imm" by (simp add: unat_gt_0 Suc_leI)
  have small: "unat imm < 2 ^ 31"
  proof -
    have "sint imm = signed_take_bit 31 (uint imm)" by (simp add: sint_uint)
    with assms(1) have "\<not> bit (uint imm) 31" by (metis not_less_iff_gr_or_eq signed_take_bit_negative_iff)
    then have "\<not> bit (unat imm) 31" by (simp add: bit_unsigned_iff)
    then have "even (unat imm div 2 ^ 31)" by (simp add: bit_iff_odd)
    moreover have "unat imm < 2 * 2 ^ 31" by (rule order_less_le_trans [OF unsigned_less]) simp
    then have "unat imm div 2 ^ 31 < 2" by (rule less_mult_imp_div_less)
    ultimately have "unat imm div 2 ^ 31 = 0" by (metis even_iff_mod_2_eq_zero mod_less)
    then show ?thesis by (simp add: div_eq_0_iff)
  qed
  obtain k where k: "2 ^ k \<le> unat imm" "unat imm < 2 ^ (k + 1)"
    using ex_power_ivl1 [of 2 "unat imm"] pos by auto
  have "k < 31"
    using k(1) small by (metis le_less_trans power_less_imp_less_exp one_less_numeral_iff semiring_norm(76))
  moreover have "unat imm = 2 ^ k"
  proof (rule ccontr)
    assume "unat imm \<noteq> 2 ^ k"
    with k(1) have lt: "2 ^ k < unat imm" by simp
    have minus: "unat (imm - 1) = unat imm - 1" using pos by (simp add: unat_minus_one \<open>imm \<noteq> 0\<close>)
    have high: "bit n k" if "2 ^ k \<le> n" "n < 2 ^ (k + 1)" for n :: nat
    proof -
      have "n div 2 ^ k = 1" using that by (simp add: div_nat_eqI)
      then show ?thesis by (simp add: bit_iff_odd)
    qed
    have "bit (unat imm) k" by (rule high) (use k in simp_all)
    moreover have "bit (unat (imm - 1)) k"
      by (rule high) (use k lt minus in linarith)+
    ultimately have "bit imm k" "bit (imm - 1) k" by (simp_all add: bit_unsigned_iff)
    then have "bit (imm AND (imm - 1)) k" by (simp add: bit_and_iff)
    with assms(2) show False by simp
  qed
  ultimately show ?thesis by blast
qed

lemma shift_of_exp: "sh \<le> k \<Longrightarrow> k \<le> sh + n \<Longrightarrow> shift_of n sh (2 ^ k) = k"
  by (induction n arbitrary: sh) (auto simp: le_Suc_eq)

section \<open>Registers in use\<close>

text \<open>
  Code that computes into a register may change that register, and those of the pools that are not
  reserved; memory stays as it is.
\<close>

definition taken :: "gen \<Rightarrow> reg \<Rightarrow> bool" where
  "taken g r \<longleftrightarrow> fbusy (fn g) AND reg_bit r \<noteq> 0"

definition guarded :: "gen \<Rightarrow> reg \<Rightarrow> bool" where
  "guarded g r \<longleftrightarrow> taken g r \<or> r \<notin> set (pool_scratch @ pool_saved)"

definition frame :: "(reg \<Rightarrow> bool) \<Rightarrow> mach \<Rightarrow> mach \<Rightarrow> bool" where
  "frame K s s' \<longleftrightarrow> (\<forall>r. K r \<longrightarrow> regs s' r = regs s r) \<and> mem s' = mem s"

lemma frame_refl: "frame K s s"
  by (simp add: frame_def)

lemma frame_trans: "frame K s s1 \<Longrightarrow> frame K s1 s2 \<Longrightarrow> frame K s s2"
  by (simp add: frame_def)

lemma frame_mono: "frame K s s' \<Longrightarrow> (\<And>r. K' r \<Longrightarrow> K r) \<Longrightarrow> frame K' s s'"
  by (simp add: frame_def)

lemma frame_set: "\<not> K r \<Longrightarrow> frame K s (set_reg r v s)" "frame K s (s\<lparr>flg := f\<rparr>)"
  "\<not> K r \<Longrightarrow> frame K s ((set_reg r v s)\<lparr>flg := f\<rparr>)"
  by (auto simp: frame_def set_reg_def)

lemma frame_mem: "frame K s s' \<Longrightarrow> mem s' = mem s"
  by (simp add: frame_def)

lemma set_reg_simps [simp]:
  "regs (set_reg r v s) r = v" "q \<noteq> r \<Longrightarrow> regs (set_reg r v s) q = regs s q" "mem (set_reg r v s) = mem s"
  "flg (set_reg r v s) = flg s"
  by (simp_all add: set_reg_def)

lemma reg_bit_and: "a AND reg_bit r \<noteq> 0 \<longleftrightarrow> bit a (unat r)"
proof -
  have "a AND reg_bit r = (if bit a (unat r) then reg_bit r else 0)"
    unfolding reg_bit_def by (rule bit_word_eqI) (auto simp: bit_simps)
  moreover have "reg_bit r \<noteq> 0" if "bit a (unat r)"
  proof -
    have "unat r < 16" using bit_imp_le_length [OF that] by simp
    then have "bit (reg_bit r) (unat r)" by (simp add: reg_bit_def bit_simps)
    then show ?thesis by auto
  qed
  ultimately show ?thesis by auto
qed

lemma taken_or: "taken (g\<lparr>fn := (fn g)\<lparr>fbusy := fbusy (fn g) OR reg_bit r\<rparr>\<rparr>) q \<longleftrightarrow> taken g q \<or> (q = r \<and> unat r < 16)"
  unfolding taken_def reg_bit_and by (auto simp: reg_bit_def bit_simps intro: unsigned_word_eqI)

lemma taken_cong: "fbusy (fn g') = fbusy (fn g) \<Longrightarrow> taken g' = taken g"
  by (rule ext) (simp add: taken_def)

lemma pool_regs: "r \<in> set (pool_scratch @ pool_saved) \<Longrightarrow> is_reg r \<and> unat r < 16"
  by (auto simp: pool_scratch_def pool_saved_def is_reg_def)

lemma pools: "set pool_scratch \<subseteq> set (pool_scratch @ pool_saved)" "set pool_saved \<subseteq> set (pool_scratch @ pool_saved)"
  by simp_all

text \<open>A register that was picked: it was free, and now it is reserved.\<close>

lemma picked:
  assumes "reg_pick pool avoid g = Inr (r, g')" and "set pool \<subseteq> set (pool_scratch @ pool_saved)"
  shows "is_reg r" and "r \<in> set (pool_scratch @ pool_saved)" and "r \<noteq> avoid" and "\<not> taken g r"
    and "taken g' q \<longleftrightarrow> taken g q \<or> q = r" and "gcode g' = gcode g" and "git g' = git g" and "gscope g' = gscope g"
proof -
  have r: "r \<in> set pool" "r \<noteq> avoid" "\<not> taken g r" "g' = g\<lparr>fn := (fn g)\<lparr>fbusy := fbusy (fn g) OR reg_bit r\<rparr>\<rparr>"
    using assms(1) by (auto simp: reg_pick_def taken_def find_Some_iff split: option.splits)
  then have pool: "r \<in> set (pool_scratch @ pool_saved)" using assms(2) by blast
  then show "is_reg r" "r \<in> set (pool_scratch @ pool_saved)" "r \<noteq> avoid" "\<not> taken g r"
    using r pool_regs by auto
  show "taken g' q \<longleftrightarrow> taken g q \<or> q = r"
    using pool_regs [OF pool] by (simp add: r(4) taken_or)
  show "gcode g' = gcode g" "git g' = git g" "gscope g' = gscope g" by (simp_all add: r(4))
qed

lemma picked_scratch:
  assumes "pick_scratch avoid g = Inr (r, g')"
  shows "is_reg r" and "r \<in> set (pool_scratch @ pool_saved)" and "r \<noteq> avoid" and "\<not> taken g r"
    and "taken g' q \<longleftrightarrow> taken g q \<or> q = r" and "gcode g' = gcode g" and "git g' = git g" and "gscope g' = gscope g"
  by (fact picked [OF assms [unfolded pick_scratch_def] pools(1)])+

lemma picked_saved:
  assumes "pick_saved avoid g = Inr (r, g')"
  shows "is_reg r" and "r \<in> set (pool_scratch @ pool_saved)" and "r \<noteq> avoid" and "\<not> taken g r"
    and "taken g' q \<longleftrightarrow> taken g q \<or> q = r" and "gcode g' = gcode g" and "git g' = git g" and "gscope g' = gscope g"
proof -
  obtain g1 where g1: "reg_pick pool_saved avoid g = Inr (r, g1)"
      "g' = g1\<lparr>fn := (fn g1)\<lparr>cs_used := cs_used (fn g1) OR reg_bit r\<rparr>\<rparr>"
    using assms by (auto simp: pick_saved_def rbind_eq_Inr)
  note p = picked [OF g1(1) pools(2)]
  show "is_reg r" "r \<in> set (pool_scratch @ pool_saved)" "r \<noteq> avoid" "\<not> taken g r"
      "gcode g' = gcode g" "git g' = git g" "gscope g' = gscope g"
    using g1(2) by (simp_all only: p, simp_all add: p(6-8))
  show "taken g' q \<longleftrightarrow> taken g q \<or> q = r"
    using p(5) [of q] taken_cong [of g' g1] g1(2) by simp
qed

section \<open>The value of an expression\<close>

text \<open>
  What the nodes of an expression mean: a function of memory, from which variables are read.
  There is none for a name that is not known, nor for operators the code generator rejects.
\<close>

definition var_value_at :: "genv \<Rightarrow> nat \<Rightarrow> string \<Rightarrow> ((u64 \<Rightarrow> u8) \<Rightarrow> u64) option" where
  "var_value_at env sc name =
     (case varLookup (ge_sym env) name sc of Inr (Some i) \<Rightarrow> Some (\<lambda>m. load64 m (var_addr env i)) | _ \<Rightarrow> None)"

fun expr_value :: "genv \<Rightarrow> nat \<Rightarrow> expr \<Rightarrow> ((u64 \<Rightarrow> u8) \<Rightarrow> u64) option" where
  "expr_value env sc (Num v) = Some (\<lambda>_. v)"
| "expr_value env sc (Str i) = Some (\<lambda>_. data_addr env i)"
| "expr_value env sc (Name x) = var_value_at env sc x"
| "expr_value env sc This = var_value_at env sc ''$''"
| "expr_value env sc (Group e) = expr_value env sc e"
| "expr_value env sc (Bin t l r) =
     (if t \<in> arith_ops then
        (case (expr_value env sc l, expr_value env sc r) of
           (Some f, Some g) \<Rightarrow> Some (\<lambda>m. op_value t (f m) (g m))
         | _ \<Rightarrow> None)
      else None)"
| "expr_value env sc _ = None"

text \<open>The cells of an expression with a value: a leaf, or an operator with its operands.\<close>

definition leaf_cells :: "genv \<Rightarrow> nat \<Rightarrow> cell list \<Rightarrow> ((u64 \<Rightarrow> u8) \<Rightarrow> u64) \<Rightarrow> bool" where
  "leaf_cells env sc cs f \<longleftrightarrow>
     (\<exists>v. cs = [tk T_NUMBER, CPay (PVal v)] \<and> f = (\<lambda>_. v)) \<or>
     (\<exists>i. cs = [tk T_STRING, CPay (PVal i)] \<and> f = (\<lambda>_. data_addr env i)) \<or>
     (\<exists>x. cs = [tk N_VARIABLE, CPay (PStr x)] \<and> var_value_at env sc x = Some f) \<or>
     (cs = [tk T_THIS] \<and> var_value_at env sc ''$'' = Some f)"

lemma expr_cells:
  assumes "expr_value env sc e = Some f"
  shows "leaf_cells env sc (cells e) f \<or>
    (\<exists>t l r fl fr. cells e = tk t # cells l @ cells r \<and> t \<in> arith_ops \<and> expr_value env sc l = Some fl \<and>
       expr_value env sc r = Some fr \<and> f = (\<lambda>m. op_value t (fl m) (fr m)))"
  using assms
proof (induction e arbitrary: f)
  case (Bin t l r)
  then obtain fl fr where "t \<in> arith_ops" "expr_value env sc l = Some fl" "expr_value env sc r = Some fr"
      "f = (\<lambda>m. op_value t (fl m) (fr m))"
    by (auto split: if_splits option.splits)
  moreover from this have "t \<noteq> T_EQ" by (auto simp: arith_ops_def)
  ultimately show ?case by auto
qed (auto simp: leaf_cells_def)

lemma shape_Cons: "shape cs = tk t # ds \<longleftrightarrow> (\<exists>c l cs'. cs = CTok t c l # cs' \<and> shape cs' = ds)"
proof (cases cs)
  case (Cons x xs)
  then show ?thesis by (cases x) auto
qed simp

lemma shape_Pay: "shape cs = CPay p # ds \<longleftrightarrow> (\<exists>cs'. cs = CPay p # cs' \<and> shape cs' = ds)"
proof (cases cs)
  case (Cons x xs)
  then show ?thesis by (cases x) auto
qed simp

lemma shape_Nil: "shape cs = [] \<longleftrightarrow> cs = []"
  by (simp add: shape_def)

lemma shape_split: "shape cs = as @ bs \<Longrightarrow> \<exists>us ws. cs = us @ ws \<and> shape us = as \<and> shape ws = bs"
  unfolding shape_def by (auto simp: map_eq_append_conv)

lemmas shape_inv = shape_Cons shape_Pay shape_Nil

section \<open>The code of an expression\<close>

text \<open>What the generator's state is after it appended code for the nodes before \<open>rest\<close>.\<close>

definition used :: "gen \<Rightarrow> reg \<Rightarrow> bool" where
  "used g r \<longleftrightarrow> cs_used (fn g) AND reg_bit r \<noteq> 0"

definition appended :: "gen \<Rightarrow> cell list \<Rightarrow> bytes \<Rightarrow> gen \<Rightarrow> bool" where
  "appended g rest bs g' \<longleftrightarrow>
     git g' = rest \<and> gcode g' = gcode g @ bs \<and> gscope g' = gscope g \<and> grets g' = grets g \<and> grell g' = grell g \<and>
     taken g' = taken g \<and> fdepth (fn g') = fdepth (fn g) \<and> (\<forall>r. used g r \<longrightarrow> used g' r)"

text \<open>
  The registers that code which leads from \<open>g\<close> to \<open>g'\<close> leaves alone: those reserved before it, those
  outside of the pools, and saved registers not recorded as used.
\<close>

definition safe :: "gen \<Rightarrow> gen \<Rightarrow> reg \<Rightarrow> bool" where
  "safe g g' r \<longleftrightarrow> taken g r \<or> r \<notin> set (pool_scratch @ pool_saved) \<or> (r \<in> set pool_saved \<and> \<not> used g' r)"

definition evaluates :: "gen \<Rightarrow> gen \<Rightarrow> reg \<Rightarrow> ((u64 \<Rightarrow> u8) \<Rightarrow> u64) \<Rightarrow> bytes \<Rightarrow> bool" where
  "evaluates g g' treg f bs \<longleftrightarrow>
     does always bs (\<lambda>s s'. regs s' treg = f (mem s) \<and> frame (\<lambda>r. r \<noteq> treg \<and> safe g g' r) s s')"

definition expr_ok :: "genv \<Rightarrow> expr_fun \<Rightarrow> bool" where
  "expr_ok env rec \<longleftrightarrow>
     (\<forall>e f treg g cs rest c v g'.
        expr_value env (gscope g) e = Some f \<longrightarrow> git g = cs @ rest \<longrightarrow> shape cs = cells e \<longrightarrow> is_reg treg \<longrightarrow>
        guarded g treg \<longrightarrow> rec treg treg g = Inr (c, v, g') \<longrightarrow>
        c = 0 \<and> (\<exists>bs. appended g rest bs g' \<and> evaluates g g' treg f bs))"

lemma is_reg_not_any: "is_reg r \<Longrightarrow> r \<noteq> ANY"
  by (auto simp: is_reg_def)

text \<open>A leaf, with any register.\<close>

lemma leaf_code:
  assumes "leaf_cells env (gscope g) (shape cs) f" and "git g = cs @ rest" and "is_reg treg"
    and "codegen_expr (Suc n) env treg treg g = Inr (c, v, g')"
  shows "c = 0 \<and> (\<exists>bs. g' = emit bs (g\<lparr>git := rest\<rparr>) \<and>
    does always bs (\<lambda>s s'. regs s' treg = f (mem s) \<and> frame (\<lambda>r. r \<noteq> treg) s s'))"
proof -
  have any: "treg \<noteq> ANY" by (rule is_reg_not_any [OF assms(3)])
  have var: ?thesis
    if "leaf_address env (gscope g) (cs @ rest) = Inr (Some (addr, x))" "f = (\<lambda>m. load64 m addr)"
      "drop (if t = T_THIS then 1 else 2) (cs @ rest) = rest" "t = T_THIS \<or> t = N_VARIABLE" "cs @ rest = CTok t a b # ds" for addr x t a b ds
  proof -
    have code: "codegen_expr (Suc n) env treg treg g =
        Inr (0, x, if treg = RAX then emit (emit_load_rax_abs addr) (g\<lparr>git := rest\<rparr>)
                   else emit (emit_mov_imm64 treg addr @ emit_load treg treg 0) (g\<lparr>git := rest\<rparr>))"
      using that any assms(2) by (auto simp: getNode_def gen_node_def gen_variable_def Let_def)
    have "does always (emit_mov_imm64 treg addr @ emit_load treg treg 0)
        (\<lambda>s s'. regs s' treg = load64 (mem s) addr \<and> frame (\<lambda>r. r \<noteq> treg) s s')"
      by (rule does_seq [OF does_mov_imm64 does_load]) (use assms(3) in \<open>auto simp: frame_def\<close>)
    moreover have "does always (emit_load_rax_abs addr)
        (\<lambda>s s'. regs s' RAX = load64 (mem s) addr \<and> frame (\<lambda>r. r \<noteq> RAX) s s')"
      by (rule does_mono [OF does_load_rax_abs]) (auto simp: frame_def)
    ultimately show ?thesis
      using assms(4) code that(2) by (auto split: if_splits)
  qed
  show ?thesis
    using assms(1) unfolding leaf_cells_def
  proof (elim disjE exE conjE)
    fix w assume "shape cs = [tk T_NUMBER, CPay (PVal w)]" "f = (\<lambda>_. w)"
    moreover have "does always (emit_mov_const treg w) (\<lambda>s s'. regs s' treg = w \<and> frame (\<lambda>r. r \<noteq> treg) s s')"
      by (rule does_mono [OF does_mov_const [OF assms(3)]]) (auto simp: frame_def)
    ultimately show ?thesis
      using assms(2,4) by (auto simp: shape_inv getNode_def gen_node_def no_var_def getValue_def)
  next
    fix i assume "shape cs = [tk T_STRING, CPay (PVal i)]" "f = (\<lambda>_. data_addr env i)"
    moreover have "does always (emit_mov_imm64 treg w) (\<lambda>s s'. regs s' treg = w \<and> frame (\<lambda>r. r \<noteq> treg) s s')" for w
      by (rule does_mono [OF does_mov_imm64 [OF assms(3)]]) (auto simp: frame_def)
    ultimately show ?thesis
      using assms(2,4) by (auto simp: shape_inv getNode_def gen_node_def no_var_def getValue_def)
  next
    fix x assume x: "shape cs = [tk N_VARIABLE, CPay (PStr x)]" "var_value_at env (gscope g) x = Some f"
    then obtain i a b where "varLookup (ge_sym env) x (gscope g) = Inr (Some i)" "f = (\<lambda>m. load64 m (var_addr env i))"
        "cs = [CTok N_VARIABLE a b, CPay (PStr x)]"
      by (auto simp: var_value_at_def shape_inv split: sum.splits option.splits)
    then show ?thesis by (intro var [of "var_addr env i" "Some i" N_VARIABLE a b]) (simp_all add: leaf_address_def Let_def)
  next
    assume x: "shape cs = [tk T_THIS]" "var_value_at env (gscope g) ''$'' = Some f"
    then obtain i a b where "varLookup (ge_sym env) ''$'' (gscope g) = Inr (Some i)" "f = (\<lambda>m. load64 m (var_addr env i))"
        "cs = [CTok T_THIS a b]"
      by (auto simp: var_value_at_def shape_inv split: sum.splits option.splits)
    then show ?thesis by (intro var [of "var_addr env i" "Some i" T_THIS a b]) (simp_all add: leaf_address_def Let_def)
  qed
qed

lemma leaf_size_cells:
  assumes "leaf_cells env sc (shape cs) f"
  shows "leaf_size (cs @ rest) = Inr (length cs)" and "cs \<noteq> []"
  using assms by (auto simp: leaf_cells_def shape_inv leaf_size_def Let_def)

lemma leaf_size_op: "shape cs = tk t # ds \<Longrightarrow> t \<in> arith_ops \<Longrightarrow> leaf_size (cs @ rest) = Inr 0"
  by (auto simp: shape_inv leaf_size_def arith_ops_def Let_def)

lemma taken_free:
  assumes "\<And>q. taken g1 q \<longleftrightarrow> taken g q \<or> q = r" and "taken g2 = taken g1" and "\<not> taken g r"
  shows "taken (reg_free r g2) = taken g"
proof (rule ext)
  fix q
  have "taken (reg_free r g2) q \<longleftrightarrow> taken g2 q \<and> q \<noteq> r"
    unfolding taken_def reg_bit_and
    by (auto simp: reg_free_def reg_bit_def bit_simps dest: bit_imp_le_length intro: unsigned_word_eqI)
  with assms show "taken (reg_free r g2) q = taken g q" by auto
qed

lemma used_pick:
  "pick_scratch avoid g = Inr (r, g') \<Longrightarrow> used g' q = used g q"
  "pick_saved avoid g = Inr (r, g') \<Longrightarrow> used g' q \<longleftrightarrow> used g q \<or> (q = r \<and> unat r < 16)"
  unfolding used_def reg_bit_and
  by (auto simp: pick_scratch_def pick_saved_def reg_pick_def reg_bit_def bit_simps rbind_eq_Inr
      intro: unsigned_word_eqI split: option.splits)

lemma pick_fields:
  "pick_scratch avoid g = Inr (r, g') \<Longrightarrow> grets g' = grets g \<and> grell g' = grell g \<and> fdepth (fn g') = fdepth (fn g)"
  "pick_saved avoid g = Inr (r, g') \<Longrightarrow> grets g' = grets g \<and> grell g' = grell g \<and> fdepth (fn g') = fdepth (fn g)"
  by (auto simp: pick_scratch_def pick_saved_def reg_pick_def rbind_eq_Inr split: option.splits)

lemma free_fields [simp]:
  "grets (reg_free r g) = grets g" "grell (reg_free r g) = grell g" "fdepth (fn (reg_free r g)) = fdepth (fn g)"
  "gcode (reg_free r g) = gcode g" "gscope (reg_free r g) = gscope g" "used (reg_free r g) = used g"
  by (simp_all add: reg_free_def used_def fun_eq_iff)

lemma used_cong [simp]: "used (emit bs g) = used g" "used (g\<lparr>git := cs\<rparr>) = used g"
    "taken (emit bs g) = taken g" "taken (g\<lparr>git := cs\<rparr>) = taken g"
  by (simp_all add: used_def taken_def fun_eq_iff)

lemma pool_disjoint: "r \<in> set pool_scratch \<Longrightarrow> r \<notin> set pool_saved"
  by (auto simp: pool_scratch_def pool_saved_def)

lemma in_scratch: "pick_scratch avoid g = Inr (r, g') \<Longrightarrow> r \<in> set pool_scratch"
  by (auto simp: pick_scratch_def dest: reg_pick_holds(2))

lemma in_saved: "pick_saved avoid g = Inr (r, g') \<Longrightarrow> r \<in> set pool_saved"
  by (auto simp: pick_saved_def rbind_eq_Inr dest: reg_pick_holds(2))

text \<open>
  An operand next to the value of a register: what \<open>A\<close> and \<open>B\<close> make of the two values is in
  the register that is returned.
\<close>

lemma with_operand_code:
  fixes R :: "reg \<Rightarrow> u64 \<Rightarrow> u64 \<Rightarrow> (u64 \<Rightarrow> u8) \<Rightarrow> mach \<Rightarrow> bool"
  assumes rec: "rec = codegen_expr n env" and ok: "expr_ok env rec"
    and val: "expr_value env (gscope g) e = Some f" and git: "git g = cs @ rest" "shape cs = cells e"
    and treg: "is_reg treg" "guarded g treg"
    and A: "\<And>r. is_reg r \<Longrightarrow> r \<noteq> treg \<Longrightarrow>
      does always (A r) (\<lambda>s s'. R treg (regs s treg) (regs s r) (mem s) s' \<and> (\<forall>q. q \<noteq> treg \<longrightarrow> regs s' q = regs s q))"
    and B: "\<And>l. is_reg l \<Longrightarrow> l \<noteq> treg \<Longrightarrow>
      does always (B l) (\<lambda>s s'. R l (regs s l) (regs s treg) (mem s) s' \<and> (\<forall>q. q \<noteq> l \<and> q \<noteq> treg \<longrightarrow> regs s' q = regs s q))"
    and run: "with_operand rec treg (\<lambda>r g. Inr (emit (A r) g)) (\<lambda>l g. Inr (emit (B l) g)) g = Inr (r, g')"
  shows "\<exists>bs. appended g rest bs g' \<and> is_reg r \<and>
    does always bs (\<lambda>s s'. R r (regs s treg) (f (mem s)) (mem s) s' \<and>
      (\<forall>q. q \<noteq> treg \<and> safe g g' q \<longrightarrow> regs s' q = regs s q))"
proof (cases "leaf_cells env (gscope g) (shape cs) f")
  case leaf: True
  obtain p g1 g2 where g1: "pick_scratch treg g = Inr (p, g1)" "next_leaf rec p (length cs) g1 = Inr g2"
      "r = treg" "g' = reg_free p (emit (A p) g2)"
    using run leaf_size_cells(1) [OF leaf, of rest] leaf_size_cells(2) [OF leaf] git(1)
    by (auto simp: with_operand_def rbind_eq_Inr)
  note p = picked_scratch [OF g1(1)]
  obtain c v g3 where g3: "codegen_expr n env p p (g1\<lparr>git := cs\<rparr>) = Inr (c, v, g3)" "g2 = g3\<lparr>git := rest\<rparr>"
    using g1(2) git(1) p(7) rec by (auto simp: next_leaf_def gen_leaf_def rbind_eq_Inr)
  obtain n' where "n = Suc n'" using g3(1) by (cases n) auto
  with g3(1) leaf obtain bs where bs: "g3 = emit bs (g1\<lparr>git := []\<rparr>)"
      "does always bs (\<lambda>s s'. regs s' p = f (mem s) \<and> frame (\<lambda>r. r \<noteq> p) s s')"
    using leaf_code [of env "g1\<lparr>git := cs\<rparr>" cs f "[]" p n' c v g3] p(1,8) by auto
  have "appended g rest (bs @ A p) g'"
    using taken_free [of g1 g p "emit (A p) g2"] p pick_fields(1) [OF g1(1)] used_pick(1) [OF g1(1)]
    by (simp add: appended_def g1(4) g3(2) bs(1) free_fields(6) [THEN fun_cong])
  moreover have "does always (bs @ A p) (\<lambda>s s'. R treg (regs s treg) (f (mem s)) (mem s) s' \<and>
      (\<forall>q. q \<noteq> treg \<and> safe g g' q \<longrightarrow> regs s' q = regs s q))"
  proof (rule does_seq [OF bs(2) A [OF p(1,3)]])
    have "q \<noteq> p" if "safe g g' q" for q
      using that p(2,4) pool_disjoint [OF in_scratch [OF g1(1)]] by (auto simp: safe_def)
    then show "R treg (regs s treg) (f (mem s)) (mem s) s2 \<and> (\<forall>q. q \<noteq> treg \<and> safe g g' q \<longrightarrow> regs s2 q = regs s q)"
      if "regs s1 p = f (mem s) \<and> frame (\<lambda>r. r \<noteq> p) s s1"
        "R treg (regs s1 treg) (regs s1 p) (mem s1) s2 \<and> (\<forall>q. q \<noteq> treg \<longrightarrow> regs s2 q = regs s1 q)" for s s1 s2
      using that p(3) by (auto simp: frame_def)
  qed simp
  ultimately show ?thesis using g1(3) treg(1) by blast
next
  case False
  then obtain t l' r' where cells: "cells e = tk t # cells l' @ cells r'" "t \<in> arith_ops"
    using expr_cells [OF val] git(2) by auto
  obtain l g1 c v g2 where g1: "pick_saved treg g = Inr (l, g1)" "rec treg treg (emit (emit_mov_rr l treg) g1) = Inr (c, v, g2)"
      "r = l" "g' = reg_free l (emit (B l) g2)"
    using run leaf_size_op [of cs t "cells l' @ cells r'" rest] cells git
    by (auto simp: with_operand_def single_def rbind_eq_Inr split: if_splits)
  note p = picked_saved [OF g1(1)]
  let ?g1 = "emit (emit_mov_rr l treg) g1"
  have guard: "guarded ?g1 treg" using treg(2) p(5) by (auto simp: guarded_def)
  obtain bs where bs: "appended ?g1 rest bs g2" "evaluates ?g1 g2 treg f bs"
    using ok [unfolded expr_ok_def, rule_format, of ?g1 e f cs rest treg c v g2] val git p(7,8) treg(1) guard g1(2) by auto
  have used_l: "used g' l"
    using used_pick(2) [OF g1(1), of l] pool_regs [OF p(2)] bs(1) by (auto simp: appended_def g1(4))
  have "appended g rest (emit_mov_rr l treg @ bs @ B l) g'"
    using taken_free [of g1 g l "emit (B l) g2"] p pick_fields(2) [OF g1(1)] used_pick(2) [OF g1(1)] bs(1)
    by (auto simp: appended_def g1(4) reg_free_git)
  moreover have "does always (emit_mov_rr l treg @ bs @ B l) (\<lambda>s s'. R l (regs s treg) (f (mem s)) (mem s) s' \<and>
      (\<forall>q. q \<noteq> treg \<and> safe g g' q \<longrightarrow> regs s' q = regs s q))"
  proof (rule does_seq [OF does_mov_rr [OF p(1) treg(1)]
        does_seq [OF bs(2) [unfolded evaluates_def] B [OF p(1,3)], of "\<lambda>s s'. R l (regs s l) (f (mem s)) (mem s) s' \<and>
          (\<forall>q. q \<noteq> treg \<and> q \<noteq> l \<and> safe ?g1 g2 q \<longrightarrow> regs s' q = regs s q)"]])
    have "safe ?g1 g2 l" using p(5) by (simp add: safe_def)
    then show "R l (regs s l) (f (mem s)) (mem s) s2 \<and> (\<forall>q. q \<noteq> treg \<and> q \<noteq> l \<and> safe ?g1 g2 q \<longrightarrow> regs s2 q = regs s q)"
      if "regs s1 treg = f (mem s) \<and> frame (\<lambda>r. r \<noteq> treg \<and> safe ?g1 g2 r) s s1"
        "R l (regs s1 l) (regs s1 treg) (mem s1) s2 \<and> (\<forall>q. q \<noteq> l \<and> q \<noteq> treg \<longrightarrow> regs s2 q = regs s1 q)" for s s1 s2
      using that p(3) by (auto simp: frame_def)
    have "q \<noteq> l \<and> safe ?g1 g2 q" if "safe g g' q" for q
      using that p(2,4,5) used_l by (auto simp: safe_def g1(4))
    then show "R l (regs s treg) (f (mem s)) (mem s) s2 \<and> (\<forall>q. q \<noteq> treg \<and> safe g g' q \<longrightarrow> regs s2 q = regs s q)"
      if "s1 = set_reg l (regs s treg) s"
        "R l (regs s1 l) (f (mem s1)) (mem s1) s2 \<and> (\<forall>q. q \<noteq> treg \<and> q \<noteq> l \<and> safe ?g1 g2 q \<longrightarrow> regs s2 q = regs s1 q)" for s s1 s2
      using that by auto
  qed simp_all
  ultimately show ?thesis using g1(3) p(1) by blast
qed

text \<open>What the instruction for an operator leaves: the flags of a comparison, or the result.\<close>

definition op_left :: "ctt \<Rightarrow> reg \<Rightarrow> u64 \<Rightarrow> u64 \<Rightarrow> (u64 \<Rightarrow> u8) \<Rightarrow> mach \<Rightarrow> bool" where
  "op_left nt d x y m s' \<longleftrightarrow>
     mem s' = m \<and> (if is_compare nt then flg s' = sub_flags x y else regs s' d = op_value nt x y)"

definition rr_bytes :: "ctt \<Rightarrow> reg \<Rightarrow> reg \<Rightarrow> bytes" where
  "rr_bytes nt d r =
     (if is_compare nt then emit_cmp_rr d r else if nt = T_ADD then emit_add_rr d r
      else if nt = T_SUB then emit_sub_rr d r else emit_imul_rr d r)"

lemma gen_op_rr_eq: "nt \<in> arith_ops \<Longrightarrow> gen_op_rr nt d r g = Inr (emit (rr_bytes nt d r) g)"
  by (auto simp: arith_ops_def gen_op_rr_def rr_bytes_def is_compare_def gen_alu_rr_def)

lemma rr_bytes_does:
  assumes "nt \<in> arith_ops" and "is_reg d" and "is_reg r"
  shows "does always (rr_bytes nt d r)
    (\<lambda>s s'. op_left nt d (regs s d) (regs s r) (mem s) s' \<and> (\<forall>q. q \<noteq> d \<longrightarrow> regs s' q = regs s q))"
proof (cases "is_compare nt")
  case True
  then show ?thesis
    unfolding rr_bytes_def if_P [OF True] by (intro does_mono [OF does_alu_rr(3) [OF assms(2,3)]]) (simp add: op_left_def)
next
  case False
  then have "nt = T_ADD \<or> nt = T_SUB \<or> nt = T_MUL" using assms(1) by (auto simp: arith_ops_def is_compare_def)
  then show ?thesis
  proof (elim disjE)
    assume "nt = T_ADD"
    then show ?thesis
      using does_mono [OF does_alu_rr(1) [OF assms(2,3)]]
      by (simp add: rr_bytes_def is_compare_def op_left_def op_value_def)
  next
    assume "nt = T_SUB"
    then show ?thesis
      using does_mono [OF does_alu_rr(2) [OF assms(2,3)]]
      by (simp add: rr_bytes_def is_compare_def op_left_def op_value_def)
  next
    assume "nt = T_MUL"
    then show ?thesis
      using does_mono [OF does_alu_rr(5) [OF assms(2,3)]]
      by (simp add: rr_bytes_def is_compare_def op_left_def op_value_def)
  qed
qed

lemma signed_small: "0 \<le> k \<Longrightarrow> k < 2 ^ n \<Longrightarrow> signed_take_bit n k = (k :: int)"
  by (rule signed_take_bit_int_eq_self) (auto intro: order_trans [of _ 0])

lemma small_imm_value: "v \<le> INT32_MAX \<Longrightarrow> scast (ucast v :: u32) = (v :: u64)"
proof -
  assume "v \<le> INT32_MAX"
  then have v: "unat v < 2 ^ 31" by (simp add: INT32_MAX_def word_le_nat_alt)
  have "sint (ucast v :: u32) = signed_take_bit 31 (sint v)"
  proof -
    have "sint v = signed_take_bit 63 (uint v)" by (simp add: sint_uint)
    then show ?thesis by (simp add: signed_ucast_eq)
  qed
  moreover have u: "uint v < 2 ^ 31" using v by (simp add: uint_nat del: of_nat_unat)
  then have "sint v = uint v"
    by (simp add: sint_uint signed_small)
  ultimately have "sint (ucast v :: u32) = sint v" using u by (simp add: signed_small)
  then show ?thesis by (simp add: scast_eq)
qed

lemma shift_value: "k < 31 \<Longrightarrow> unat (imm :: u32) = 2 ^ k \<Longrightarrow> push_bit (unat (of_nat k AND 63 :: u8)) x = x * (scast imm :: u64)"
proof -
  assume k: "k < 31" "unat imm = 2 ^ k"
  have "list_all (\<lambda>k. unat (of_nat k AND 63 :: u8) = k) [0..<31]" by code_simp
  then have shift: "unat (of_nat k AND 63 :: u8) = k" using k(1) by (simp only: list_all_iff set_upt) simp
  have "(2::int) ^ k \<le> 2 ^ 30" using k(1) by (intro power_increasing) simp_all
  then have "uint imm < 2 ^ 31" using k(2) by (simp add: uint_nat del: of_nat_unat)
  then have "sint imm = 2 ^ k"
    using k(2) by (simp add: sint_uint signed_small) (simp add: uint_nat del: of_nat_unat)
  then have "scast imm = (2 ^ k :: u64)" by (simp add: scast_eq)
  then show ?thesis unfolding shift by (simp only: push_bit_eq_mult)
qed

text \<open>The instruction for a small constant on the right; there is none where the constant changes nothing.\<close>

definition imm_bytes :: "ctt \<Rightarrow> reg \<Rightarrow> u32 \<Rightarrow> bytes" where
  "imm_bytes nt d v =
     (if is_compare nt then emit_alu_imm 7 d v
      else if nt = T_ADD then (if v \<noteq> 0 then emit_alu_imm 0 d v else [])
      else if nt = T_SUB then (if v \<noteq> 0 then emit_alu_imm 5 d v else [])
      else if v = 1 then []
      else if 0 < sint v \<and> v AND (v - 1) = 0 then emit_shl_imm d (of_nat (shift_of 31 0 (unat v)))
      else emit_imul_imm d v)"

lemma emit_Nil: "emit [] g = g"
  by (simp add: emit_def)

lemma gen_op_imm_eq: "nt \<in> arith_ops \<Longrightarrow> gen_op_imm nt d v g = Inr (emit (imm_bytes nt d v) g)"
  by (auto simp: arith_ops_def gen_op_imm_def imm_bytes_def is_compare_def gen_alu_imm_def emit_Nil)

lemma imm_bytes_does:
  assumes "nt \<in> arith_ops" and "is_reg d"
  shows "does always (imm_bytes nt d v)
    (\<lambda>s s'. op_left nt d (regs s d) (scast v) (mem s) s' \<and> (\<forall>q. q \<noteq> d \<longrightarrow> regs s' q = regs s q))"
    (is "does always _ ?Q")
proof (cases "is_compare nt")
  case True
  then show ?thesis
    unfolding imm_bytes_def if_P [OF True] by (intro does_mono [OF does_alu_imm(3) [OF assms(2)]]) (simp add: op_left_def)
next
  case compare: False
  then consider "nt = T_ADD" | "nt = T_SUB" | "nt = T_MUL" using assms(1) by (auto simp: arith_ops_def is_compare_def)
  then show ?thesis
  proof cases
    case 1
    have "does always (emit_alu_imm 0 d v) ?Q"
      by (rule does_mono [OF does_alu_imm(1) [OF assms(2)]]) (simp add: 1 is_compare_def op_left_def op_value_def)
    moreover have "does always [] ?Q" if "v = 0"
      by (rule does_nothing) (simp add: that 1 is_compare_def op_left_def op_value_def)
    ultimately show ?thesis by (simp add: imm_bytes_def 1 is_compare_def)
  next
    case 2
    have "does always (emit_alu_imm 5 d v) ?Q"
      by (rule does_mono [OF does_alu_imm(2) [OF assms(2)]]) (simp add: 2 is_compare_def op_left_def op_value_def)
    moreover have "does always [] ?Q" if "v = 0"
      by (rule does_nothing) (simp add: that 2 is_compare_def op_left_def op_value_def)
    ultimately show ?thesis by (simp add: imm_bytes_def 2 is_compare_def)
  next
    case 3
    have left: "op_left nt d x y m s' \<longleftrightarrow> mem s' = m \<and> regs s' d = x * y" for x y m s'
      by (simp add: 3 is_compare_def op_left_def op_value_def)
    have "does always [] ?Q" if "v = 1"
      by (rule does_nothing) (simp add: that left)
    moreover have "does always (emit_shl_imm d (of_nat (shift_of 31 0 (unat v)))) ?Q"
      if pow: "0 < sint v" "v AND (v - 1) = 0"
    proof -
      obtain k where k: "k < 31" "unat v = 2 ^ k" using power_of_two [OF pow] by blast
      have "shift_of 31 0 (unat v) = k" unfolding k(2) by (rule shift_of_exp) (use k(1) in simp_all)
      then show ?thesis
        by (intro does_mono [OF does_mul_imm(2) [OF assms(2)]]) (simp add: left shift_value [OF k])
    qed
    moreover have "does always (emit_imul_imm d v) ?Q"
      by (rule does_mono [OF does_mul_imm(1) [OF assms(2)]]) (simp add: left)
    ultimately show ?thesis by (simp add: imm_bytes_def 3 is_compare_def)
  qed
qed

text \<open>The right operand: a small constant, or code for it.\<close>

lemma small_imm_Some:
  assumes "is_small_imm (cs @ rest) = Inr (Some v)" and "expr_value env sc e = Some f" and "shape cs = cells e"
  shows "\<exists>w a b. cs = [CTok T_NUMBER a b, CPay (PVal w)] \<and> f = (\<lambda>_. w) \<and> scast v = w"
proof -
  obtain t where t: "cell_token ((cs @ rest) ! 0) = Inr t" "t = T_NUMBER"
    using assms(1) by (auto simp: is_small_imm_def rbind_eq_Inr split: if_splits)
  have leaf: "leaf_cells env sc (shape cs) f"
    using expr_cells [OF assms(2)] t assms(3) by (auto simp: shape_inv arith_ops_def)
  then obtain w a b where w: "cs = [CTok T_NUMBER a b, CPay (PVal w)]" "f = (\<lambda>_. w)"
    using t by (auto simp: leaf_cells_def shape_inv)
  then show ?thesis
    using assms(1) by (auto simp: is_small_imm_def small_imm_value split: if_splits)
qed

lemma appended_trans: "appended g mid as g1 \<Longrightarrow> appended g1 rest bs g2 \<Longrightarrow> appended g rest (as @ bs) g2"
  by (simp add: appended_def)

lemma appended_emit: "appended g rest as g1 \<Longrightarrow> appended g rest (as @ bs) (emit bs g1)"
  by (simp add: appended_def)

lemma appended_guarded: "appended g rest bs g' \<Longrightarrow> guarded g' r = guarded g r"
  by (simp add: appended_def guarded_def)

lemma safe_parts:
  assumes "appended g mid as g1" and "appended g1 rest bs g2" and "safe g g2 q"
  shows "safe g g1 q" and "safe g1 g2 q"
  using assms by (auto simp: appended_def safe_def)

lemma gen_right_code:
  assumes rec: "rec = codegen_expr n env" and ok: "expr_ok env rec" and nt: "nt \<in> arith_ops"
    and val: "expr_value env (gscope g) e = Some f" and git: "git g = cs @ rest" "shape cs = cells e"
    and treg: "is_reg treg" "guarded g treg" and run: "gen_right rec nt treg g = Inr (r, g')"
  shows "\<exists>bs. appended g rest bs g' \<and> is_reg r \<and>
    does always bs (\<lambda>s s'. op_left nt r (regs s treg) (f (mem s)) (mem s) s' \<and>
      (\<forall>q. q \<noteq> treg \<and> safe g g' q \<longrightarrow> regs s' q = regs s q))"
proof -
  obtain imm where imm: "is_small_imm (cs @ rest) = Inr imm"
    using run git(1) by (auto simp: gen_right_def rbind_eq_Inr)
  show ?thesis
  proof (cases imm)
    case (Some v)
    obtain w a b where w: "cs = [CTok T_NUMBER a b, CPay (PVal w)]" "f = (\<lambda>_. w)" "scast v = w"
      using small_imm_Some [OF imm [unfolded Some] val git(2)] by blast
    have r: "r = treg" "g' = emit (imm_bytes nt treg v) (g\<lparr>git := rest\<rparr>)"
      using run imm git(1) Some w(1) by (auto simp: gen_right_def gen_op_imm_eq [OF nt])
    have "appended g rest (imm_bytes nt treg v) g'" by (simp add: appended_def r(2))
    moreover have "does always (imm_bytes nt treg v) (\<lambda>s s'. op_left nt treg (regs s treg) (f (mem s)) (mem s) s' \<and>
        (\<forall>q. q \<noteq> treg \<and> safe g g' q \<longrightarrow> regs s' q = regs s q))"
      by (rule does_mono [OF imm_bytes_does [OF nt treg(1)]]) (simp add: w(2,3))
    ultimately show ?thesis using r(1) treg(1) by blast
  next
    case None
    have "with_operand rec treg (\<lambda>r g. Inr (emit (rr_bytes nt treg r) g)) (\<lambda>l g. Inr (emit (rr_bytes nt l treg) g)) g = Inr (r, g')"
      using run imm git(1) None by (simp add: gen_right_def gen_op_rr_eq [OF nt, abs_def])
    then show ?thesis
      by (intro with_operand_code [OF rec ok val git treg, where R = "op_left nt"])
        (use nt treg(1) in \<open>auto intro: does_mono [OF rr_bytes_does]\<close>)
  qed
qed

text \<open>Two operands and the instruction for them: the flags of a comparison, or a result in a register.\<close>

lemma operands_code:
  assumes rec: "rec = codegen_expr n env" and ok: "expr_ok env rec" and nt: "nt \<in> arith_ops"
    and vals: "expr_value env (gscope g) l = Some fl" "expr_value env (gscope g) r = Some fr"
    and git: "git g = us @ ws @ rest" "shape us = cells l" "shape ws = cells r"
    and treg: "is_reg treg" "guarded g treg"
    and run: "single rec treg treg g = Inr g1" "gen_right rec nt treg g1 = Inr (d, g2)"
  shows "\<exists>bs. appended g rest bs g2 \<and> is_reg d \<and>
    does always bs (\<lambda>s s'. op_left nt d (fl (mem s)) (fr (mem s)) (mem s) s' \<and>
      (\<forall>q. q \<noteq> treg \<and> safe g g2 q \<longrightarrow> regs s' q = regs s q))"
proof -
  obtain c v where "rec treg treg g = Inr (c, v, g1)"
    using run(1) by (auto simp: single_def rbind_eq_Inr split: if_splits)
  then obtain as where as: "appended g (ws @ rest) as g1" "evaluates g g1 treg fl as"
    using ok [unfolded expr_ok_def, rule_format, of g l fl us "ws @ rest" treg c v g1] vals(1) git treg by auto
  then have g1: "git g1 = ws @ rest" "expr_value env (gscope g1) r = Some fr" "guarded g1 treg"
    using vals(2) treg(2) appended_guarded [OF as(1)] by (simp_all add: appended_def)
  then obtain bs where bs: "appended g1 rest bs g2" "is_reg d"
      "does always bs (\<lambda>s s'. op_left nt d (regs s treg) (fr (mem s)) (mem s) s' \<and>
        (\<forall>q. q \<noteq> treg \<and> safe g1 g2 q \<longrightarrow> regs s' q = regs s q))"
    using gen_right_code [OF rec ok nt g1(2,1) git(3) treg(1) g1(3) run(2)] by blast
  have "does always (as @ bs) (\<lambda>s s'. op_left nt d (fl (mem s)) (fr (mem s)) (mem s) s' \<and>
      (\<forall>q. q \<noteq> treg \<and> safe g g2 q \<longrightarrow> regs s' q = regs s q))"
    by (rule does_seq [OF as(2) [unfolded evaluates_def] bs(3)])
      (simp_all add: frame_def safe_parts [OF as(1) bs(1)])
  then show ?thesis using appended_trans [OF as(1) bs(1)] bs(2) by blast
qed

lemma compare_cc_byte: "compare_cc t < 16" "compare_cc t XOR 1 < 16"
proof -
  have "compare_cc t \<in> {CC_L, CC_LE, CC_E}" by (simp add: compare_cc_def)
  moreover have "list_all (\<lambda>c. c < 16 \<and> c XOR 1 < 16) [CC_L, CC_LE, CC_E]" by code_simp
  ultimately show "compare_cc t < 16" "compare_cc t XOR 1 < 16" by auto
qed

lemma op_value_compare: "nt \<in> arith_ops \<Longrightarrow> is_compare nt \<Longrightarrow> op_value nt x y = of_bool (compares nt x y)"
  by (auto simp: op_value_def is_compare_def)

lemma gen_binary_code:
  assumes rec: "rec = codegen_expr n env" and ok: "expr_ok env rec" and nt: "nt \<in> arith_ops"
    and vals: "expr_value env (gscope g) l = Some fl" "expr_value env (gscope g) r = Some fr"
    and git: "git g = us @ ws @ rest" "shape us = cells l" "shape ws = cells r"
    and treg: "is_reg treg" "guarded g treg"
    and run: "gen_binary rec nt treg False g = Inr (cc, g')"
  shows "\<exists>bs. appended g rest bs g' \<and> evaluates g g' treg (\<lambda>m. op_value nt (fl m) (fr m)) bs"
proof -
  obtain g1 d g2 where g1: "single rec treg treg g = Inr g1" "gen_right rec nt treg g1 = Inr (d, g2)"
      "g' = emit (if is_compare nt then emit_setcc_zx (compare_cc nt) treg else emit_mov_rr treg d) g2"
    using run by (auto simp: gen_binary_def rbind_eq_Inr split: if_splits)
  obtain bs where bs: "appended g rest bs g2" "is_reg d"
      "does always bs (\<lambda>s s'. op_left nt d (fl (mem s)) (fr (mem s)) (mem s) s' \<and>
        (\<forall>q. q \<noteq> treg \<and> safe g g2 q \<longrightarrow> regs s' q = regs s q))"
    using operands_code [OF rec ok nt vals git treg g1(1,2)] by blast
  have safe: "safe g g' = safe g g2" by (simp add: fun_eq_iff safe_def g1(3))
  let ?f = "\<lambda>m. op_value nt (fl m) (fr m)"
  have "does always (bs @ (if is_compare nt then emit_setcc_zx (compare_cc nt) treg else emit_mov_rr treg d))
      (\<lambda>s s'. regs s' treg = ?f (mem s) \<and> frame (\<lambda>r. r \<noteq> treg \<and> safe g g' r) s s')"
  proof (cases "is_compare nt")
    case True
    have flags: "flag_cc (compare_cc nt) s1 = Some (compares nt x y)" if "op_left nt d x y m s1" for x y m s1
      using that True by (intro compare_flags(1) [OF True]) (simp add: op_left_def)
    show ?thesis
      unfolding if_P [OF True]
      by (rule does_seq [OF bs(3) does_setcc_zx [OF treg(1) compare_cc_byte(1)]])
        (auto simp: flags frame_def safe op_value_compare [OF nt True] op_left_def dest!: flags)
  next
    case False
    show ?thesis
      unfolding if_not_P [OF False]
      by (rule does_seq [OF bs(3) does_mov_rr [OF treg(1) bs(2)]])
        (auto simp: frame_def safe op_left_def False)
  qed
  with appended_emit [OF bs(1)] show ?thesis
    unfolding evaluates_def g1(3) by blast
qed

lemma codegen_expr_value: "expr_ok env (codegen_expr n env)"
proof (induction n)
  case 0
  show ?case by (simp add: expr_ok_def)
next
  case (Suc n)
  have "c = 0 \<and> (\<exists>bs. appended g rest bs g' \<and> evaluates g g' treg f bs)"
    if val: "expr_value env (gscope g) e = Some f" and git: "git g = cs @ rest" "shape cs = cells e"
      and treg: "is_reg treg" "guarded g treg" and run: "codegen_expr (Suc n) env treg treg g = Inr (c, v, g')"
    for e f treg g cs rest c v g'
    using expr_cells [OF val]
  proof
    assume "leaf_cells env (gscope g) (cells e) f"
    then obtain bs where bs: "c = 0" "g' = emit bs (g\<lparr>git := rest\<rparr>)"
        "does always bs (\<lambda>s s'. regs s' treg = f (mem s) \<and> frame (\<lambda>r. r \<noteq> treg) s s')"
      using leaf_code [of env g cs f rest treg n c v g'] git treg(1) run by auto
    have "appended g rest bs g'" by (simp add: appended_def bs(2))
    moreover have "evaluates g g' treg f bs"
      unfolding evaluates_def by (rule does_mono [OF bs(3)]) (auto simp: frame_def)
    ultimately show ?thesis using bs(1) by blast
  next
    assume "\<exists>t l r fl fr. cells e = tk t # cells l @ cells r \<and> t \<in> arith_ops \<and> expr_value env (gscope g) l = Some fl \<and>
       expr_value env (gscope g) r = Some fr \<and> f = (\<lambda>m. op_value t (fl m) (fr m))"
    then obtain t l r fl fr where e: "cells e = tk t # cells l @ cells r" "t \<in> arith_ops"
        "expr_value env (gscope g) l = Some fl" "expr_value env (gscope g) r = Some fr" "f = (\<lambda>m. op_value t (fl m) (fr m))"
      by blast
    obtain a b ds where ds: "cs = CTok t a b # ds" "shape ds = cells l @ cells r"
      using git(2) e(1) by (auto simp: shape_inv)
    obtain us ws where us: "ds = us @ ws" "shape us = cells l" "shape ws = cells r"
      using shape_split [OF ds(2)] by blast
    let ?g = "g\<lparr>git := us @ ws @ rest\<rparr>"
    have "codegen_expr (Suc n) env treg treg g =
        no_var (rbind (gen_binary (codegen_expr n env) t treg False ?g) (\<lambda>(_, g). Inr g))"
      using e(2) git(1) ds(1) us(1) by (auto simp: arith_ops_def getNode_def gen_node_def)
    from run [unfolded this]
    obtain cc where bin: "gen_binary (codegen_expr n env) t treg False ?g = Inr (cc, g')" "c = 0"
      by (auto simp: no_var_def rbind_eq_Inr)
    have "guarded ?g treg" using treg(2) by (simp add: guarded_def)
    then obtain bs where "appended ?g rest bs g'" "evaluates ?g g' treg f bs"
      using gen_binary_code [OF HOL.refl Suc.IH e(2) _ _ _ us(2,3) treg(1) _ bin(1), of fl fr rest] e by auto
    moreover have "safe ?g g' = safe g g'" by (simp add: fun_eq_iff safe_def)
    ultimately have "appended g rest bs g'" "evaluates g g' treg f bs"
      by (simp_all add: appended_def evaluates_def)
    with bin(2) show ?thesis by blast
  qed
  then show ?case unfolding expr_ok_def by blast
qed

section \<open>Which expressions are translated\<close>

text \<open>
  A right operand that is not a leaf holds a saved register while it is computed. How many an
  expression needs, and how many are free.
\<close>

fun is_leaf :: "expr \<Rightarrow> bool" where
  "is_leaf (Group e) = is_leaf e"
| "is_leaf (Bin t l r) = False"
| "is_leaf _ = True"

fun saves_needed :: "expr \<Rightarrow> nat" where
  "saves_needed (Group e) = saves_needed e"
| "saves_needed (Bin t l r) = max (saves_needed l) (if is_leaf r then 0 else Suc (saves_needed r))"
| "saves_needed _ = 0"

fun height :: "expr \<Rightarrow> nat" where
  "height (Group e) = height e"
| "height (Bin t l r) = Suc (max (height l) (height r))"
| "height _ = 0"

definition free_saved :: "gen \<Rightarrow> nat" where
  "free_saved g = card {r \<in> set pool_saved. \<not> taken g r}"

definition scratch_free :: "gen \<Rightarrow> reg \<Rightarrow> bool" where
  "scratch_free g treg \<longleftrightarrow> (\<exists>r \<in> set pool_scratch. r \<noteq> treg \<and> \<not> taken g r)"

lemma reg_pick_total:
  "(\<exists>r \<in> set pool. r \<noteq> avoid \<and> \<not> taken g r) \<Longrightarrow> \<exists>r g'. reg_pick pool avoid g = Inr (r, g')"
  "\<not> (\<exists>r \<in> set pool. r \<noteq> avoid \<and> \<not> taken g r) \<Longrightarrow> reg_pick pool avoid g = Inl (Exit 1)"
  unfolding reg_pick_def taken_def
  by (auto simp: find_None_iff split: option.splits)

lemma guarded_not_free: "guarded g treg \<Longrightarrow> r \<in> set pool_saved \<Longrightarrow> \<not> taken g r \<Longrightarrow> r \<noteq> treg"
  by (auto simp: guarded_def)

lemma pick_saved_total:
  assumes "guarded g treg"
  shows "0 < free_saved g \<Longrightarrow> \<exists>l g'. pick_saved treg g = Inr (l, g') \<and> free_saved g = Suc (free_saved g')"
    and "free_saved g = 0 \<Longrightarrow> pick_saved treg g = Inl (Exit 1)"
proof -
  assume "0 < free_saved g"
  then have "{r \<in> set pool_saved. \<not> taken g r} \<noteq> {}" by (metis card.empty free_saved_def less_irrefl)
  then obtain l g1 where "reg_pick pool_saved treg g = Inr (l, g1)"
    using reg_pick_total(1) [of pool_saved treg g] guarded_not_free [OF assms] by blast
  then obtain g' where g': "pick_saved treg g = Inr (l, g')" by (simp add: pick_saved_def)
  note p = picked_saved [OF g']
  have "{r \<in> set pool_saved. \<not> taken g r} = insert l {r \<in> set pool_saved. \<not> taken g' r}"
    using p(4,5) in_saved [OF g'] by blast
  then have "free_saved g = Suc (free_saved g')"
    using p(5) [of l] by (simp add: free_saved_def)
  with g' show "\<exists>l g'. pick_saved treg g = Inr (l, g') \<and> free_saved g = Suc (free_saved g')" by blast
next
  assume "free_saved g = 0"
  then have "{r \<in> set pool_saved. \<not> taken g r} = {}" by (simp add: free_saved_def)
  then show "pick_saved treg g = Inl (Exit 1)"
    using reg_pick_total(2) [of pool_saved treg g] by (auto simp: pick_saved_def)
qed

lemma is_leaf_cells:
  assumes "expr_value env sc e = Some f"
  shows "is_leaf e \<Longrightarrow> leaf_cells env sc (cells e) f"
    and "\<not> is_leaf e \<Longrightarrow> \<exists>t l r. cells e = tk t # cells l @ cells r \<and> t \<in> arith_ops"
  using assms
proof (induction e arbitrary: f)
  case (Bin t l r)
  { case 2
    then have "t \<in> arith_ops" by (auto split: if_splits)
    moreover from this have "t \<noteq> T_EQ" by (auto simp: arith_ops_def)
    ultimately show ?case by auto }
qed (auto simp: leaf_cells_def)

lemma small_imm_total:
  assumes "shape cs = cells e" and "expr_value env sc e = Some f"
  shows "\<exists>imm. is_small_imm (cs @ rest) = Inr imm \<and> (imm \<noteq> None \<longrightarrow> is_leaf e)"
proof (cases "is_leaf e")
  case True
  show ?thesis
    using is_leaf_cells(1) [OF assms(2) True] True unfolding assms(1) [symmetric]
    by (auto simp: leaf_cells_def shape_inv is_small_imm_def)
next
  case False
  show ?thesis
    using is_leaf_cells(2) [OF assms(2) False] unfolding assms(1) [symmetric]
    by (auto simp: shape_inv is_small_imm_def arith_ops_def)
qed

lemma var_value_at_Some:
  "var_value_at env sc x = Some f \<longleftrightarrow> (\<exists>i. varLookup (ge_sym env) x sc = Inr (Some i) \<and> f = (\<lambda>m. load64 m (var_addr env i)))"
  by (auto simp: var_value_at_def split: sum.splits option.splits)

lemma leaf_total:
  assumes "leaf_cells env (gscope g) (shape cs) f" and "git g = cs @ rest" and "is_reg treg"
  shows "\<exists>v g'. codegen_expr (Suc n) env treg treg g = Inr (0, v, g')"
  using assms(1,2) is_reg_not_any [OF assms(3)]
  unfolding leaf_cells_def var_value_at_Some
  by (elim disjE exE conjE)
    (auto simp: shape_inv getNode_def gen_node_def getValue_def no_var_def gen_variable_def leaf_address_def Let_def)

lemma with_operand_leaf:
  assumes "leaf_cells env (gscope g) (shape cs) f" and "git g = cs @ rest" and "scratch_free g treg"
  shows "\<exists>r g'. with_operand (codegen_expr (Suc n) env) treg (\<lambda>r g. Inr (emit (A r) g)) B g = Inr (r, g')"
proof -
  obtain p g1 where g1: "pick_scratch treg g = Inr (p, g1)"
    using reg_pick_total(1) [of pool_scratch treg g] assms(3) by (auto simp: pick_scratch_def scratch_free_def)
  note p = picked_scratch [OF g1]
  obtain v g2 where "codegen_expr (Suc n) env p p (g1\<lparr>git := cs\<rparr>) = Inr (0, v, g2)"
    using leaf_total [of env "g1\<lparr>git := cs\<rparr>" cs f "[]" p n] assms(1) p(1,8) by auto
  moreover have "leaf_size (git g) = Inr (length cs)" "length cs \<noteq> 0"
    using leaf_size_cells(1) [OF assms(1), of rest] leaf_size_cells(2) [OF assms(1)] assms(2) by simp_all
  ultimately show ?thesis
    using g1 p(7) assms(2) by (simp add: with_operand_def next_leaf_def gen_leaf_def del: codegen_expr.simps)
qed

lemma with_operand_deep:
  assumes "\<not> is_leaf e" and "expr_value env (gscope g) e = Some f" and "git g = cs @ rest" and "shape cs = cells e"
    and "guarded g treg" and "scratch_free g treg"
    and IH: "\<And>g1. git g1 = cs @ rest \<Longrightarrow> gscope g1 = gscope g \<Longrightarrow> guarded g1 treg \<Longrightarrow> scratch_free g1 treg \<Longrightarrow>
      if needed \<le> free_saved g1 then \<exists>v g'. rec treg treg g1 = Inr (0, v, g') else rec treg treg g1 = Inl (Exit 1)"
  shows "if Suc needed \<le> free_saved g
    then \<exists>r g'. with_operand rec treg A (\<lambda>l g. Inr (emit (B l) g)) g = Inr (r, g')
    else with_operand rec treg A (\<lambda>l g. Inr (emit (B l) g)) g = Inl (Exit 1)"
proof (cases "free_saved g")
  case 0
  obtain t l r where "cells e = tk t # cells l @ cells r" "t \<in> arith_ops"
    using is_leaf_cells(2) [OF assms(2,1)] by blast
  then have "leaf_size (git g) = Inr 0" using leaf_size_op [of cs t _ rest] assms(3,4) by simp
  with 0 pick_saved_total(2) [OF assms(5)] show ?thesis by (simp add: with_operand_def)
next
  case (Suc k)
  obtain t l r where "cells e = tk t # cells l @ cells r" "t \<in> arith_ops"
    using is_leaf_cells(2) [OF assms(2,1)] by blast
  then have sz: "leaf_size (git g) = Inr 0" using leaf_size_op [of cs t _ rest] assms(3,4) by simp
  obtain l g1 where g1: "pick_saved treg g = Inr (l, g1)" "free_saved g = Suc (free_saved g1)"
    using pick_saved_total(1) [OF assms(5)] Suc by auto
  note p = picked_saved [OF g1(1)]
  let ?g = "emit (emit_mov_rr l treg) g1"
  have free: "free_saved ?g = free_saved g1" by (simp add: free_saved_def)
  have "guarded ?g treg" using assms(5) p(5) by (auto simp: guarded_def)
  moreover have "scratch_free ?g treg"
    using assms(6) p(5) in_saved [OF g1(1)] pool_disjoint by (fastforce simp: scratch_free_def)
  ultimately have "if needed \<le> free_saved g1 then \<exists>v g'. rec treg treg ?g = Inr (0, v, g') else rec treg treg ?g = Inl (Exit 1)"
    using IH [of ?g] p(7,8) assms(3) free by simp
  then show ?thesis
    using sz g1 by (auto simp: with_operand_def single_def split: if_splits)
qed

text \<open>Enough depth is one call more than the height of the tree.\<close>

lemma codegen_expr_total:
  assumes "expr_value env (gscope g) e = Some f" and "git g = cs @ rest" and "shape cs = cells e" and "is_reg treg"
    and "guarded g treg" and "scratch_free g treg" and "height e < n"
  shows "if saves_needed e \<le> free_saved g then \<exists>v g'. codegen_expr n env treg treg g = Inr (0, v, g')
    else codegen_expr n env treg treg g = Inl (Exit 1)"
  using assms
proof (induction e arbitrary: f g cs rest n)
  case (Bin t l r)
  obtain fl fr where vals: "t \<in> arith_ops" "expr_value env (gscope g) l = Some fl" "expr_value env (gscope g) r = Some fr"
    using Bin.prems(1) by (auto split: if_splits option.splits)
  have "t \<noteq> T_EQ" using vals(1) by (auto simp: arith_ops_def)
  then obtain a b ds where ds: "cs = CTok t a b # ds" "shape ds = cells l @ cells r"
    using Bin.prems(3) by (auto simp: shape_inv)
  obtain us ws where us: "ds = us @ ws" "shape us = cells l" "shape ws = cells r"
    using shape_split [OF ds(2)] by blast
  obtain m where m: "n = Suc (Suc m)" "height l < Suc m" "height r < Suc m"
    using Bin.prems(7) by (cases n; cases "n - 1") auto
  let ?g = "g\<lparr>git := us @ ws @ rest\<rparr>" and ?rec = "codegen_expr (Suc m) env"
  have code: "codegen_expr n env treg treg g = no_var (rbind (gen_binary ?rec t treg False ?g) (\<lambda>(_, g). Inr g))"
    using vals(1) Bin.prems(2) ds(1) us(1) unfolding m(1) codegen_expr.simps(2) [of "Suc m"]
    by (auto simp: arith_ops_def getNode_def gen_node_def simp del: codegen_expr.simps)
  have left: "if saves_needed l \<le> free_saved g then \<exists>v g'. ?rec treg treg ?g = Inr (0, v, g') else ?rec treg treg ?g = Inl (Exit 1)"
    using Bin.IH(1) [of ?g fl us "ws @ rest" "Suc m"] vals(2) us(2) Bin.prems(4-6) m(2)
    by (simp add: free_saved_def guarded_def scratch_free_def del: codegen_expr.simps)
  show ?case
  proof (cases "saves_needed l \<le> free_saved g")
    case False
    then show ?thesis using left code by (simp add: gen_binary_def single_def no_var_def del: codegen_expr.simps)
  next
    case True
    then obtain v g1 where g1: "?rec treg treg ?g = Inr (0, v, g1)" using left by auto
    have "guarded ?g treg" using Bin.prems(5) by (simp add: guarded_def)
    then obtain as where "appended ?g (ws @ rest) as g1"
      using codegen_expr_value [of env "Suc m", unfolded expr_ok_def, rule_format, of ?g l fl us "ws @ rest" treg 0 v g1]
        vals(2) us(2) Bin.prems(4) g1 by auto
    then have k: "git g1 = ws @ rest" "gscope g1 = gscope g" "taken g1 = taken g"
      by (simp_all add: appended_def)
    have g1_ok: "guarded g1 treg" "scratch_free g1 treg" "free_saved g1 = free_saved g"
      using Bin.prems(5,6) k(3) by (simp_all add: guarded_def scratch_free_def free_saved_def)
    obtain imm where imm: "is_small_imm (ws @ rest) = Inr imm" "imm \<noteq> None \<longrightarrow> is_leaf r"
      using small_imm_total [OF us(3) vals(3)] by blast
    have right: "if is_leaf r \<or> Suc (saves_needed r) \<le> free_saved g
        then \<exists>d g2. gen_right ?rec t treg g1 = Inr (d, g2) else gen_right ?rec t treg g1 = Inl (Exit 1)"
    proof (cases imm)
      case (Some i)
      then show ?thesis
        using imm k(1) by (simp add: gen_right_def gen_op_imm_eq [OF vals(1)] del: codegen_expr.simps)
    next
      case None
      have wo: "gen_right ?rec t treg g1 =
          with_operand ?rec treg (\<lambda>r g. Inr (emit (rr_bytes t treg r) g)) (\<lambda>l g. Inr (emit (rr_bytes t l treg) g)) g1"
        using imm(1) k(1) None by (simp add: gen_right_def gen_op_rr_eq [OF vals(1), abs_def] del: codegen_expr.simps)
      show ?thesis
      proof (cases "is_leaf r")
        case True
        then show ?thesis
          unfolding wo using with_operand_leaf [of env g1 ws fr rest treg m] is_leaf_cells(1) [OF vals(3)] us(3) k g1_ok(2)
          by (simp del: codegen_expr.simps)
      next
        case deep: False
        have "if saves_needed r \<le> free_saved g' then \<exists>v g''. ?rec treg treg g' = Inr (0, v, g'') else ?rec treg treg g' = Inl (Exit 1)"
          if "git g' = ws @ rest" "gscope g' = gscope g1" "guarded g' treg" "scratch_free g' treg" for g'
          using Bin.IH(2) [of g' fr ws rest "Suc m"] that vals(3) us(3) Bin.prems(4) m(3) k(2) by (simp del: codegen_expr.simps)
        then show ?thesis
          unfolding wo
          using with_operand_deep [of r env g1 fr ws rest treg "saves_needed r" ?rec] deep vals(3) us(3) k(1,2) g1_ok
          by (simp del: codegen_expr.simps)
      qed
    qed
    have "gen_binary ?rec t treg False ?g = rbind (gen_right ?rec t treg g1) (\<lambda>(d, g).
        Inr (0, emit (if is_compare t then emit_setcc_zx (compare_cc t) treg else emit_mov_rr treg d) g))"
      using g1 by (cases "is_compare t") (simp_all add: gen_binary_def single_def del: codegen_expr.simps)
    then show ?thesis
      using right True unfolding code by (auto simp: no_var_def simp del: codegen_expr.simps split: if_splits)
  qed
next
  case (Group e)
  then show ?case by (simp del: codegen_expr.simps)
next
  case (Num v)
  then show ?case
    using leaf_total [of env g cs _ rest treg "n - 1"] is_leaf_cells(1) [OF Num.prems(1)] by (simp del: codegen_expr.simps)
next
  case (Str v)
  then show ?case
    using leaf_total [of env g cs _ rest treg "n - 1"] is_leaf_cells(1) [OF Str.prems(1)] by (simp del: codegen_expr.simps)
next
  case (Name v)
  then show ?case
    using leaf_total [of env g cs _ rest treg "n - 1"] is_leaf_cells(1) [OF Name.prems(1)] by (simp del: codegen_expr.simps)
next
  case This
  then show ?case
    using leaf_total [of env g cs _ rest treg "n - 1"] is_leaf_cells(1) [OF This.prems(1)] by (simp del: codegen_expr.simps)
qed simp_all

section \<open>Properties\<close>

text \<open>C2: The code of an expression computes what its nodes mean. Where the generator translates
  the nodes of an expression into \<open>treg\<close>, it reads exactly these nodes and appends code that, from any
  state of the machine and with any code behind it, runs from its first byte to its last. Then \<open>treg\<close> holds the
  value, memory is unchanged, and so is every other register that was reserved, that is in no pool, or
  that is a saved register the function did not record as used.\<close>

theorem expression_code_computes:
  assumes "expr_value env (gscope g) e = Some f" and "git g = cs @ rest" and "shape cs = cells e"
    and "is_reg treg" and "guarded g treg" and "codegen_expr n env treg treg g = Inr (c, v, g')"
  shows "git g' = rest \<and> take (length (gcode g)) (gcode g') = gcode g \<and>
    (\<exists>s'. steps (gcode g' @ post) (length (gcode g), s) (length (gcode g'), s') \<and>
       regs s' treg = f (mem s) \<and> frame (\<lambda>r. r \<noteq> treg \<and> safe g g' r) s s')"
proof -
  obtain bs where bs: "appended g rest bs g'" "evaluates g g' treg f bs"
    using codegen_expr_value [of env n, unfolded expr_ok_def, rule_format, OF assms(1-6)] by blast
  then have "git g' = rest" "gcode g' = gcode g @ bs" by (simp_all add: appended_def)
  then show ?thesis
    using does_steps [OF bs(2) [unfolded evaluates_def], where s = s and pre = "gcode g" and post = post] by simp
qed

text \<open>The nodes of \<^verbatim>\<open>5 < 1 - 3\<close>, whose right operand is no leaf.\<close>

definition less_minus :: expr where
  "less_minus = Bin T_LESS (Num 5) (Bin T_SUB (Num 1) (Num 3))"

definition mach_start :: mach where
  "mach_start = \<lparr>regs = \<lambda>_. 0, mem = \<lambda>_. 0, flg = None\<rparr>"

lemma less_minus_facts:
  "expr_value blank_env 0 less_minus = Some (\<lambda>_. 0)" "shape (cells less_minus) = cells less_minus"
  "is_reg RAX" "guarded (gen_start 0 cs) RAX"
proof -
  have v: "op_value T_LESS 5 (op_value T_SUB 1 3) = 0" by code_simp
  then show "expr_value blank_env 0 less_minus = Some (\<lambda>_. 0)"
    by (simp add: less_minus_def arith_ops_def)
  show "shape (cells less_minus) = cells less_minus" by (simp add: less_minus_def shape_def)
  show "is_reg RAX" by (simp add: is_reg_def)
  show "guarded (gen_start 0 cs) RAX" by (simp add: guarded_def pool_scratch_def pool_saved_def)
qed

theorem expression_code_computes_witness:
  "\<exists>g' s'. codegen_expr 3 blank_env RAX RAX (gen_start 0 (cells less_minus)) = Inr (0, None, g') \<and>
     steps (gcode g' @ []) (0, mach_start) (length (gcode g'), s') \<and> regs s' RAX = 0"
proof -
  let ?r = "codegen_expr 3 blank_env RAX RAX (gen_start 0 (cells less_minus))"
  have "case ?r of Inl _ \<Rightarrow> False | Inr (c, v, g') \<Rightarrow> c = 0 \<and> v = None" by code_simp
  then obtain g' where g': "?r = Inr (0, None, g')" by (auto split: sum.splits)
  then show ?thesis
    using expression_code_computes [of blank_env "gen_start 0 (cells less_minus)" less_minus "\<lambda>_. 0" "cells less_minus" "[]" RAX
        3 0 None g' "[]" mach_start] less_minus_facts
    by (auto simp: gen_start_def)
qed

text \<open>C31: Which expressions are translated. The nodes of an expression with a value become code exactly when
  its right operands that are not leaves nest no deeper than there are saved registers left;
  otherwise the generator stops with an error. The depth of calls is the height of the tree.\<close>

theorem expression_translated_iff:
  assumes "expr_value env (gscope g) e = Some f" and "git g = cs @ rest" and "shape cs = cells e" and "is_reg treg"
    and "guarded g treg" and "scratch_free g treg" and "height e < n"
  shows "if saves_needed e \<le> free_saved g then \<exists>v g'. codegen_expr n env treg treg g = Inr (0, v, g')
    else codegen_expr n env treg treg g = Inl (Exit 1)"
  by (rule codegen_expr_total [OF assms])

text \<open>The tree of \<^verbatim>\<open>1 - (1 - (1 - ...))\<close> with \<open>n\<close> subtractions.\<close>

primrec nested :: "nat \<Rightarrow> expr" where
  "nested 0 = Num 1"
| "nested (Suc n) = Bin T_SUB (Num 1) (nested n)"

theorem expression_translated_iff_witness:
  "(\<exists>v g'. codegen_expr 10 blank_env RAX RAX (gen_start 0 (cells (nested 6))) = Inr (0, v, g')) \<and>
   codegen_expr 10 blank_env RAX RAX (gen_start 0 (cells (nested 7))) = Inl (Exit 1)"
proof -
  have val: "\<exists>f. expr_value blank_env 0 (nested n) = Some f" for n
    by (induction n) (auto simp: arith_ops_def)
  have same: "shape (cells (nested n)) = cells (nested n)" for n
    by (induction n) (simp_all add: shape_def)
  have none: "\<not> taken (gen_start 0 cs) r" for r cs by (simp add: taken_def gen_start_def)
  have "distinct pool_saved" "length pool_saved = 5" by code_simp+
  then have "card (set pool_saved) = 5" by (simp add: distinct_card)
  then have free: "free_saved (gen_start 0 cs) = 5" "scratch_free (gen_start 0 cs) RAX" for cs
    by (simp_all add: free_saved_def none scratch_free_def) (simp add: pool_scratch_def)
  have need: "saves_needed (nested 6) = 5" "saves_needed (nested 7) = 6" "height (nested 6) < 10" "height (nested 7) < 10"
    by (simp_all add: eval_nat_numeral)
  obtain f6 f7 where "expr_value blank_env 0 (nested 6) = Some f6" "expr_value blank_env 0 (nested 7) = Some f7"
    using val by blast
  then show ?thesis
    using expression_translated_iff [of blank_env "gen_start 0 (cells (nested 6))" "nested 6" f6 "cells (nested 6)" "[]" RAX 10]
      expression_translated_iff [of blank_env "gen_start 0 (cells (nested 7))" "nested 7" f7 "cells (nested 7)" "[]" RAX 10]
      same free need less_minus_facts(3,4)
    by (simp add: gen_start_def del: codegen_expr.simps)
qed

end
