(* ===== verification/Cup_Run.thy ===== *)
theory Cup_Run
  imports Cup_Machine
begin

text \<open>
  What the generated code of statements does, on the machine of \<open>Cup_Machine\<close>: assignments to
  variables, conditions, loops, blocks and \<^verbatim>\<open>return\<close>. The meaning of statements is a relation on memory,
  in the style of a big-step semantics; statements are those of the node stream, where the target
  of an assignment stands before its value.
\<close>

section \<open>Statements\<close>

datatype stmt =
    Put string expr
  | AddPut string expr
  | If expr stmt
  | While expr stmt
  | Return expr
  | Block "stmt list"

fun stmt_cells :: "stmt \<Rightarrow> cell list" where
  "stmt_cells (Put x e) = tk T_EQ # tk N_VARIABLE # CPay (PStr x) # cells e"
| "stmt_cells (AddPut x e) = tk T_ADDEQ # tk N_VARIABLE # CPay (PStr x) # cells e"
| "stmt_cells (If e b) = tk T_IF # cells e @ stmt_cells b"
| "stmt_cells (While e b) = tk T_WHILE # cells e @ stmt_cells b"
| "stmt_cells (Return e) = tk T_RETURN # cells e"
| "stmt_cells (Block bs) = tk N_BLOCK # CPay (PVal (of_nat (length bs))) # concat (map stmt_cells bs)"

text \<open>
  The generator enters a scope with each block and never leaves it: behind a statement the scope
  is that of the last block in it.
\<close>

fun blocks :: "stmt \<Rightarrow> nat" where
  "blocks (If e b) = blocks b"
| "blocks (While e b) = blocks b"
| "blocks (Block bs) = Suc (sum_list (map blocks bs))"
| "blocks _ = 0"

abbreviation block_count :: "stmt list \<Rightarrow> nat" where "block_count ss \<equiv> sum_list (map blocks ss)"

text \<open>All names are known and all values are ones \<^const>\<open>expr_value\<close> knows.\<close>

definition has_value :: "genv \<Rightarrow> nat \<Rightarrow> expr \<Rightarrow> bool" where
  "has_value env sc e \<longleftrightarrow> expr_value env sc e \<noteq> None"

definition name_addr :: "genv \<Rightarrow> nat \<Rightarrow> string \<Rightarrow> u64 option" where
  "name_addr env sc x = (case varLookup (ge_sym env) x sc of Inr (Some i) \<Rightarrow> Some (var_addr env i) | _ \<Rightarrow> None)"

fun stmt_ok :: "genv \<Rightarrow> nat \<Rightarrow> stmt \<Rightarrow> bool" and stmts_ok :: "genv \<Rightarrow> nat \<Rightarrow> stmt list \<Rightarrow> bool" where
  "stmt_ok env sc (Put x e) \<longleftrightarrow> name_addr env sc x \<noteq> None \<and> has_value env sc e"
| "stmt_ok env sc (AddPut x e) \<longleftrightarrow> name_addr env sc x \<noteq> None \<and> has_value env sc e"
| "stmt_ok env sc (If e b) \<longleftrightarrow> has_value env sc e \<and> stmt_ok env sc b"
| "stmt_ok env sc (While e b) \<longleftrightarrow> has_value env sc e \<and> stmt_ok env sc b"
| "stmt_ok env sc (Return e) \<longleftrightarrow> has_value env sc e"
| "stmt_ok env sc (Block bs) \<longleftrightarrow> stmts_ok env (Suc sc) bs"
| "stmts_ok env sc [] \<longleftrightarrow> True"
| "stmts_ok env sc (s # ss) \<longleftrightarrow> stmt_ok env sc s \<and> stmts_ok env (sc + blocks s) ss"

text \<open>
  A run of a list of statements from one memory to another: it ends behind the last one, or
  returns a value.
\<close>

type_synonym memory = "u64 \<Rightarrow> u8"
type_synonym outcome = "u64 option \<times> memory"

inductive runs :: "genv \<Rightarrow> nat \<Rightarrow> stmt list \<Rightarrow> memory \<Rightarrow> outcome \<Rightarrow> bool" for env where
  Nil: "runs env sc [] m (None, m)"
| Put: "name_addr env sc x = Some a \<Longrightarrow> expr_value env sc e = Some f \<Longrightarrow>
    runs env sc ss (store64 a (f m) m) out \<Longrightarrow> runs env sc (Put x e # ss) m out"
| AddPut: "name_addr env sc x = Some a \<Longrightarrow> expr_value env sc e = Some f \<Longrightarrow>
    runs env sc ss (store64 a (load64 m a + f m) m) out \<Longrightarrow> runs env sc (AddPut x e # ss) m out"
| IfFalse: "expr_value env sc e = Some f \<Longrightarrow> f m = 0 \<Longrightarrow> runs env (sc + blocks b) ss m out \<Longrightarrow>
    runs env sc (If e b # ss) m out"
| IfTrue: "expr_value env sc e = Some f \<Longrightarrow> f m \<noteq> 0 \<Longrightarrow> runs env sc (b # ss) m out \<Longrightarrow>
    runs env sc (If e b # ss) m out"
| WhileFalse: "expr_value env sc e = Some f \<Longrightarrow> f m = 0 \<Longrightarrow> runs env (sc + blocks b) ss m out \<Longrightarrow>
    runs env sc (While e b # ss) m out"
| WhileTrue: "expr_value env sc e = Some f \<Longrightarrow> f m \<noteq> 0 \<Longrightarrow> runs env sc [b] m (None, m') \<Longrightarrow>
    runs env sc (While e b # ss) m' out \<Longrightarrow> runs env sc (While e b # ss) m out"
| WhileReturn: "expr_value env sc e = Some f \<Longrightarrow> f m \<noteq> 0 \<Longrightarrow> runs env sc [b] m (Some v, m') \<Longrightarrow>
    runs env sc (While e b # ss) m (Some v, m')"
| Return: "expr_value env sc e = Some f \<Longrightarrow> runs env sc (Return e # ss) m (Some (f m), m)"
| Block: "runs env (Suc sc) (bs @ ss) m out \<Longrightarrow> runs env sc (Block bs # ss) m out"

inductive_cases runs_NilE [elim!]: "runs env sc [] m out"
inductive_cases runs_PutE: "runs env sc (Put x e # ss) m out"
inductive_cases runs_AddPutE: "runs env sc (AddPut x e # ss) m out"
inductive_cases runs_IfE: "runs env sc (If e b # ss) m out"
inductive_cases runs_ReturnE: "runs env sc (Return e # ss) m out"
inductive_cases runs_BlockE: "runs env sc (Block bs # ss) m out"

text \<open>A run of two lists, one behind the other.\<close>

lemma runs_append:
  "runs env sc us m out \<Longrightarrow> us = ss @ ts \<Longrightarrow>
     (\<exists>m'. runs env sc ss m (None, m') \<and> runs env (sc + block_count ss) ts m' out) \<or>
     (\<exists>v m'. out = (Some v, m') \<and> runs env sc ss m out)"
proof (induction arbitrary: ss ts rule: runs.induct)
  case (Nil sc m)
  then show ?case by (auto intro: runs.Nil)
next
  case (Put sc x a e f us m out)
  show ?case
  proof (cases ss)
    case Nil
    then show ?thesis using Put by (auto intro: runs.Nil runs.Put)
  next
    case (Cons s ss')
    then show ?thesis using Put.IH [of ss' ts] Put.prems Put.hyps by (auto intro: runs.Put)
  qed
next
  case (AddPut sc x a e f us m out)
  show ?case
  proof (cases ss)
    case Nil
    then show ?thesis using AddPut by (auto intro: runs.Nil runs.AddPut)
  next
    case (Cons s ss')
    then show ?thesis using AddPut.IH [of ss' ts] AddPut.prems AddPut.hyps by (auto intro: runs.AddPut)
  qed
next
  case (IfFalse sc e f m b us out)
  show ?case
  proof (cases ss)
    case Nil
    then show ?thesis using IfFalse by (auto intro: runs.Nil runs.IfFalse)
  next
    case (Cons s ss')
    then show ?thesis using IfFalse.IH [of ss' ts] IfFalse.prems IfFalse.hyps by (auto simp: add.assoc intro: runs.IfFalse)
  qed
next
  case (IfTrue sc e f m b us out)
  show ?case
  proof (cases ss)
    case Nil
    then show ?thesis using IfTrue by (auto intro: runs.Nil runs.IfTrue)
  next
    case (Cons s ss')
    then show ?thesis using IfTrue.IH [of "b # ss'" ts] IfTrue.prems IfTrue.hyps by (auto intro: runs.IfTrue)
  qed
next
  case (WhileFalse sc e f m b us out)
  show ?case
  proof (cases ss)
    case Nil
    then show ?thesis using WhileFalse by (auto intro: runs.Nil runs.WhileFalse)
  next
    case (Cons s ss')
    then show ?thesis using WhileFalse.IH [of ss' ts] WhileFalse.prems WhileFalse.hyps by (auto simp: add.assoc intro: runs.WhileFalse)
  qed
next
  case (WhileTrue sc e f m b m' us out)
  show ?case
  proof (cases ss)
    case Nil
    then show ?thesis using WhileTrue.prems WhileTrue.hyps by (auto intro: runs.Nil runs.WhileTrue)
  next
    case (Cons s ss')
    then show ?thesis using WhileTrue.IH(2) [of "While e b # ss'" ts] WhileTrue.prems WhileTrue.hyps by (auto intro: runs.WhileTrue)
  qed
next
  case (WhileReturn sc e f m b v m' us)
  show ?case
  proof (cases ss)
    case Nil
    then show ?thesis using WhileReturn.prems WhileReturn.hyps by (auto intro: runs.Nil runs.WhileReturn)
  next
    case (Cons s ss')
    then show ?thesis using WhileReturn.prems WhileReturn.hyps by (auto intro: runs.WhileReturn)
  qed
next
  case (Return sc e f us m)
  show ?case
  proof (cases ss)
    case Nil
    then show ?thesis using Return by (auto intro: runs.Nil runs.Return)
  next
    case (Cons s ss')
    then show ?thesis using Return by (auto intro: runs.Return)
  qed
next
  case (Block sc bs us m out)
  show ?case
  proof (cases ss)
    case Nil
    then show ?thesis using Block by (auto intro: runs.Nil runs.Block)
  next
    case (Cons s ss')
    then show ?thesis using Block.IH [of "bs @ ss'" ts] Block.prems Block.hyps by (auto intro: runs.Block)
  qed
qed

section \<open>Code with jumps to its end\<close>

text \<open>
  The code of statements: bytes that are final, and jumps behind the last statement, which are
  filled in when its place is known. A jump is as far as the code behind it.
\<close>

datatype item = Plain bytes | Leaving

fun item_size :: "item \<Rightarrow> nat" where
  "item_size (Plain bs) = length bs"
| "item_size Leaving = 5"

abbreviation items_size :: "item list \<Rightarrow> nat" where "items_size its \<equiv> sum_list (map item_size its)"

text \<open>The bytes before and after that, with \<open>k\<close> bytes between the items and the target.\<close>

fun unfilled :: "item list \<Rightarrow> bytes" where
  "unfilled [] = []"
| "unfilled (Plain bs # its) = bs @ unfilled its"
| "unfilled (Leaving # its) = jmp_rel32 0 @ unfilled its"

fun filled :: "nat \<Rightarrow> item list \<Rightarrow> bytes" where
  "filled k [] = []"
| "filled k (Plain bs # its) = bs @ filled k its"
| "filled k (Leaving # its) = jmp_rel32 (of_nat (items_size its + k)) @ filled k its"

fun places :: "nat \<Rightarrow> item list \<Rightarrow> nat list" where
  "places p [] = []"
| "places p (Plain bs # its) = places (p + length bs) its"
| "places p (Leaving # its) = (p + 1) # places (p + 5) its"

lemma jmp_length [simp]: "length (jmp_rel32 d) = 5" "length (jcc_rel32 cc d) = 6"
  by (simp_all add: jmp_rel32_def jcc_rel32_def)

lemma items_length [simp]: "length (unfilled its) = items_size its" "length (filled k its) = items_size its"
  by (induction its rule: unfilled.induct) simp_all

lemma items_append:
  "unfilled (as @ bs) = unfilled as @ unfilled bs"
  "filled k (as @ bs) = filled (items_size bs + k) as @ filled k bs"
  "places p (as @ bs) = places p as @ places (p + items_size as) bs"
  by (induction as arbitrary: p rule: unfilled.induct) (simp_all add: add.assoc add.commute [of k] add.left_commute)

text \<open>The items do what the statements mean, leaving the registers in \<open>K\<close> alone.\<close>

definition exit_of :: "nat \<Rightarrow> nat \<Rightarrow> outcome \<Rightarrow> nat" where
  "exit_of k end out = (case fst out of None \<Rightarrow> end | Some _ \<Rightarrow> end + k)"

definition result_in :: "outcome \<Rightarrow> mach \<Rightarrow> bool" where
  "result_in out s \<longleftrightarrow> mem s = snd out \<and> (case fst out of None \<Rightarrow> True | Some v \<Rightarrow> regs s RAX = v)"

definition implements :: "(reg \<Rightarrow> bool) \<Rightarrow> genv \<Rightarrow> nat \<Rightarrow> item list \<Rightarrow> stmt list \<Rightarrow> bool" where
  "implements K env sc its ss \<longleftrightarrow>
     (\<forall>k pre post s out. items_size its + k < 2 ^ 31 \<longrightarrow> runs env sc ss (mem s) out \<longrightarrow>
        (\<exists>s'. steps (pre @ filled k its @ post) (length pre, s) (exit_of k (length pre + items_size its) out, s') \<and>
           result_in out s' \<and> (\<forall>q. q \<noteq> RAX \<and> K q \<longrightarrow> regs s' q = regs s q)))"

lemma implements_mono: "implements K env sc its ss \<Longrightarrow> (\<And>q. K' q \<Longrightarrow> K q) \<Longrightarrow> implements K' env sc its ss"
  unfolding implements_def by meson

lemma implements_Nil: "implements K env sc [] []"
  unfolding implements_def by (auto simp: exit_of_def result_in_def intro!: exI steps.refl)

lemma implements_append:
  assumes "implements K env sc as ss" and "implements K env (sc + block_count ss) bs ts"
  shows "implements K env sc (as @ bs) (ss @ ts)"
  unfolding implements_def
proof (intro allI impI)
  fix k pre post out and s :: mach
  assume size: "items_size (as @ bs) + k < 2 ^ 31" and run: "runs env sc (ss @ ts) (mem s) out"
  let ?k = "items_size bs + k"
  have code: "pre @ filled k (as @ bs) @ post = pre @ filled ?k as @ filled k bs @ post"
      "pre @ filled k (as @ bs) @ post = (pre @ filled ?k as) @ filled k bs @ post"
    by (simp_all add: items_append)
  from runs_append [OF run HOL.refl] show "\<exists>s'. steps (pre @ filled k (as @ bs) @ post) (length pre, s)
      (exit_of k (length pre + items_size (as @ bs)) out, s') \<and> result_in out s' \<and> (\<forall>q. q \<noteq> RAX \<and> K q \<longrightarrow> regs s' q = regs s q)"
  proof (elim disjE exE conjE)
    fix m' assume m': "runs env sc ss (mem s) (None, m')" "runs env (sc + block_count ss) ts m' out"
    obtain s1 where s1: "steps (pre @ filled ?k as @ filled k bs @ post) (length pre, s) (length pre + items_size as, s1)"
        "mem s1 = m'" "\<forall>q. q \<noteq> RAX \<and> K q \<longrightarrow> regs s1 q = regs s q"
      using assms(1) [unfolded implements_def, rule_format, of ?k s "(None, m')" pre "filled k bs @ post"] size m'(1)
      by (auto simp: exit_of_def result_in_def)
    obtain s2 where s2: "steps ((pre @ filled ?k as) @ filled k bs @ post) (length (pre @ filled ?k as), s1)
        (exit_of k (length (pre @ filled ?k as) + items_size bs) out, s2)"
        "result_in out s2" "\<forall>q. q \<noteq> RAX \<and> K q \<longrightarrow> regs s2 q = regs s1 q"
      using assms(2) [unfolded implements_def, rule_format, of k s1 out "pre @ filled ?k as" post] size m'(2) s1(2) by auto
    have "steps (pre @ filled k (as @ bs) @ post) (length pre, s) (exit_of k (length pre + items_size (as @ bs)) out, s2)"
      using steps_trans [OF s1(1) [folded code(1)]] s2(1) [folded code(2)] by (simp add: exit_of_def add.assoc)
    then show ?thesis using s1(3) s2(2,3) by auto
  next
    fix v m' assume m': "out = (Some v, m')" "runs env sc ss (mem s) out"
    then show ?thesis
      unfolding code(1)
      using assms(1) [unfolded implements_def, rule_format, of ?k s out pre "filled k bs @ post"] size
      by (simp add: exit_of_def ac_simps)
  qed
qed

lemma implements_Block: "implements K env (Suc sc) its (bs @ ss) \<Longrightarrow> implements K env sc its (Block bs # ss)"
  unfolding implements_def by (blast elim: runs_BlockE)

text \<open>Straight-line code for one statement.\<close>

lemma implements_plain:
  fixes Q :: "mach \<Rightarrow> mach \<Rightarrow> bool"
  assumes "does always bs Q"
    and "\<And>s s' out. Q s s' \<Longrightarrow> runs env sc [st] (mem s) out \<Longrightarrow> out = (None, mem s') \<and> (\<forall>q. q \<noteq> RAX \<and> K q \<longrightarrow> regs s' q = regs s q)"
  shows "implements K env sc [Plain bs] [st]"
  unfolding implements_def
proof (intro allI impI)
  fix k pre post out and s :: mach
  assume run: "runs env sc [st] (mem s) out"
  obtain s' where s': "steps (pre @ bs @ post) (length pre, s) (length (pre @ bs), s')" "Q s s'"
    using does_steps [OF assms(1), where s = s] by blast
  with assms(2) [OF s'(2) run] show "\<exists>s'. steps (pre @ filled k [Plain bs] @ post) (length pre, s)
      (exit_of k (length pre + items_size [Plain bs]) out, s') \<and> result_in out s' \<and> (\<forall>q. q \<noteq> RAX \<and> K q \<longrightarrow> regs s' q = regs s q)"
    by (auto simp: exit_of_def result_in_def)
qed

section \<open>Jumps\<close>

lemma sint_forward: "x < 2 ^ 31 \<Longrightarrow> sint (of_nat x :: u32) = int x"
proof -
  assume x: "x < 2 ^ 31"
  have "sint (word_of_int (int x) :: u32) = signed_take_bit 31 (int x)"
    unfolding sint_sbintrunc' by simp
  also have "\<dots> = int x"
    by (rule signed_take_bit_int_eq_self) (use x in \<open>simp_all add: order_trans [of _ 0]\<close>)
  finally show ?thesis by simp
qed

lemma sint_back: "x < 2 ^ 31 \<Longrightarrow> sint (- of_nat x :: u32) = - int x"
proof -
  assume x: "x < 2 ^ 31"
  have e: "(- of_nat x :: u32) = word_of_int (- int x)" by simp
  have "sint (word_of_int (- int x) :: u32) = signed_take_bit 31 (- int x)"
    unfolding sint_sbintrunc' by simp
  also have "\<dots> = - int x"
    by (rule signed_take_bit_int_eq_self) (use x in simp_all)
  finally show ?thesis unfolding e .
qed

lemma jump_forward: "x < 2 ^ 31 \<Longrightarrow> jump p (of_nat x) = Some (p + x)"
  by (simp add: jump_def sint_forward nat_add_distrib)

lemma jump_back: "x < 2 ^ 31 \<Longrightarrow> x \<le> p \<Longrightarrow> jump p (- of_nat x) = Some (p - x)"
  by (simp add: jump_def sint_back nat_diff_distrib)

lemma step_jmp: "step (pre @ jmp_rel32 d @ post) (length pre, s) = map_option (\<lambda>p. (p, s)) (jump (length pre + 5) d)"
proof -
  have "encodes (jmp_rel32 d) (Jmp d)" using encodes_asm [of "Jmp d"] by simp
  then show ?thesis by (simp add: step_def encodes_def)
qed

lemma step_jcc:
  assumes "cc < 16" and "flag_cc cc s = Some b"
  shows "step (pre @ jcc_rel32 cc d @ post) (length pre, s) =
    (if b then map_option (\<lambda>p. (p, s)) (jump (length pre + 6) d) else Some (length pre + 6, s))"
proof -
  have "encodes (jcc_rel32 cc d) (Jcc cc d)" using encodes_asm [of "Jcc cc d"] assms(1) by simp
  then show ?thesis using assms(2) by (simp add: step_def encodes_def)
qed

text \<open>Code that leaves the flags such that the condition \<open>cc\<close> holds when \<open>f\<close> is zero.\<close>

definition tests :: "(reg \<Rightarrow> bool) \<Rightarrow> u8 \<Rightarrow> ((u64 \<Rightarrow> u8) \<Rightarrow> u64) \<Rightarrow> bytes \<Rightarrow> bool" where
  "tests K cc f bs \<longleftrightarrow> cc < 16 \<and>
     does always bs (\<lambda>s s'. flag_cc cc s' = Some (f (mem s) = 0) \<and> frame (\<lambda>r. r \<noteq> RAX \<and> K r) s s')"

lemma tests_steps:
  assumes "tests K cc f bs" and "x < 2 ^ 31"
  shows "\<exists>s'. frame (\<lambda>r. r \<noteq> RAX \<and> K r) s s' \<and>
    steps (pre @ (bs @ jcc_rel32 cc (of_nat x)) @ post) (length pre, s)
      (length pre + length bs + 6 + (if f (mem s) = 0 then x else 0), s')"
proof -
  have cc: "cc < 16" using assms(1) by (simp add: tests_def)
  obtain s' where s': "steps (pre @ bs @ jcc_rel32 cc (of_nat x) @ post) (length pre, s) (length (pre @ bs), s')"
      "flag_cc cc s' = Some (f (mem s) = 0)" "frame (\<lambda>r. r \<noteq> RAX \<and> K r) s s'"
    using does_steps [where pre = pre and post = "jcc_rel32 cc (of_nat x) @ post" and s = s] assms(1) unfolding tests_def by blast
  have "step ((pre @ bs) @ jcc_rel32 cc (of_nat x) @ post) (length (pre @ bs), s') =
      Some (length pre + length bs + 6 + (if f (mem s) = 0 then x else 0), s')"
    unfolding step_jcc [OF cc s'(2)] jump_forward [OF assms(2)] by simp
  then have "steps (pre @ bs @ jcc_rel32 cc (of_nat x) @ post) (length (pre @ bs), s')
      (length pre + length bs + 6 + (if f (mem s) = 0 then x else 0), s')"
    by (intro step_steps) simp
  then have "steps (pre @ (bs @ jcc_rel32 cc (of_nat x)) @ post) (length pre, s)
      (length pre + length bs + 6 + (if f (mem s) = 0 then x else 0), s')"
    using steps_trans [OF s'(1)] by simp
  with s'(3) show ?thesis by blast
qed

lemma tests_mono: "tests K cc f bs \<Longrightarrow> (\<And>q. K' q \<Longrightarrow> K q) \<Longrightarrow> tests K' cc f bs"
  unfolding tests_def frame_def by (auto elim!: does_mono)

lemma implements_Return:
  assumes "expr_value env sc e = Some f"
    and "does always bs (\<lambda>s s'. regs s' RAX = f (mem s) \<and> frame (\<lambda>r. r \<noteq> RAX \<and> K r) s s')"
  shows "implements K env sc [Plain bs, Leaving] [Return e]"
  unfolding implements_def
proof (intro allI impI)
  fix k pre post out and s :: mach
  assume k: "items_size [Plain bs, Leaving] + k < 2 ^ 31" and run: "runs env sc [Return e] (mem s) out"
  have out: "out = (Some (f (mem s)), mem s)" using run assms(1) by (auto elim: runs_ReturnE)
  obtain s' where s': "steps (pre @ bs @ jmp_rel32 (of_nat k) @ post) (length pre, s) (length (pre @ bs), s')"
      "regs s' RAX = f (mem s)" "frame (\<lambda>r. r \<noteq> RAX \<and> K r) s s'"
    using does_steps [OF assms(2), where s = s and pre = pre and post = "jmp_rel32 (of_nat k) @ post"] by blast
  have "step ((pre @ bs) @ jmp_rel32 (of_nat k) @ post) (length (pre @ bs), s') = Some (length (pre @ bs) + 5 + k, s')"
    unfolding step_jmp using k by (simp add: jump_forward)
  then have "steps (pre @ filled k [Plain bs, Leaving] @ post) (length pre, s)
      (exit_of k (length pre + items_size [Plain bs, Leaving]) out, s')"
    using steps_trans [OF s'(1) step_steps] by (simp add: exit_of_def out ac_simps)
  then show "\<exists>s'. steps (pre @ filled k [Plain bs, Leaving] @ post) (length pre, s)
      (exit_of k (length pre + items_size [Plain bs, Leaving]) out, s') \<and> result_in out s' \<and>
      (\<forall>q. q \<noteq> RAX \<and> K q \<longrightarrow> regs s' q = regs s q)"
    using s'(2,3) by (auto simp: result_in_def out frame_def)
qed

lemma implements_If:
  assumes "expr_value env sc e = Some f" and "tests K cc f bs" and "implements K env sc its [b]"
  shows "implements K env sc (Plain (bs @ jcc_rel32 cc (of_nat (items_size its))) # its) [If e b]"
    (is "implements K env sc ?its _")
  unfolding implements_def
proof (intro allI impI)
  fix k pre post out and s :: mach
  let ?cond = "bs @ jcc_rel32 cc (of_nat (items_size its))"
  assume k: "items_size ?its + k < 2 ^ 31" and run: "runs env sc [If e b] (mem s) out"
  have code: "pre @ filled k ?its @ post = pre @ ?cond @ filled k its @ post" "pre @ ?cond @ filled k its @ post = (pre @ ?cond) @ filled k its @ post"
    by simp_all
  have x: "items_size its < 2 ^ 31" using k by simp
  obtain s1 where s1: "frame (\<lambda>r. r \<noteq> RAX \<and> K r) s s1" "steps (pre @ ?cond @ filled k its @ post) (length pre, s)
      (length pre + length bs + 6 + (if f (mem s) = 0 then items_size its else 0), s1)"
    using tests_steps [OF assms(2) x, of s pre "filled k its @ post"] by blast
  show "\<exists>s'. steps (pre @ filled k ?its @ post) (length pre, s) (exit_of k (length pre + items_size ?its) out, s') \<and>
      result_in out s' \<and> (\<forall>q. q \<noteq> RAX \<and> K q \<longrightarrow> regs s' q = regs s q)"
  proof (cases "f (mem s) = 0")
    case True
    then have "out = (None, mem s)" using run assms(1) by (auto elim!: runs_IfE)
    with True s1 show ?thesis
      unfolding code(1) by (intro exI [of _ s1]) (simp add: exit_of_def result_in_def frame_def ac_simps)
  next
    case False
    then have body: "runs env sc [b] (mem s1) out" using run assms(1) s1(1) by (auto simp: frame_def elim!: runs_IfE)
    have small: "items_size its + k < 2 ^ 31" using k by simp
    obtain s2 where s2: "steps ((pre @ ?cond) @ filled k its @ post) (length (pre @ ?cond), s1)
        (exit_of k (length (pre @ ?cond) + items_size its) out, s2)" "result_in out s2"
        "\<forall>q. q \<noteq> RAX \<and> K q \<longrightarrow> regs s2 q = regs s1 q"
      using assms(3) [unfolded implements_def, rule_format, OF small body] by blast
    have "steps (pre @ filled k ?its @ post) (length pre, s) (exit_of k (length pre + items_size ?its) out, s2)"
      using steps_trans [OF s1(2)] s2(1) False unfolding code by (simp add: ac_simps)
    with s2 s1(1) show ?thesis by (auto simp: frame_def)
  qed
qed

text \<open>A loop: the jump back spans the loop.\<close>

abbreviation loop_items :: "u8 \<Rightarrow> bytes \<Rightarrow> item list \<Rightarrow> item list" where
  "loop_items cc bs its \<equiv>
     Plain (bs @ jcc_rel32 cc (of_nat (items_size its + 5))) # its @ [Plain (jmp_rel32 (- of_nat (length bs + items_size its + 11)))]"

lemma implements_While:
  assumes "expr_value env sc e = Some f" and "tests K cc f bs" and "implements K env sc its [b]"
  shows "implements K env sc (loop_items cc bs its) [While e b]"
  unfolding implements_def
proof (intro allI impI)
  fix k pre post out and s :: mach
  let ?x = "items_size its + 5"
  let ?cond = "bs @ jcc_rel32 cc (of_nat ?x)" and ?again = "jmp_rel32 (- of_nat (length bs + items_size its + 11))"
  let ?body = "filled (5 + k) its"
  let ?code = "pre @ filled k (loop_items cc bs its) @ post" and ?stop = "length pre + items_size (loop_items cc bs its)"
  let ?goal = "\<lambda>s out. \<exists>s'. steps ?code (length pre, s) (exit_of k ?stop out, s') \<and>
      result_in out s' \<and> (\<forall>q. q \<noteq> RAX \<and> K q \<longrightarrow> regs s' q = regs s q)"
  assume k: "items_size (loop_items cc bs its) + k < 2 ^ 31" and run: "runs env sc [While e b] (mem s) out"
  have code: "?code = pre @ ?cond @ ?body @ ?again @ post" "?code = (pre @ ?cond) @ ?body @ ?again @ post"
      "?code = (pre @ ?cond @ ?body) @ ?again @ post"
    by (simp_all add: items_append)
  have x: "?x < 2 ^ 31" using k by simp
  have test: "\<exists>s1. frame (\<lambda>r. r \<noteq> RAX \<and> K r) s s1 \<and> steps ?code (length pre, s)
      (length pre + length bs + 6 + (if f (mem s) = 0 then ?x else 0), s1)" for s
    unfolding code(1) by (rule tests_steps [OF assms(2) x])
  have body: "\<exists>s2. steps ?code (length pre + length bs + 6, s) (exit_of (5 + k) (length pre + length bs + 6 + items_size its) out, s2) \<and>
      result_in out s2 \<and> (\<forall>q. q \<noteq> RAX \<and> K q \<longrightarrow> regs s2 q = regs s q)"
    if run: "runs env sc [b] (mem s) out" for s :: mach and out
  proof -
    have small: "items_size its + (5 + k) < 2 ^ 31" using k by simp
    show ?thesis
      using assms(3) [unfolded implements_def, rule_format, OF small run, of "pre @ ?cond" "?again @ post", folded code(2)]
      by (simp add: ac_simps)
  qed
  have again: "steps ?code (length pre + length bs + 6 + items_size its, s) (length pre, s)" for s
  proof -
    have "length bs + items_size its + 11 < 2 ^ 31" using k by simp
    then have "step ((pre @ ?cond @ ?body) @ ?again @ post) (length (pre @ ?cond @ ?body), s) = Some (length pre, s)"
      unfolding step_jmp by (subst jump_back) simp_all
    then show ?thesis
      unfolding code(3) by (intro step_steps) (simp add: ac_simps)
  qed
  have "sc1 = sc \<Longrightarrow> us = [While e b] \<Longrightarrow> mem s = m \<Longrightarrow> ?goal s out" if "runs env sc1 us m out" for sc1 us m out and s :: mach
    using that
  proof (induction arbitrary: s rule: runs.induct)
    case (WhileFalse sc1 e' f' m b' us out)
    have f: "f (mem s) = 0" "out = (None, m)" using WhileFalse assms(1) by auto
    obtain s1 where s1: "frame (\<lambda>r. r \<noteq> RAX \<and> K r) s s1" "steps ?code (length pre, s) (length pre + length bs + 6 + ?x, s1)"
      using test [of s] f(1) by auto
    then show ?case
      using WhileFalse.prems(3) by (intro exI [of _ s1]) (simp add: exit_of_def result_in_def frame_def f(2) ac_simps)
  next
    case (WhileTrue sc1 e' f' m b' m' us out)
    have f: "f (mem s) \<noteq> 0" using WhileTrue assms(1) by auto
    obtain s1 where s1: "frame (\<lambda>r. r \<noteq> RAX \<and> K r) s s1" "steps ?code (length pre, s) (length pre + length bs + 6, s1)"
      using test [of s] f by auto
    have "runs env sc [b] (mem s1) (None, m')" using WhileTrue s1(1) by (auto simp: frame_def)
    then obtain s2 where s2: "steps ?code (length pre + length bs + 6, s1) (length pre + length bs + 6 + items_size its, s2)"
        "mem s2 = m'" "\<forall>q. q \<noteq> RAX \<and> K q \<longrightarrow> regs s2 q = regs s1 q"
      using body [of s1 "(None, m')"] by (auto simp: exit_of_def result_in_def)
    obtain s3 where s3: "steps ?code (length pre, s2) (exit_of k ?stop out, s3)" "result_in out s3"
        "\<forall>q. q \<noteq> RAX \<and> K q \<longrightarrow> regs s3 q = regs s2 q"
      using WhileTrue.IH(2) [OF WhileTrue.prems(1,2) s2(2)] by blast
    have "steps ?code (length pre, s) (exit_of k ?stop out, s3)"
      by (rule steps_trans [OF s1(2) steps_trans [OF s2(1) steps_trans [OF again s3(1)]]])
    with s1(1) s2(3) s3(2,3) show ?case by (auto simp: frame_def)
  next
    case (WhileReturn sc1 e' f' m b' v m' us)
    have f: "f (mem s) \<noteq> 0" using WhileReturn assms(1) by auto
    obtain s1 where s1: "frame (\<lambda>r. r \<noteq> RAX \<and> K r) s s1" "steps ?code (length pre, s) (length pre + length bs + 6, s1)"
      using test [of s] f by auto
    have "runs env sc [b] (mem s1) (Some v, m')" using WhileReturn s1(1) by (auto simp: frame_def)
    then obtain s2 where s2: "steps ?code (length pre + length bs + 6, s1) (length pre + length bs + 6 + items_size its + (5 + k), s2)"
        "result_in (Some v, m') s2" "\<forall>q. q \<noteq> RAX \<and> K q \<longrightarrow> regs s2 q = regs s1 q"
      using body [of s1 "(Some v, m')"] by (auto simp: exit_of_def)
    have "steps ?code (length pre, s) (exit_of k ?stop (Some v, m'), s2)"
      using steps_trans [OF s1(2) s2(1)] by (simp add: exit_of_def ac_simps)
    with s1(1) s2(2,3) show ?case by (auto simp: frame_def)
  qed simp_all
  then show "?goal s out" using run by blast
qed

section \<open>The jump at the end\<close>

text \<open>
  A function takes the last jump off its code when it goes right behind itself. The jump belongs
  to the last statement that has code; where that is an \<^verbatim>\<open>if\<close>, the conditional jump over its body
  is not shortened, and the code is wrong (\<open>sound_end\<close> excludes this).
\<close>

fun emits :: "stmt \<Rightarrow> bool" where
  "emits (Block bs) = list_ex emits bs"
| "emits _ = True"

fun ends_jump :: "stmt list \<Rightarrow> bool" where
  "ends_jump [] = False"
| "ends_jump (s # ss) =
     (if list_ex emits ss then ends_jump ss
      else case s of Return e \<Rightarrow> True | If e b \<Rightarrow> ends_jump [b] | Block bs \<Rightarrow> ends_jump bs | _ \<Rightarrow> False)"

fun sound_end :: "stmt list \<Rightarrow> bool" where
  "sound_end [] = True"
| "sound_end (s # ss) =
     (if list_ex emits ss then sound_end ss
      else case s of If e b \<Rightarrow> \<not> ends_jump [b] | Block bs \<Rightarrow> sound_end bs | _ \<Rightarrow> True)"

lemma ends_append:
  "ends_jump (ss @ ts) = (if list_ex emits ts then ends_jump ts else ends_jump ss)"
  "sound_end (ss @ ts) = (if list_ex emits ts then sound_end ts else sound_end ss)"
proof -
  have none: "\<not> list_ex emits ts \<Longrightarrow> \<not> ends_jump ts \<and> sound_end ts" for ts
  proof (induction "size_list size ts" arbitrary: ts rule: less_induct)
    case less
    show ?case
    proof (cases ts)
      case (Cons t us)
      have "\<not> ends_jump us \<and> sound_end us" using less Cons by auto
      moreover have "\<not> ends_jump bs \<and> sound_end bs" if "t = Block bs" for bs
        using less.hyps [of bs] less.prems Cons that by auto
      ultimately show ?thesis using less.prems Cons by (cases t) auto
    qed simp
  qed
  show "ends_jump (ss @ ts) = (if list_ex emits ts then ends_jump ts else ends_jump ss)"
    by (induction ss) (auto simp: none)
  show "sound_end (ss @ ts) = (if list_ex emits ts then sound_end ts else sound_end ss)"
    by (induction ss) (auto simp: none)
qed

definition lands :: "(reg \<Rightarrow> bool) \<Rightarrow> genv \<Rightarrow> nat \<Rightarrow> item list \<Rightarrow> stmt list \<Rightarrow> bool" where
  "lands K env sc its ss \<longleftrightarrow>
     (\<forall>pre post s out. items_size its < 2 ^ 31 \<longrightarrow> runs env sc ss (mem s) out \<longrightarrow>
        (\<exists>s'. steps (pre @ filled 0 its @ post) (length pre, s) (length pre + items_size its, s') \<and>
           result_in out s' \<and> (\<forall>q. q \<noteq> RAX \<and> K q \<longrightarrow> regs s' q = regs s q)))"

lemma implements_lands: "implements K env sc its ss \<Longrightarrow> lands K env sc its ss"
  unfolding implements_def lands_def by (metis (no_types, lifting) add.right_neutral exit_of_def option.case_eq_if)

lemma lands_mono: "lands K env sc its ss \<Longrightarrow> (\<And>q. K' q \<Longrightarrow> K q) \<Longrightarrow> lands K' env sc its ss"
  unfolding lands_def by meson

lemma lands_Block: "lands K env (Suc sc) its (bs @ ss) \<Longrightarrow> lands K env sc its (Block bs # ss)"
  unfolding lands_def by (blast elim: runs_BlockE)

lemma lands_append:
  assumes "implements K env sc as ss" and "lands K env (sc + block_count ss) bs ts"
  shows "lands K env sc (as @ bs) (ss @ ts)"
  unfolding lands_def
proof (intro allI impI)
  fix pre post out and s :: mach
  assume size: "items_size (as @ bs) < 2 ^ 31" and run: "runs env sc (ss @ ts) (mem s) out"
  let ?k = "items_size bs"
  have code: "pre @ filled 0 (as @ bs) @ post = pre @ filled ?k as @ filled 0 bs @ post"
      "pre @ filled 0 (as @ bs) @ post = (pre @ filled ?k as) @ filled 0 bs @ post"
    by (simp_all add: items_append)
  from runs_append [OF run HOL.refl] show "\<exists>s'. steps (pre @ filled 0 (as @ bs) @ post) (length pre, s)
      (length pre + items_size (as @ bs), s') \<and> result_in out s' \<and> (\<forall>q. q \<noteq> RAX \<and> K q \<longrightarrow> regs s' q = regs s q)"
  proof (elim disjE exE conjE)
    fix m' assume m': "runs env sc ss (mem s) (None, m')" "runs env (sc + block_count ss) ts m' out"
    obtain s1 where s1: "steps (pre @ filled ?k as @ filled 0 bs @ post) (length pre, s) (length pre + items_size as, s1)"
        "mem s1 = m'" "\<forall>q. q \<noteq> RAX \<and> K q \<longrightarrow> regs s1 q = regs s q"
      using assms(1) [unfolded implements_def, rule_format, of ?k s "(None, m')" pre "filled 0 bs @ post"] size m'(1)
      by (auto simp: exit_of_def result_in_def)
    obtain s2 where s2: "steps ((pre @ filled ?k as) @ filled 0 bs @ post) (length (pre @ filled ?k as), s1)
        (length (pre @ filled ?k as) + items_size bs, s2)"
        "result_in out s2" "\<forall>q. q \<noteq> RAX \<and> K q \<longrightarrow> regs s2 q = regs s1 q"
      using assms(2) [unfolded lands_def, rule_format, of s1 out "pre @ filled ?k as" post] size m'(2) s1(2) by auto
    have "steps (pre @ filled 0 (as @ bs) @ post) (length pre, s) (length pre + items_size (as @ bs), s2)"
      using steps_trans [OF s1(1) [folded code(1)]] s2(1) [folded code(2)] by (simp add: add.assoc)
    then show ?thesis using s1(3) s2(2,3) by auto
  next
    fix v m' assume m': "out = (Some v, m')" "runs env sc ss (mem s) out"
    then show ?thesis
      unfolding code(1)
      using assms(1) [unfolded implements_def, rule_format, of ?k s out pre "filled 0 bs @ post"] size
      by (simp add: exit_of_def ac_simps)
  qed
qed

text \<open>Without code behind it, what lands still lands.\<close>

lemma lands_quiet:
  assumes "lands K env sc as ss" and "implements K env (sc + block_count ss) [] ts"
  shows "lands K env sc as (ss @ ts)"
  unfolding lands_def
proof (intro allI impI)
  fix pre post out and s :: mach
  assume size: "items_size as < 2 ^ 31" and run: "runs env sc (ss @ ts) (mem s) out"
  from runs_append [OF run HOL.refl] show "\<exists>s'. steps (pre @ filled 0 as @ post) (length pre, s)
      (length pre + items_size as, s') \<and> result_in out s' \<and> (\<forall>q. q \<noteq> RAX \<and> K q \<longrightarrow> regs s' q = regs s q)"
  proof (elim disjE exE conjE)
    fix m' assume m': "runs env sc ss (mem s) (None, m')" "runs env (sc + block_count ss) ts m' out"
    obtain s1 where s1: "steps (pre @ filled 0 as @ post) (length pre, s) (length pre + items_size as, s1)"
        "mem s1 = m'" "\<forall>q. q \<noteq> RAX \<and> K q \<longrightarrow> regs s1 q = regs s q"
      using assms(1) [unfolded lands_def, rule_format, OF size m'(1)] by (auto simp: result_in_def)
    obtain s2 where s2: "steps ((pre @ filled 0 as) @ post) (length (pre @ filled 0 as), s1) (length (pre @ filled 0 as), s2)"
        "result_in out s2" "\<forall>q. q \<noteq> RAX \<and> K q \<longrightarrow> regs s2 q = regs s1 q"
      using assms(2) [THEN implements_lands, unfolded lands_def, rule_format, of s1 out "pre @ filled 0 as" post] m'(2) s1(2) by auto
    have "steps (pre @ filled 0 as @ post) (length pre, s) (length pre + items_size as, s2)"
      using steps_trans [OF s1(1)] s2(1) by simp
    then show ?thesis using s1(3) s2(2,3) by auto
  next
    fix v m' assume ss: "runs env sc ss (mem s) out"
    show ?thesis by (rule assms(1) [unfolded lands_def, rule_format, OF size ss])
  qed
qed

text \<open>What is known of the last item.\<close>

definition tail_ok :: "(reg \<Rightarrow> bool) \<Rightarrow> genv \<Rightarrow> nat \<Rightarrow> item list \<Rightarrow> stmt list \<Rightarrow> bool" where
  "tail_ok K env sc its ss \<longleftrightarrow>
     (its \<noteq> [] \<longleftrightarrow> list_ex emits ss) \<and> (its \<noteq> [] \<longrightarrow> 0 < item_size (last its)) \<and>
     (its \<noteq> [] \<and> last its = Leaving \<longrightarrow> ends_jump ss \<and> (sound_end ss \<longrightarrow> lands K env sc (butlast its) ss))"

lemma tail_ok_mono: "tail_ok K env sc its ss \<Longrightarrow> (\<And>q. K' q \<Longrightarrow> K q) \<Longrightarrow> tail_ok K' env sc its ss"
  unfolding tail_ok_def using lands_mono by blast

lemma tail_ok_append:
  assumes "implements K env sc as ss" and "tail_ok K env sc as ss"
    and "implements K env (sc + block_count ss) bs ts" and "tail_ok K env (sc + block_count ss) bs ts"
  shows "tail_ok K env sc (as @ bs) (ss @ ts)"
proof (cases "bs = []")
  case True
  then show ?thesis
    using assms(2-4) lands_quiet [of K env sc "butlast as" ss ts] by (auto simp: tail_ok_def ends_append)
next
  case False
  then show ?thesis
    using assms(1,2,4) lands_append [of K env sc as ss "butlast bs" ts] by (auto simp: tail_ok_def ends_append butlast_append)
qed

lemma tail_ok_Block: "tail_ok K env (Suc sc) its (bs @ ss) \<Longrightarrow> tail_ok K env sc its (Block bs # ss)"
  using ends_append [of bs ss] lands_Block [of K env sc "butlast its" bs ss]
  by (auto simp: tail_ok_def split: if_splits)

section \<open>What the generator emits\<close>

text \<open>From \<open>g\<close> to \<open>g'\<close> the generator added these items and entered \<open>d\<close> scopes.\<close>

definition built :: "gen \<Rightarrow> cell list \<Rightarrow> item list \<Rightarrow> nat \<Rightarrow> gen \<Rightarrow> bool" where
  "built g rest its d g' \<longleftrightarrow>
     git g' = rest \<and> gcode g' = gcode g @ unfilled its \<and> grets g' = grets g @ places (length (gcode g)) its \<and>
     grell g' = grell g \<and> gscope g' = gscope g + d \<and> taken g' = taken g \<and> (\<forall>r. used g r \<longrightarrow> used g' r)"

definition compiled :: "genv \<Rightarrow> gen \<Rightarrow> cell list \<Rightarrow> stmt list \<Rightarrow> item list \<Rightarrow> gen \<Rightarrow> bool" where
  "compiled env g rest ss its g' \<longleftrightarrow>
     built g rest its (block_count ss) g' \<and> implements (safe g g') env (gscope g) its ss \<and>
     tail_ok (safe g g') env (gscope g) its ss"

lemma built_Nil: "built g (git g) [] 0 g"
  by (simp add: built_def)

lemma built_trans: "built g mid as c g1 \<Longrightarrow> built g1 rest bs d g2 \<Longrightarrow> built g rest (as @ bs) (c + d) g2"
  by (simp add: built_def items_append)

lemma built_safe:
  assumes "built g mid as c g1" and "built g1 rest bs d g2" and "safe g g2 q"
  shows "safe g g1 q" and "safe g1 g2 q"
  using assms by (auto simp: built_def safe_def)

lemma appended_built: "appended g rest bs g' \<Longrightarrow> built g rest [Plain bs] 0 g'"
  by (simp add: appended_def built_def)

lemma compiled_Nil: "compiled env g (git g) [] [] g"
  by (simp add: compiled_def built_Nil implements_Nil tail_ok_def)

lemma compiled_append:
  assumes "compiled env g mid ss as g1" and "compiled env g1 rest ts bs g2"
  shows "compiled env g rest (ss @ ts) (as @ bs) g2"
proof -
  have built: "built g mid as (block_count ss) g1" "built g1 rest bs (block_count ts) g2"
    using assms by (simp_all add: compiled_def)
  have parts: "implements (safe g g1) env (gscope g) as ss" "implements (safe g1 g2) env (gscope g + block_count ss) bs ts"
      "tail_ok (safe g g1) env (gscope g) as ss" "tail_ok (safe g1 g2) env (gscope g + block_count ss) bs ts"
    using assms built(1) by (simp_all add: compiled_def built_def)
  note first = implements_mono [OF parts(1) built_safe(1) [OF built]] tail_ok_mono [OF parts(3) built_safe(1) [OF built]]
  note second = implements_mono [OF parts(2) built_safe(2) [OF built]] tail_ok_mono [OF parts(4) built_safe(2) [OF built]]
  show ?thesis
    using built_trans [OF built] implements_append [OF first(1) second(1)] tail_ok_append [OF first second]
    by (simp add: compiled_def)
qed

text \<open>One statement whose last item is not a jump to the end, or is a \<^verbatim>\<open>return\<close>.\<close>

lemma compiled_one:
  assumes "built g rest its (blocks st) g'" and "implements (safe g g') env (gscope g) its [st]" and "its \<noteq> []" and "emits st" and "0 < item_size (last its)"
    and "last its = Leaving \<Longrightarrow> ends_jump [st] \<and> (sound_end [st] \<longrightarrow> lands (safe g g') env (gscope g) (butlast its) [st])"
  shows "compiled env g rest [st] its g'"
  using assms by (simp add: compiled_def tail_ok_def)

lemma guarded_RAX: "guarded g RAX"
  by (simp add: guarded_def pool_scratch_def pool_saved_def)

lemma is_reg_RAX: "is_reg RAX"
  by (simp add: is_reg_def)

text \<open>A value in \<open>RAX\<close>.\<close>

lemma value_code:
  assumes "rec = codegen_expr n env" and "expr_value env (gscope g) e = Some f" and "git g = cs @ rest" and "shape cs = cells e"
    and "rec RAX RAX g = Inr (c, v, g')"
  shows "c = 0 \<and> (\<exists>bs. appended g rest bs g' \<and> evaluates g g' RAX f bs)"
  using codegen_expr_value [of env n, unfolded expr_ok_def, rule_format, OF assms(2-4) is_reg_RAX guarded_RAX] assms(1,5)
  by blast

lemma single_value_code:
  assumes "rec = codegen_expr n env" and "expr_value env (gscope g) e = Some f" and "git g = cs @ rest" and "shape cs = cells e"
    and "single rec RAX RAX g = Inr g'"
  shows "\<exists>bs. appended g rest bs g' \<and> evaluates g g' RAX f bs"
proof -
  obtain c v where "rec RAX RAX g = Inr (c, v, g')"
    using assms(5) by (auto simp: single_def rbind_eq_Inr split: if_splits)
  from value_code [OF assms(1-4) this] show ?thesis by blast
qed

lemma test_flags: "flag_cc CC_E (s\<lparr>flg := result_flags v False\<rparr>) = Some (v = 0)"
proof -
  have "drop_bit 1 CC_E = 2" "\<not> bit CC_E 0" by code_simp+
  then show ?thesis by (simp add: flag_cc_def holds_cc_def result_flags_def Let_def)
qed

text \<open>A condition: a comparison sets the flags itself, any other value is tested.\<close>

lemma jump_if_false_code:
  assumes rec: "rec = codegen_expr n env" and val: "expr_value env (gscope g) e = Some f"
    and git: "git g = cs @ rest" "shape cs = cells e" and run: "gen_jump_if_false rec g = Inr (patch, g')"
  shows "\<exists>bs cc. tests (safe g g') cc f bs \<and> appended g rest (bs @ jcc_rel32 cc 0) g' \<and> patch = length (gcode g) + length bs + 2"
proof -
  obtain t where t: "peekToken g = Inr t" using run by (auto simp: gen_jump_if_false_def rbind_eq_Inr)
  show ?thesis
  proof (cases "is_compare t")
    case True
    have "\<not> leaf_cells env (gscope g) (cells e) f"
      using t True git by (auto simp: leaf_cells_def shape_inv peekToken_def is_compare_def)
    then obtain t' l r fl fr where e: "cells e = tk t' # cells l @ cells r" "t' \<in> arith_ops"
        "expr_value env (gscope g) l = Some fl" "expr_value env (gscope g) r = Some fr" "f = (\<lambda>m. op_value t' (fl m) (fr m))"
      using expr_cells [OF val] by blast
    obtain a b ds where ds: "cs = CTok t' a b # ds" "shape ds = cells l @ cells r"
      using git(2) e(1) by (auto simp: shape_inv)
    have t': "t' = t" using t git(1) ds(1) by (simp add: peekToken_def)
    obtain us ws where us: "ds = us @ ws" "shape us = cells l" "shape ws = cells r"
      using shape_split [OF ds(2)] by blast
    let ?g = "g\<lparr>git := us @ ws @ rest\<rparr>"
    obtain g1 d g2 where g1: "single rec RAX RAX ?g = Inr g1" "gen_right rec t RAX g1 = Inr (d, g2)"
        "patch = length (gcode g2) + 2" "g' = emit (jcc_rel32 (compare_cc t XOR 1) 0) g2"
      using run t True git(1) ds(1) us(1)
      by (auto simp: gen_jump_if_false_def gen_binary_def rbind_eq_Inr emit_jcc_rel32_def)
    have vals: "expr_value env (gscope ?g) l = Some fl" "expr_value env (gscope ?g) r = Some fr"
      and git_g: "git ?g = us @ ws @ rest" and nt: "t \<in> arith_ops"
      using e(2-4) t' by simp_all
    obtain bs where bs: "appended ?g rest bs g2"
        "does always bs (\<lambda>s s'. op_left t d (fl (mem s)) (fr (mem s)) (mem s) s' \<and>
          (\<forall>q. q \<noteq> RAX \<and> safe ?g g2 q \<longrightarrow> regs s' q = regs s q))"
      using operands_code [OF rec _ nt vals git_g us(2,3) is_reg_RAX guarded_RAX g1(1,2)] codegen_expr_value [of env n]
      unfolding rec by blast
    have same: "safe ?g g2 = safe g g'" by (simp add: fun_eq_iff safe_def g1(4))
    have "compare_cc t XOR 1 < 16" by (rule compare_cc_byte)
    moreover have "does always bs (\<lambda>s s'. flag_cc (compare_cc t XOR 1) s' = Some (f (mem s) = 0) \<and>
        frame (\<lambda>r. r \<noteq> RAX \<and> safe g g' r) s s')"
      using does_mono [OF bs(2)] compare_flags(2) [OF True] op_value_compare [of t] e(2,5) True t'
      by (simp add: same op_left_def frame_def)
    ultimately have "tests (safe g g') (compare_cc t XOR 1) f bs" by (simp add: tests_def)
    moreover have "appended g rest (bs @ jcc_rel32 (compare_cc t XOR 1) 0) g'"
      using bs(1) by (simp add: appended_def g1(4))
    moreover have "patch = length (gcode g) + length bs + 2" using bs(1) g1(3) by (simp add: appended_def)
    ultimately show ?thesis by blast
  next
    case False
    obtain g1 where g1: "single rec RAX RAX g = Inr g1" "patch = length (gcode g1 @ emit_test_rr RAX RAX) + 2"
        "g' = emit (emit_test_rr RAX RAX @ jcc_rel32 CC_E 0) g1"
      using run t False by (auto simp: gen_jump_if_false_def rbind_eq_Inr emit_jcc_rel32_def emit_def)
    obtain bs where bs: "appended g rest bs g1" "evaluates g g1 RAX f bs"
      using single_value_code [OF rec val git g1(1)] by blast
    have same: "safe g g1 = safe g g'" by (simp add: fun_eq_iff safe_def g1(3))
    have "does always (bs @ emit_test_rr RAX RAX) (\<lambda>s s'. flag_cc CC_E s' = Some (f (mem s) = 0) \<and>
        frame (\<lambda>r. r \<noteq> RAX \<and> safe g g' r) s s')"
      by (rule does_seq [OF bs(2) [unfolded evaluates_def] does_alu_rr(4) [OF is_reg_RAX is_reg_RAX]])
        (auto simp: test_flags frame_def same)
    moreover have "CC_E < 16" by code_simp
    ultimately have "tests (safe g g') CC_E f (bs @ emit_test_rr RAX RAX)" by (simp add: tests_def)
    moreover have "appended g rest ((bs @ emit_test_rr RAX RAX) @ jcc_rel32 CC_E 0) g'"
      using bs(1) by (simp add: appended_def g1(3))
    moreover have "patch = length (gcode g) + length (bs @ emit_test_rr RAX RAX) + 2"
      using bs(1) g1(2) by (simp add: appended_def)
    ultimately show ?thesis by blast
  qed
qed

text \<open>Filling in a displacement.\<close>

lemma overwrite_le: "overwrite (length as) (le_bytes 4 v) (as @ le_bytes 4 w @ bs) = as @ le_bytes 4 v @ bs"
  by (simp add: overwrite_def)

lemma patch_forward:
  assumes "patch_rel (length as) (length (gcode g)) g = Inr g'" and "gcode g = as @ le_bytes 4 w @ bs"
  shows "g' = g\<lparr>gcode := as @ le_bytes 4 (of_nat (length bs) :: u32) @ bs\<rparr>"
proof -
  have "int (length (gcode g)) - int (length as + 4) = int (length bs)" by (simp add: assms(2))
  then show ?thesis
    using assms(1) unfolding patch_rel_def Let_def by (auto simp: assms(2) overwrite_le split: if_splits)
qed

lemma patch_backward:
  assumes "patch_rel (length as) target g = Inr g'" and "gcode g = as @ le_bytes 4 w @ bs" and "target \<le> length as + 4"
  shows "g' = g\<lparr>gcode := as @ le_bytes 4 (- of_nat (length as + 4 - target) :: u32) @ bs\<rparr>"
proof -
  have "int target - int (length as + 4) = - int (length as + 4 - target)" using assms(3) by simp
  then have "word_of_int (int target - int (length as + 4)) = (- of_nat (length as + 4 - target) :: u32)"
    by (metis of_int_minus of_int_of_nat_eq)
  then show ?thesis
    using assms(1) unfolding patch_rel_def Let_def by (auto simp: assms(2) overwrite_le split: if_splits)
qed

lemma safe_code [simp]: "safe g (g'\<lparr>gcode := x\<rparr>) = safe g g'" "safe (g\<lparr>git := y\<rparr>) g' = safe g g'"
    "safe g (emit bs g') = safe g g'" "safe g (g'\<lparr>grets := z\<rparr>) = safe g g'"
  by (simp_all add: safe_def fun_eq_iff taken_def used_def)

text \<open>A statement with a body, given what the generator does with the body.\<close>

definition body_compiled :: "genv \<Rightarrow> expr_fun \<Rightarrow> nat \<Rightarrow> bool" where
  "body_compiled env rec n \<longleftrightarrow>
     (\<forall>b g cs rest g'. stmt_ok env (gscope g) b \<longrightarrow> git g = cs @ rest \<longrightarrow> shape cs = stmt_cells b \<longrightarrow> length cs < 2 ^ 64 \<longrightarrow>
        statements n rec 0 1 g = Inr g' \<longrightarrow> (\<exists>its. compiled env g rest [b] its g'))"

lemma if_code:
  assumes rec: "rec = codegen_expr n env" and body: "body_compiled env rec n" and val: "expr_value env (gscope g) e = Some f"
    and ok: "stmt_ok env (gscope g) b" and git: "git g = us @ ws @ rest" "shape us = cells e" "shape ws = stmt_cells b"
    and len: "length ws < 2 ^ 64" and run: "gen_if n rec g = Inr g'"
  shows "\<exists>its. compiled env g rest [If e b] its g'"
proof -
  obtain patch g1 g2 where g1: "gen_jump_if_false rec g = Inr (patch, g1)" "statements n rec 0 1 g1 = Inr g2"
      "patch_rel patch (length (gcode g2)) g2 = Inr g'"
    using run by (auto simp: gen_if_def rbind_eq_Inr)
  obtain bs cc where bs: "tests (safe g g1) cc f bs" "appended g (ws @ rest) (bs @ jcc_rel32 cc 0) g1"
      "patch = length (gcode g) + length bs + 2"
    using jump_if_false_code [OF rec val git(1,2) g1(1)] by blast
  have g1_ok: "git g1 = ws @ rest" "gscope g1 = gscope g" "gcode g1 = gcode g @ bs @ jcc_rel32 cc 0" using bs(2) by (simp_all add: appended_def)
  obtain its where its: "compiled env g1 rest [b] its g2"
    using body [unfolded body_compiled_def, rule_format, of g1 b ws rest g2] ok git(3) len g1(2) g1_ok by auto
  have code: "gcode g2 = (gcode g @ bs @ [0x0F, 0x80 OR cc]) @ le_bytes 4 (0 :: u32) @ unfilled its"
    using its g1_ok(3) by (simp add: compiled_def built_def jcc_rel32_def)
  have "patch = length (gcode g @ bs @ [0x0F, 0x80 OR cc])" by (simp add: bs(3))
  from patch_forward [OF g1(3) [unfolded this] code]
  have g': "g' = g2\<lparr>gcode := gcode g @ bs @ jcc_rel32 cc (of_nat (items_size its)) @ unfilled its\<rparr>"
    by (simp add: jcc_rel32_def)
  let ?its = "Plain (bs @ jcc_rel32 cc (of_nat (items_size its))) # its"
  have two: "built g (ws @ rest) [Plain (bs @ jcc_rel32 cc 0)] 0 g1" "built g1 rest its (blocks b) g2"
    using appended_built [OF bs(2)] its by (simp_all add: compiled_def)
  have "built g rest ?its (blocks b) g'"
    using built_trans [OF two] by (simp add: built_def g' taken_def used_def fun_eq_iff)
  moreover have "implements (safe g g') env (gscope g) ?its [If e b]"
  proof (rule implements_If [OF val])
    show "tests (safe g g') cc f bs"
      by (rule tests_mono [OF bs(1)]) (simp add: g' built_safe(1) [OF two])
    have "implements (safe g1 g2) env (gscope g) its [b]" using its g1_ok(2) by (simp add: compiled_def)
    then show "implements (safe g g') env (gscope g) its [b]"
      by (rule implements_mono) (simp add: g' built_safe(2) [OF two])
  qed
  moreover have "ends_jump [b]" if "last ?its = Leaving"
    using its that by (auto simp: compiled_def tail_ok_def split: if_splits)
  moreover have "0 < item_size (last ?its)"
    using its by (auto simp: compiled_def tail_ok_def)
  ultimately have "compiled env g rest [If e b] ?its g'"
    by (intro compiled_one) simp_all
  then show ?thesis by blast
qed

lemma while_code:
  assumes rec: "rec = codegen_expr n env" and body: "body_compiled env rec n" and val: "expr_value env (gscope g) e = Some f"
    and ok: "stmt_ok env (gscope g) b" and git: "git g = us @ ws @ rest" "shape us = cells e" "shape ws = stmt_cells b"
    and len: "length ws < 2 ^ 64" and run: "gen_while n rec g = Inr g'"
  shows "\<exists>its. compiled env g rest [While e b] its g'"
proof -
  obtain patch g1 g2 g3 where g1: "gen_jump_if_false rec g = Inr (patch, g1)" "statements n rec 0 1 g1 = Inr g2"
      "patch_rel (length (gcode g2) + 1) (length (gcode g)) (emit (jmp_rel32 0) g2) = Inr g3"
      "patch_rel patch (length (gcode g3)) g3 = Inr g'"
    using run by (auto simp: gen_while_def rbind_eq_Inr emit_jmp_rel32_def Let_def)
  obtain bs cc where bs: "tests (safe g g1) cc f bs" "appended g (ws @ rest) (bs @ jcc_rel32 cc 0) g1"
      "patch = length (gcode g) + length bs + 2"
    using jump_if_false_code [OF rec val git(1,2) g1(1)] by blast
  have g1_ok: "git g1 = ws @ rest" "gscope g1 = gscope g" "gcode g1 = gcode g @ bs @ jcc_rel32 cc 0" using bs(2) by (simp_all add: appended_def)
  obtain its where its: "compiled env g1 rest [b] its g2"
    using body [unfolded body_compiled_def, rule_format, of g1 b ws rest g2] ok git(3) len g1(2) g1_ok by auto
  let ?n = "length bs + items_size its + 11"
  have code2: "gcode g2 = gcode g @ bs @ jcc_rel32 cc 0 @ unfilled its"
    using its g1_ok(3) by (simp add: compiled_def built_def)
  have code: "gcode (emit (jmp_rel32 0) g2) = (gcode g2 @ [0xE9]) @ le_bytes 4 (0 :: u32) @ []"
    by (simp add: emit_def jmp_rel32_def)
  have "length (gcode g2) + 1 = length (gcode g2 @ [0xE9])" by simp
  from patch_backward [OF g1(3) [unfolded this] code]
  have g3: "g3 = g2\<lparr>gcode := gcode g2 @ jmp_rel32 (- of_nat ?n)\<rparr>"
    by (simp add: code2 jmp_rel32_def emit_def add.commute add.left_commute)
  have code3: "gcode g3 = (gcode g @ bs @ [0x0F, 0x80 OR cc]) @ le_bytes 4 (0 :: u32) @ unfilled its @ jmp_rel32 (- of_nat ?n)"
    by (simp add: g3 code2 jcc_rel32_def)
  have "patch = length (gcode g @ bs @ [0x0F, 0x80 OR cc])" by (simp add: bs(3))
  from patch_forward [OF g1(4) [unfolded this] code3]
  have g': "g' = g2\<lparr>gcode := gcode g @ bs @ jcc_rel32 cc (of_nat (items_size its + 5)) @ unfilled its @ jmp_rel32 (- of_nat ?n)\<rparr>"
    by (simp add: g3 jcc_rel32_def)
  have two: "built g (ws @ rest) [Plain (bs @ jcc_rel32 cc 0)] 0 g1" "built g1 rest its (blocks b) g2"
    using appended_built [OF bs(2)] its by (simp_all add: compiled_def)
  have "built g rest (loop_items cc bs its) (blocks b) g'"
    using built_trans [OF two] by (simp add: built_def g' taken_def used_def fun_eq_iff items_append)
  moreover have "implements (safe g g') env (gscope g) (loop_items cc bs its) [While e b]"
  proof (rule implements_While [OF val])
    show "tests (safe g g') cc f bs"
      by (rule tests_mono [OF bs(1)]) (simp add: g' built_safe(1) [OF two])
    have "implements (safe g1 g2) env (gscope g) its [b]" using its g1_ok(2) by (simp add: compiled_def)
    then show "implements (safe g g') env (gscope g) its [b]"
      by (rule implements_mono) (simp add: g' built_safe(2) [OF two])
  qed
  ultimately have "compiled env g rest [While e b] (loop_items cc bs its) g'"
    by (intro compiled_one) simp_all
  then show ?thesis by blast
qed

text \<open>Assignments and \<^verbatim>\<open>return\<close>.\<close>

lemma name_addr_leaf:
  assumes "name_addr env (gscope g) x = Some addr"
  shows "\<exists>i. leaf_address env (gscope g) (CTok N_VARIABLE a b # CPay (PStr x) # ds) = Inr (Some (addr, Some i))"
  using assms by (auto simp: name_addr_def leaf_address_def Let_def split: sum.splits option.splits)

lemma does_store_rax_abs:
  "does always (emit_store_rax_abs a) (\<lambda>s s'. s' = s\<lparr>mem := store64 a (regs s RAX) (mem s)\<rparr>)"
  using encodes_asm [of "StoreRaxAbs a"] by (auto intro: doesI)

lemma does_add_mem:
  "is_reg b \<Longrightarrow> is_reg r \<Longrightarrow>
     does always (emit_add_mem_reg b 0 r)
       (\<lambda>s s'. s' = s\<lparr>mem := store64 (regs s b) (load64 (mem s) (regs s b) + regs s r) (mem s),
         flg := add_flags (load64 (mem s) (regs s b)) (regs s r)\<rparr>)"
  using encodes_asm [of "AddMem b 0 r"] by (auto simp: addr_of_def Let_def intro: doesI)

lemma put_code:
  assumes rec: "rec = codegen_expr n env" and val: "expr_value env (gscope g) e = Some f" and name: "name_addr env (gscope g) x = Some addr"
    and git: "git g = CTok N_VARIABLE a b # CPay (PStr x) # us @ rest" "shape us = cells e" and run: "gen_assign rec env RAX g = Inr g'"
  shows "\<exists>its. compiled env g rest [Put x e] its g'"
proof -
  let ?g = "g\<lparr>git := us @ rest\<rparr>"
  obtain i where "leaf_address env (gscope g) (git g) = Inr (Some (addr, Some i))"
    using name_addr_leaf [OF name, of a b "us @ rest"] unfolding git(1) by blast
  then obtain g1 where g1: "single rec RAX RAX ?g = Inr g1" "g' = emit (emit_store_rax_abs addr) g1"
    using run git(1) by (auto simp: gen_assign_def assign_leaf_def peekToken_def rbind_eq_Inr)
  have "expr_value env (gscope ?g) e = Some f" "git ?g = us @ rest" using val by simp_all
  then obtain bs where bs: "appended ?g rest bs g1" "evaluates ?g g1 RAX f bs"
    using single_value_code [OF rec _ _ git(2) g1(1)] by blast
  have "appended ?g rest (bs @ emit_store_rax_abs addr) g'" using appended_emit [OF bs(1)] g1(2) by simp
  then have built: "built g rest [Plain (bs @ emit_store_rax_abs addr)] 0 g'"
    by (simp add: appended_def built_def fun_eq_iff taken_def used_def)
  have "does always (bs @ emit_store_rax_abs addr) (\<lambda>s s'. mem s' = store64 addr (f (mem s)) (mem s) \<and>
      (\<forall>q. q \<noteq> RAX \<and> safe g g' q \<longrightarrow> regs s' q = regs s q))"
    by (rule does_seq [OF bs(2) [unfolded evaluates_def] does_store_rax_abs]) (simp_all add: frame_def g1(2))
  then have "implements (safe g g') env (gscope g) [Plain (bs @ emit_store_rax_abs addr)] [Put x e]"
    by (rule implements_plain) (use name val in \<open>auto elim!: runs_PutE\<close>)
  with built have "compiled env g rest [Put x e] [Plain (bs @ emit_store_rax_abs addr)] g'"
    by (intro compiled_one) (simp_all add: emit_store_rax_abs_def)
  then show ?thesis by blast
qed

lemma add_put_code:
  assumes rec: "rec = codegen_expr n env" and val: "expr_value env (gscope g) e = Some f" and name: "name_addr env (gscope g) x = Some addr"
    and git: "git g = CTok N_VARIABLE a b # CPay (PStr x) # us @ rest" "shape us = cells e" and run: "gen_add_assign rec RAX g = Inr g'"
  shows "\<exists>its. compiled env g rest [AddPut x e] its g'"
proof -
  let ?g = "emit (emit_mov_imm64 RAX addr) (g\<lparr>git := us @ rest\<rparr>)"
  let ?A = "\<lambda>r. emit_add_mem_reg RAX 0 r @ emit_load RAX RAX 0" and ?B = "\<lambda>l. emit_add_mem_reg l 0 RAX @ emit_load RAX l 0"
  obtain i where leaf: "leaf_address env (gscope g) (git g) = Inr (Some (addr, Some i))"
    using name_addr_leaf [OF name, of a b "us @ rest"] unfolding git(1) by blast
  obtain n' where n': "n = Suc n'" using run rec by (cases n) (auto simp: gen_add_assign_def single_def)
  have "single rec RAX ANY g = Inr ?g"
    using leaf git(1) unfolding rec n'
    by (simp add: single_def getNode_def gen_node_def gen_variable_def Let_def)
  then obtain r where r: "with_operand rec RAX (\<lambda>v g. Inr (emit (?A v) g)) (\<lambda>a g. Inr (emit (?B a) g)) ?g = Inr (r, g')"
    using run by (auto simp: gen_add_assign_def rbind_eq_Inr)
  define R where "R = (\<lambda>(d :: reg) x y m (s' :: mach). mem s' = store64 x (load64 m x + y) m)"
  have A: "does always (?A r) (\<lambda>s s'. R RAX (regs s RAX) (regs s r) (mem s) s' \<and> (\<forall>q. q \<noteq> RAX \<longrightarrow> regs s' q = regs s q))"
    if "is_reg r" for r
    by (rule does_seq [OF does_add_mem [OF is_reg_RAX that] does_load [OF is_reg_RAX is_reg_RAX]]) (simp_all add: R_def)
  have B: "does always (?B l) (\<lambda>s s'. R l (regs s l) (regs s RAX) (mem s) s' \<and> (\<forall>q. q \<noteq> l \<and> q \<noteq> RAX \<longrightarrow> regs s' q = regs s q))"
    if "is_reg l" for l
    by (rule does_seq [OF does_add_mem [OF that is_reg_RAX] does_load [OF is_reg_RAX that]]) (simp_all add: R_def)
  have g_ok: "expr_value env (gscope ?g) e = Some f" "git ?g = us @ rest" using val by simp_all
  have "expr_ok env rec" unfolding rec by (rule codegen_expr_value)
  then obtain bs where bs: "appended ?g rest bs g'"
      "does always bs (\<lambda>s s'. R r (regs s RAX) (f (mem s)) (mem s) s' \<and> (\<forall>q. q \<noteq> RAX \<and> safe ?g g' q \<longrightarrow> regs s' q = regs s q))"
    using with_operand_code [OF rec _ g_ok git(2) is_reg_RAX guarded_RAX A B r] by blast
  let ?bs = "emit_mov_imm64 RAX addr @ bs"
  have built: "built g rest [Plain ?bs] 0 g'"
    using bs(1) by (simp add: appended_def built_def fun_eq_iff taken_def used_def)
  have same: "safe ?g g' = safe g g'" by (simp add: fun_eq_iff safe_def)
  have "does always ?bs (\<lambda>s s'. mem s' = store64 addr (load64 (mem s) addr + f (mem s)) (mem s) \<and>
      (\<forall>q. q \<noteq> RAX \<and> safe g g' q \<longrightarrow> regs s' q = regs s q))"
    by (rule does_seq [OF does_mov_imm64 [OF is_reg_RAX] bs(2)]) (simp_all add: R_def same)
  then have "implements (safe g g') env (gscope g) [Plain ?bs] [AddPut x e]"
    by (rule implements_plain) (use name val in \<open>auto elim!: runs_AddPutE\<close>)
  with built have "compiled env g rest [AddPut x e] [Plain ?bs] g'"
    by (intro compiled_one) (simp_all add: emit_mov_imm64_def emit_rex_def)
  then show ?thesis by blast
qed

lemma return_code:
  assumes rec: "rec = codegen_expr n env" and val: "expr_value env (gscope g) e = Some f"
    and git: "git g = us @ rest" "shape us = cells e" and run: "gen_return rec g = Inr g'"
  shows "\<exists>its. compiled env g rest [Return e] its g'"
proof -
  obtain c v g1 where g1: "rec RAX RAX g = Inr (c, v, g1)"
      "g' = (emit (jmp_rel32 0) g1)\<lparr>grets := grets g1 @ [length (gcode g1) + 1]\<rparr>"
    using run by (auto simp: gen_return_def emit_jmp_rel32_def rbind_eq_Inr Let_def split: if_splits)
  obtain bs where bs: "appended g rest bs g1" "evaluates g g1 RAX f bs"
    using value_code [OF rec val git g1(1)] by blast
  have same: "safe g g' = safe g g1" by (simp add: g1(2))
  have "built g rest [Plain bs, Leaving] 0 g'"
    using bs(1) by (simp add: appended_def built_def g1(2) fun_eq_iff taken_def used_def)
  moreover have "implements (safe g g') env (gscope g) [Plain bs, Leaving] [Return e]"
    by (rule implements_Return [OF val]) (use bs(2) in \<open>simp add: evaluates_def same\<close>)
  moreover have "lands (safe g g') env (gscope g) [Plain bs] [Return e]"
    unfolding lands_def
  proof (intro allI impI)
    fix pre post out and s :: mach
    assume "runs env (gscope g) [Return e] (mem s) out"
    then have out: "out = (Some (f (mem s)), mem s)" using val by (auto elim: runs_ReturnE)
    obtain s' where "steps (pre @ bs @ post) (length pre, s) (length (pre @ bs), s')" "regs s' RAX = f (mem s)"
        "frame (\<lambda>r. r \<noteq> RAX \<and> safe g g1 r) s s'"
      using does_steps [OF bs(2) [unfolded evaluates_def], where s = s] by blast
    then show "\<exists>s'. steps (pre @ filled 0 [Plain bs] @ post) (length pre, s) (length pre + items_size [Plain bs], s') \<and>
        result_in out s' \<and> (\<forall>q. q \<noteq> RAX \<and> safe g g' q \<longrightarrow> regs s' q = regs s q)"
      by (auto simp: out result_in_def frame_def same)
  qed
  ultimately have "compiled env g rest [Return e] [Plain bs, Leaving] g'"
    by (intro compiled_one) simp_all
  then show ?thesis by blast
qed

section \<open>Lists of statements\<close>

lemma stmt_cells_length: "1 \<le> length (stmt_cells st)"
  by (cases st) simp_all

lemma concat_cells_length: "length ss \<le> length (concat (map stmt_cells ss))"
proof (induction ss)
  case (Cons st ss)
  have "length (concat (map stmt_cells (st # ss))) = length (stmt_cells st) + length (concat (map stmt_cells ss))" by simp
  then show ?case using Cons stmt_cells_length [of st] unfolding list.size by linarith
qed simp

text \<open>One statement that is not a block, with the generator one call deeper for what is inside of it.\<close>

lemma head_code:
  assumes body: "body_compiled env (codegen_expr n env) n" and ok: "stmt_ok env (gscope g) st" and not_block: "\<forall>bs. st \<noteq> Block bs"
    and git: "git g = cs @ rest" "shape cs = stmt_cells st" and len: "length cs < 2 ^ 64"
    and run: "codegen_expr (Suc n) env RAX ANY g = Inr (i, v, g')"
  shows "i = 0 \<and> (\<exists>its. compiled env g rest [st] its g')"
proof -
  let ?rec = "codegen_expr n env"
  have skip: "compiled env (g\<lparr>git := x\<rparr>) rest ss its g' = compiled env g rest ss its g'" for x ss its
    by (simp add: compiled_def built_def taken_def used_def fun_eq_iff)
  show ?thesis
  proof (cases st)
    case (Put x e)
    obtain addr f where val: "name_addr env (gscope g) x = Some addr" "expr_value env (gscope g) e = Some f"
      using ok by (auto simp: Put has_value_def)
    obtain t1 t2 a b us where cs: "cs = CTok T_EQ t1 t2 # CTok N_VARIABLE a b # CPay (PStr x) # us" "shape us = cells e"
      using git(2) by (auto simp: Put shape_inv)
    let ?g = "g\<lparr>git := CTok N_VARIABLE a b # CPay (PStr x) # us @ rest\<rparr>"
    have "gen_assign ?rec env RAX ?g = Inr g'" "i = 0"
      using run git(1) cs(1) by (auto simp: getNode_def gen_node_def no_var_def rbind_eq_Inr)
    then show ?thesis
      using put_code [OF HOL.refl, of env ?g e f x addr a b us rest n g'] val cs(2) skip Put by auto
  next
    case (AddPut x e)
    obtain addr f where val: "name_addr env (gscope g) x = Some addr" "expr_value env (gscope g) e = Some f"
      using ok by (auto simp: AddPut has_value_def)
    obtain t1 t2 a b us where cs: "cs = CTok T_ADDEQ t1 t2 # CTok N_VARIABLE a b # CPay (PStr x) # us" "shape us = cells e"
      using git(2) by (auto simp: AddPut shape_inv)
    let ?g = "g\<lparr>git := CTok N_VARIABLE a b # CPay (PStr x) # us @ rest\<rparr>"
    have "gen_add_assign ?rec RAX ?g = Inr g'" "i = 0"
      using run git(1) cs(1) by (auto simp: getNode_def gen_node_def no_var_def rbind_eq_Inr)
    then show ?thesis
      using add_put_code [OF HOL.refl, of env ?g e f x addr a b us rest n g'] val cs(2) skip AddPut by auto
  next
    case (If e b)
    obtain f where val: "expr_value env (gscope g) e = Some f" "stmt_ok env (gscope g) b"
      using ok by (auto simp: If has_value_def)
    obtain t1 t2 ds where ds: "cs = CTok T_IF t1 t2 # ds" "shape ds = cells e @ stmt_cells b"
      using git(2) by (auto simp: If shape_inv)
    obtain us ws where us: "ds = us @ ws" "shape us = cells e" "shape ws = stmt_cells b"
      using shape_split [OF ds(2)] by blast
    let ?g = "g\<lparr>git := us @ ws @ rest\<rparr>"
    have "gen_if n ?rec ?g = Inr g'" "i = 0"
      using run git(1) ds(1) us(1) by (auto simp: getNode_def gen_node_def no_var_def rbind_eq_Inr)
    then show ?thesis
      using if_code [OF HOL.refl body, of ?g e f b us ws rest g'] val us len ds(1) skip If by auto
  next
    case (While e b)
    obtain f where val: "expr_value env (gscope g) e = Some f" "stmt_ok env (gscope g) b"
      using ok by (auto simp: While has_value_def)
    obtain t1 t2 ds where ds: "cs = CTok T_WHILE t1 t2 # ds" "shape ds = cells e @ stmt_cells b"
      using git(2) by (auto simp: While shape_inv)
    obtain us ws where us: "ds = us @ ws" "shape us = cells e" "shape ws = stmt_cells b"
      using shape_split [OF ds(2)] by blast
    let ?g = "g\<lparr>git := us @ ws @ rest\<rparr>"
    have "gen_while n ?rec ?g = Inr g'" "i = 0"
      using run git(1) ds(1) us(1) by (auto simp: getNode_def gen_node_def no_var_def rbind_eq_Inr)
    then show ?thesis
      using while_code [OF HOL.refl body, of ?g e f b us ws rest g'] val us len ds(1) skip While by auto
  next
    case (Return e)
    obtain f where val: "expr_value env (gscope g) e = Some f"
      using ok by (auto simp: Return has_value_def)
    obtain t1 t2 us where us: "cs = CTok T_RETURN t1 t2 # us" "shape us = cells e"
      using git(2) by (auto simp: Return shape_inv)
    let ?g = "g\<lparr>git := us @ rest\<rparr>"
    have "gen_return ?rec ?g = Inr g'" "i = 0"
      using run git(1) us(1) by (auto simp: getNode_def gen_node_def no_var_def rbind_eq_Inr)
    then show ?thesis
      using return_code [OF HOL.refl, of env ?g e f us rest n g'] val us(2) skip Return by auto
  next
    case (Block bs)
    with not_block show ?thesis by simp
  qed
qed

lemma block_code:
  assumes "git g = cs @ rest" and "shape cs = stmt_cells (Block bs)"
    and "codegen_expr (Suc n) env RAX ANY g = Inr (i, v, g')"
  shows "i = of_nat (length bs) \<and> (\<exists>t1 t2 ds. cs = CTok N_BLOCK t1 t2 # CPay (PVal i) # ds \<and> shape ds = concat (map stmt_cells bs) \<and>
    g' = g\<lparr>git := ds @ rest, gscope := Suc (gscope g)\<rparr>)"
proof -
  obtain t1 t2 ds where "cs = CTok N_BLOCK t1 t2 # CPay (PVal (of_nat (length bs))) # ds" "shape ds = concat (map stmt_cells bs)"
    using assms(2) by (auto simp: shape_inv)
  with assms(1,3) show ?thesis
    by (auto simp: getNode_def gen_node_def getValue_def)
qed

lemma stmts_ok_append: "stmts_ok env sc (ss @ ts) \<longleftrightarrow> stmts_ok env sc ss \<and> stmts_ok env (sc + block_count ss) ts"
  by (induction ss arbitrary: sc) (auto simp: add.assoc)

lemma shape_length [simp]: "length (shape cs) = length cs"
  by (simp add: shape_def)

lemma compiled_Block:
  assumes "compiled env (g\<lparr>git := x, gscope := Suc (gscope g)\<rparr>) rest (bs @ ss) its g'"
  shows "compiled env g rest (Block bs # ss) its g'"
proof -
  have same: "safe (g\<lparr>git := x, gscope := Suc (gscope g)\<rparr>) g' = safe g g'"
    by (simp add: fun_eq_iff safe_def taken_def)
  have "built g rest its (block_count (Block bs # ss)) g'"
    using assms by (simp add: compiled_def built_def taken_def used_def fun_eq_iff)
  then show ?thesis
    using assms implements_Block [of "safe g g'" env "gscope g" its bs ss] tail_ok_Block [of "safe g g'" env "gscope g" its bs ss]
    unfolding compiled_def same by simp
qed

lemma word_add_nat: "unat a + unat b < 2 ^ 64 \<Longrightarrow> unat (a + b :: u64) = unat a + unat b"
  by (simp add: unat_plus_if')

lemma list_code:
  assumes "\<forall>m. n = Suc m \<longrightarrow> body_compiled env (codegen_expr m env) m"
  shows "stmts_ok env (gscope g) ss \<Longrightarrow> git g = cs @ rest \<Longrightarrow> shape cs = concat (map stmt_cells ss) \<Longrightarrow>
    unat count = unat j + length ss \<Longrightarrow> unat j + length cs < 2 ^ 64 \<Longrightarrow>
    statements k (codegen_expr n env) j count g = Inr g' \<Longrightarrow> \<exists>its. compiled env g rest ss its g'"
proof (induction k arbitrary: j count g ss cs)
  case (Suc k)
  show ?case
  proof (cases ss)
    case Nil
    then have "g' = g" "cs = []" using Suc.prems by (auto simp: word_less_nat_alt shape_inv)
    then show ?thesis using compiled_Nil [of env g] Suc.prems(2) Nil by auto
  next
    case (Cons st ss')
    have "j < count" using Suc.prems(4) Cons by (simp add: word_less_nat_alt)
    then obtain i v g1 where g1: "codegen_expr n env RAX ANY g = Inr (i, v, g1)"
        "statements k (codegen_expr n env) (j + 1) (if i \<noteq> 0 then count + i else count) g1 = Inr g'"
      using Suc.prems(6) by (auto simp: rbind_eq_Inr)
    obtain m where m: "n = Suc m" using g1(1) by (cases n) auto
    have count: "(if i \<noteq> 0 then count + i else count) = count + i" by simp
    obtain us ws where us: "cs = us @ ws" "shape us = stmt_cells st" "shape ws = concat (map stmt_cells ss')"
      using shape_split [of cs "stmt_cells st"] Suc.prems(3) Cons by auto
    have len: "1 \<le> length us" "length ss' \<le> length ws"
      using stmt_cells_length [of st] concat_cells_length [of ss'] us(2,3) shape_length [of us] shape_length [of ws] by simp_all
    have git_us: "git g = us @ ws @ rest" using Suc.prems(2) us(1) by simp
    have j: "unat (j + 1) = unat j + 1" using word_add_nat [of j 1] Suc.prems(5) len(1) us(1) by simp
    show ?thesis
    proof (cases "\<exists>bs. st = Block bs")
      case True
      then obtain bs where st: "st = Block bs" by blast
      obtain t1 t2 ds where ds: "i = of_nat (length bs)" "us = CTok N_BLOCK t1 t2 # CPay (PVal i) # ds" "shape ds = concat (map stmt_cells bs)"
          "g1 = g\<lparr>git := ds @ ws @ rest, gscope := Suc (gscope g)\<rparr>"
        using block_code [OF git_us us(2) [unfolded st] g1(1) [unfolded m]] by blast
      have lens: "length cs = 2 + length ds + length ws" "length bs \<le> length ds"
        using us(1) ds(2) concat_cells_length [of bs] ds(3) shape_length [of ds] by simp_all
      then have "length bs < 2 ^ 64" using Suc.prems(5) by linarith
      then have "unat i = length bs" using ds(1) by (simp add: unat_of_nat take_bit_nat_eq_self_iff)
      moreover have count_j: "unat count = unat j + 1 + length ss'" using Suc.prems(4) Cons by simp
      ultimately have "unat count + unat i < 2 ^ 64"
        using len(2) lens Suc.prems(5) by linarith
      then have "unat (count + i) = unat count + unat i" by (rule word_add_nat)
      then have "unat (count + i) = unat (j + 1) + length (bs @ ss')"
        unfolding count_j j \<open>unat i = length bs\<close> by simp
      moreover have "shape (ds @ ws) = concat (map stmt_cells (bs @ ss'))" using ds(3) us(3) by simp
      moreover have "stmts_ok env (gscope g1) (bs @ ss')"
        using Suc.prems(1) Cons st ds(4) by (simp add: stmts_ok_append)
      moreover have "git g1 = (ds @ ws) @ rest" "unat (j + 1) + length (ds @ ws) < 2 ^ 64"
        using ds(2,4) us(1) j Suc.prems(5) by simp_all
      ultimately obtain its where "compiled env g1 rest (bs @ ss') its g'"
        using Suc.IH [of g1 "bs @ ss'" "ds @ ws" "count + i" "j + 1"] g1(2) count by auto
      then show ?thesis using compiled_Block ds(4) Cons st by blast
    next
      case False
      have body: "body_compiled env (codegen_expr m env) m" using assms m by blast
      have st_ok: "stmt_ok env (gscope g) st" using Suc.prems(1) Cons by simp
      have "length us < 2 ^ 64" using Suc.prems(5) us(1) by simp
      with git_us obtain its1 where its1: "i = 0" "compiled env g (ws @ rest) [st] its1 g1"
        using head_code [OF body st_ok _ _ us(2) _ g1(1) [unfolded m], of "ws @ rest"] False by blast
      have "git g1 = ws @ rest" "gscope g1 = gscope g + blocks st" using its1(2) by (simp_all add: compiled_def built_def)
      then obtain its2 where "compiled env g1 rest ss' its2 g'"
        using Suc.IH [of g1 ss' ws count "j + 1"] g1(2) its1(1) Suc.prems(1,4,5) us(1,3) len(1) j Cons by auto
      then show ?thesis using compiled_append [OF its1(2)] Cons by fastforce
    qed
  qed
qed simp

lemma body_code: "body_compiled env (codegen_expr n env) n"
proof (induction n)
  case 0
  show ?case by (simp add: body_compiled_def)
next
  case (Suc n)
  show ?case
    unfolding body_compiled_def
  proof (intro allI impI)
    fix b g cs rest g'
    assume "stmt_ok env (gscope g) b" "git g = cs @ rest" "shape cs = stmt_cells b" "length cs < 2 ^ 64"
      "statements (Suc n) (codegen_expr (Suc n) env) 0 1 g = Inr g'"
    then show "\<exists>its. compiled env g rest [b] its g'"
      using list_code [of "Suc n" env g "[b]" cs rest 1 0 "Suc n" g'] Suc by simp
  qed
qed

end
