(* ===== verification/Cup_Frame.thy ===== *)
theory Cup_Frame
  imports Cup_Run
begin

text \<open>
  The function around its statements: the stack frame with the saved registers, the prologue that
  makes it, the saves and the last jump that are taken out again, the returns that are filled in,
  and the epilogue. Together with \<open>Cup_Run\<close> this gives what a compiled function does.
\<close>

section \<open>Memory apart from the variables\<close>

text \<open>What lies in \<open>A\<close>, the stack, holds no variable: a run neither depends on it nor changes it.\<close>

definition off_stack :: "genv \<Rightarrow> u64 set \<Rightarrow> bool" where
  "off_stack env A \<longleftrightarrow> (\<forall>x sc i. varLookup (ge_sym env) x sc = Inr (Some i) \<longrightarrow> (\<forall>k < 8. var_addr env i + of_nat k \<notin> A))"

definition same_but :: "u64 set \<Rightarrow> memory \<Rightarrow> memory \<Rightarrow> bool" where
  "same_but A m m' \<longleftrightarrow> (\<forall>a. a \<notin> A \<longrightarrow> m' a = m a)"

lemma load64_same:
  assumes "same_but A m m'" and "\<forall>k < 8. a + of_nat k \<notin> A"
  shows "load64 m' a = load64 m a"
proof -
  have "map (\<lambda>i. m' (a + of_nat i)) [0..<8] = map (\<lambda>i. m (a + of_nat i)) [0..<8]"
    using assms by (intro map_cong) (simp_all add: same_but_def)
  then show ?thesis by (simp only: load64_def)
qed

lemma store64_inside: "unat (x - a) < 8 \<Longrightarrow> \<exists>k < 8. x = a + of_nat k"
  by (rule exI [of _ "unat (x - a)"]) simp

lemma store64_same:
  assumes "same_but A m m'" and "\<forall>k < 8. a + of_nat k \<notin> A"
  shows "same_but A (store64 a v m) (store64 a v m')" and "x \<in> A \<Longrightarrow> store64 a v m' x = m' x"
  using assms store64_inside [of _ a] by (auto simp: same_but_def store64_def)

lemma expr_value_same:
  assumes "off_stack env A" and "same_but A m m'"
  shows "expr_value env sc e = Some f \<Longrightarrow> f m' = f m"
proof (induction e arbitrary: f)
  case (Bin t l r)
  then show ?case by (auto split: if_splits option.splits)
next
  case (Name x)
  then show ?case
    using load64_same [OF assms(2)] assms(1) by (auto simp: var_value_at_Some off_stack_def)
next
  case This
  then show ?case
    using load64_same [OF assms(2)] assms(1) by (auto simp: var_value_at_Some off_stack_def)
qed simp_all

lemma name_addr_off_stack: "off_stack env A \<Longrightarrow> name_addr env sc x = Some a \<Longrightarrow> \<forall>k < 8. a + of_nat k \<notin> A"
  by (auto simp: off_stack_def name_addr_def split: sum.splits option.splits)

lemma runs_off_stack:
  assumes "off_stack env A"
  shows "runs env sc ss m out \<Longrightarrow> same_but A m m' \<Longrightarrow>
    \<exists>out'. runs env sc ss m' out' \<and> fst out' = fst out \<and> same_but A (snd out) (snd out') \<and> (\<forall>a \<in> A. snd out' a = m' a)"
proof (induction arbitrary: m' rule: runs.induct)
  case (Nil sc m)
  then show ?case by (intro exI [of _ "(None, m')"]) (simp add: runs.Nil)
next
  case (Put sc x a e f ss m out)
  note ap = name_addr_off_stack [OF assms Put.hyps(1)]
  have f: "f m' = f m" by (rule expr_value_same [OF assms Put.prems Put.hyps(2)])
  obtain out' where o: "runs env sc ss (store64 a (f m) m') out'" "fst out' = fst out" "same_but A (snd out) (snd out')"
      "\<forall>x \<in> A. snd out' x = store64 a (f m) m' x"
    using Put.IH [OF store64_same(1) [OF Put.prems ap]] by blast
  have "runs env sc (Put x e # ss) m' out'"
    by (rule runs.Put [OF Put.hyps(1,2)]) (simp add: f o(1))
  then show ?case using o(2-4) store64_same(2) [OF Put.prems ap] by (intro exI [of _ out']) simp
next
  case (AddPut sc x a e f ss m out)
  note ap = name_addr_off_stack [OF assms AddPut.hyps(1)]
  have f: "f m' = f m" "load64 m' a = load64 m a"
    by (rule expr_value_same [OF assms AddPut.prems AddPut.hyps(2)], rule load64_same [OF AddPut.prems ap])
  obtain out' where o: "runs env sc ss (store64 a (load64 m a + f m) m') out'" "fst out' = fst out" "same_but A (snd out) (snd out')"
      "\<forall>x \<in> A. snd out' x = store64 a (load64 m a + f m) m' x"
    using AddPut.IH [OF store64_same(1) [OF AddPut.prems ap]] by blast
  have "runs env sc (AddPut x e # ss) m' out'"
    by (rule runs.AddPut [OF AddPut.hyps(1,2)]) (simp add: f o(1))
  then show ?case using o(2-4) store64_same(2) [OF AddPut.prems ap] by (intro exI [of _ out']) simp
next
  case (IfFalse sc e f m b ss out)
  then show ?case using runs.IfFalse [of env sc e f m' b ss] expr_value_same [OF assms IfFalse.prems IfFalse.hyps(1)] by metis
next
  case (IfTrue sc e f m b ss out)
  then show ?case using runs.IfTrue [of env sc e f m' b ss] expr_value_same [OF assms IfTrue.prems IfTrue.hyps(1)] by metis
next
  case (WhileFalse sc e f m b ss out)
  then show ?case using runs.WhileFalse [of env sc e f m' b ss] expr_value_same [OF assms WhileFalse.prems WhileFalse.hyps(1)] by metis
next
  case (WhileTrue sc e f m b m1 ss out)
  have f: "f m' \<noteq> 0" using expr_value_same [OF assms WhileTrue.prems WhileTrue.hyps(1)] WhileTrue.hyps(2) by simp
  obtain m2 where m2: "runs env sc [b] m' (None, m2)" "same_but A m1 m2" "\<forall>a \<in> A. m2 a = m' a"
    using WhileTrue.IH(1) [OF WhileTrue.prems] by auto
  obtain out' where o: "runs env sc (While e b # ss) m2 out'" "fst out' = fst out" "same_but A (snd out) (snd out')"
      "\<forall>a \<in> A. snd out' a = m2 a"
    using WhileTrue.IH(2) [OF m2(2)] by blast
  have "runs env sc (While e b # ss) m' out'" by (rule runs.WhileTrue [OF WhileTrue.hyps(1) f m2(1) o(1)])
  then show ?case using o(2-4) m2(3) by (intro exI [of _ out']) simp
next
  case (WhileReturn sc e f m b v m1 ss)
  have f: "f m' \<noteq> 0" using expr_value_same [OF assms WhileReturn.prems WhileReturn.hyps(1)] WhileReturn.hyps(2) by simp
  obtain m2 where "runs env sc [b] m' (Some v, m2)" "same_but A m1 m2" "\<forall>a \<in> A. m2 a = m' a"
    using WhileReturn.IH [OF WhileReturn.prems] by auto
  then show ?case using runs.WhileReturn [OF WhileReturn.hyps(1) f] by fastforce
next
  case (Return sc e f ss m)
  then show ?case
    using runs.Return [OF Return.hyps, of ss m'] expr_value_same [OF assms Return.prems Return.hyps] by fastforce
next
  case (Block sc bs ss m out)
  then show ?case using runs.Block by blast
qed

section \<open>The stack frame\<close>

text \<open>The 48 bytes below the stack pointer, as six slots of eight bytes.\<close>

definition stack_area :: "u64 \<Rightarrow> u64 set" where
  "stack_area sp = {a. unat (sp - a - 1) < 48}"

definition slot :: "u64 \<Rightarrow> nat \<Rightarrow> u64" where
  "slot sp j = sp - 8 * (of_nat j + 1)"

lemma load_store_same: "load64 (store64 a v m) a = v"
proof -
  have small: "unat (of_nat i :: u64) = i" if "i < 8" for i using that by (simp add: unat_of_nat)
  have "map (\<lambda>i. store64 a v m (a + of_nat i)) [0..<8] = map (\<lambda>i. le_bytes 8 v ! i) [0..<8]"
    by (intro map_cong) (simp_all add: store64_def small)
  also have "\<dots> = le_bytes 8 v" using map_nth [of "le_bytes 8 v"] by simp
  finally show ?thesis by (simp only: load64_def le_word_le_bytes_8)
qed

lemma load_store_other:
  assumes "\<forall>i < 8. 8 \<le> unat (b + of_nat i - a)"
  shows "load64 (store64 a v m) b = load64 m b"
proof -
  have "map (\<lambda>i. store64 a v m (b + of_nat i)) [0..<8] = map (\<lambda>i. m (b + of_nat i)) [0..<8]"
    using assms by (intro map_cong) (auto simp: store64_def)
  then show ?thesis by (simp only: load64_def)
qed

lemma small_word: "n < 100 \<Longrightarrow> unat (of_nat n :: u64) = n"
  by (simp add: unat_of_nat take_bit_nat_eq_self_iff)

lemma slot_apart:
  assumes "i < 6" and "j < 6" and "i \<noteq> j" and "t < 8"
  shows "8 \<le> unat (slot sp j + of_nat t - slot sp i)"
proof (cases "j < i")
  case True
  then have diff: "slot sp j + of_nat t - slot sp i = of_nat (8 * (i - j) + t)"
    by (simp add: slot_def of_nat_diff algebra_simps)
  have small: "unat (of_nat (8 * (i - j) + t) :: u64) = 8 * (i - j) + t"
    by (rule small_word) (use assms in simp)
  show ?thesis unfolding diff small using True by linarith
next
  case False
  let ?n = "8 * (j - i) - t"
  have n: "0 < ?n" "?n \<le> 40" using False assms by auto
  have diff: "slot sp j + of_nat t - slot sp i = 0 - of_nat ?n"
    using False assms by (simp add: slot_def of_nat_diff algebra_simps)
  have "unat (of_nat ?n :: u64) = ?n"
    by (rule small_word) (use n in simp)
  then have big: "unat (0 - of_nat ?n :: u64) = 2 ^ 64 - ?n"
    using n(1) unfolding unat_sub_if' by simp
  show ?thesis unfolding diff big using n by simp
qed

lemma load_store_slot:
  assumes "i < 6" and "j < 6"
  shows "load64 (store64 (slot sp i) v m) (slot sp j) = (if i = j then v else load64 m (slot sp j))"
  using load_store_same load_store_other slot_apart [OF assms] by auto

lemma slot_area:
  assumes "i < 6" and "t < 8"
  shows "slot sp i + of_nat t \<in> stack_area sp"
proof -
  have "list_all (\<lambda>i. list_all (\<lambda>t. unat (8 * of_nat i + 7 - of_nat t :: u64) < 48) [0..<8]) [0..<6]"
    by code_simp
  then have "unat (8 * of_nat i + 7 - of_nat t :: u64) < 48"
    using assms by (simp only: list_all_iff set_upt) simp
  moreover have eq: "sp - (slot sp i + of_nat t) - 1 = 8 * of_nat i + 7 - of_nat t"
    by (simp add: slot_def algebra_simps)
  ultimately show ?thesis by (simp only: stack_area_def mem_Collect_eq eq)
qed

lemma store_slot_same: "i < 6 \<Longrightarrow> same_but (stack_area sp) m (store64 (slot sp i) v m)"
  unfolding same_but_def store64_def by (auto dest!: store64_inside intro: slot_area)

lemma same_but_trans: "same_but A m m1 \<Longrightarrow> same_but A m1 m2 \<Longrightarrow> same_but A m m2"
  by (simp add: same_but_def)

lemma load64_agree: "\<forall>k < 8. m' (a + of_nat k) = m (a + of_nat k) \<Longrightarrow> load64 m' a = load64 m a"
proof -
  assume "\<forall>k < 8. m' (a + of_nat k) = m (a + of_nat k)"
  then have "map (\<lambda>i. m' (a + of_nat i)) [0..<8] = map (\<lambda>i. m (a + of_nat i)) [0..<8]"
    by (intro map_cong) simp_all
  then show ?thesis by (simp only: load64_def)
qed

section \<open>Prologue and epilogue\<close>

text \<open>The prologue as it stays, when the saves in \<open>ks\<close> are kept.\<close>

definition save_code :: "nat list \<Rightarrow> nat \<Rightarrow> bytes" where
  "save_code ks k = (if k \<in> set ks then emit_store RBP (slot_disp k) (CS_SAVE_ORDER ! k) else nop4)"

definition prologue_code :: "nat list \<Rightarrow> bytes" where
  "prologue_code ks =
     push_bytes RBP @ emit_mov_rr RBP RSP @ (if ks = [] then nop4 else emit_alu_imm 5 RSP FRAME_SIZE) @
     concat (map (save_code ks) [0..<5]) @ emit_xor32_rr RAX RAX"

definition epilogue_code :: "nat list \<Rightarrow> bytes" where
  "epilogue_code ks = concat (map (\<lambda>k. emit_load (CS_SAVE_ORDER ! k) RBP (slot_disp k)) ks) @ emit_leave"

lemma prologue_lengths:
  "length (push_bytes RBP @ emit_mov_rr RBP RSP) = 4" "length (emit_alu_imm 5 RSP FRAME_SIZE) = 4" "length nop4 = 4"
  "k < 5 \<Longrightarrow> length (emit_store RBP (slot_disp k) (CS_SAVE_ORDER ! k)) = 4"
proof -
  show "length (push_bytes RBP @ emit_mov_rr RBP RSP) = 4" "length (emit_alu_imm 5 RSP FRAME_SIZE) = 4" "length nop4 = 4"
    by code_simp+
  have "list_all (\<lambda>k. length (emit_store RBP (slot_disp k) (CS_SAVE_ORDER ! k)) = 4) [0..<5]" by code_simp
  then show "k < 5 \<Longrightarrow> length (emit_store RBP (slot_disp k) (CS_SAVE_ORDER ! k)) = 4"
    by (simp only: list_all_iff set_upt) simp
qed

lemma save_regs:
  assumes "k < 5"
  shows "is_reg (CS_SAVE_ORDER ! k)" and "CS_SAVE_ORDER ! k \<noteq> RBP" and "CS_SAVE_ORDER ! k \<noteq> RSP" and "CS_SAVE_ORDER ! k \<noteq> RAX"
    and "sp - 8 + scast (slot_disp k) = slot sp (k + 1)"
proof -
  have "list_all (\<lambda>k. CS_SAVE_ORDER ! k < 16 \<and> CS_SAVE_ORDER ! k \<noteq> RBP \<and> CS_SAVE_ORDER ! k \<noteq> RSP \<and> CS_SAVE_ORDER ! k \<noteq> RAX \<and>
      scast (slot_disp k) = (- 8 * (of_nat k + 1) :: u64)) [0..<5]"
    by code_simp
  then have k: "CS_SAVE_ORDER ! k < 16 \<and> CS_SAVE_ORDER ! k \<noteq> RBP \<and> CS_SAVE_ORDER ! k \<noteq> RSP \<and> CS_SAVE_ORDER ! k \<noteq> RAX \<and>
      scast (slot_disp k) = (- 8 * (of_nat k + 1) :: u64)"
    using assms by (simp only: list_all_iff set_upt) simp
  then show "is_reg (CS_SAVE_ORDER ! k)" "CS_SAVE_ORDER ! k \<noteq> RBP" "CS_SAVE_ORDER ! k \<noteq> RSP" "CS_SAVE_ORDER ! k \<noteq> RAX"
    by (simp_all add: is_reg_def)
  have "sp - 8 + (- 8 * (of_nat k + 1)) = slot sp (k + 1)" by (simp add: slot_def algebra_simps)
  then show "sp - 8 + scast (slot_disp k) = slot sp (k + 1)" using k by simp
qed

lemma saved_order: "set CS_SAVE_ORDER = set pool_saved" "length CS_SAVE_ORDER = 5"
  by (auto simp: CS_SAVE_ORDER_def pool_saved_def)

lemma does_push: "is_reg r \<Longrightarrow> does always (push_bytes r)
    (\<lambda>s s'. s' = set_reg RSP (regs s RSP - 8) (s\<lparr>mem := store64 (regs s RSP - 8) (regs s r) (mem s)\<rparr>))"
  using encodes_asm [of "Push r"] by (auto simp: Let_def intro: doesI)

lemma does_leave: "does always emit_leave
    (\<lambda>s s'. s' = set_reg RBP (load64 (mem s) (regs s RBP)) (set_reg RSP (regs s RBP + 8) s))"
  using encodes_asm [of Leave] by (auto simp: Let_def intro: doesI)

lemma does_nop: "does always nop4 (\<lambda>s s'. s' = s)"
  using encodes_asm [of Nop] by (auto intro: doesI)

lemma does_xor_zero: "does always (emit_xor32_rr RAX RAX) (\<lambda>s s'. frame (\<lambda>r. r \<noteq> RAX) s s' \<and> regs s' RAX = 0)"
proof -
  have "encodes (emit_xor32_rr RAX RAX) (XorRR32 RAX RAX)" using encodes_asm [of "XorRR32 RAX RAX"] by (simp add: is_reg_def)
  then show ?thesis by (rule doesI) (simp add: Let_def frame_def)
qed

lemma is_reg_stack: "is_reg RBP" "is_reg RSP"
  by (simp_all add: is_reg_def)

text \<open>The saves: each goes to its slot, and nothing but the slots is written.\<close>

definition saves :: "nat list \<Rightarrow> nat list \<Rightarrow> u64 \<Rightarrow> (reg \<Rightarrow> u64) \<Rightarrow> memory \<Rightarrow> memory \<Rightarrow> bool" where
  "saves ks is sp r m m' \<longleftrightarrow>
     same_but (stack_area sp) m m' \<and> load64 m' (slot sp 0) = load64 m (slot sp 0) \<and>
     (\<forall>k < 5. (k \<in> set is \<and> k \<in> set ks \<longrightarrow> load64 m' (slot sp (k + 1)) = r (CS_SAVE_ORDER ! k)) \<and>
        (k \<notin> set is \<longrightarrow> load64 m' (slot sp (k + 1)) = load64 m (slot sp (k + 1))))"

lemma saves_one:
  assumes "i < 5" and "saves ks is sp r m1 m2"
    and "m1 = (if i \<in> set ks then store64 (slot sp (i + 1)) (r (CS_SAVE_ORDER ! i)) m else m)"
  shows "saves ks (i # is) sp r m m2"
proof -
  have slots: "load64 m1 (slot sp j) = (if i \<in> set ks \<and> j = i + 1 then r (CS_SAVE_ORDER ! i) else load64 m (slot sp j))"
    if "j < 6" for j
    using assms(1,3) that load_store_slot [of "i + 1" j sp] by auto
  have "same_but (stack_area sp) m m1"
    using assms(1,3) store_slot_same [of "i + 1" sp] by (auto simp: same_but_def)
  then have "same_but (stack_area sp) m m2" using assms(2) same_but_trans by (auto simp: saves_def)
  moreover have "(k \<in> set (i # is) \<and> k \<in> set ks \<longrightarrow> load64 m2 (slot sp (k + 1)) = r (CS_SAVE_ORDER ! k)) \<and>
      (k \<notin> set (i # is) \<longrightarrow> load64 m2 (slot sp (k + 1)) = load64 m (slot sp (k + 1)))" if k: "k < 5" for k
  proof (cases "k \<in> set is")
    case True
    then show ?thesis using assms(2) k by (simp add: saves_def)
  next
    case False
    then have "load64 m2 (slot sp (k + 1)) = load64 m1 (slot sp (k + 1))" using assms(2) k by (simp add: saves_def)
    then show ?thesis using slots [of "k + 1"] k False by auto
  qed
  moreover have "load64 m2 (slot sp 0) = load64 m (slot sp 0)" using assms(2) slots [of 0] by (simp add: saves_def)
  ultimately show ?thesis by (simp add: saves_def)
qed

lemma does_saves:
  assumes "\<forall>k \<in> set is. k < 5"
  shows "does always (concat (map (save_code ks) is))
    (\<lambda>s s'. regs s' = regs s \<and> (\<forall>sp. regs s RBP = sp - 8 \<longrightarrow> saves ks is sp (regs s) (mem s) (mem s')))"
  using assms
proof (induction "is")
  case Nil
  show ?case by (simp add: does_nothing saves_def same_but_def)
next
  case (Cons i "is")
  let ?one = "\<lambda>s s'. regs s' = regs s \<and> (\<forall>sp. regs s RBP = sp - 8 \<longrightarrow>
    mem s' = (if i \<in> set ks then store64 (slot sp (i + 1)) (regs s (CS_SAVE_ORDER ! i)) (mem s) else mem s))"
  have i: "i < 5" using Cons.prems by simp
  have "does always (save_code ks i) ?one"
  proof (cases "i \<in> set ks")
    case True
    have "does always (emit_store RBP (slot_disp i) (CS_SAVE_ORDER ! i)) ?one"
      by (rule does_mono [OF does_store [OF is_reg_stack(1) save_regs(1) [OF i]]]) (use save_regs(5) [OF i] True in auto)
    then show ?thesis using True by (simp add: save_code_def)
  next
    case False
    then show ?thesis using does_mono [OF does_nop] by (simp add: save_code_def)
  qed
  moreover have "\<forall>k \<in> set is. k < 5" using Cons.prems by simp
  ultimately show ?case
    unfolding list.map concat.simps
    by (rule does_seq [OF _ Cons.IH]) (use saves_one [OF i] in auto)
qed

text \<open>The prologue: the frame pointer, the saves and an empty result.\<close>

lemma does_prologue:
  "does always (prologue_code ks) (\<lambda>s s'. regs s' RBP = regs s RSP - 8 \<and>
     (\<forall>q. q \<notin> {RBP, RSP, RAX} \<longrightarrow> regs s' q = regs s q) \<and>
     same_but (stack_area (regs s RSP)) (mem s) (mem s') \<and> load64 (mem s') (slot (regs s RSP) 0) = regs s RBP \<and>
     (\<forall>k < 5. k \<in> set ks \<longrightarrow> load64 (mem s') (slot (regs s RSP) (k + 1)) = regs s (CS_SAVE_ORDER ! k)))"
proof -
  have sub: "does always (if ks = [] then nop4 else emit_alu_imm 5 RSP FRAME_SIZE) (\<lambda>s s'. frame (\<lambda>r. r \<noteq> RSP) s s')"
    using does_mono [OF does_nop] does_mono [OF does_alu_imm(2) [OF is_reg_stack(2)]] by (simp add: frame_def)
  let ?saved = "\<lambda>s s'. (\<forall>q. q \<notin> {RSP, RAX} \<longrightarrow> regs s' q = regs s q) \<and>
    (\<forall>sp. regs s RBP = sp - 8 \<longrightarrow> saves ks [0..<5] sp (regs s) (mem s) (mem s'))"
  have first: "does always ((if ks = [] then nop4 else emit_alu_imm 5 RSP FRAME_SIZE) @ concat (map (save_code ks) [0..<5]) @ emit_xor32_rr RAX RAX) ?saved"
  proof (rule does_seq [OF sub does_seq [OF does_saves does_xor_zero]])
    show "(\<forall>q. q \<noteq> RAX \<longrightarrow> regs s2 q = regs s q) \<and> (\<forall>sp. regs s RBP = sp - 8 \<longrightarrow> saves ks [0..<5] sp (regs s) (mem s) (mem s2))"
      if "regs s1 = regs s \<and> (\<forall>sp. regs s RBP = sp - 8 \<longrightarrow> saves ks [0..<5] sp (regs s) (mem s) (mem s1))"
        "frame (\<lambda>r. r \<noteq> RAX) s1 s2 \<and> regs s2 RAX = 0" for s s1 s2
      using that by (simp add: frame_def)
    show "?saved s s2" if "frame (\<lambda>r. r \<noteq> RSP) s s1"
        "(\<forall>q. q \<noteq> RAX \<longrightarrow> regs s2 q = regs s1 q) \<and> (\<forall>sp. regs s1 RBP = sp - 8 \<longrightarrow> saves ks [0..<5] sp (regs s1) (mem s1) (mem s2))"
      for s s1 s2
    proof -
      have same: "regs s1 RBP = regs s RBP" "k < 5 \<Longrightarrow> regs s1 (CS_SAVE_ORDER ! k) = regs s (CS_SAVE_ORDER ! k)" for k
        using that(1) save_regs(3) [of k] by (simp_all add: frame_def)
      have "saves ks [0..<5] sp (regs s) (mem s) (mem s2)" if "saves ks [0..<5] sp (regs s1) (mem s1) (mem s2)" for sp
        using that \<open>frame (\<lambda>r. r \<noteq> RSP) s s1\<close> by (simp add: saves_def frame_def same(2))
      then show ?thesis using that same(1) by (simp add: frame_def)
    qed
  qed simp_all
  have rest: "does always (emit_mov_rr RBP RSP @ (if ks = [] then nop4 else emit_alu_imm 5 RSP FRAME_SIZE) @
      concat (map (save_code ks) [0..<5]) @ emit_xor32_rr RAX RAX)
      (\<lambda>s s'. regs s' RBP = regs s RSP \<and> (\<forall>q. q \<notin> {RBP, RSP, RAX} \<longrightarrow> regs s' q = regs s q) \<and>
         (\<forall>sp. regs s RSP = sp - 8 \<longrightarrow> saves ks [0..<5] sp (regs s) (mem s) (mem s')))"
  proof (rule does_seq [OF does_mov_rr [OF is_reg_stack] first])
    fix s s1 s2 :: mach
    assume s1: "s1 = set_reg RBP (regs s RSP) s"
      and s2: "(\<forall>q. q \<notin> {RSP, RAX} \<longrightarrow> regs s2 q = regs s1 q) \<and>
         (\<forall>sp. regs s1 RBP = sp - 8 \<longrightarrow> saves ks [0..<5] sp (regs s1) (mem s1) (mem s2))"
    have "saves ks [0..<5] sp (regs s) (mem s) (mem s2)" if "regs s RSP = sp - 8" for sp
      using s1 s2 that save_regs(2) by (simp add: saves_def)
    then show "regs s2 RBP = regs s RSP \<and> (\<forall>q. q \<notin> {RBP, RSP, RAX} \<longrightarrow> regs s2 q = regs s q) \<and>
        (\<forall>sp. regs s RSP = sp - 8 \<longrightarrow> saves ks [0..<5] sp (regs s) (mem s) (mem s2))"
      using s1 s2 by simp
  qed simp
  show ?thesis
    unfolding prologue_code_def
  proof (rule does_seq [OF does_push [OF is_reg_stack(1)] rest])
    fix s s1 s2 :: mach
    let ?sp = "regs s RSP"
    assume s1: "s1 = set_reg RSP (?sp - 8) (s\<lparr>mem := store64 (?sp - 8) (regs s RBP) (mem s)\<rparr>)"
      and s2: "regs s2 RBP = regs s1 RSP \<and> (\<forall>q. q \<notin> {RBP, RSP, RAX} \<longrightarrow> regs s2 q = regs s1 q) \<and>
         (\<forall>sp. regs s1 RSP = sp - 8 \<longrightarrow> saves ks [0..<5] sp (regs s1) (mem s1) (mem s2))"
    have slot0: "?sp - 8 = slot ?sp 0" by (simp add: slot_def)
    have sv: "saves ks [0..<5] ?sp (regs s1) (mem s1) (mem s2)" using s1 s2 by simp
    have mem1: "mem s1 = store64 (slot ?sp 0) (regs s RBP) (mem s)" by (simp add: s1 slot0)
    have "same_but (stack_area ?sp) (mem s) (mem s2)"
      by (rule same_but_trans [OF store_slot_same [of 0 ?sp "mem s" "regs s RBP"]]) (use sv in \<open>simp_all add: saves_def mem1\<close>)
    moreover have "load64 (mem s2) (slot ?sp 0) = regs s RBP" using sv load_store_same unfolding saves_def mem1 by simp
    moreover have "load64 (mem s2) (slot ?sp (k + 1)) = regs s (CS_SAVE_ORDER ! k)" if "k < 5" "k \<in> set ks" for k
      using sv that save_regs(3) [OF that(1)] by (simp add: saves_def s1)
    ultimately show "regs s2 RBP = ?sp - 8 \<and> (\<forall>q. q \<notin> {RBP, RSP, RAX} \<longrightarrow> regs s2 q = regs s q) \<and>
        same_but (stack_area ?sp) (mem s) (mem s2) \<and> load64 (mem s2) (slot ?sp 0) = regs s RBP \<and>
        (\<forall>k < 5. k \<in> set ks \<longrightarrow> load64 (mem s2) (slot ?sp (k + 1)) = regs s (CS_SAVE_ORDER ! k))"
      using s1 s2 by simp
  qed simp
qed

text \<open>The epilogue: what was saved, the frame pointer and the stack pointer.\<close>

lemma does_loads:
  assumes "\<forall>k \<in> set ks. k < 5"
  shows "does always (concat (map (\<lambda>k. emit_load (CS_SAVE_ORDER ! k) RBP (slot_disp k)) ks))
    (\<lambda>s s'. mem s' = mem s \<and> (\<forall>q. q \<notin> (\<lambda>k. CS_SAVE_ORDER ! k) ` set ks \<longrightarrow> regs s' q = regs s q) \<and>
       (\<forall>sp. regs s RBP = sp - 8 \<longrightarrow> (\<forall>k \<in> set ks. regs s' (CS_SAVE_ORDER ! k) = load64 (mem s) (slot sp (k + 1)))))"
  using assms
proof (induction ks)
  case Nil
  show ?case by (simp add: does_nothing)
next
  case (Cons i ks)
  have i: "i < 5" "\<forall>k \<in> set ks. k < 5" using Cons.prems by simp_all
  let ?one = "\<lambda>s s'. mem s' = mem s \<and> (\<forall>q. q \<noteq> CS_SAVE_ORDER ! i \<longrightarrow> regs s' q = regs s q) \<and>
       (\<forall>sp. regs s RBP = sp - 8 \<longrightarrow> regs s' (CS_SAVE_ORDER ! i) = load64 (mem s) (slot sp (i + 1)))"
  have one: "does always (emit_load (CS_SAVE_ORDER ! i) RBP (slot_disp i)) ?one"
    by (rule does_mono [OF does_load [OF save_regs(1) [OF i(1)] is_reg_stack(1)]]) (use save_regs(5) [OF i(1)] in auto)
  show ?case
    unfolding list.map concat.simps
  proof (rule does_seq [OF one Cons.IH [OF i(2)]])
    fix s s1 s2 :: mach
    assume s1: "?one s s1" and s2: "mem s2 = mem s1 \<and> (\<forall>q. q \<notin> (\<lambda>k. CS_SAVE_ORDER ! k) ` set ks \<longrightarrow> regs s2 q = regs s1 q) \<and>
       (\<forall>sp. regs s1 RBP = sp - 8 \<longrightarrow> (\<forall>k \<in> set ks. regs s2 (CS_SAVE_ORDER ! k) = load64 (mem s1) (slot sp (k + 1))))"
    have rbp: "regs s1 RBP = regs s RBP" using s1 save_regs(2) [OF i(1)] by simp
    have "regs s2 (CS_SAVE_ORDER ! k) = load64 (mem s) (slot sp (k + 1))" if sp: "regs s RBP = sp - 8" and k: "k \<in> set (i # ks)" for sp k
    proof (cases "k \<in> set ks")
      case True
      then show ?thesis using s1 s2 rbp sp by simp
    next
      case False
      then have ki: "k = i" using k by simp
      show ?thesis
      proof (cases "CS_SAVE_ORDER ! i \<in> (\<lambda>k. CS_SAVE_ORDER ! k) ` set ks")
        case True
        then obtain k' where k': "k' \<in> set ks" "CS_SAVE_ORDER ! i = CS_SAVE_ORDER ! k'" by blast
        have "distinct CS_SAVE_ORDER" by code_simp
        then have "i = k'" using k' i saved_order(2) by (simp add: nth_eq_iff_index_eq)
        then show ?thesis using False k'(1) ki by simp
      next
        case False
        then show ?thesis using s1 s2 sp ki by simp
      qed
    qed
    then show "mem s2 = mem s \<and> (\<forall>q. q \<notin> (\<lambda>k. CS_SAVE_ORDER ! k) ` set (i # ks) \<longrightarrow> regs s2 q = regs s q) \<and>
       (\<forall>sp. regs s RBP = sp - 8 \<longrightarrow> (\<forall>k \<in> set (i # ks). regs s2 (CS_SAVE_ORDER ! k) = load64 (mem s) (slot sp (k + 1))))"
      using s1 s2 by simp
  qed simp
qed

lemma does_epilogue:
  assumes "\<forall>k \<in> set ks. k < 5"
  shows "does always (epilogue_code ks)
    (\<lambda>s s'. mem s' = mem s \<and> (\<forall>q. q \<notin> insert RBP (insert RSP ((\<lambda>k. CS_SAVE_ORDER ! k) ` set ks)) \<longrightarrow> regs s' q = regs s q) \<and>
       (\<forall>sp. regs s RBP = sp - 8 \<longrightarrow> regs s' RSP = sp \<and> regs s' RBP = load64 (mem s) (slot sp 0) \<and>
         (\<forall>k \<in> set ks. regs s' (CS_SAVE_ORDER ! k) = load64 (mem s) (slot sp (k + 1)))))"
  unfolding epilogue_code_def
proof (rule does_seq [OF does_loads [OF assms] does_leave])
  fix s s1 s2 :: mach
  assume s1: "mem s1 = mem s \<and> (\<forall>q. q \<notin> (\<lambda>k. CS_SAVE_ORDER ! k) ` set ks \<longrightarrow> regs s1 q = regs s q) \<and>
       (\<forall>sp. regs s RBP = sp - 8 \<longrightarrow> (\<forall>k \<in> set ks. regs s1 (CS_SAVE_ORDER ! k) = load64 (mem s) (slot sp (k + 1))))"
    and s2: "s2 = set_reg RBP (load64 (mem s1) (regs s1 RBP)) (set_reg RSP (regs s1 RBP + 8) s1)"
  have other: "CS_SAVE_ORDER ! k \<noteq> RBP" "CS_SAVE_ORDER ! k \<noteq> RSP" if "k \<in> set ks" for k
    using save_regs(2,3) [of k] assms that by blast+
  have "RBP \<notin> (\<lambda>k. CS_SAVE_ORDER ! k) ` set ks" using other(1) by force
  then have rbp: "regs s1 RBP = regs s RBP" using s1 by blast
  have slot0: "sp - 8 = slot sp 0" for sp by (simp add: slot_def)
  have ne: "(RSP :: reg) \<noteq> RBP" by simp
  have "regs s2 RSP = sp \<and> regs s2 RBP = load64 (mem s) (slot sp 0) \<and>
      (\<forall>k \<in> set ks. regs s2 (CS_SAVE_ORDER ! k) = load64 (mem s) (slot sp (k + 1)))" if sp: "regs s RBP = sp - 8" for sp
  proof (intro conjI ballI)
    show "regs s2 RSP = sp" using s2 rbp sp by simp
    show "regs s2 RBP = load64 (mem s) (slot sp 0)" using s1 s2 rbp sp slot0 by simp
    show "regs s2 (CS_SAVE_ORDER ! k) = load64 (mem s) (slot sp (k + 1))" if "k \<in> set ks" for k
      using s1 s2 other [OF that] sp that by simp
  qed
  moreover have "mem s2 = mem s" using s1 s2 by simp
  moreover have "\<forall>q. q \<notin> insert RBP (insert RSP ((\<lambda>k. CS_SAVE_ORDER ! k) ` set ks)) \<longrightarrow> regs s2 q = regs s q"
    using s1 s2 by simp
  ultimately show "mem s2 = mem s \<and> (\<forall>q. q \<notin> insert RBP (insert RSP ((\<lambda>k. CS_SAVE_ORDER ! k) ` set ks)) \<longrightarrow> regs s2 q = regs s q) \<and>
       (\<forall>sp. regs s RBP = sp - 8 \<longrightarrow> regs s2 RSP = sp \<and> regs s2 RBP = load64 (mem s) (slot sp 0) \<and>
         (\<forall>k \<in> set ks. regs s2 (CS_SAVE_ORDER ! k) = load64 (mem s) (slot sp (k + 1))))"
    by blast
qed simp

section \<open>Functions\<close>

text \<open>Overwriting blocks of four bytes.\<close>

lemma overwrite_block:
  assumes "k < length xs" and "\<forall>x \<in> set xs. length x = 4" and "length bs = 4"
  shows "overwrite (length as + k * 4) bs (as @ concat xs @ cs) = as @ concat (xs[k := bs]) @ cs"
proof -
  have split: "xs = take k xs @ xs ! k # drop (Suc k) xs" using assms(1) by (rule id_take_nth_drop)
  have len: "length (concat (take k xs)) = k * 4"
  proof -
    have "\<forall>x \<in> set (take k xs). length x = 4" using assms(2) set_take_subset by fast
    then have "length (concat ys) = length ys * 4" if "set ys \<subseteq> set (take k xs)" for ys
      using that by (induction ys) auto
    then show ?thesis using assms(1) by simp
  qed
  have "length (xs ! k) = 4" using assms(1,2) by simp
  then have "overwrite (length as + k * 4) bs (as @ concat (take k xs @ xs ! k # drop (Suc k) xs) @ cs) =
      as @ concat (take k xs @ bs # drop (Suc k) xs) @ cs"
    using len assms(3) by (simp add: overwrite_def)
  then show ?thesis using assms(1) by (simp add: split [symmetric] upd_conv_take_nth_drop)
qed

lemma overwrite_blocks:
  assumes "\<forall>k \<in> set ks. k < length xs" and "\<forall>x \<in> set xs. length x = 4" and "length bs = 4"
  shows "fold (\<lambda>k. overwrite (length as + k * 4) bs) ks (as @ concat xs @ cs) =
    as @ concat (map (\<lambda>k. if k \<in> set ks then bs else xs ! k) [0..<length xs]) @ cs"
  using assms
proof (induction ks arbitrary: xs)
  case Nil
  then show ?case by (simp add: map_nth)
next
  case (Cons k ks)
  have lens: "\<forall>x \<in> set (xs[k := bs]). length x = 4"
    using Cons.prems(2,3) set_update_subset_insert [of xs k bs] by blast
  have "fold (\<lambda>k. overwrite (length as + k * 4) bs) (k # ks) (as @ concat xs @ cs) =
      as @ concat (map (\<lambda>j. if j \<in> set ks then bs else xs[k := bs] ! j) [0..<length xs]) @ cs"
    using Cons.IH [of "xs[k := bs]"] Cons.prems lens overwrite_block [of k xs bs as cs] by simp
  also have "map (\<lambda>j. if j \<in> set ks then bs else xs[k := bs] ! j) [0..<length xs] =
      map (\<lambda>j. if j \<in> set (k # ks) then bs else xs ! j) [0..<length xs]"
    using Cons.prems(1) by (intro map_cong) (auto simp: nth_list_update)
  finally show ?case .
qed

text \<open>The prologue that is emitted first keeps all saves; then those that are not needed become NOPs.\<close>

lemma prologue_emits:
  "prologue g = g\<lparr>gcode := gcode g @ prologue_code [0..<5], fn := (fn g)\<lparr>fdepth := 0\<rparr>\<rparr>"
proof -
  have kept: "map (save_code [0..<5]) [0..<5] = map (\<lambda>k. emit_store RBP (slot_disp k) (CS_SAVE_ORDER ! k)) [0..<5]"
    by (intro map_cong) (simp_all add: save_code_def)
  show ?thesis
    unfolding prologue_code_def kept by (simp add: prologue_def emit_push_def emit_def Let_def)
qed

lemma drop_saves_code:
  assumes "gcode g = as @ prologue_code [0..<5] @ bs"
  shows "drop_saves (length as + 4) (length as + 8) g = g\<lparr>gcode := as @ prologue_code (used_saves (fn g)) @ bs\<rparr>"
proof -
  define u where "u = used_saves (fn g)"
  let ?start = "push_bytes RBP @ emit_mov_rr RBP RSP" and ?sub = "emit_alu_imm 5 RSP FRAME_SIZE"
  let ?xs = "map (save_code [0..<5]) [0..<5]" and ?ys = "map (save_code u) [0..<5]"
  let ?ks = "filter (\<lambda>k. k \<notin> set u) [0..<5]"
  have four: "\<forall>x \<in> set (map (save_code ks) [0..<5]). length x = 4" for ks
    using prologue_lengths(3,4) by (auto simp: save_code_def)
  have start: "length (as @ ?start @ ?sub) = length as + 8" "length (as @ ?start) = length as + 4"
    using prologue_lengths(1,2) by simp_all
  have ys: "map (\<lambda>k. if k \<in> set ?ks then nop4 else ?xs ! k) [0..<length ?xs] = ?ys"
    by (simp only: length_map length_upt) (intro map_cong, auto simp: save_code_def)
  have blocks: "fold (\<lambda>k. overwrite (length as + 8 + k * 4) nop4) ?ks ((as @ ?start @ ?sub) @ concat ?xs @ emit_xor32_rr RAX RAX @ bs) =
      (as @ ?start @ ?sub) @ concat ?ys @ emit_xor32_rr RAX RAX @ bs"
    unfolding start(1) [symmetric] ys [symmetric]
    by (rule overwrite_blocks [OF _ four prologue_lengths(3)]) simp
  have sub: "overwrite (length as + 4) nop4 ((as @ ?start) @ ?sub @ cs) = (as @ ?start) @ nop4 @ cs" for cs
    using start(2) prologue_lengths(2,3) unfolding start(2) [symmetric] by (simp add: overwrite_def)
  show ?thesis
    unfolding drop_saves_def Let_def SAVE_SLOT_SIZE_def assms u_def [symmetric]
    using blocks sub [of "concat ?ys @ emit_xor32_rr RAX RAX @ bs"]
    by (cases "u = []") (simp_all add: prologue_code_def)
qed

text \<open>The last jump, and filling in the others.\<close>

lemma places_bound: "r \<in> set (places p its) \<Longrightarrow> r + 4 \<le> p + items_size its"
  by (induction p its rule: places.induct) auto

lemma drop_last_jump_code:
  assumes "gcode g = as @ unfilled its" and "grets g = places (length as) its" and "its \<noteq> [] \<Longrightarrow> 0 < item_size (last its)"
  shows "drop_last_jump g =
    (if its \<noteq> [] \<and> last its = Leaving then g\<lparr>gcode := as @ unfilled (butlast its), grets := places (length as) (butlast its)\<rparr> else g)"
proof (cases its rule: rev_cases)
  case Nil
  then show ?thesis using assms(2) by (simp add: drop_last_jump_def)
next
  case its: (snoc xs x)
  show ?thesis
  proof (cases x)
    case (Plain bs)
    have "last (grets g) + 4 \<noteq> length (gcode g)" if "grets g \<noteq> []"
    proof -
      have "last (grets g) \<in> set (places (length as) xs)"
        using that last_in_set [of "grets g"] assms(2) by (simp add: its Plain items_append)
      then show ?thesis using places_bound [of _ "length as" xs] assms(1,3) by (fastforce simp: its Plain items_append)
    qed
    then show ?thesis by (auto simp: drop_last_jump_def its Plain)
  next
    case Leaving
    have code: "gcode g = (as @ unfilled xs) @ 0xE9 # le_bytes 4 (0 :: u32)"
      using assms(1) by (simp add: its Leaving items_append jmp_rel32_def)
    have rets: "grets g = places (length as) xs @ [length (as @ unfilled xs) + 1]"
      using assms(2) by (simp add: its Leaving items_append)
    have "gcode g ! (last (grets g) - 1) = 0xE9" "take (length (gcode g) - 5) (gcode g) = as @ unfilled xs"
      unfolding code rets by (simp_all add: nth_append)
    then show ?thesis
      by (simp add: drop_last_jump_def its Leaving rets) (simp add: code)
  qed
qed

lemma patch_returns_append: "patch_returns (xs @ ys) g = rbind (patch_returns xs g) (patch_returns ys)"
  by (induction xs arbitrary: g) (auto simp: rbind_def split: sum.splits)

lemma patch_returns_code:
  "gcode g = as @ unfilled its @ bs \<Longrightarrow> patch_returns (rev (places (length as) its)) g = Inr g' \<Longrightarrow>
     g' = g\<lparr>gcode := as @ filled (length bs) its @ bs\<rparr>"
proof (induction its arbitrary: as g g' rule: unfilled.induct)
  case 1
  then show ?case by simp
next
  case (2 xs its)
  then show ?case using "2.IH" [of g "as @ xs" g'] by simp
next
  case (3 its)
  obtain g1 where g1: "patch_returns (rev (places (length as + 5) its)) g = Inr g1"
      "patch_rel (length as + 1) (length (gcode g1)) g1 = Inr g'"
    using "3.prems"(2) by (auto simp: patch_returns_append rbind_eq_Inr)
  have code1: "g1 = g\<lparr>gcode := (as @ jmp_rel32 0) @ filled (length bs) its @ bs\<rparr>"
    using "3.IH" [of g "as @ jmp_rel32 0" g1] "3.prems"(1) g1(1) by simp
  then have "gcode g1 = (as @ [0xE9]) @ le_bytes 4 (0 :: u32) @ filled (length bs) its @ bs"
    by (simp add: jmp_rel32_def)
  from patch_forward [OF _ this] g1(2) show ?case
    by (simp add: code1 jmp_rel32_def)
qed

text \<open>
  The code of a function without parameters: prologue, the items of its statement, epilogue. It is
  put in front of the code that was there.
\<close>

definition final_items :: "item list \<Rightarrow> item list" where
  "final_items its = (if its \<noteq> [] \<and> last its = Leaving then butlast its else its)"

lemma compiled_final:
  assumes "compiled env g rest [st] its g'" and "sound_end [st]"
  shows "lands (safe g g') env (gscope g) (final_items its) [st]"
  using assms implements_lands by (auto simp: final_items_def compiled_def tail_ok_def)

lemma codegen_func_code:
  assumes run: "codegen_func n (codegen_expr n env) var 0 g0 = Inr g'" and ok: "stmt_ok env (gscope g0) st"
    and git: "git g0 = cs @ rest" "shape cs = stmt_cells st" and len: "length cs < 2 ^ 64"
  shows "\<exists>its g1 g2. compiled env g1 rest [st] its g2 \<and> (\<forall>r. \<not> taken g1 r) \<and> gscope g1 = gscope g0 \<and>
    git g' = rest \<and> fn g' = fn g0 \<and> grets g' = grets g0 \<and>
    gcode g' = (prologue_code (used_saves (fn g2)) @ filled 0 (final_items its) @ epilogue_code (used_saves (fn g2)) @ emit_ret) @ gcode g0"
proof -
  let ?save = "length (gcode g0)"
  define g1 where "g1 = prologue (g0\<lparr>fn := \<lparr>fbusy = 0, cs_used = 0, fdepth = 0\<rparr>, grell := grell g0 @ [(var, 0)], grets := []\<rparr>)"
  have g1: "gcode g1 = gcode g0 @ prologue_code [0..<5]" "grets g1 = []" "gscope g1 = gscope g0" "git g1 = git g0"
      "\<And>r. \<not> taken g1 r"
    by (simp_all add: g1_def prologue_emits taken_def)
  have sizes: "length (push_bytes RBP @ emit_mov_rr RBP RSP) = 4" "length (emit_alu_imm 5 RSP FRAME_SIZE) = 4"
    by (rule prologue_lengths)+
  obtain g2 g3 where g2: "statements n (codegen_expr n env) 0 1 g1 = Inr g2"
      "patch_returns (rev (grets (drop_last_jump (drop_saves (?save + 4) (?save + 8) g2)))) (drop_last_jump (drop_saves (?save + 4) (?save + 8) g2)) = Inr g3"
      "g' = move_front ?save ((epilogue g3)\<lparr>fn := fn g0, grets := grets g0\<rparr>)"
    using run unfolding codegen_func_def Let_def sizes g1_def by (auto simp: rbind_eq_Inr add.commute [of 8])
  obtain its where its: "compiled env g1 rest [st] its g2"
    using body_code [of env n, unfolded body_compiled_def, rule_format, of g1 st cs rest g2] ok git len g2(1) g1 by auto
  have last: "its \<noteq> [] \<Longrightarrow> 0 < item_size (last its)" using its by (auto simp: compiled_def tail_ok_def)
  let ?used = "used_saves (fn g2)"
  let ?pre = "gcode g0 @ prologue_code ?used"
  have code2: "gcode g2 = gcode g0 @ prologue_code [0..<5] @ unfilled its" "grets g2 = places (length (gcode g1)) its" "git g2 = rest"
    using its g1 by (simp_all add: compiled_def built_def)
  have same_length: "length (prologue_code ks) = length (prologue_code [0..<5])" for ks
  proof -
    have fours: "map length (map (save_code ks) [0..<5]) = map (\<lambda>k. 4) [0..<5]" for ks
      unfolding map_map by (intro map_cong) (use prologue_lengths(3,4) in \<open>auto simp: save_code_def\<close>)
    have "length (concat (map (save_code ks) [0..<5])) = sum_list (map (\<lambda>k. 4) [0..<5])" for ks
      unfolding length_concat fours ..
    then show ?thesis using sizes prologue_lengths(3) by (simp add: prologue_code_def)
  qed
  define g2a where "g2a = g2\<lparr>gcode := ?pre @ unfilled its\<rparr>"
  have saves: "drop_saves (?save + 4) (?save + 8) g2 = g2a"
    using drop_saves_code [OF code2(1)] by (simp add: g2a_def)
  have "grets g2a = places (length ?pre) its"
    using code2(2) g1(1) same_length [of ?used] by (simp add: g2a_def)
  then have dropped: "drop_last_jump g2a = g2a\<lparr>gcode := ?pre @ unfilled (final_items its), grets := places (length ?pre) (final_items its)\<rparr>"
    using drop_last_jump_code [of g2a ?pre its, OF _ _ last] by (simp add: g2a_def final_items_def)
  have g3: "g3 = g2\<lparr>gcode := ?pre @ filled 0 (final_items its), grets := places (length ?pre) (final_items its)\<rparr>"
    using patch_returns_code [of "drop_last_jump g2a" ?pre "final_items its" "[]" g3] g2(2) unfolding saves dropped
    by (simp add: g2a_def)
  have final: "gcode (epilogue g3) = gcode g0 @ prologue_code ?used @ filled 0 (final_items its) @ epilogue_code ?used @ emit_ret"
      "git (epilogue g3) = rest"
    by (simp_all add: epilogue_def emit_def g3 epilogue_code_def code2(3))
  have "gcode g' = (prologue_code ?used @ filled 0 (final_items its) @ epilogue_code ?used @ emit_ret) @ gcode g0"
    using final(1) by (simp add: g2(3) move_front_def bufmove_dynamic_def emit_ret_def Let_def)
  moreover have "git g' = rest" "fn g' = fn g0" "grets g' = grets g0"
    using final(2) by (simp_all add: g2(3) move_front_def Let_def)
  ultimately show ?thesis using its g1(3,5) by blast
qed

section \<open>Properties\<close>

lemma saved_or_safe:
  assumes "\<forall>r. \<not> taken g1 r" and "q \<in> set pool_saved"
  shows "(\<exists>k < 5. k \<in> set (used_saves (fn g2)) \<and> CS_SAVE_ORDER ! k = q) \<or> safe g1 g2 q"
proof -
  obtain k where k: "k < 5" "CS_SAVE_ORDER ! k = q"
    using assms(2) saved_order by (metis in_set_conv_nth)
  show ?thesis
  proof (cases "used g2 q")
    case True
    then have "k \<in> set (used_saves (fn g2))" using k by (simp add: used_saves_def used_def)
    then show ?thesis using k by blast
  next
    case False
    then show ?thesis using assms(2) by (simp add: safe_def)
  qed
qed

lemma stack_regs_safe: "safe g g' RBP" "safe g g' RSP" "RBP \<noteq> RAX" "RSP \<noteq> RAX"
  by (simp_all add: safe_def pool_scratch_def pool_saved_def)

text \<open>C1: Compiled functions do what their statements mean. Take a function without parameters whose body is made of
  assignments to variables, conditions, loops, blocks and \<^verbatim>\<open>return\<close>, where the last statement with code
  is not a conditional \<^verbatim>\<open>return\<close>. When the statements run from a memory to another, the code, started at its
  first byte, gets to its last byte, a \<^verbatim>\<open>ret\<close>: memory is that of the run, except for the 48 bytes below the
  stack pointer, the returned value is in \<open>RAX\<close>, and the stack pointer, the frame pointer and all
  callee-saved registers are as they were. This asks that no variable lies in these 48 bytes and that
  the code is shorter than two gigabytes.\<close>

theorem function_code_runs:
  assumes "codegen_func n (codegen_expr n env) var 0 g0 = Inr g'" and "stmt_ok env (gscope g0) st"
    and "git g0 = cs @ rest" and "shape cs = stmt_cells st" and "length cs < 2 ^ 64" and "sound_end [st]"
    and "length (gcode g') < 2 ^ 31" and "off_stack env (stack_area (regs s RSP))" and "runs env (gscope g0) [st] (mem s) out"
  shows "\<exists>fcode s'. gcode g' = fcode @ emit_ret @ gcode g0 \<and> steps (gcode g' @ post) (0, s) (length fcode, s') \<and>
    same_but (stack_area (regs s RSP)) (snd out) (mem s') \<and> (\<forall>v. fst out = Some v \<longrightarrow> regs s' RAX = v) \<and>
    (\<forall>q \<in> insert RSP (insert RBP (set pool_saved)). regs s' q = regs s q)"
proof -
  obtain its g1 g2 where c: "compiled env g1 rest [st] its g2" "\<forall>r. \<not> taken g1 r" "gscope g1 = gscope g0"
      "gcode g' = (prologue_code (used_saves (fn g2)) @ filled 0 (final_items its) @ epilogue_code (used_saves (fn g2)) @ emit_ret) @ gcode g0"
    using codegen_func_code [OF assms(1-5)] by blast
  let ?ks = "used_saves (fn g2)" and ?sp = "regs s RSP"
  let ?A = "stack_area ?sp" and ?P = "prologue_code ?ks" and ?B = "filled 0 (final_items its)" and ?E = "epilogue_code ?ks"
  have ks: "\<forall>k \<in> set ?ks. k < 5" by (simp add: used_saves_def)
  obtain s1 where s1: "steps ([] @ ?P @ (?B @ ?E @ emit_ret @ gcode g0 @ post)) (length ([] :: bytes), s) (length ([] @ ?P), s1)"
      "regs s1 RBP = ?sp - 8" "\<forall>q. q \<notin> {RBP, RSP, RAX} \<longrightarrow> regs s1 q = regs s q" "same_but ?A (mem s) (mem s1)"
      "load64 (mem s1) (slot ?sp 0) = regs s RBP"
      "\<forall>k < 5. k \<in> set ?ks \<longrightarrow> load64 (mem s1) (slot ?sp (k + 1)) = regs s (CS_SAVE_ORDER ! k)"
    using does_steps [OF does_prologue, where s = s] by blast
  obtain out1 where out1: "runs env (gscope g1) [st] (mem s1) out1" "fst out1 = fst out" "same_but ?A (snd out) (snd out1)"
      "\<forall>a \<in> ?A. snd out1 a = mem s1 a"
    using runs_off_stack [OF assms(8,9) s1(4)] c(3) by auto
  have small: "items_size (final_items its) < 2 ^ 31" using assms(7) by (simp add: c(4))
  obtain s2 where s2: "steps (?P @ ?B @ (?E @ emit_ret @ gcode g0 @ post)) (length ?P, s1) (length ?P + items_size (final_items its), s2)"
      "result_in out1 s2" "\<forall>q. q \<noteq> RAX \<and> safe g1 g2 q \<longrightarrow> regs s2 q = regs s1 q"
    using compiled_final [OF c(1) assms(6), unfolded lands_def, rule_format, OF small out1(1)] by blast
  have mem2: "mem s2 = snd out1" using s2(2) by (simp add: result_in_def)
  obtain s3 where s3: "steps ((?P @ ?B) @ ?E @ (emit_ret @ gcode g0 @ post)) (length (?P @ ?B), s2) (length ((?P @ ?B) @ ?E), s3)"
      "mem s3 = mem s2" "\<forall>q. q \<notin> insert RBP (insert RSP ((\<lambda>k. CS_SAVE_ORDER ! k) ` set ?ks)) \<longrightarrow> regs s3 q = regs s2 q"
      "\<forall>sp. regs s2 RBP = sp - 8 \<longrightarrow> regs s3 RSP = sp \<and> regs s3 RBP = load64 (mem s2) (slot sp 0) \<and>
         (\<forall>k \<in> set ?ks. regs s3 (CS_SAVE_ORDER ! k) = load64 (mem s2) (slot sp (k + 1)))"
    using does_steps [OF does_epilogue [OF ks], where s = s2] by blast
  have rbp: "regs s2 RBP = ?sp - 8" using s2(3) stack_regs_safe s1(2) by simp
  have slots: "load64 (mem s2) (slot ?sp j) = load64 (mem s1) (slot ?sp j)" if "j < 6" for j
    using out1(4) slot_area [OF that] by (intro load64_agree) (simp add: mem2)
  let ?f = "?P @ ?B @ ?E"
  have steps: "steps (gcode g' @ post) (0, s) (length ?f, s3)"
  proof -
    have "steps (gcode g' @ post) (0, s) (length ?P, s1)" using s1(1) by (simp add: c(4))
    moreover have "steps (gcode g' @ post) (length ?P, s1) (length (?P @ ?B), s2)" using s2(1) by (simp add: c(4))
    moreover have "steps (gcode g' @ post) (length (?P @ ?B), s2) (length ?f, s3)" using s3(1) by (simp add: c(4))
    ultimately show ?thesis using steps_trans by blast
  qed
  have "RAX \<notin> (\<lambda>k. CS_SAVE_ORDER ! k) ` set ?ks" using save_regs(4) ks by force
  then have rax: "regs s3 RAX = regs s2 RAX" using s3(3) by simp
  have "regs s3 q = regs s q" if "q \<in> set pool_saved" for q
    using saved_or_safe [OF c(2) that, of g2]
  proof (elim disjE exE conjE)
    fix k assume k: "k < 5" "k \<in> set ?ks" "CS_SAVE_ORDER ! k = q"
    then show ?thesis using s3(4) rbp slots [of "k + 1"] s1(6) by auto
  next
    assume safe: "safe g1 g2 q"
    have q: "q \<notin> {RBP, RSP, RAX}" using that by (auto simp: pool_saved_def)
    show ?thesis
    proof (cases "q \<in> (\<lambda>k. CS_SAVE_ORDER ! k) ` set ?ks")
      case True
      then obtain k where "k \<in> set ?ks" "CS_SAVE_ORDER ! k = q" by blast
      then show ?thesis using s3(4) rbp slots [of "k + 1"] s1(6) ks by auto
    next
      case False
      then show ?thesis using s3(3) s2(3) s1(3) safe q by auto
    qed
  qed
  moreover have "regs s3 RSP = regs s RSP" "regs s3 RBP = regs s RBP"
    using s3(4) rbp slots [of 0] s1(5) by auto
  moreover have "regs s3 RAX = v" if "fst out = Some v" for v
    using rax s2(2) out1(2) that by (simp add: result_in_def)
  moreover have "same_but ?A (snd out) (mem s3)" using out1(3) by (simp add: s3(2) mem2)
  moreover have "gcode g' = ?f @ emit_ret @ gcode g0" by (simp add: c(4))
  ultimately show ?thesis using steps by blast
qed

text \<open>A block that returns 3 from a condition, and 4 otherwise.\<close>

definition pick_three :: stmt where
  "pick_three = Block [If (Bin T_LESS (Num 1) (Num 2)) (Return (Num 3)), Return (Num 4)]"

lemma pick_three_facts:
  "stmt_ok blank_env 0 pick_three" "shape (stmt_cells pick_three) = stmt_cells pick_three" "sound_end [pick_three]"
  "runs blank_env 0 [pick_three] m (Some 3, m)"
proof -
  show "stmt_ok blank_env 0 pick_three" by (simp add: pick_three_def has_value_def arith_ops_def)
  show "shape (stmt_cells pick_three) = stmt_cells pick_three" by (simp add: pick_three_def shape_def)
  show "sound_end [pick_three]" by (simp add: pick_three_def)
  have "expr_value blank_env 1 (Num 3) = Some (\<lambda>_. 3)" by simp
  then have ret: "runs blank_env 1 [Return (Num 3), Return (Num 4)] m (Some 3, m)" by (rule runs.Return)
  have less: "op_value T_LESS 1 2 = 1" by code_simp
  have cond: "expr_value blank_env 1 (Bin T_LESS (Num 1) (Num 2)) = Some (\<lambda>_. 1)" by (simp add: arith_ops_def less)
  have "runs blank_env 1 [If (Bin T_LESS (Num 1) (Num 2)) (Return (Num 3)), Return (Num 4)] m (Some 3, m)"
    by (rule runs.IfTrue [OF cond _ ret]) simp
  then show "runs blank_env 0 [pick_three] m (Some 3, m)"
    unfolding pick_three_def by (intro runs.Block) simp
qed

lemma blank_off_stack: "off_stack blank_env A"
proof -
  have "varFind (ge_sym blank_env) x sc = Inr None" for x sc
    by (simp add: varFind_def blank_env_def blank_state_def symst.truncate_def)
  then have "varLookup_loop k (ge_sym blank_env) x sc \<noteq> Inr (Some i)" for k x sc i
    by (induction k arbitrary: sc) (auto simp: rbind_eq_Inr split: option.splits)
  then have "varLookup (ge_sym blank_env) x sc \<noteq> Inr (Some i)" for x sc i
    unfolding varLookup_def by blast
  then show ?thesis by (simp add: off_stack_def)
qed

theorem function_code_runs_witness:
  "\<exists>g' fcode s'. codegen_func 10 (codegen_expr 10 blank_env) None 0 (gen_start 0 (stmt_cells pick_three)) = Inr g' \<and>
     gcode g' = fcode @ emit_ret \<and> steps (gcode g') (0, mach_start) (length fcode, s') \<and> regs s' RAX = 3 \<and> regs s' RSP = 0"
proof -
  let ?r = "codegen_func 10 (codegen_expr 10 blank_env) None 0 (gen_start 0 (stmt_cells pick_three))"
  have "case ?r of Inl _ \<Rightarrow> False | Inr g' \<Rightarrow> length (gcode g') < 100" by code_simp
  then obtain g' where g': "?r = Inr g'" "length (gcode g') < 2 ^ 31" by (auto split: sum.splits)
  have "length (stmt_cells pick_three) < 2 ^ 64" by (simp add: pick_three_def)
  then have "\<exists>fcode s'. gcode g' = fcode @ emit_ret @ gcode (gen_start 0 (stmt_cells pick_three)) \<and>
      steps (gcode g' @ []) (0, mach_start) (length fcode, s') \<and>
      same_but (stack_area (regs mach_start RSP)) (snd (Some (3 :: u64), mem mach_start)) (mem s') \<and>
      (\<forall>v. fst (Some (3 :: u64), mem mach_start) = Some v \<longrightarrow> regs s' RAX = v) \<and>
      (\<forall>q \<in> insert RSP (insert RBP (set pool_saved)). regs s' q = regs mach_start q)"
    by (intro function_code_runs [OF g'(1), where st = pick_three and cs = "stmt_cells pick_three" and rest = "[]"])
      (use pick_three_facts g'(2) blank_off_stack in \<open>simp_all add: gen_start_def\<close>)
  then show ?thesis using g'(1) by (auto simp: gen_start_def mach_start_def)
qed

end
