(* ===== verification/Cup_Resolver.thy ===== *)
theory Cup_Resolver
  imports Cup_Parser "HOL-Library.Sublist"
begin

text \<open>
  The resolver of \<^verbatim>\<open>src/resolver.c\<close>: it walks the node stream once, infers what each expression is
  (a constant, an address, a variable, a list), gives types to the variables that are assigned, folds
  what meta types compute at compile time, and writes the nodes for the code generator.

  A meta type's callback is not part of the program: it is an argument, from the number of the
  function, the operation and the value to a result and the calls of \<^verbatim>\<open>cup_gen_value\<close>,
  \<^verbatim>\<open>cup_gen_address\<close> and \<^verbatim>\<open>cup_gen_call\<close> it makes. So are the address of the data section and the
  memory that addresses point to. A \<^verbatim>\<open>CVariable *\<close> is an index into the table. The code tags the
  result of \<^verbatim>\<open>cup_gen_call\<close> like a variable; reading one as the other is \<^const>\<open>Undef\<close>.
\<close>

section \<open>Values\<close>

datatype callee_value = AtAddress u64 | AtNode nat

datatype cupvalue =
    CV_ERROR
  | CV_ANY "tref option"
  | CV_VALUE "tref option" u64
  | CV_ADDRESS "tref option" "u64 option"
  | CV_VARIABLE "nat option"
  | CV_FUNCTION tref callee_value
  | CV_LIST "(tref option \<times> u64) list"

datatype gen_result = CUP_GEN_ERROR | CUP_GEN_CONTINUE | CUP_GEN_DONE

datatype meta_op =
    CUP_MOP_MEMBER string
  | CUP_MOP_BRACK "tref option" u64
  | CUP_MOP_CALL "(tref option \<times> u64) list"

datatype report = GAddress u64 "tref option" | GValue u64 "tref option" | GCall u64 u64 "slot list"

record renv =
  re_data :: u64
  re_mem :: "parst \<Rightarrow> u64 \<Rightarrow> u64"
  re_gen :: "nat \<Rightarrow> meta_op \<Rightarrow> u64 \<Rightarrow> gen_result \<times> report list"

record rgen =
  r_st :: parst
  r_it :: "cell list"
  r_new :: "cell list"

type_synonym infer_fun = "bool \<Rightarrow> bool \<Rightarrow> rgen \<Rightarrow> (cupvalue \<times> rgen) res"

definition cup_gen_address :: "u64 \<Rightarrow> tref option \<Rightarrow> cupvalue" where
  "cup_gen_address lvalue t = CV_ADDRESS t (if lvalue = 0 then None else Some lvalue)"

definition cup_gen_value :: "u64 \<Rightarrow> tref option \<Rightarrow> cupvalue" where
  "cup_gen_value v t = CV_VALUE t v"

definition cup_gen_call :: "types \<Rightarrow> u64 \<Rightarrow> u64 \<Rightarrow> slot list \<Rightarrow> (cupvalue \<times> types) res" where
  "cup_gen_call ts v mx ss =
     rbind (cup_type ts CUP_TYPE_FUNCTION (ucast mx) (DSlots ss)) (\<lambda>(t, ts). Inr (CV_FUNCTION t (AtAddress v), ts))"

fun run_reports :: "report list \<Rightarrow> cupvalue \<Rightarrow> types \<Rightarrow> (cupvalue \<times> types) res" where
  "run_reports [] v ts = Inr (v, ts)"
| "run_reports (GAddress a t # rs) v ts = run_reports rs (cup_gen_address a t) ts"
| "run_reports (GValue a t # rs) v ts = run_reports rs (cup_gen_value a t) ts"
| "run_reports (GCall a mx ss # rs) v ts = rbind (cup_gen_call ts a mx ss) (\<lambda>(v, ts). run_reports rs v ts)"

section \<open>The node streams\<close>

definition nextNode :: "rgen \<Rightarrow> (cell \<times> rgen) res" where
  "nextNode g = (case r_it g of [] \<Rightarrow> Inl (Exit 1) | c # cs \<Rightarrow> Inr (c, g\<lparr>r_it := cs\<rparr>))"

definition push_cells :: "cell list \<Rightarrow> rgen \<Rightarrow> rgen" where
  "push_cells cs g = g\<lparr>r_new := r_new g @ cs\<rparr>"

fun retoken :: "cell \<Rightarrow> ctt \<Rightarrow> cell" where
  "retoken (CTok _ c l) t = CTok t c l"
| "retoken (CPay p) t = CTok t 0 0"

definition pushNode2 :: "cell \<Rightarrow> ctt \<Rightarrow> u64 \<Rightarrow> rgen \<Rightarrow> rgen" where
  "pushNode2 tmpl t v g = push_cells [retoken tmpl t, CPay (PVal v)] g"

definition pushNumber :: "cell \<Rightarrow> u64 \<Rightarrow> rgen \<Rightarrow> rgen" where
  "pushNumber tmpl v g = pushNode2 tmpl T_NUMBER v g"

definition pushAddress :: "cell \<Rightarrow> u64 \<Rightarrow> rgen \<Rightarrow> rgen" where
  "pushAddress tmpl a g = pushNode2 tmpl N_ADDRESS a g"

text \<open>The payload of a node, with both cells copied to the new stream.\<close>

definition copyValue :: "cell \<Rightarrow> rgen \<Rightarrow> (u64 \<times> rgen) res" where
  "copyValue c g =
     rbind (nextNode g) (\<lambda>(d, g). rbind (cell_value d) (\<lambda>v. Inr (v, push_cells [c, d] g)))"

text \<open>An inference into a vector of its own.\<close>

definition apart :: "infer_fun \<Rightarrow> rgen \<Rightarrow> (cupvalue \<times> cell list \<times> rgen) res" where
  "apart rec g =
     rbind (rec False False (g\<lparr>r_new := []\<rparr>)) (\<lambda>(v, g'). Inr (v, r_new g', g'\<lparr>r_new := r_new g\<rparr>))"

section \<open>Meta types\<close>

definition var_ctype :: "parst \<Rightarrow> nat \<Rightarrow> ctype option res" where
  "var_ctype st i =
     (case var_type (vars st ! i) of
        None \<Rightarrow> Inr None
      | Some r \<Rightarrow> rbind (deref (types st) r) (\<lambda>c. Inr (Some c)))"

definition metaGen :: "renv \<Rightarrow> nat \<Rightarrow> ctype \<Rightarrow> meta_op \<Rightarrow> rgen \<Rightarrow> (gen_result \<times> cupvalue \<times> rgen) res" where
  "metaGen env i c op g =
     (case ct_body c of
        BMeta k \<Rightarrow>
          (let (r, reports) = re_gen env k op (var_value (vars (r_st g) ! i))
           in rbind (run_reports reports CV_ERROR (types (r_st g))) (\<lambda>(v, ts).
                Inr (r, v, g\<lparr>r_st := (r_st g)\<lparr>types := ts\<rparr>\<rparr>)))
      | _ \<Rightarrow> Inl Undef)"

definition metaApply :: "renv \<Rightarrow> nat \<Rightarrow> ctype \<Rightarrow> meta_op \<Rightarrow> rgen \<Rightarrow> (cupvalue \<times> rgen) res" where
  "metaApply env i c op g =
     rbind (metaGen env i c op g) (\<lambda>(r, v, g).
       Inr (if r = CUP_GEN_ERROR then CV_ERROR else if r = CUP_GEN_CONTINUE then CV_ERROR else v, g))"

section \<open>Operators\<close>

text \<open>The type of the right side; \<^const>\<open>None\<close> for a list.\<close>

definition eq_type :: "parst \<Rightarrow> cupvalue \<Rightarrow> tref option option res" where
  "eq_type st right =
     (case right of
        CV_ANY t \<Rightarrow> Inr (Some t)
      | CV_VALUE t _ \<Rightarrow> Inr (Some t)
      | CV_ADDRESS t _ \<Rightarrow> Inr (Some t)
      | CV_VARIABLE None \<Rightarrow> Inl Abort
      | CV_VARIABLE (Some i) \<Rightarrow> Inr (Some (var_type (vars st ! i)))
      | CV_FUNCTION _ _ \<Rightarrow> Inl Undef
      | CV_LIST _ \<Rightarrow> Inr None
      | CV_ERROR \<Rightarrow> Inl Abort)"

definition set_var_type :: "nat \<Rightarrow> tref option \<Rightarrow> parst \<Rightarrow> parst" where
  "set_var_type i t st = st\<lparr>vars := (vars st)[i := (vars st ! i)\<lparr>var_type := t\<rparr>]\<rparr>"

definition eq_assign :: "cupvalue \<Rightarrow> cupvalue \<Rightarrow> tref option \<Rightarrow> rgen \<Rightarrow> (cupvalue \<times> rgen) res" where
  "eq_assign left right t g =
     (case left of
        CV_VARIABLE (Some i) \<Rightarrow>
          (let old = var_type (vars (r_st g) ! i)
           in if t \<noteq> None \<and> old \<noteq> None \<and> old \<noteq> t then Inr (CV_ERROR, g)
              else Inr (right, if t \<noteq> None then g\<lparr>r_st := set_var_type i t (r_st g)\<rparr> else g))
      | CV_ADDRESS lt _ \<Rightarrow> if t \<noteq> None \<and> lt \<noteq> t then Inr (CV_ERROR, g) else Inr (right, g)
      | CV_FUNCTION _ _ \<Rightarrow> Inl Undef
      | _ \<Rightarrow> Inl Abort)"

definition eq :: "infer_fun \<Rightarrow> rgen \<Rightarrow> (cupvalue \<times> rgen) res" where
  "eq rec g =
     rbind (rec False False g) (\<lambda>(right, g).
     rbind (rec False False g) (\<lambda>(left, g).
     rbind (eq_type (r_st g) right) (\<lambda>x.
       case x of None \<Rightarrow> Inr (CV_ERROR, g) | Some t \<Rightarrow> eq_assign left right t g)))"

definition dot_member :: "renv \<Rightarrow> cell \<Rightarrow> nat \<Rightarrow> string \<Rightarrow> rgen \<Rightarrow> (cupvalue \<times> rgen) res" where
  "dot_member env dotnode i name g =
     rbind (var_ctype (r_st g) i) (\<lambda>c.
       case c of
         None \<Rightarrow> Inr (CV_ERROR, g)
       | Some c \<Rightarrow>
           if ct_kind c \<noteq> CUP_TYPE_META then Inr (CV_ERROR, g)
           else rbind (metaApply env i c (CUP_MOP_MEMBER name) g) (\<lambda>(v, g).
             case v of
               CV_VALUE _ x \<Rightarrow> Inr (v, pushNumber dotnode x g)
             | CV_ADDRESS _ p \<Rightarrow> Inr (v, pushAddress dotnode (case p of None \<Rightarrow> 0 | Some a \<Rightarrow> a) g)
             | _ \<Rightarrow> Inr (CV_ERROR, g)))"

definition dot :: "infer_fun \<Rightarrow> renv \<Rightarrow> cell \<Rightarrow> rgen \<Rightarrow> (cupvalue \<times> rgen) res" where
  "dot rec env dotnode g =
     rbind (apart rec g) (\<lambda>(left, _, g).
     rbind (nextNode g) (\<lambda>(c, g).
     rbind (cell_token c) (\<lambda>t.
       if t \<noteq> N_VARIABLE then Inr (CV_ERROR, g)
       else
         rbind (nextNode g) (\<lambda>(d, g).
         rbind (cell_name d) (\<lambda>name.
           case left of
             CV_VARIABLE (Some i) \<Rightarrow> dot_member env dotnode i name g
           | CV_FUNCTION _ _ \<Rightarrow> Inl Undef
           | _ \<Rightarrow> Inr (CV_ERROR, g))))))"

definition call_meta ::
  "renv \<Rightarrow> cell \<Rightarrow> nat \<Rightarrow> ctype \<Rightarrow> (tref option \<times> u64) list \<Rightarrow> cell list \<Rightarrow> rgen \<Rightarrow> (cupvalue \<times> rgen) res" where
  "call_meta env callnode i c args argnodes g =
     rbind (metaGen env i c (CUP_MOP_CALL args) g) (\<lambda>(r, v, g).
       case r of
         CUP_GEN_ERROR \<Rightarrow> Inr (CV_ERROR, g)
       | CUP_GEN_CONTINUE \<Rightarrow> Inl Abort
       | CUP_GEN_DONE \<Rightarrow>
           (case v of
              CV_FUNCTION t (AtAddress a) \<Rightarrow>
                (let g = push_cells argnodes (pushNumber callnode a (push_cells [callnode] g))
                 in Inr (CV_FUNCTION t (AtNode (length (r_new g) - 1)), g))
            | CV_VALUE _ x \<Rightarrow> Inr (v, pushNumber callnode x g)
            | _ \<Rightarrow> Inl Abort))"

definition call_variable ::
  "renv \<Rightarrow> cell \<Rightarrow> nat \<Rightarrow> cupvalue \<Rightarrow> cell list \<Rightarrow> rgen \<Rightarrow> (cupvalue \<times> rgen) res" where
  "call_variable env callnode i right argnodes g =
     rbind (var_ctype (r_st g) i) (\<lambda>c.
       case c of
         None \<Rightarrow> Inl Abort
       | Some c \<Rightarrow>
           (case right of
              CV_LIST args \<Rightarrow>
                if ct_kind c = CUP_TYPE_FUNCTION then Inl Abort
                else if ct_kind c = CUP_TYPE_META then call_meta env callnode i c args argnodes g
                else Inr (CV_ERROR, g)
            | _ \<Rightarrow> Inr (CV_ERROR, g)))"

definition call :: "infer_fun \<Rightarrow> renv \<Rightarrow> cell \<Rightarrow> rgen \<Rightarrow> (cupvalue \<times> rgen) res" where
  "call rec env callnode g =
     rbind (apart rec g) (\<lambda>(left, _, g).
     rbind (apart rec g) (\<lambda>(right, argnodes, g).
       case left of
         CV_LIST _ \<Rightarrow> Inr (CV_ERROR, g)
       | CV_VALUE _ _ \<Rightarrow> Inr (CV_ERROR, g)
       | CV_VARIABLE (Some i) \<Rightarrow> call_variable env callnode i right argnodes g
       | CV_VARIABLE None \<Rightarrow> Inl Undef
       | CV_FUNCTION _ _ \<Rightarrow> Inl Undef
       | _ \<Rightarrow> Inl Abort))"

text \<open>Indexing a meta value: what was written for the operands is replaced by the result.\<close>

definition osb_result :: "cell \<Rightarrow> nat \<Rightarrow> cupvalue \<Rightarrow> rgen \<Rightarrow> cupvalue \<times> rgen" where
  "osb_result osbnode mark v g =
     (let cut = g\<lparr>r_new := take mark (r_new g)\<rparr>
      in case v of
           CV_ADDRESS _ p \<Rightarrow> (v, pushAddress osbnode (case p of None \<Rightarrow> 0 | Some a \<Rightarrow> a) cut)
         | CV_VALUE _ x \<Rightarrow> (v, pushNumber osbnode x cut)
         | _ \<Rightarrow> (CV_ERROR, g))"

definition osb_meta :: "renv \<Rightarrow> cell \<Rightarrow> nat \<Rightarrow> nat \<Rightarrow> ctype \<Rightarrow> cupvalue \<Rightarrow> rgen \<Rightarrow> (cupvalue \<times> rgen) res" where
  "osb_meta env osbnode mark i c right g =
     rbind (metaApply env i c (case right of CV_VALUE t x \<Rightarrow> CUP_MOP_BRACK t x | _ \<Rightarrow> CUP_MOP_BRACK None 0) g) (\<lambda>(v, g).
       Inr (osb_result osbnode mark v g))"

definition osb_array :: "ctype option \<Rightarrow> u64 \<Rightarrow> cupvalue \<Rightarrow> cupvalue res" where
  "osb_array arrtype base right =
     (case arrtype of
        None \<Rightarrow> Inr CV_ERROR
      | Some c \<Rightarrow>
          if ct_kind c \<noteq> CUP_TYPE_ARRAY then Inr CV_ERROR
          else
            (case (ct_body c, right) of
               (BArr element, CV_VALUE t i) \<Rightarrow>
                 Inr (if t \<noteq> Some (TBase CUP_TYPE_INT) then CV_ERROR
                      else if element = void_ref then CV_ERROR
                      else if i \<ge> ucast (ct_size c) then CV_ERROR
                      else CV_ADDRESS (Some element) (if base \<noteq> 0 then Some (base + 8 * i) else None))
             | (BArr _, _) \<Rightarrow> Inr CV_ERROR
             | _ \<Rightarrow> Inl Undef))"

definition osb :: "infer_fun \<Rightarrow> renv \<Rightarrow> cell \<Rightarrow> rgen \<Rightarrow> (cupvalue \<times> rgen) res" where
  "osb rec env osbnode g =
     (let mark = length (r_new g) - 1
      in rbind (rec False False g) (\<lambda>(left, g).
         rbind (rec False False g) (\<lambda>(right, g).
           case left of
             CV_VARIABLE (Some i) \<Rightarrow>
               rbind (var_ctype (r_st g) i) (\<lambda>c.
                 if map_option ct_kind c = Some CUP_TYPE_META then osb_meta env osbnode mark i (the c) right g
                 else rbind (osb_array c (var_value (vars (r_st g) ! i)) right) (\<lambda>v. Inr (v, g)))
           | CV_FUNCTION _ _ \<Rightarrow> Inl Undef
           | CV_ADDRESS t (Some p) \<Rightarrow>
               rbind (case t of None \<Rightarrow> Inr None | Some r \<Rightarrow> rbind (deref (types (r_st g)) r) (\<lambda>c. Inr (Some c))) (\<lambda>c.
               rbind (osb_array c (re_mem env (r_st g) p) right) (\<lambda>v. Inr (v, g)))
           | _ \<Rightarrow> Inr (CV_ERROR, g))))"

definition at :: "infer_fun \<Rightarrow> rgen \<Rightarrow> (cupvalue \<times> rgen) res" where
  "at rec g =
     rbind (rec False False g) (\<lambda>(left, g).
     rbind (rec False False (g\<lparr>r_st := (r_st g)\<lparr>scope := Suc (scope (r_st g))\<rparr>\<rparr>)) (\<lambda>(_, g).
     rbind (rec True False g) (\<lambda>(_, g). Inr (left, g))))"

section \<open>Lists\<close>

definition fnblock :: "(tref option \<times> u64) list \<Rightarrow> cupvalue" where
  "fnblock xs = CV_VALUE (Some void_ref) 0"

definition fncomma :: "(tref option \<times> u64) list \<Rightarrow> cupvalue" where
  "fncomma xs = CV_LIST xs"

fun one_type :: "tref option \<Rightarrow> (tref option \<times> u64) list \<Rightarrow> bool" where
  "one_type t [] = True"
| "one_type t ((None, _) # xs) = one_type t xs"
| "one_type t ((Some r, _) # xs) = (if t \<noteq> None \<and> t \<noteq> Some r then False else one_type (Some r) xs)"

definition fnarray :: "(tref option \<times> u64) list \<Rightarrow> cupvalue" where
  "fnarray xs = (if one_type None xs then CV_LIST xs else CV_ERROR)"

text \<open>What an item adds to a list; \<^const>\<open>None\<close> if it is an error.\<close>

definition item_value :: "renv \<Rightarrow> parst \<Rightarrow> cupvalue \<Rightarrow> (tref option \<times> u64) option res" where
  "item_value env st item =
     (case item of
        CV_ERROR \<Rightarrow> Inr None
      | CV_LIST _ \<Rightarrow> Inl Abort
      | CV_VALUE None _ \<Rightarrow> Inl Abort
      | CV_VALUE (Some t) x \<Rightarrow> Inr (Some (if t \<noteq> void_ref then (Some t, x) else (None, 0)))
      | CV_VARIABLE None \<Rightarrow> Inl Undef
      | CV_VARIABLE (Some i) \<Rightarrow> Inr (Some (var_type (vars st ! i), var_value (vars st ! i)))
      | CV_FUNCTION _ _ \<Rightarrow> Inl Undef
      | CV_ADDRESS None _ \<Rightarrow> Inl Abort
      | CV_ADDRESS (Some t) p \<Rightarrow> Inr (Some (Some t, case p of None \<Rightarrow> 0 | Some a \<Rightarrow> re_mem env st a))
      | CV_ANY _ \<Rightarrow> Inl Abort)"

primrec items ::
  "nat \<Rightarrow> infer_fun \<Rightarrow> renv \<Rightarrow> bool \<Rightarrow> u64 \<Rightarrow> u64 \<Rightarrow> rgen \<Rightarrow> ((tref option \<times> u64) list option \<times> rgen) res" where
  "items 0 rec env rt j count g = Inl Loop"
| "items (Suc n) rec env rt j count g =
     (if \<not> j < count then Inr (Some [], g)
      else
        rbind (rec rt False g) (\<lambda>(item, g).
        rbind (item_value env (r_st g) item) (\<lambda>x.
          case x of
            None \<Rightarrow> Inr (None, g)
          | Some x \<Rightarrow> rbind (items n rec env rt (j + 1) count g) (\<lambda>(xs, g). Inr (map_option (Cons x) xs, g)))))"

definition defFor ::
  "nat \<Rightarrow> infer_fun \<Rightarrow> renv \<Rightarrow> bool \<Rightarrow> u64 \<Rightarrow> ((tref option \<times> u64) list \<Rightarrow> cupvalue) \<Rightarrow> rgen \<Rightarrow> (cupvalue \<times> rgen) res" where
  "defFor n rec env rt count f g =
     rbind (items n rec env rt 0 count g) (\<lambda>(xs, g).
       Inr (case xs of None \<Rightarrow> CV_ERROR | Some xs \<Rightarrow> f xs, g))"

section \<open>Inference\<close>

definition UINT16_MAX :: nat where "UINT16_MAX = 65535"

definition data_at :: "renv \<Rightarrow> parst \<Rightarrow> u64 \<Rightarrow> u64" where
  "data_at env st i = (case getData (data_sec st) i of None \<Rightarrow> 0 | Some _ \<Rightarrow> re_data env + i)"

text \<open>An array type of \<open>count\<close> elements, as the value at \<open>a\<close>.\<close>

definition array_value :: "nat \<Rightarrow> tdata \<Rightarrow> u64 \<Rightarrow> rgen \<Rightarrow> (cupvalue \<times> rgen) res" where
  "array_value count d a g =
     rbind (guard (count < UINT16_MAX) Abort) (\<lambda>_.
     rbind (cup_type (types (r_st g)) CUP_TYPE_ARRAY (of_nat count) d) (\<lambda>(t, ts).
       Inr (CV_VALUE (Some t) a, g\<lparr>r_st := (r_st g)\<lparr>types := ts\<rparr>\<rparr>)))"

definition infer_array :: "infer_fun \<Rightarrow> renv \<Rightarrow> cell \<Rightarrow> rgen \<Rightarrow> (cupvalue \<times> rgen) res" where
  "infer_array rec env c g =
     rbind (copyValue c g) (\<lambda>(i, g).
     let a = data_at env (r_st g) i
     in rbind (rec False True g) (\<lambda>(right, g).
          case right of
            CV_LIST xs \<Rightarrow>
              array_value (length xs) (case xs of (Some t, _) # _ \<Rightarrow> DType t | _ \<Rightarrow> DNull) a g
          | _ \<Rightarrow> Inl Abort))"

definition infer_string :: "renv \<Rightarrow> cell \<Rightarrow> rgen \<Rightarrow> (cupvalue \<times> rgen) res" where
  "infer_string env c g =
     rbind (copyValue c g) (\<lambda>(i, g).
       case getData (data_sec (r_st g)) i of
         None \<Rightarrow> Inl Undef
       | Some s \<Rightarrow>
           if NUL \<notin> set s then Inl Undef
           else array_value (length (takeWhile (\<lambda>x. x \<noteq> NUL) s) + 1) (DType (TBase CUP_TYPE_UINT8)) (data_at env (r_st g) i) g)"

definition infer_variable :: "cell \<Rightarrow> rgen \<Rightarrow> (cupvalue \<times> rgen) res" where
  "infer_variable c g =
     rbind (nextNode g) (\<lambda>(d, g).
     rbind (cell_name d) (\<lambda>name.
     rbind (varLookup (r_st g) name (scope (r_st g))) (\<lambda>v.
       Inr (CV_VARIABLE v, push_cells [c, d] g))))"

definition infer_this :: "cell \<Rightarrow> rgen \<Rightarrow> (cupvalue \<times> rgen) res" where
  "infer_this c g =
     rbind (varLookup (r_st g) ''$'' (scope (r_st g))) (\<lambda>v.
       case v of
         None \<Rightarrow> Inr (CV_ERROR, g)
       | Some i \<Rightarrow> Inr (CV_VARIABLE (Some i), push_cells [c] g))"

definition infer_return :: "infer_fun \<Rightarrow> bool \<Rightarrow> rgen \<Rightarrow> (cupvalue \<times> rgen) res" where
  "infer_return rec rt g =
     rbind (rec False False g) (\<lambda>(left, g).
       case left of
         CV_VALUE t _ \<Rightarrow>
           if t = Some void_ref then Inl Abort
           else if \<not> rt then Inl Abort
           else Inr (CV_ANY (Some void_ref), g)
       | _ \<Rightarrow> Inl Abort)"

definition infer_node :: "nat \<Rightarrow> infer_fun \<Rightarrow> renv \<Rightarrow> bool \<Rightarrow> bool \<Rightarrow> cell \<Rightarrow> ctt \<Rightarrow> rgen \<Rightarrow> (cupvalue \<times> rgen) res" where
  "infer_node n rec env rt arr c t g =
     (if t = N_BLOCK then
        rbind (copyValue c (g\<lparr>r_st := (r_st g)\<lparr>scope := Suc (scope (r_st g))\<rparr>\<rparr>)) (\<lambda>(count, g).
          defFor n rec env rt count fnblock g)
      else if t = T_COMMA then
        rbind (copyValue c g) (\<lambda>(count, g). defFor n rec env rt count (if arr then fnarray else fncomma) g)
      else if t = N_ARRAY then infer_array rec env c g
      else if t = T_NUMBER then
        rbind (copyValue c g) (\<lambda>(v, g). Inr (CV_VALUE (Some (TBase CUP_TYPE_INT)) v, g))
      else if t = T_STRING \<or> t = T_MSTRING then infer_string env c g
      else if t = T_THIS then infer_this c g
      else if t = N_VARIABLE then infer_variable c g
      else if t = T_DOT then dot rec env c g
      else if t = T_EQ then eq rec (push_cells [c] g)
      else if t = T_CALL then call rec env c g
      else if t = T_OSB then osb rec env c (push_cells [c] g)
      else if t = T_AT then at rec (push_cells [c] g)
      else if t = T_RETURN then infer_return rec rt (push_cells [c] g)
      else Inr (CV_ERROR, g))"

text \<open>\<open>rt\<close> says whether there is a place for the type of a \<open>return\<close>, \<open>arr\<close> whether a list is that of an array.\<close>

primrec inferTypes :: "nat \<Rightarrow> renv \<Rightarrow> infer_fun" where
  "inferTypes 0 env rt arr g = Inl Loop"
| "inferTypes (Suc n) env rt arr g =
     rbind (nextNode g) (\<lambda>(c, g).
     rbind (cell_token c) (\<lambda>t. infer_node n (inferTypes n env) env rt arr c t g))"

text \<open>Whether there was an error, and the nodes for the code generator.\<close>

definition resolve :: "renv \<Rightarrow> parst \<Rightarrow> cell list \<Rightarrow> (bool \<times> cell list \<times> parst) res" where
  "resolve env st nodes =
     rbind (inferTypes (Suc (length nodes)) env False False \<lparr>r_st = st, r_it = nodes, r_new = []\<rparr>) (\<lambda>(v, g).
       case v of
         CV_ANY _ \<Rightarrow> Inl Abort
       | _ \<Rightarrow> Inr (v = CV_ERROR, r_new g, r_st g))"

section \<open>What the resolver keeps\<close>

text \<open>The tokens it writes.\<close>

definition resolved_token :: "ctt \<Rightarrow> bool" where
  "resolved_token t \<longleftrightarrow>
     t \<in> {N_BLOCK, T_COMMA, N_ARRAY, T_NUMBER, T_STRING, T_MSTRING, T_THIS, N_VARIABLE, N_ADDRESS, T_EQ, T_CALL,
          T_OSB, T_AT, T_RETURN}"

definition fine :: "cell \<Rightarrow> bool" where
  "fine c \<longleftrightarrow> (case c of CTok t _ _ \<Rightarrow> resolved_token t | CPay _ \<Rightarrow> True)"

lemma fine_payload [simp]: "fine (CPay p)"
  by (simp add: fine_def)

text \<open>Types in values refer to the table, variables to the variable table.\<close>

definition type_known :: "types \<Rightarrow> tref option \<Rightarrow> bool" where
  "type_known ts t \<longleftrightarrow> (\<forall>r. t = Some r \<longrightarrow> ref_ok (length ts) r)"

definition value_ok :: "parst \<Rightarrow> cupvalue \<Rightarrow> bool" where
  "value_ok st v \<longleftrightarrow>
     (case v of
        CV_ERROR \<Rightarrow> True
      | CV_ANY t \<Rightarrow> type_known (types st) t
      | CV_VALUE t _ \<Rightarrow> type_known (types st) t
      | CV_ADDRESS t _ \<Rightarrow> type_known (types st) t
      | CV_VARIABLE i \<Rightarrow> (\<forall>k. i = Some k \<longrightarrow> k < length (vars st))
      | CV_FUNCTION t _ \<Rightarrow> ref_ok (length (types st)) t
      | CV_LIST xs \<Rightarrow> (\<forall>x \<in> set xs. type_known (types st) (fst x)))"

text \<open>The contract of the callbacks: the types they report are types of the table.\<close>

definition report_ok :: "nat \<Rightarrow> report \<Rightarrow> bool" where
  "report_ok n r \<longleftrightarrow>
     (case r of
        GAddress _ t \<Rightarrow> (\<forall>x. t = Some x \<longrightarrow> ref_ok n x)
      | GValue _ t \<Rightarrow> (\<forall>x. t = Some x \<longrightarrow> ref_ok n x)
      | GCall _ _ ss \<Rightarrow> (\<forall>s \<in> set ss. slot_ok n s))"

lemma report_ok_mono: "report_ok n r \<Longrightarrow> n \<le> m \<Longrightarrow> report_ok m r"
  by (cases r) (auto simp: report_ok_def intro: ref_ok_mono slot_ok_mono)

definition callbacks_ok :: "renv \<Rightarrow> nat \<Rightarrow> bool" where
  "callbacks_ok env n \<longleftrightarrow> (\<forall>k op a. \<forall>r \<in> set (snd (re_gen env k op a)). report_ok n r)"

definition rinv :: "renv \<Rightarrow> rgen \<Rightarrow> bool" where
  "rinv env g \<longleftrightarrow> vars_ok (r_st g) \<and> scopes_ok ((r_st g)\<lparr>scope := 0\<rparr>) \<and> types_ok (types (r_st g)) \<and>
     (\<forall>v \<in> set (vars (r_st g)). type_known (types (r_st g)) (var_type v)) \<and> callbacks_ok env (length (types (r_st g)))"

text \<open>Variables that have a type keep it.\<close>

definition keeps_type :: "cvar \<Rightarrow> cvar \<Rightarrow> bool" where
  "keeps_type v v' \<longleftrightarrow> var_name v' = var_name v \<and> var_scope v' = var_scope v \<and> var_value v' = var_value v \<and>
     (\<forall>t. var_type v = Some t \<longrightarrow> var_type v' = Some t)"

definition retyped :: "cvar list \<Rightarrow> cvar list \<Rightarrow> bool" where
  "retyped vs vs' \<longleftrightarrow> list_all2 keeps_type vs vs'"

definition grown :: "rgen \<Rightarrow> rgen \<Rightarrow> bool" where
  "grown g g' \<longleftrightarrow>
     prefix (types (r_st g)) (types (r_st g')) \<and> retyped (vars (r_st g)) (vars (r_st g')) \<and>
     vars_cap (r_st g') = vars_cap (r_st g) \<and> vars_map (r_st g') = vars_map (r_st g) \<and> scopes (r_st g') = scopes (r_st g) \<and>
     data_sec (r_st g') = data_sec (r_st g) \<and> scope (r_st g) \<le> scope (r_st g') \<and>
     length (r_it g') \<le> length (r_it g) \<and> (\<exists>ys. r_new g' = r_new g @ ys \<and> list_all fine ys)"

lemma retyped_refl: "retyped vs vs"
  by (simp add: retyped_def keeps_type_def list_all2_same)

lemma retyped_trans: "retyped a b \<Longrightarrow> retyped b c \<Longrightarrow> retyped a c"
  unfolding retyped_def by (rule list_all2_trans [of keeps_type keeps_type keeps_type a b c]) (auto simp: keeps_type_def)

lemma retyped_length: "retyped a b \<Longrightarrow> length b = length a"
  unfolding retyped_def by (simp add: list_all2_lengthD)

lemma grown_refl: "grown g g"
  by (simp add: grown_def retyped_refl)

lemma grown_it: "grown g g' \<Longrightarrow> length (r_it g') \<le> length (r_it g)"
  by (simp add: grown_def)

lemma grown_trans: "grown a b \<Longrightarrow> grown b c \<Longrightarrow> grown a c"
  unfolding grown_def by (force intro: retyped_trans prefix_order.trans)

lemma type_known_mono: "type_known ts t \<Longrightarrow> prefix ts ts' \<Longrightarrow> type_known ts' t"
  by (auto simp: type_known_def intro: ref_ok_mono prefix_length_le)

lemma value_ok_mono:
  assumes "value_ok st v" and "prefix (types st) (types st')" and "length (vars st') = length (vars st)"
  shows "value_ok st' v"
  using assms type_known_mono [OF _ assms(2)] ref_ok_mono prefix_length_le [OF assms(2)]
  by (auto simp: value_ok_def split: cupvalue.splits)

lemma value_ok_grown: "value_ok (r_st g) v \<Longrightarrow> grown g g' \<Longrightarrow> value_ok (r_st g') v"
  by (rule value_ok_mono [of "r_st g"]) (simp_all add: grown_def retyped_length)

text \<open>The variable table does not depend on the types of variables.\<close>

lemma vars_ok_retyped:
  assumes "vars_ok st" and "retyped (vars st) (vars st')" and "vars_cap st' = vars_cap st" and "vars_map st' = vars_map st"
  shows "vars_ok st'"
proof -
  have len: "length (vars st') = length (vars st)" by (rule retyped_length [OF assms(2)])
  have "var_name (vars st' ! v) = var_name (vars st ! v) \<and> var_scope (vars st' ! v) = var_scope (vars st ! v)"
    if "v < length (vars st)" for v
    using assms(2) that by (auto simp: retyped_def keeps_type_def list_all2_conv_all_nth)
  then have "map_ok (vars st) tab (length (vars st)) \<Longrightarrow> map_ok (vars st') tab (length (vars st'))" for tab
    by (auto simp: map_ok_def placed_def Let_def len)
  then show ?thesis using assms(1,3,4) len by (auto simp: vars_ok_def)
qed

lemma varLookup_scope: "varLookup (st\<lparr>scope := k\<rparr>) name sc = varLookup st name sc"
proof -
  have "varFind (st\<lparr>scope := k\<rparr>) name sc = varFind st name sc" for sc
    by (simp add: varFind_def)
  then have "varLookup_loop n (st\<lparr>scope := k\<rparr>) name sc = varLookup_loop n st name sc" for n
    by (induction n arbitrary: sc) (simp_all split: option.splits cong: option.case_cong)
  then show ?thesis by (simp add: varLookup_def)
qed

text \<open>A result with the state it was reached in, seen from the state before.\<close>

definition after :: "renv \<Rightarrow> rgen \<Rightarrow> cupvalue \<times> rgen \<Rightarrow> bool" where
  "after env g x \<longleftrightarrow> (case x of (v, g') \<Rightarrow> rinv env g' \<and> grown g g' \<and> value_ok (r_st g') v)"

lemma afterI: "rinv env g' \<Longrightarrow> grown g g' \<Longrightarrow> value_ok (r_st g') v \<Longrightarrow> after env g (v, g')"
  by (simp add: after_def)

lemma after_error: "rinv env g' \<Longrightarrow> grown g g' \<Longrightarrow> after env g (CV_ERROR, g')"
  by (simp add: after_def value_ok_def)

lemma after_trans: "grown g g1 \<Longrightarrow> after env g1 x \<Longrightarrow> after env g x"
  unfolding after_def using grown_trans by blast

definition infer_ok :: "renv \<Rightarrow> nat \<Rightarrow> infer_fun \<Rightarrow> bool" where
  "infer_ok env n rec \<longleftrightarrow>
     (\<forall>rt arr g. rinv env g \<longrightarrow> length (r_it g) < n \<longrightarrow>
        ensures (rec rt arr g) (\<lambda>x. after env g x \<and> length (r_it (snd x)) < length (r_it g)))"

lemma infer_okD:
  "infer_ok env n rec \<Longrightarrow> rinv env g \<Longrightarrow> length (r_it g) < n \<Longrightarrow>
   ensures (rec rt arr g) (\<lambda>x. after env g x \<and> length (r_it (snd x)) < length (r_it g))"
  by (simp add: infer_ok_def)

lemma infer_step:
  assumes "infer_ok env n rec"
    and "\<And>v g'. rinv env g' \<Longrightarrow> grown g g' \<Longrightarrow> value_ok (r_st g') v \<Longrightarrow> length (r_it g') < length (r_it g) \<Longrightarrow> length (r_it g') < n \<Longrightarrow>
      ensures (f v g') Q"
    and "rinv env g" and "length (r_it g) < n"
  shows "ensures (rbind (rec rt arr g) (\<lambda>(v, g'). f v g')) Q"
proof (rule ensures_bindI)
  show "ensures (rec rt arr g) (\<lambda>x. after env g x \<and> length (r_it (snd x)) < length (r_it g))"
    using assms(1,3,4) by (simp add: infer_ok_def)
qed (use assms(2,4) in \<open>auto simp: after_def\<close>)

lemma rinv_it [simp]: "rinv env (g\<lparr>r_it := cs\<rparr>) = rinv env g" "rinv env (g\<lparr>r_new := cs\<rparr>) = rinv env g"
  by (simp_all add: rinv_def)

lemma rinv_push [simp]: "rinv env (push_cells cs g) = rinv env g" "r_st (push_cells cs g) = r_st g" "r_it (push_cells cs g) = r_it g"
  "r_new (push_cells cs g) = r_new g @ cs"
  by (simp_all add: push_cells_def)

lemma rinv_scope [simp]: "rinv env (g\<lparr>r_st := (r_st g)\<lparr>scope := k\<rparr>\<rparr>) = rinv env g"
proof -
  have "vars_ok ((r_st g)\<lparr>scope := k\<rparr>) = vars_ok (r_st g)" by (simp add: vars_ok_def)
  then show ?thesis by (simp add: rinv_def)
qed

lemma grown_push: "grown g g' \<Longrightarrow> list_all fine cs \<Longrightarrow> grown g (push_cells cs g')"
  by (auto simp: grown_def push_cells_def)

lemma grown_drop: "grown g (g\<lparr>r_it := drop k (r_it g)\<rparr>)"
  by (auto simp: grown_def retyped_refl)

lemma grown_scope: "scope (r_st g) \<le> k \<Longrightarrow> grown g (g\<lparr>r_st := (r_st g)\<lparr>scope := k\<rparr>\<rparr>)"
  by (auto simp: grown_def retyped_refl)

lemma nextNode_step:
  assumes "\<And>c. r_it g \<noteq> [] \<Longrightarrow> ensures (f c (g\<lparr>r_it := drop 1 (r_it g)\<rparr>)) Q"
  shows "ensures (rbind (nextNode g) (\<lambda>(c, g). f c g)) Q"
  using assms by (auto simp: nextNode_def split: list.splits)

lemma copyValue_step:
  assumes "fine c" and "\<And>v g'. r_it g \<noteq> [] \<Longrightarrow> r_st g' = r_st g \<Longrightarrow> length (r_it g') < length (r_it g) \<Longrightarrow> grown g g' \<Longrightarrow> ensures (f v g') Q"
  shows "ensures (rbind (copyValue c g) (\<lambda>(v, g). f v g)) Q"
  unfolding copyValue_def rbind_assoc
proof (subst prod.case_distrib [where h = "\<lambda>m. rbind m _"], rule nextNode_step)
  fix d assume ne: "r_it g \<noteq> []"
  show "ensures (rbind (rbind (cell_value d) (\<lambda>v. Inr (v, push_cells [c, d] (g\<lparr>r_it := drop 1 (r_it g)\<rparr>)))) (\<lambda>(v, g). f v g)) Q"
  proof (cases d rule: cell_value.cases)
    case (1 v)
    have "grown g (push_cells [c, d] (g\<lparr>r_it := drop 1 (r_it g)\<rparr>))"
      by (rule grown_push [OF grown_drop]) (simp add: assms(1) 1)
    then show ?thesis using assms(2) ne 1 by simp
  qed simp_all
qed

lemma apart_step:
  assumes "infer_ok env n rec" and "rinv env g" and "length (r_it g) < n"
    and "\<And>v ns g'. rinv env g' \<Longrightarrow> grown g g' \<Longrightarrow> r_new g' = r_new g \<Longrightarrow> list_all fine ns \<Longrightarrow> value_ok (r_st g') v \<Longrightarrow>
      length (r_it g') < n \<Longrightarrow> ensures (f v ns g') Q"
  shows "ensures (rbind (apart rec g) (\<lambda>(v, ns, g). f v ns g)) Q"
  unfolding apart_def rbind_assoc
proof (subst prod.case_distrib [where h = "\<lambda>m. rbind m _"], rule infer_step [OF assms(1)])
  fix v and g' :: rgen
  assume g': "rinv env g'" "grown (g\<lparr>r_new := []\<rparr>) g'" "value_ok (r_st g') v" "length (r_it g') < n"
  then have "grown g (g'\<lparr>r_new := r_new g\<rparr>)" "list_all fine (r_new g')" by (auto simp: grown_def)
  then show "ensures (rbind (Inr (v, r_new g', g'\<lparr>r_new := r_new g\<rparr>)) (\<lambda>(v, ns, g). f v ns g)) Q"
    using assms(4) g' by simp
qed (use assms(2,3) in simp_all)

text \<open>New types in the table.\<close>

definition with_types :: "types \<Rightarrow> rgen \<Rightarrow> rgen" where
  "with_types ts g = g\<lparr>r_st := (r_st g)\<lparr>types := ts\<rparr>\<rparr>"

lemma with_types_ok:
  assumes "rinv env g" and "types_ok ts" and "prefix (types (r_st g)) ts"
  shows "rinv env (with_types ts g)" and "grown g (with_types ts g)"
proof -
  have "vars_ok (r_st (with_types ts g)) = vars_ok (r_st g)" by (simp add: vars_ok_def with_types_def)
  moreover have "callbacks_ok env n \<Longrightarrow> n \<le> m \<Longrightarrow> callbacks_ok env m" for n m
    unfolding callbacks_ok_def using report_ok_mono by blast
  ultimately show "rinv env (with_types ts g)"
    using assms type_known_mono [OF _ assms(3)] prefix_length_le [OF assms(3)]
    by (auto simp: rinv_def with_types_def scopes_ok_def)
  show "grown g (with_types ts g)" using assms(3) by (simp add: grown_def with_types_def retyped_refl)
qed

lemma deref_known: "deref ts r = Inr c \<Longrightarrow> ref_ok (length ts) r"
  by (auto simp: deref_def ref_ok_def split: tref.splits if_splits)

lemma cup_type_step:
  assumes "types_ok ts" and "data_ok ts d"
    and "\<And>t ts'. types_ok ts' \<Longrightarrow> prefix ts ts' \<Longrightarrow> ref_ok (length ts') t \<Longrightarrow> ensures (f t ts') Q"
  shows "ensures (rbind (cup_type ts k sz d) (\<lambda>(t, ts). f t ts)) Q"
proof (rule ensures_bind_pairI)
  show "ensures (cup_type ts k sz d) (\<lambda>(t, ts'). types_ok ts' \<and> prefix ts ts' \<and> ref_ok (length ts') t)"
  proof (cases "cup_type ts k sz d")
    case (Inr x)
    obtain t ts' where x: "x = (t, ts')" by (cases x)
    from cup_type_ok [OF assms(1,2) Inr [unfolded x]] show ?thesis by (auto simp: Inr x intro: deref_known)
  qed (use cup_type_no_loop [OF assms(1,2), of k sz] in auto)
qed (use assms(3) in auto)

lemma run_reports_ok:
  assumes "types_ok ts" and "\<forall>r \<in> set rs. report_ok (length ts) r" and "value_ok (st\<lparr>types := ts\<rparr>) v"
  shows "ensures (run_reports rs v ts) (\<lambda>(v', ts'). types_ok ts' \<and> prefix ts ts' \<and> value_ok (st\<lparr>types := ts'\<rparr>) v')"
  using assms
proof (induction rs arbitrary: v ts)
  case (Cons r rs)
  show ?case
  proof (cases r)
    case (GCall a mx ss)
    show ?thesis
      unfolding GCall run_reports.simps cup_gen_call_def rbind_assoc
    proof (subst prod.case_distrib [where h = "\<lambda>m. rbind m _"], rule cup_type_step)
      show "data_ok ts (DSlots ss)" using Cons.prems GCall by (simp add: data_ok_def report_ok_def)
      fix t ts' assume t: "types_ok ts'" "prefix ts ts'" "ref_ok (length ts') t"
      have "\<forall>r \<in> set rs. report_ok (length ts') r"
        using Cons.prems(2) report_ok_mono prefix_length_le [OF t(2)] by fastforce
      then have "ensures (run_reports rs (CV_FUNCTION t (AtAddress a)) ts')
          (\<lambda>(v', ts''). types_ok ts'' \<and> prefix ts' ts'' \<and> value_ok (st\<lparr>types := ts''\<rparr>) v')"
        using t by (intro Cons.IH) (auto simp: value_ok_def)
      then have "ensures (run_reports rs (CV_FUNCTION t (AtAddress a)) ts')
          (\<lambda>(v', ts''). types_ok ts'' \<and> prefix ts ts'' \<and> value_ok (st\<lparr>types := ts''\<rparr>) v')"
        by (rule ensures_mono) (auto intro: prefix_order.trans [OF t(2)])
      then show "ensures (rbind (Inr (CV_FUNCTION t (AtAddress a), ts')) (\<lambda>(v, ts). run_reports rs v ts))
          (\<lambda>(v', ts''). types_ok ts'' \<and> prefix ts ts'' \<and> value_ok (st\<lparr>types := ts''\<rparr>) v')"
        by simp
    qed (use Cons.prems in simp)
  qed (use Cons in \<open>simp_all add: cup_gen_address_def cup_gen_value_def value_ok_def type_known_def report_ok_def\<close>)
qed simp

text \<open>The operations.\<close>

lemma deref_element:
  assumes "types_ok ts" and "deref ts r = Inr c" and "ct_body c = BArr e"
  shows "ref_ok (length ts) e"
proof (cases r)
  case (THeap i)
  with assms have "ctype_ok i c" "i < length ts" by (auto simp: deref_def types_ok_def split: if_splits)
  then have "ref_ok i e" using assms(3) by (auto simp: ctype_ok_def split: cup_kind.splits)
  then show ?thesis using \<open>i < length ts\<close> ref_ok_mono by fastforce
qed (use assms(2,3) in \<open>auto simp: deref_def base_type_def split: if_splits\<close>)

definition element_known :: "types \<Rightarrow> ctype option \<Rightarrow> bool" where
  "element_known ts c \<longleftrightarrow> (\<forall>x e. c = Some x \<longrightarrow> ct_body x = BArr e \<longrightarrow> ref_ok (length ts) e)"

lemma deref_ensures: "types_ok ts \<Longrightarrow> ensures (deref ts r) (\<lambda>c. element_known ts (Some c))"
  using deref_element [of ts r] by (auto simp: ensures_def element_known_def) (auto simp: deref_def split: tref.splits if_splits)

lemma var_ctype_ensures: "types_ok (types st) \<Longrightarrow> ensures (var_ctype st i) (element_known (types st))"
  by (auto simp: var_ctype_def element_known_def split: option.splits
      intro!: ensures_bindI [OF deref_ensures])

lemma rinv_types: "rinv env g \<Longrightarrow> types_ok (types (r_st g))"
  by (simp add: rinv_def)

lemma metaGen_ok:
  assumes "rinv env g"
  shows "ensures (metaGen env i c op g) (\<lambda>(_, v, g'). after env g (v, g') \<and> r_new g' = r_new g \<and> r_it g' = r_it g)"
proof (cases "ct_body c")
  case (BMeta k)
  obtain r reports where call: "re_gen env k op (var_value (vars (r_st g) ! i)) = (r, reports)" by fastforce
  then have "\<forall>x \<in> set reports. report_ok (length (types (r_st g))) x"
    using assms unfolding rinv_def callbacks_ok_def by (metis snd_conv)
  from run_reports_ok [OF rinv_types [OF assms] this, of "r_st g" CV_ERROR]
  have ran: "ensures (run_reports reports CV_ERROR (types (r_st g)))
      (\<lambda>(v', ts'). types_ok ts' \<and> prefix (types (r_st g)) ts' \<and> value_ok ((r_st g)\<lparr>types := ts'\<rparr>) v')"
    by (simp add: value_ok_def)
  have "ensures (rbind (run_reports reports CV_ERROR (types (r_st g))) (\<lambda>(v, ts). Inr (r, v, with_types ts g)))
      (\<lambda>(_, v, g'). after env g (v, g') \<and> r_new g' = r_new g \<and> r_it g' = r_it g)"
    by (rule ensures_bind_pairI [OF ran])
      (use with_types_ok [OF assms] in \<open>auto simp: value_ok_def with_types_def intro!: afterI\<close>)
  then show ?thesis by (simp add: metaGen_def BMeta call with_types_def)
qed (simp_all add: metaGen_def)

lemma metaApply_ok:
  assumes "rinv env g"
  shows "ensures (metaApply env i c op g) (\<lambda>(v, g'). after env g (v, g') \<and> r_new g' = r_new g \<and> r_it g' = r_it g)"
  unfolding metaApply_def
  by (rule ensures_bindI [OF metaGen_ok [OF assms]]) (auto simp: after_def value_ok_def)

lemma retoken_fine [simp]: "fine (retoken c t) = resolved_token t"
  by (cases c) (auto simp: fine_def)

lemma after_push:
  assumes "after env g (v, g')" and "list_all fine cs"
  shows "after env g (v, push_cells cs g')"
  using assms by (auto simp: after_def intro: grown_push)

lemma after_error_of: "after env g (v, g') \<Longrightarrow> after env g (CV_ERROR, g')"
  by (simp add: after_def value_ok_def)

lemma dot_member_ok:
  assumes "rinv env g"
  shows "ensures (dot_member env c i name g) (after env g)"
  unfolding dot_member_def
proof (rule ensures_bindI [OF var_ctype_ensures [OF rinv_types [OF assms]]])
  fix t
  have "ensures (rbind (metaApply env i x (CUP_MOP_MEMBER name) g) (\<lambda>(v, g).
             case v of
               CV_VALUE _ x \<Rightarrow> Inr (v, pushNumber c x g)
             | CV_ADDRESS _ p \<Rightarrow> Inr (v, pushAddress c (case p of None \<Rightarrow> 0 | Some a \<Rightarrow> a) g)
             | _ \<Rightarrow> Inr (CV_ERROR, g))) (after env g)" for x
    by (rule ensures_bindI [OF metaApply_ok [OF assms]])
      (auto simp: pushNumber_def pushAddress_def pushNode2_def resolved_token_def
        split: cupvalue.splits intro!: after_push intro: after_error_of)
  then show "ensures (case t of
         None \<Rightarrow> Inr (CV_ERROR, g)
       | Some y \<Rightarrow>
           if ct_kind y \<noteq> CUP_TYPE_META then Inr (CV_ERROR, g)
           else rbind (metaApply env i y (CUP_MOP_MEMBER name) g) (\<lambda>(v, g).
             case v of
               CV_VALUE _ x \<Rightarrow> Inr (v, pushNumber c x g)
             | CV_ADDRESS _ p \<Rightarrow> Inr (v, pushAddress c (case p of None \<Rightarrow> 0 | Some a \<Rightarrow> a) g)
             | _ \<Rightarrow> Inr (CV_ERROR, g))) (after env g)"
    using after_error [OF assms grown_refl] by (simp split: option.split)
qed

lemma cell_token_step: "(\<And>t. cell_token c = Inr t \<Longrightarrow> ensures (f t) Q) \<Longrightarrow> ensures (rbind (cell_token c) f) Q"
  by (cases c) auto

lemma cell_name_step: "(\<And>s. c = CPay (PStr s) \<Longrightarrow> ensures (f s) Q) \<Longrightarrow> ensures (rbind (cell_name c) f) Q"
  by (cases c rule: cell_name.cases) auto

lemma ensures_after: "grown g g1 \<Longrightarrow> ensures r (after env g1) \<Longrightarrow> ensures r (after env g)"
  by (erule ensures_mono) (rule after_trans)

lemma dot_ok:
  assumes "infer_ok env n rec" and "rinv env g" and "length (r_it g) < n"
  shows "ensures (dot rec env c g) (after env g)"
  unfolding dot_def
proof (rule apart_step [OF assms])
  fix left and ns :: "cell list" and g1 assume g1: "rinv env g1" "grown g g1"
  show "ensures (rbind (nextNode g1) (\<lambda>(c', g).
     rbind (cell_token c') (\<lambda>t.
       if t \<noteq> N_VARIABLE then Inr (CV_ERROR, g)
       else
         rbind (nextNode g) (\<lambda>(d, g).
         rbind (cell_name d) (\<lambda>name.
           case left of
             CV_VARIABLE (Some i) \<Rightarrow> dot_member env c i name g
           | CV_FUNCTION _ _ \<Rightarrow> Inl Undef
           | _ \<Rightarrow> Inr (CV_ERROR, g)))))) (after env g)"
  proof (rule nextNode_step, rule cell_token_step)
    fix c' t
    let ?g2 = "g1\<lparr>r_it := drop 1 (r_it g1)\<rparr>" let ?g3 = "?g2\<lparr>r_it := drop 1 (r_it ?g2)\<rparr>"
    have g2: "rinv env ?g2" "grown g ?g2" using g1 grown_trans [OF g1(2) grown_drop] by auto
    have g3: "rinv env ?g3" "grown g ?g3" using g2 grown_trans [OF g2(2) grown_drop] by auto
    have member: "ensures (dot_member env c i name ?g3) (after env g)" for i name
      by (rule ensures_after [OF g3(2) dot_member_ok [OF g3(1)]])
    have "ensures (rbind (nextNode ?g2) (\<lambda>(d, g).
         rbind (cell_name d) (\<lambda>name.
           case left of
             CV_VARIABLE (Some i) \<Rightarrow> dot_member env c i name g
           | CV_FUNCTION _ _ \<Rightarrow> Inl Undef
           | _ \<Rightarrow> Inr (CV_ERROR, g)))) (after env g)"
      by (rule nextNode_step, rule cell_name_step)
        (use member after_error [OF g3] in \<open>simp split: cupvalue.split option.split\<close>)
    then show "ensures (if t \<noteq> N_VARIABLE then Inr (CV_ERROR, ?g2)
       else
         rbind (nextNode ?g2) (\<lambda>(d, g).
         rbind (cell_name d) (\<lambda>name.
           case left of
             CV_VARIABLE (Some i) \<Rightarrow> dot_member env c i name g
           | CV_FUNCTION _ _ \<Rightarrow> Inl Undef
           | _ \<Rightarrow> Inr (CV_ERROR, g)))) (after env g)"
      using after_error [OF g2] by simp
  qed
qed

lemma call_meta_ok:
  assumes "rinv env g" and "list_all fine ns" and "fine c"
  shows "ensures (call_meta env c i y args ns g) (after env g)"
  unfolding call_meta_def
proof (rule ensures_bindI [OF metaGen_ok [OF assms(1)]], clarify)
  fix r v g1 assume g1: "after env g (v, g1)"
  have callee: "after env g (CV_FUNCTION t (AtNode k), push_cells ns (pushNumber c a (push_cells [c] g1)))"
    if "v = CV_FUNCTION t w" for t w k a
    using g1 that assms(2,3)
    by (auto simp: after_def value_ok_def pushNumber_def pushNode2_def resolved_token_def intro!: grown_push)
  have val: "after env g (v, pushNumber c x g1)" for x
    using g1 by (auto simp: pushNumber_def pushNode2_def resolved_token_def intro!: after_push)
  show "ensures (case r of
         CUP_GEN_ERROR \<Rightarrow> Inr (CV_ERROR, g1)
       | CUP_GEN_CONTINUE \<Rightarrow> Inl Abort
       | CUP_GEN_DONE \<Rightarrow>
           (case v of
              CV_FUNCTION t (AtAddress a) \<Rightarrow>
                (let g = push_cells ns (pushNumber c a (push_cells [c] g1))
                 in Inr (CV_FUNCTION t (AtNode (length (r_new g) - 1)), g))
            | CV_VALUE _ x \<Rightarrow> Inr (v, pushNumber c x g1)
            | _ \<Rightarrow> Inl Abort)) (after env g)"
    using callee val after_error_of [OF g1]
    by (auto simp: Let_def split: gen_result.split cupvalue.split callee_value.split)
qed

lemma call_ok:
  assumes "infer_ok env n rec" and "rinv env g" and "length (r_it g) < n" and "fine c"
  shows "ensures (call rec env c g) (after env g)"
  unfolding call_def
proof (rule apart_step [OF assms(1-3)], rule apart_step [OF assms(1)])
  fix left right and ns ns' :: "cell list" and g1 g2
  assume g1: "grown g g1" and g2: "rinv env g2" "grown g1 g2" "list_all fine ns'"
  have g: "grown g g2" by (rule grown_trans [OF g1 g2(2)])
  have var: "ensures (call_variable env c i right ns' g2) (after env g)" for i
    unfolding call_variable_def
    by (rule ensures_bindI [OF var_ctype_ensures [OF rinv_types [OF g2(1)]]])
      (use ensures_after [OF g call_meta_ok [OF g2(1,3) assms(4)]] after_error [OF g2(1) g]
        in \<open>simp split: option.split cupvalue.split\<close>)
  show "ensures (case left of
         CV_LIST _ \<Rightarrow> Inr (CV_ERROR, g2)
       | CV_VALUE _ _ \<Rightarrow> Inr (CV_ERROR, g2)
       | CV_VARIABLE (Some i) \<Rightarrow> call_variable env c i right ns' g2
       | CV_VARIABLE None \<Rightarrow> Inl Undef
       | CV_FUNCTION _ _ \<Rightarrow> Inl Undef
       | _ \<Rightarrow> Inl Abort) (after env g)"
    using var after_error [OF g2(1) g] by (simp split: cupvalue.split option.split)
qed

lemma osb_array_ok:
  assumes "element_known (types st) c"
  shows "ensures (osb_array c base right) (value_ok st)"
  using assms
  by (auto simp: osb_array_def element_known_def value_ok_def type_known_def split: option.split tbody.split cupvalue.split)

lemma osb_meta_ok:
  assumes "rinv env g" and "grown g0 (g\<lparr>r_new := take mark (r_new g)\<rparr>)" and "grown g0 g"
  shows "ensures (osb_meta env c mark i y right g) (after env g0)"
  unfolding osb_meta_def
proof (rule ensures_bindI [OF metaApply_ok [OF assms(1)]], clarify)
  fix v g1 assume g1: "after env g (v, g1)" "r_new g1 = r_new g" "r_it g1 = r_it g"
  let ?cut = "g1\<lparr>r_new := take mark (r_new g1)\<rparr>"
  have "grown (g\<lparr>r_new := take mark (r_new g)\<rparr>) ?cut" using g1 by (auto simp: after_def grown_def)
  then have cut: "after env g0 (v, ?cut)" using g1 grown_trans [OF assms(2)] by (auto simp: after_def)
  have "after env g0 (v, g1)" by (rule after_trans [OF assms(3) g1(1)])
  with after_push [OF cut] have "after env g0 (osb_result c mark v g1)"
    by (auto simp: osb_result_def Let_def pushNumber_def pushAddress_def pushNode2_def resolved_token_def
        split: cupvalue.split intro: after_error_of)
  then show "ensures (Inr (osb_result c mark v g1)) (after env g0)" by simp
qed

lemma osb_ok:
  assumes "infer_ok env n rec" and "rinv env g" and "length (r_it g) < n" and "fine c"
  shows "ensures (osb rec env c (push_cells [c] g)) (after env g)"
  unfolding osb_def Let_def
proof (rule infer_step [OF assms(1)], rule infer_step [OF assms(1)])
  fix left right g1 g2
  assume g1: "grown (push_cells [c] g) g1" and g2: "rinv env g2" "grown g1 g2"
  have pushed: "grown (push_cells [c] g) g2" by (rule grown_trans [OF g1 g2(2)])
  have g: "grown g g2" using grown_trans [OF grown_push [OF grown_refl] pushed] assms(4) by simp
  let ?mark = "length (r_new (push_cells [c] g)) - 1"
  have cut: "grown g (g2\<lparr>r_new := take ?mark (r_new g2)\<rparr>)"
    using pushed by (auto simp: grown_def)
  have array: "ensures (rbind (osb_array x base right) (\<lambda>v. Inr (v, g2))) (after env g)"
    if "element_known (types (r_st g2)) x" for x base
    by (rule ensures_bindI [OF osb_array_ok [OF that]]) (use g g2 in \<open>simp add: afterI\<close>)
  have var: "ensures (rbind (var_ctype (r_st g2) i) (\<lambda>y.
                 if map_option ct_kind y = Some CUP_TYPE_META then osb_meta env c ?mark i (the y) right g2
                 else rbind (osb_array y (var_value (vars (r_st g2) ! i)) right) (\<lambda>v. Inr (v, g2)))) (after env g)" for i
    by (rule ensures_bindI [OF var_ctype_ensures [OF rinv_types [OF g2(1)]]])
      (use array osb_meta_ok [OF g2(1) cut g] in simp)
  have adr: "ensures (rbind (case t of None \<Rightarrow> Inr None | Some r \<Rightarrow> rbind (deref (types (r_st g2)) r) (\<lambda>c. Inr (Some c))) (\<lambda>y.
               rbind (osb_array y (re_mem env (r_st g2) p) right) (\<lambda>v. Inr (v, g2)))) (after env g)" for t p
  proof (rule ensures_bindI)
    show "ensures (case t of None \<Rightarrow> Inr None | Some r \<Rightarrow> rbind (deref (types (r_st g2)) r) (\<lambda>c. Inr (Some c)))
        (element_known (types (r_st g2)))"
      by (auto simp: element_known_def split: option.split intro!: ensures_bindI [OF deref_ensures [OF rinv_types [OF g2(1)]]])
  qed (use array in simp)
  show "ensures (case left of
             CV_VARIABLE (Some i) \<Rightarrow>
               rbind (var_ctype (r_st g2) i) (\<lambda>y.
                 if map_option ct_kind y = Some CUP_TYPE_META then osb_meta env c ?mark i (the y) right g2
                 else rbind (osb_array y (var_value (vars (r_st g2) ! i)) right) (\<lambda>v. Inr (v, g2)))
           | CV_FUNCTION _ _ \<Rightarrow> Inl Undef
           | CV_ADDRESS t (Some p) \<Rightarrow>
               rbind (case t of None \<Rightarrow> Inr None | Some r \<Rightarrow> rbind (deref (types (r_st g2)) r) (\<lambda>c. Inr (Some c))) (\<lambda>y.
               rbind (osb_array y (re_mem env (r_st g2) p) right) (\<lambda>v. Inr (v, g2)))
           | _ \<Rightarrow> Inr (CV_ERROR, g2)) (after env g)"
    using var adr [of None] adr [of "Some r" for r] after_error [OF g2(1) g] by (simp split: cupvalue.split option.split)
qed (use assms in auto)

lemma grown_pushed: "fine c \<Longrightarrow> grown (push_cells [c] g) g' \<Longrightarrow> grown g g'"
  using grown_trans [OF grown_push [OF grown_refl, of "[c]"]] by simp

lemma at_ok:
  assumes "infer_ok env n rec" and "rinv env g" and "length (r_it g) < n" and "fine c"
  shows "ensures (at rec (push_cells [c] g)) (after env g)"
  unfolding at_def
proof (rule infer_step [OF assms(1)])
  fix left g1 assume g1: "rinv env g1" "grown (push_cells [c] g) g1" "value_ok (r_st g1) left" "length (r_it g1) < n"
  let ?g1 = "g1\<lparr>r_st := (r_st g1)\<lparr>scope := Suc (scope (r_st g1))\<rparr>\<rparr>"
  have up: "grown g1 ?g1" by (rule grown_scope) simp
  show "ensures (rbind (rec False False ?g1) (\<lambda>(_, g). rbind (rec True False g) (\<lambda>(_, g). Inr (left, g)))) (after env g)"
  proof (rule infer_step [OF assms(1)], rule infer_step [OF assms(1)])
    fix x y g2 g3 assume g2: "grown ?g1 g2" and g3: "rinv env g3" "grown g2 g3"
    have "grown g1 g3" by (rule grown_trans [OF up grown_trans [OF g2 g3(2)]])
    then show "ensures (Inr (left, g3)) (after env g)"
      using g1 g3 grown_pushed [OF assms(4) grown_trans [OF g1(2)]] value_ok_grown [of g1 left g3] by (simp add: afterI)
  qed (use g1 in simp_all)
qed (use assms in simp_all)

lemma set_var_type_ok:
  assumes "rinv env g" and "i < length (vars (r_st g))" and "type_known (types (r_st g)) t"
    and "var_type (vars (r_st g) ! i) = None \<or> var_type (vars (r_st g) ! i) = t"
  shows "rinv env (g\<lparr>r_st := set_var_type i t (r_st g)\<rparr>)" and "grown g (g\<lparr>r_st := set_var_type i t (r_st g)\<rparr>)"
proof -
  let ?st = "r_st g" and ?st' = "set_var_type i t (r_st g)"
  have "keeps_type v (v\<lparr>var_type := t\<rparr>)" if "var_type v = None \<or> var_type v = t" for v :: cvar
    using that by (auto simp: keeps_type_def)
  from this [OF assms(4)] have here: "keeps_type (vars ?st ! i) ((vars ?st ! i)\<lparr>var_type := t\<rparr>)" .
  have "keeps_type (vars ?st ! k) (vars ?st' ! k)" if "k < length (vars ?st)" for k
  proof (cases "k = i")
    case True
    have "vars ?st' ! i = (vars ?st ! i)\<lparr>var_type := t\<rparr>" using assms(2) by (simp add: set_var_type_def)
    with here True show ?thesis by argo
  next
    case False
    then show ?thesis by (simp add: set_var_type_def keeps_type_def)
  qed
  then have re: "retyped (vars ?st) (vars ?st')"
    by (simp add: retyped_def list_all2_conv_all_nth set_var_type_def)
  have "vars_ok ?st" using assms(1) by (simp add: rinv_def)
  then have "vars_ok ?st'" using re by (rule vars_ok_retyped) (simp_all add: set_var_type_def)
  moreover have "\<forall>v \<in> set (vars ?st'). type_known (types ?st) (var_type v)"
    using assms(1,3) set_update_subset_insert [of "vars ?st" i "(vars ?st ! i)\<lparr>var_type := t\<rparr>"]
    unfolding rinv_def set_var_type_def by auto
  ultimately show "rinv env (g\<lparr>r_st := ?st'\<rparr>)"
    using assms(1) by (simp add: rinv_def set_var_type_def scopes_ok_def)
  show "grown g (g\<lparr>r_st := ?st'\<rparr>)"
    using re by (auto simp: grown_def set_var_type_def)
qed

lemma eq_assign_ok:
  assumes "rinv env g" and "value_ok (r_st g) left" and "value_ok (r_st g) right" and "type_known (types (r_st g)) t"
  shows "ensures (eq_assign left right t g) (after env g)"
proof (cases left)
  case (CV_VARIABLE i)
  show ?thesis
  proof (cases i)
    case (Some k)
    then have "k < length (vars (r_st g))" using assms(2) CV_VARIABLE by (simp add: value_ok_def)
    note set = set_var_type_ok [OF assms(1) this assms(4)]
    have "value_ok (set_var_type k t (r_st g)) right"
      by (rule value_ok_mono [OF assms(3)]) (simp_all add: set_var_type_def)
    then show ?thesis
      using set afterI [OF assms(1) grown_refl assms(3)] after_error [OF assms(1) grown_refl]
      by (auto simp: eq_assign_def CV_VARIABLE Some Let_def intro!: afterI)
  qed (simp add: eq_assign_def CV_VARIABLE)
qed (use afterI [OF assms(1) grown_refl assms(3)] after_error [OF assms(1) grown_refl] in \<open>auto simp: eq_assign_def\<close>)

lemma eq_type_ensures:
  assumes "rinv env g" and "value_ok (r_st g) v"
  shows "ensures (eq_type (r_st g) v) (\<lambda>x. \<forall>t. x = Some t \<longrightarrow> type_known (types (r_st g)) t)"
  using assms by (auto simp: eq_type_def value_ok_def rinv_def split: cupvalue.split option.split)

lemma eq_ok:
  assumes "infer_ok env n rec" and "rinv env g" and "length (r_it g) < n" and "fine c"
  shows "ensures (eq rec (push_cells [c] g)) (after env g)"
  unfolding eq_def
proof (rule infer_step [OF assms(1)], rule infer_step [OF assms(1)])
  fix right left g1 g2
  assume g1: "grown (push_cells [c] g) g1" "value_ok (r_st g1) right"
    and g2: "rinv env g2" "grown g1 g2" "value_ok (r_st g2) left"
  have g: "grown g g2" using grown_pushed [OF assms(4) grown_trans [OF g1(1) g2(2)]] .
  have right: "value_ok (r_st g2) right" by (rule value_ok_grown [OF g1(2) g2(2)])
  show "ensures (rbind (eq_type (r_st g2) right) (\<lambda>x.
       case x of None \<Rightarrow> Inr (CV_ERROR, g2) | Some t \<Rightarrow> eq_assign left right t g2)) (after env g)"
    by (rule ensures_bindI [OF eq_type_ensures [OF g2(1) right]])
      (use ensures_after [OF g eq_assign_ok [OF g2(1,3) right]] after_error [OF g2(1) g] in \<open>auto split: option.split\<close>)
qed (use assms in auto)

lemma item_value_ok:
  assumes "rinv env g" and "value_ok (r_st g) item"
  shows "ensures (item_value env (r_st g) item) (\<lambda>x. \<forall>y. x = Some y \<longrightarrow> type_known (types (r_st g)) (fst y))"
proof (cases item)
  case (CV_VALUE t x)
  then show ?thesis using assms by (cases t) (auto simp: item_value_def value_ok_def type_known_def)
next
  case (CV_ADDRESS t p)
  then show ?thesis using assms by (cases t) (auto simp: item_value_def value_ok_def type_known_def)
next
  case (CV_VARIABLE i)
  then show ?thesis using assms by (cases i) (auto simp: item_value_def value_ok_def rinv_def)
qed (simp_all add: item_value_def)

definition items_after :: "renv \<Rightarrow> rgen \<Rightarrow> (tref option \<times> u64) list option \<times> rgen \<Rightarrow> bool" where
  "items_after env g x \<longleftrightarrow> (case x of (xs, g') \<Rightarrow> rinv env g' \<and> grown g g' \<and>
     (\<forall>ys. xs = Some ys \<longrightarrow> (\<forall>y \<in> set ys. type_known (types (r_st g')) (fst y))))"

lemma items_ok:
  assumes "infer_ok env n rec"
  shows "rinv env g \<Longrightarrow> length (r_it g) < k \<Longrightarrow> k \<le> n \<Longrightarrow> ensures (items k rec env rt j count g) (items_after env g)"
proof (induction k arbitrary: j g)
  case (Suc k)
  show ?case
  proof (cases "j < count")
    case True
    have "ensures (rbind (rec rt False g) (\<lambda>(item, g).
        rbind (item_value env (r_st g) item) (\<lambda>x.
          case x of
            None \<Rightarrow> Inr (None, g)
          | Some x \<Rightarrow> rbind (items k rec env rt (j + 1) count g) (\<lambda>(xs, g). Inr (map_option (Cons x) xs, g))))) (items_after env g)"
    proof (rule infer_step [OF assms])
      fix item g1 assume g1: "rinv env g1" "grown g g1" "value_ok (r_st g1) item" "length (r_it g1) < length (r_it g)"
      show "ensures (rbind (item_value env (r_st g1) item) (\<lambda>x.
          case x of
            None \<Rightarrow> Inr (None, g1)
          | Some x \<Rightarrow> rbind (items k rec env rt (j + 1) count g1) (\<lambda>(xs, g). Inr (map_option (Cons x) xs, g)))) (items_after env g)"
      proof (rule ensures_bindI [OF item_value_ok [OF g1(1,3)]])
        fix x :: "(tref option \<times> u64) option"
        assume x: "\<forall>y. x = Some y \<longrightarrow> type_known (types (r_st g1)) (fst y)"
        have "ensures (rbind (items k rec env rt (j + 1) count g1) (\<lambda>(xs, g). Inr (map_option (Cons y) xs, g))) (items_after env g)"
          if y: "x = Some y" for y
        proof (rule ensures_bindI)
          show "ensures (items k rec env rt (j + 1) count g1) (items_after env g1)"
            using Suc.prems g1 by (intro Suc.IH) auto
          fix z assume z: "items_after env g1 z"
          obtain ys g2 where z': "z = (ys, g2)" by (cases z)
          have "type_known (types (r_st g2)) (fst y)"
            using x y z type_known_mono [of "types (r_st g1)" "fst y"] by (auto simp: z' items_after_def grown_def)
          then show "ensures (case z of (xs, g) \<Rightarrow> Inr (map_option (Cons y) xs, g)) (items_after env g)"
            using z grown_trans [OF g1(2)] by (cases ys) (simp_all add: z' items_after_def)
        qed
        then show "ensures (case x of
            None \<Rightarrow> Inr (None, g1)
          | Some x \<Rightarrow> rbind (items k rec env rt (j + 1) count g1) (\<lambda>(xs, g). Inr (map_option (Cons x) xs, g))) (items_after env g)"
          using g1 by (cases x) (simp_all add: items_after_def)
      qed
    qed (use Suc.prems in simp_all)
    with True show ?thesis by simp
  qed (use Suc.prems in \<open>simp add: items_after_def grown_refl\<close>)
qed simp

lemma defFor_ok:
  assumes "infer_ok env n rec" and "rinv env g" and "length (r_it g) < n" and "f \<in> {fnblock, fncomma, fnarray}"
  shows "ensures (defFor n rec env rt count f g) (after env g)"
  unfolding defFor_def
proof (rule ensures_bindI [OF items_ok [OF assms(1-3) order_refl]])
  fix x assume x: "items_after env g x"
  obtain xs g1 where x': "x = (xs, g1)" by (cases x)
  have "value_ok (r_st g1) (f ys)" if "xs = Some ys" for ys
    using x that assms(4)
    by (auto simp: x' items_after_def value_ok_def fnblock_def fncomma_def fnarray_def type_known_def ref_ok_def is_basic_def)
  then show "ensures (case x of (xs, g) \<Rightarrow> Inr (case xs of None \<Rightarrow> CV_ERROR | Some xs \<Rightarrow> f xs, g)) (after env g)"
    using x by (cases xs) (auto simp: x' items_after_def value_ok_def after_def)
qed

lemma array_value_ok:
  assumes "rinv env g" and "data_ok (types (r_st g)) d"
  shows "ensures (array_value count d a g) (after env g)"
proof (cases "count < UINT16_MAX")
  case True
  have "ensures (rbind (cup_type (types (r_st g)) CUP_TYPE_ARRAY (of_nat count) d) (\<lambda>(t, ts).
       Inr (CV_VALUE (Some t) a, with_types ts g))) (after env g)"
    by (rule cup_type_step [OF rinv_types [OF assms(1)] assms(2)])
      (use with_types_ok [OF assms(1)] in \<open>auto simp: value_ok_def type_known_def with_types_def intro!: afterI\<close>)
  with True show ?thesis by (simp add: array_value_def with_types_def)
qed (simp add: array_value_def)

lemma infer_array_ok:
  assumes "infer_ok env n rec" and "rinv env g" and "length (r_it g) < n" and "fine c"
  shows "ensures (infer_array rec env c g) (after env g)"
  unfolding infer_array_def Let_def
proof (rule copyValue_step [OF assms(4)], rule infer_step [OF assms(1)])
  fix i v g1 g2 assume g1: "grown g g1" and g2: "rinv env g2" "grown g1 g2" "value_ok (r_st g2) v"
  have "ensures (array_value (length xs) (case xs of (Some t, _) # _ \<Rightarrow> DType t | _ \<Rightarrow> DNull) a g2) (after env g)"
    if "v = CV_LIST xs" for xs a
    by (rule ensures_after [OF grown_trans [OF g1 g2(2)] array_value_ok [OF g2(1)]])
      (use g2(3) that in \<open>auto simp: data_ok_def value_ok_def type_known_def split: list.splits option.splits\<close>)
  then show "ensures (case v of
            CV_LIST xs \<Rightarrow>
              array_value (length xs) (case xs of (Some t, _) # _ \<Rightarrow> DType t | _ \<Rightarrow> DNull) (data_at env (r_st g1) i) g2
          | _ \<Rightarrow> Inl Abort) (after env g)"
    by (simp split: cupvalue.split)
qed (use assms(2,3) in \<open>auto simp: rinv_def\<close>)

lemma infer_string_ok:
  assumes "rinv env g" and "fine c"
  shows "ensures (infer_string env c g) (after env g)"
  unfolding infer_string_def
proof (rule copyValue_step [OF assms(2)])
  fix i g1 assume g1: "r_st g1 = r_st g" "grown g g1"
  have "ensures (array_value k (DType (TBase CUP_TYPE_UINT8)) a g1) (after env g)" for k a
    by (rule ensures_after [OF g1(2) array_value_ok])
      (use assms(1) g1(1) in \<open>auto simp: rinv_def data_ok_def ref_ok_def is_basic_def\<close>)
  then show "ensures (case getData (data_sec (r_st g1)) i of
         None \<Rightarrow> Inl Undef
       | Some s \<Rightarrow>
           if NUL \<notin> set s then Inl Undef
           else array_value (length (takeWhile (\<lambda>x. x \<noteq> NUL) s) + 1) (DType (TBase CUP_TYPE_UINT8)) (data_at env (r_st g1) i) g1) (after env g)"
    by (simp split: option.split)
qed

lemma lookup_known:
  assumes "rinv env g"
  shows "ensures (varLookup (r_st g) name sc) (\<lambda>v. value_ok (r_st g) (CV_VARIABLE v))"
proof -
  have "vars_ok ((r_st g)\<lparr>scope := 0\<rparr>)" "scopes_ok ((r_st g)\<lparr>scope := 0\<rparr>)"
    using assms by (simp_all add: rinv_def vars_ok_def)
  from varLookup_any [OF this, of name sc] show ?thesis by (simp add: varLookup_scope value_ok_def)
qed

lemma infer_variable_ok:
  assumes "rinv env g" and "fine c"
  shows "ensures (infer_variable c g) (after env g)"
  unfolding infer_variable_def
proof (rule nextNode_step, rule cell_name_step)
  fix d name assume d: "d = CPay (PStr name)"
  let ?g1 = "g\<lparr>r_it := drop 1 (r_it g)\<rparr>"
  have "rinv env ?g1" using assms(1) by simp
  from lookup_known [OF this] show "ensures (rbind (varLookup (r_st ?g1) name (scope (r_st ?g1))) (\<lambda>v. Inr (CV_VARIABLE v, push_cells [c, d] ?g1))) (after env g)"
    by (rule ensures_bindI) (use assms d in \<open>auto intro!: afterI grown_push grown_drop\<close>)
qed


lemma infer_this_ok:
  assumes "rinv env g" and "fine c"
  shows "ensures (infer_this c g) (after env g)"
  unfolding infer_this_def
  by (rule ensures_bindI [OF lookup_known [OF assms(1)]])
    (use assms in \<open>auto split: option.split intro!: afterI after_error grown_push grown_refl\<close>)

lemma infer_return_ok:
  assumes "infer_ok env n rec" and "rinv env g" and "length (r_it g) < n" and "fine c"
  shows "ensures (infer_return rec rt (push_cells [c] g)) (after env g)"
  unfolding infer_return_def
proof (rule infer_step [OF assms(1)])
  fix v g1 assume "rinv env g1" "grown (push_cells [c] g) g1"
  then have "after env g (CV_ANY (Some void_ref), g1)"
    using grown_pushed [OF assms(4)] by (simp add: after_def value_ok_def type_known_def ref_ok_def is_basic_def)
  then show "ensures (case v of
         CV_VALUE t _ \<Rightarrow>
           if t = Some void_ref then Inl Abort
           else if \<not> rt then Inl Abort
           else Inr (CV_ANY (Some void_ref), g1)
       | _ \<Rightarrow> Inl Abort) (after env g)"
    by (simp split: cupvalue.split)
qed (use assms in simp_all)

lemma infer_node_ok:
  assumes "infer_ok env n rec" and "rinv env g" and "length (r_it g) < n" and "cell_token c = Inr t"
  shows "ensures (infer_node n rec env rt arr c t g) (after env g)"
proof -
  have fine: "fine c" if "resolved_token t" using that assms(4) by (cases c) (auto simp: fine_def)
  let ?g1 = "g\<lparr>r_st := (r_st g)\<lparr>scope := Suc (scope (r_st g))\<rparr>\<rparr>"
  have list: "ensures (rbind (copyValue c g1) (\<lambda>(count, g). defFor n rec env rt count f g)) (after env g)"
    if "fine c" "f \<in> {fnblock, fncomma, fnarray}" "rinv env g1" "grown g g1" "r_it g1 = r_it g" for f g1
  proof (rule copyValue_step [OF that(1)])
    fix v g2 assume g2: "r_st g2 = r_st g1" "length (r_it g2) < length (r_it g1)" "grown g1 g2"
    have "ensures (defFor n rec env rt v f g2) (after env g2)"
      by (rule defFor_ok [OF assms(1) _ _ that(2)]) (use assms(3) that g2 in \<open>auto simp: rinv_def\<close>)
    then show "ensures (defFor n rec env rt v f g2) (after env g)"
      by (rule ensures_after [OF grown_trans [OF that(4) g2(3)]])
  qed
  have number: "ensures (rbind (copyValue c g) (\<lambda>(v, g). Inr (CV_VALUE (Some (TBase CUP_TYPE_INT)) v, g))) (after env g)"
    if "fine c"
    by (rule copyValue_step [OF that])
      (use assms(2) in \<open>auto simp: rinv_def value_ok_def type_known_def ref_ok_def is_basic_def intro!: afterI\<close>)
  have up: "rinv env ?g1" "grown g ?g1" "r_it ?g1 = r_it g" using assms(2) by (simp_all add: grown_scope)
  show ?thesis
    unfolding infer_node_def
    using fine list [OF _ _ up] list [OF _ _ assms(2) grown_refl refl] number after_error [OF assms(2) grown_refl]
      infer_array_ok [OF assms(1-3)] infer_string_ok [OF assms(2)] infer_this_ok [OF assms(2)] infer_variable_ok [OF assms(2)]
      dot_ok [OF assms(1-3)] eq_ok [OF assms(1-3)] call_ok [OF assms(1-3)] osb_ok [OF assms(1-3)] at_ok [OF assms(1-3)]
      infer_return_ok [OF assms(1-3)]
    by (simp add: resolved_token_def)
qed

lemma inferTypes_ok: "infer_ok env n (inferTypes n env)"
proof (induction n)
  case (Suc n)
  show ?case
    unfolding infer_ok_def
  proof (intro allI impI)
    fix rt arr and g :: rgen assume g: "rinv env g" "length (r_it g) < Suc n"
    show "ensures (inferTypes (Suc n) env rt arr g) (\<lambda>x. after env g x \<and> length (r_it (snd x)) < length (r_it g))"
      unfolding inferTypes.simps
    proof (rule nextNode_step, rule cell_token_step)
      fix c t assume ne: "r_it g \<noteq> []" and t: "cell_token c = Inr t"
      let ?g1 = "g\<lparr>r_it := drop 1 (r_it g)\<rparr>"
      have g1: "rinv env ?g1" "length (r_it ?g1) < n" "length (r_it ?g1) < length (r_it g)"
        using g ne by (auto simp: Suc_less_eq2 neq_Nil_conv)
      show "ensures (infer_node n (inferTypes n env) env rt arr c t ?g1) (\<lambda>x. after env g x \<and> length (r_it (snd x)) < length (r_it g))"
        by (rule ensures_mono [OF infer_node_ok [OF Suc.IH g1(1,2) t]])
          (use g1(3) grown_trans [OF grown_drop [of g 1]] in \<open>auto simp: after_def dest: grown_it\<close>)
    qed
  qed
qed (simp add: infer_ok_def)

section \<open>Copying\<close>

text \<open>
  What happens to nodes without member access, calls and function definitions when no type of the
  table is a meta type: they are copied.
\<close>

definition plain_nodes :: "cell list \<Rightarrow> bool" where
  "plain_nodes cs \<longleftrightarrow> list_all (\<lambda>c. cell_token c \<notin> {Inr T_DOT, Inr T_CALL, Inr T_AT}) cs"

definition no_meta :: "types \<Rightarrow> bool" where
  "no_meta ts \<longleftrightarrow> list_all (\<lambda>c. ct_kind c \<noteq> CUP_TYPE_META) ts"

definition copied :: "rgen \<Rightarrow> rgen \<Rightarrow> bool" where
  "copied g g' \<longleftrightarrow> (\<exists>cs. r_it g = cs @ r_it g' \<and> r_new g' = r_new g @ cs)"

lemma copied_refl: "copied g g"
  by (simp add: copied_def)

lemma copied_trans: "copied a b \<Longrightarrow> copied b c \<Longrightarrow> copied a c"
  unfolding copied_def by force

lemma copied_plain: "copied g g' \<Longrightarrow> plain_nodes (r_it g) \<Longrightarrow> plain_nodes (r_it g')"
  by (auto simp: copied_def plain_nodes_def)

lemma no_meta_prefix: "no_meta ts' \<Longrightarrow> prefix ts ts' \<Longrightarrow> no_meta ts"
  by (auto simp: no_meta_def prefix_def)

lemma no_meta_grown: "no_meta (types (r_st g')) \<Longrightarrow> grown g g' \<Longrightarrow> no_meta (types (r_st g))"
  by (erule no_meta_prefix) (simp add: grown_def)

definition copies :: "renv \<Rightarrow> nat \<Rightarrow> infer_fun \<Rightarrow> bool" where
  "copies env n rec \<longleftrightarrow> infer_ok env n rec \<and>
     (\<forall>rt arr g v g'. rinv env g \<longrightarrow> length (r_it g) < n \<longrightarrow> rec rt arr g = Inr (v, g') \<longrightarrow> v \<noteq> CV_ERROR \<longrightarrow>
        plain_nodes (r_it g) \<longrightarrow> no_meta (types (r_st g')) \<longrightarrow> copied g g')"

lemma copies_D:
  assumes "copies env n rec" and "rinv env g" and "length (r_it g) < n" and "rec rt arr g = Inr (v, g')"
  shows "rinv env g' \<and> grown g g' \<and> length (r_it g') < n \<and> value_ok (r_st g') v \<and>
    (v \<noteq> CV_ERROR \<longrightarrow> plain_nodes (r_it g) \<longrightarrow> no_meta (types (r_st g')) \<longrightarrow> copied g g' \<and> plain_nodes (r_it g'))"
proof -
  have "ensures (rec rt arr g) (\<lambda>x. after env g x \<and> length (r_it (snd x)) < length (r_it g))"
    using assms(1-3) by (simp add: copies_def infer_ok_def)
  then have "rinv env g'" "grown g g'" "length (r_it g') < n" "value_ok (r_st g') v" using assms(3,4) by (auto simp: after_def)
  moreover have "copied g g' \<and> plain_nodes (r_it g')"
    if "v \<noteq> CV_ERROR" "plain_nodes (r_it g)" "no_meta (types (r_st g'))"
    using assms that copied_plain unfolding copies_def by blast
  ultimately show ?thesis by blast
qed

lemma copyValue_copies:
  assumes "copyValue c (g0\<lparr>r_it := cs\<rparr>) = Inr (v, g')" and "r_it g0 = c # cs"
  shows "copied g0 g'" and "r_st g' = r_st g0"
  using assms by (auto simp: copyValue_def nextNode_def res_simps push_cells_def copied_def split: list.splits prod.splits)

text \<open>Two operands after their node.\<close>

lemma two_copied:
  assumes "copies env n rec" and "rinv env g" and "length (r_it g) < n"
    and "rec a b (push_cells [c] g) = Inr (x, g1)" and "rec a' b' g1 = Inr (y, g2)" and "x \<noteq> CV_ERROR" and "y \<noteq> CV_ERROR"
    and "plain_nodes (r_it g)" and "grown g2 g3" and "no_meta (types (r_st g3))"
  shows "copied (push_cells [c] g) g2"
proof -
  have pushed: "rinv env (push_cells [c] g)" "length (r_it (push_cells [c] g)) < n" "plain_nodes (r_it (push_cells [c] g))"
    using assms(2,3,8) by simp_all
  note one = copies_D [OF assms(1) pushed(1,2) assms(4)]
  then have inv: "rinv env g1" "length (r_it g1) < n" by simp_all
  note two = copies_D [OF assms(1) inv assms(5)]
  have "no_meta (types (r_st g2))" using assms(9,10) no_meta_grown by blast
  moreover from this have "no_meta (types (r_st g1))" using two no_meta_grown by blast
  ultimately show ?thesis
    using one two pushed(3) assms(6,7) copied_trans by blast
qed


lemma items_copied:
  assumes "copies env n rec"
  shows "rinv env g \<Longrightarrow> length (r_it g) < n \<Longrightarrow> items k rec env rt j count g = Inr (Some xs, g') \<Longrightarrow>
    grown g g' \<and> (plain_nodes (r_it g) \<longrightarrow> no_meta (types (r_st g')) \<longrightarrow> copied g g')"
proof (induction k arbitrary: j g xs)
  case (Suc k)
  show ?case
  proof (cases "j < count")
    case True
    then obtain item g1 x ys where run: "rec rt False g = Inr (item, g1)"
        "item_value env (r_st g1) item = Inr (Some x)" "items k rec env rt (j + 1) count g1 = Inr (Some ys, g')"
      using Suc.prems(3) by (auto simp: res_simps split: option.splits)
    then have "item \<noteq> CV_ERROR" by (auto simp: item_value_def)
    note step = copies_D [OF assms Suc.prems(1,2) run(1)]
    have rest: "grown g1 g' \<and> (plain_nodes (r_it g1) \<longrightarrow> no_meta (types (r_st g')) \<longrightarrow> copied g1 g')"
      by (rule Suc.IH [OF _ _ run(3)]) (use step in auto)
    have "copied g g'" if "plain_nodes (r_it g)" "no_meta (types (r_st g'))"
      using step rest \<open>item \<noteq> CV_ERROR\<close> that no_meta_grown [of g' g1] copied_trans by blast
    moreover have "grown g g'" using step rest grown_trans by blast
    ultimately show ?thesis by blast
  qed (use Suc.prems in \<open>simp add: copied_refl grown_refl\<close>)
qed simp


lemma copied_same: "copied g0 g \<Longrightarrow> r_it g' = r_it g \<Longrightarrow> r_new g' = r_new g \<Longrightarrow> copied g0 g'"
  by (simp add: copied_def)

lemma var_ctype_meta:
  assumes "no_meta (types st)" and "var_ctype st i = Inr (Some c)"
  shows "ct_kind c \<noteq> CUP_TYPE_META"
  using assms by (auto simp: var_ctype_def no_meta_def deref_def base_type_def is_basic_def list_all_length res_simps
      split: option.splits tref.splits if_splits)

lemma eq_copied:
  assumes "copies env n rec" and "rinv env g" and "length (r_it g) < n" and "eq rec (push_cells [c] g) = Inr (v, g')" and "v \<noteq> CV_ERROR"
    and "plain_nodes (r_it g)" and "no_meta (types (r_st g'))"
  shows "copied (push_cells [c] g) g'"
proof -
  obtain right g1 left g2 t where run: "rec False False (push_cells [c] g) = Inr (right, g1)"
      "rec False False g1 = Inr (left, g2)" "eq_type (r_st g2) right = Inr t"
      "(case t of None \<Rightarrow> Inr (CV_ERROR, g2) | Some t \<Rightarrow> eq_assign left right t g2) = Inr (v, g')"
    using assms(4) by (auto simp: eq_def res_simps)
  have same: "r_it g' = r_it g2 \<and> r_new g' = r_new g2 \<and> types (r_st g') = types (r_st g2)"
    using run(4) by (auto simp: eq_assign_def set_var_type_def Let_def split: option.splits cupvalue.splits if_splits)
  have "right \<noteq> CV_ERROR" using run(3) by (auto simp: eq_type_def)
  show ?thesis
  proof -
    have "left \<noteq> CV_ERROR" using run(4) assms(5) by (auto simp: eq_assign_def split: option.splits)
    then have "copied (push_cells [c] g) g2"
      by (intro two_copied [OF assms(1-3) run(1,2) \<open>right \<noteq> CV_ERROR\<close> _ assms(6) grown_refl]) (use same assms(7) in simp_all)
    then show ?thesis using same copied_same by blast
  qed
qed


lemma osb_copied:
  assumes "copies env n rec" and "rinv env g" and "length (r_it g) < n" and "osb rec env c (push_cells [c] g) = Inr (v, g')" and "v \<noteq> CV_ERROR"
    and "plain_nodes (r_it g)" and "no_meta (types (r_st g'))"
  shows "copied (push_cells [c] g) g'"
proof -
  obtain left g1 right g2 where run: "rec False False (push_cells [c] g) = Inr (left, g1)" "rec False False g1 = Inr (right, g2)"
    using assms(4) by (auto simp: osb_def Let_def res_simps)
  have pushed: "rinv env (push_cells [c] g)" "length (r_it (push_cells [c] g)) < n" using assms(2,3) by simp_all
  have inv2: "rinv env g2"
    using copies_D [OF assms(1) pushed run(1)] copies_D [OF assms(1) _ _ run(2)] by blast
  have left: "left \<noteq> CV_ERROR" using assms(4,5) run by (auto simp: osb_def Let_def)
  have array: "right \<noteq> CV_ERROR \<and> g' = g2" if "rbind (osb_array y b right) (\<lambda>v. Inr (v, g2)) = Inr (v, g')" for y b
    using that assms(5) by (auto simp: osb_array_def res_simps split: option.splits if_splits tbody.splits cupvalue.splits)
  have meta: "grown g2 (g'\<lparr>r_new := r_new g2\<rparr>)" if run': "osb_meta env c m i y right g2 = Inr (v, g')" for m i y
  proof -
    obtain w g3 where call: "metaApply env i y (case right of CV_VALUE t x \<Rightarrow> CUP_MOP_BRACK t x | _ \<Rightarrow> CUP_MOP_BRACK None 0) g2 = Inr (w, g3)"
        and "osb_result c m w g3 = (v, g')"
      using run' by (auto simp: osb_meta_def res_simps)
    then have g3: "g'\<lparr>r_new := r_new g3\<rparr> = g3"
      by (cases w) (auto simp: osb_result_def Let_def pushAddress_def pushNumber_def pushNode2_def push_cells_def)
    from metaApply_ok [OF inv2] call have "after env g2 (w, g3) \<and> r_new g3 = r_new g2"
      by (fastforce simp: ensures_def)
    with g3 show ?thesis by (auto simp: after_def)
  qed
  have "right \<noteq> CV_ERROR \<and> g' = g2"
  proof (cases left)
    case (CV_VARIABLE i)
    then obtain k y m where k: "i = Some k" and y: "var_ctype (r_st g2) k = Inr y"
        and rest: "(if map_option ct_kind y = Some CUP_TYPE_META then osb_meta env c m k (the y) right g2
          else rbind (osb_array y (var_value (vars (r_st g2) ! k)) right) (\<lambda>v. Inr (v, g2))) = Inr (v, g')"
      using assms(4,5) run by (auto simp: osb_def Let_def res_simps split: option.splits)
    have "map_option ct_kind y \<noteq> Some CUP_TYPE_META"
    proof
      assume m: "map_option ct_kind y = Some CUP_TYPE_META"
      then have "grown g2 (g'\<lparr>r_new := r_new g2\<rparr>)" using rest meta by simp
      then have "no_meta (types (r_st g2))" using assms(7) no_meta_grown [of "g'\<lparr>r_new := r_new g2\<rparr>" g2] by simp
      then show False using var_ctype_meta y m by auto
    qed
    with rest have "rbind (osb_array y (var_value (vars (r_st g2) ! k)) right) (\<lambda>v. Inr (v, g2)) = Inr (v, g')" by argo
    then show ?thesis by (rule array)
  next
    case (CV_ADDRESS t p)
    then show ?thesis using assms(4,5) run array by (auto simp: osb_def Let_def res_simps split: option.splits)
  qed (use assms(4,5) run in \<open>auto simp: osb_def Let_def\<close>)
  then show ?thesis
    using two_copied [OF assms(1-3) run left _ assms(6) grown_refl] assms(7) by blast
qed


lemma array_value_same:
  assumes "array_value count d a g = Inr (v, g')" and "rinv env g" and "data_ok (types (r_st g)) d"
  shows "r_it g' = r_it g \<and> r_new g' = r_new g \<and> grown g g'"
proof -
  have "grown g g'" using array_value_ok [OF assms(2,3), of count a] assms(1) by (simp add: ensures_def after_def)
  then show ?thesis using assms(1) by (auto simp: array_value_def res_simps guard_def split: if_splits)
qed

lemma infer_array_copied:
  assumes "copies env n rec" and "rinv env g" and "length (r_it g) < n" and "infer_array rec env c g = Inr (v, g')"
    and "plain_nodes (r_it g)" and "no_meta (types (r_st g'))"
  shows "copied (g\<lparr>r_it := c # r_it g\<rparr>) g'"
proof -
  obtain i g1 w g2 where run1: "copyValue c g = Inr (i, g1)" "rec False True g1 = Inr (w, g2)"
      "(case w of
            CV_LIST xs \<Rightarrow>
              array_value (length xs) (case xs of (Some t, _) # _ \<Rightarrow> DType t | _ \<Rightarrow> DNull) (data_at env (r_st g1) i) g2
          | _ \<Rightarrow> Inl Abort) = Inr (v, g')"
    using assms(4) by (auto simp: infer_array_def Let_def res_simps)
  then obtain xs where run: "copyValue c g = Inr (i, g1)" "rec False True g1 = Inr (CV_LIST xs, g2)"
      "array_value (length xs) (case xs of (Some t, _) # _ \<Rightarrow> DType t | _ \<Rightarrow> DNull) (data_at env (r_st g1) i) g2 = Inr (v, g')"
    by (cases w) auto
  have g1: "copied (g\<lparr>r_it := c # r_it g\<rparr>) g1" "rinv env g1" "length (r_it g1) < n" "plain_nodes (r_it g1)"
    using run(1) assms(2,3,5)
    by (auto simp: copyValue_def nextNode_def res_simps push_cells_def copied_def plain_nodes_def rinv_def split: list.splits)
  note step = copies_D [OF assms(1) g1(2,3) run(2)]
  then have "data_ok (types (r_st g2)) (case xs of (Some t, _) # _ \<Rightarrow> DType t | _ \<Rightarrow> DNull)"
    by (auto simp: data_ok_def value_ok_def type_known_def split: list.splits option.splits)
  from array_value_same [OF run(3) _ this] step
  have same: "r_it g' = r_it g2" "r_new g' = r_new g2" "grown g2 g'" by auto
  then have "copied g1 g2" using step g1(4) assms(6) no_meta_grown by blast
  then show ?thesis using copied_same [OF copied_trans [OF g1(1)] same(1,2)] by blast
qed

lemma infer_string_copied:
  assumes "infer_string env c g = Inr (v, g')"
  shows "copied (g\<lparr>r_it := c # r_it g\<rparr>) g'"
  using assms
  by (auto simp: infer_string_def array_value_def copyValue_def nextNode_def res_simps push_cells_def copied_def guard_def
      split: list.splits option.splits if_splits)

lemma infer_return_copied:
  assumes "copies env n rec" and "rinv env g" and "length (r_it g) < n" and "infer_return rec rt (push_cells [c] g) = Inr (v, g')"
    and "plain_nodes (r_it g)" and "no_meta (types (r_st g'))"
  shows "copied (push_cells [c] g) g'"
proof -
  obtain w g1 where run: "rec False False (push_cells [c] g) = Inr (w, g1)"
      "(case w of
         CV_VALUE t _ \<Rightarrow>
           if t = Some void_ref then Inl Abort
           else if \<not> rt then Inl Abort
           else Inr (CV_ANY (Some void_ref), g1)
       | _ \<Rightarrow> Inl Abort) = Inr (v, g')"
    using assms(4) by (auto simp: infer_return_def res_simps)
  then obtain t x where last: "rec False False (push_cells [c] g) = Inr (CV_VALUE t x, g')"
    by (cases w) (auto split: if_splits)
  show ?thesis using copies_D [OF assms(1) _ _ last] assms(2,3,5,6) by simp
qed

lemma infer_node_copied:
  assumes "copies env n rec" and "rinv env g" and "length (r_it g) < n" and "cell_token c = Inr t"
    and "infer_node n rec env rt arr c t g = Inr (v, g')" and "v \<noteq> CV_ERROR"
    and "plain_nodes (c # r_it g)" and "no_meta (types (r_st g'))"
  shows "copied (g\<lparr>r_it := c # r_it g\<rparr>) g'"
proof -
  let ?g0 = "g\<lparr>r_it := c # r_it g\<rparr>"
  have tail: "plain_nodes (r_it g)" and t: "t \<notin> {T_DOT, T_CALL, T_AT}"
    using assms(4,7) by (auto simp: plain_nodes_def)
  have "copied ?g0 (push_cells [c] g)" by (simp add: copied_def push_cells_def)
  from copied_trans [OF this] have pushed: "copied (push_cells [c] g) g' \<Longrightarrow> copied ?g0 g'" .
  have list: "copied ?g0 g'"
    if run: "rbind (copyValue c g2) (\<lambda>(count, g). defFor n rec env rt count f g) = Inr (v, g')"
      and g2: "rinv env g2" "r_it g2 = r_it g" "r_new g2 = r_new g" for f g2
  proof -
    obtain x g1 where copy: "copyValue c g2 = Inr (x, g1)" and deff: "defFor n rec env rt x f g1 = Inr (v, g')"
      using run by (auto simp: res_simps)
    have g1: "copied ?g0 g1" "rinv env g1" "length (r_it g1) < n" "plain_nodes (r_it g1)"
      using copy g2 assms(3) tail
      by (auto simp: copyValue_def nextNode_def res_simps push_cells_def copied_def plain_nodes_def rinv_def split: list.splits)
    moreover obtain xs where "items n rec env rt 0 x g1 = Inr (Some xs, g')"
      using deff assms(6) by (auto simp: defFor_def res_simps split: option.splits)
    ultimately show ?thesis
      using items_copied [OF assms(1)] assms(8) copied_trans by blast
  qed
  have number: "copied ?g0 g'" if "rbind (copyValue c g) (\<lambda>(v, g). Inr (w v, g)) = Inr (v, g')" for w
    using that by (auto simp: copyValue_def nextNode_def res_simps push_cells_def copied_def split: list.splits)
  have var: "copied ?g0 g'" if "infer_variable c g = Inr (v, g')"
    using that by (auto simp: infer_variable_def nextNode_def res_simps push_cells_def copied_def split: list.splits)
  have self: "copied ?g0 g'" if "infer_this c g = Inr (v, g')"
    using that assms(6) by (auto simp: infer_this_def res_simps push_cells_def copied_def split: option.splits)
  have up: "rinv env (g\<lparr>r_st := (r_st g)\<lparr>scope := k\<rparr>\<rparr>)" for k using assms(2) by simp
  show ?thesis
    using assms(5,6) t list [OF _ up] list [OF _ assms(2)] number var self
      infer_array_copied [OF assms(1-3) _ tail assms(8)] infer_string_copied [of env c g v g']
      pushed [OF eq_copied [OF assms(1-3) _ assms(6) tail assms(8)]] pushed [OF osb_copied [OF assms(1-3) _ assms(6) tail assms(8)]]
      pushed [OF infer_return_copied [OF assms(1-3) _ tail assms(8)]]
    unfolding infer_node_def by (simp split: if_splits)
qed

lemma inferTypes_copies: "copies env n (inferTypes n env)"
proof (induction n)
  case (Suc n)
  have "copied g g'"
    if g: "rinv env g" "length (r_it g) < Suc n" and run: "inferTypes (Suc n) env rt arr g = Inr (v, g')"
      and v: "v \<noteq> CV_ERROR" "plain_nodes (r_it g)" "no_meta (types (r_st g'))" for rt arr g v g'
  proof -
    obtain c t cs where c: "r_it g = c # cs" "cell_token c = Inr t"
        "infer_node n (inferTypes n env) env rt arr c t (g\<lparr>r_it := cs\<rparr>) = Inr (v, g')"
      using run by (auto simp: nextNode_def res_simps split: list.splits)
    have "copied (g\<lparr>r_it := cs, r_it := c # r_it (g\<lparr>r_it := cs\<rparr>)\<rparr>) g'"
      by (rule infer_node_copied [OF Suc.IH _ _ c(2,3) v(1) _ v(3)]) (use g v(2) c(1) in simp_all)
    then show ?thesis using c(1) by (simp add: copied_def)
  qed
  then show ?case using inferTypes_ok unfolding copies_def by blast
qed (simp add: copies_def infer_ok_def)

section \<open>Properties\<close>

definition resolver_ok :: "renv \<Rightarrow> parst \<Rightarrow> bool" where
  "resolver_ok env st \<longleftrightarrow> vars_ok st \<and> scopes_ok (st\<lparr>scope := 0\<rparr>) \<and> types_ok (types st) \<and>
     (\<forall>v \<in> set (vars st). type_known (types st) (var_type v)) \<and> callbacks_ok env (length (types st))"

lemma rinv_state: "rinv env g \<longleftrightarrow> resolver_ok env (r_st g)"
  by (simp add: rinv_def resolver_ok_def)

lemma resolve_run:
  assumes "resolve env st ns = Inr (err, out, st')"
  obtains v g where "inferTypes (Suc (length ns)) env False False \<lparr>r_st = st, r_it = ns, r_new = []\<rparr> = Inr (v, g)"
    and "err = (v = CV_ERROR)" and "out = r_new g" and "st' = r_st g"
proof -
  obtain v g where run: "inferTypes (Suc (length ns)) env False False \<lparr>r_st = st, r_it = ns, r_new = []\<rparr> = Inr (v, g)"
      "(case v of CV_ANY _ \<Rightarrow> Inl Abort | _ \<Rightarrow> Inr (v = CV_ERROR, r_new g, r_st g)) = Inr (err, out, st')"
    using assms by (auto simp: resolve_def res_simps)
  from run(2) have "err = (v = CV_ERROR)" "out = r_new g" "st' = r_st g" by (cases v; auto)+
  with run(1) show thesis by (rule that)
qed

lemma resolve_after:
  assumes "resolver_ok env st" and "resolve env st ns = Inr (err, out, st')"
  shows "resolver_ok env st' \<and> prefix (types st) (types st') \<and> retyped (vars st) (vars st') \<and> list_all fine out"
proof -
  let ?g = "\<lparr>r_st = st, r_it = ns, r_new = []\<rparr>"
  from resolve_run [OF assms(2)] obtain v g where run: "inferTypes (Suc (length ns)) env False False ?g = Inr (v, g)"
      "out = r_new g" "st' = r_st g" by metis
  have "ensures (inferTypes (Suc (length ns)) env False False ?g) (\<lambda>x. after env ?g x \<and> length (r_it (snd x)) < length (r_it ?g))"
    by (rule infer_okD [OF inferTypes_ok]) (use assms(1) in \<open>simp_all add: rinv_state\<close>)
  with run show ?thesis by (auto simp: after_def grown_def rinv_state)
qed

definition silent_env :: renv where
  "silent_env = \<lparr>re_data = 0x1000, re_mem = (\<lambda>st a. 0), re_gen = (\<lambda>k op a. (CUP_GEN_ERROR, []))\<rparr>"

lemma blank_resolver: "resolver_ok silent_env (blank_state\<lparr>data_sec := d\<rparr>)"
  by (simp add: resolver_ok_def blank_state_def vars_ok_def scopes_ok_def types_ok_def callbacks_ok_def silent_env_def)

text \<open>C10: With callbacks that report types of the table, the resolver returns or stops the program on every
  list of nodes. When it returns, the tables are well formed, types were only added to the type table,
  every variable kept its name, scope and value, and one that had a type kept its type.\<close>

theorem resolve_keeps_types:
  assumes "resolver_ok env st"
  shows "resolve env st ns \<noteq> Inl Loop \<and>
    (\<forall>err out st'. resolve env st ns = Inr (err, out, st') \<longrightarrow>
       resolver_ok env st' \<and> prefix (types st) (types st') \<and> retyped (vars st) (vars st'))"
proof -
  let ?g = "\<lparr>r_st = st, r_it = ns, r_new = []\<rparr>"
  have "ensures (inferTypes (Suc (length ns)) env False False ?g) (\<lambda>x. after env ?g x \<and> length (r_it (snd x)) < length (r_it ?g))"
    by (rule infer_okD [OF inferTypes_ok]) (use assms in \<open>simp_all add: rinv_state\<close>)
  then have "resolve env st ns \<noteq> Inl Loop"
    by (auto simp: resolve_def res_simps ensures_def split: cupvalue.splits)
  then show ?thesis using resolve_after [OF assms] by blast
qed

theorem resolve_keeps_types_witness:
  "\<exists>out st'. resolve silent_env (blank_state\<lparr>data_sec := []\<rparr>) [CTok T_NUMBER 0 0, CPay (PVal 7)] = Inr (False, out, st') \<and>
     resolver_ok silent_env st'"
proof -
  let ?st = "blank_state\<lparr>data_sec := []\<rparr>" and ?ns = "[CTok T_NUMBER 0 0, CPay (PVal 7)]"
  have "resolve silent_env ?st ?ns = Inr (False, ?ns, ?st)"
    by (simp add: resolve_def infer_node_def nextNode_def copyValue_def push_cells_def)
  with resolve_keeps_types [OF blank_resolver, of "[]" ?ns] show ?thesis by blast
qed

text \<open>C12: The resolver folds member access away: the only tokens in its output are blocks, lists, arrays,
  numbers, strings, \<open>$\<close>, variables, addresses, assignments, calls, indexing, functions and returns, each of
  which the code generator handles. This holds with and without an error, on every list of nodes.\<close>

theorem resolve_output_tokens:
  assumes "resolver_ok env st" and "resolve env st ns = Inr (err, out, st')" and "CTok t col line \<in> set out"
  shows "t \<in> {N_BLOCK, T_COMMA, N_ARRAY, T_NUMBER, T_STRING, T_MSTRING, T_THIS, N_VARIABLE, N_ADDRESS, T_EQ, T_CALL,
    T_OSB, T_AT, T_RETURN}"
  using resolve_after [OF assms(1,2)] assms(3)
  by (auto simp: list_all_iff fine_def resolved_token_def dest!: bspec)

lemma resolve_block:
  "resolve silent_env (blank_state\<lparr>data_sec := []\<rparr>) (CTok N_BLOCK 0 0 # CPay (PVal 1) # CTok T_NUMBER 1 1 # CPay (PVal v) # rest) =
     Inr (False, [CTok N_BLOCK 0 0, CPay (PVal 1), CTok T_NUMBER 1 1, CPay (PVal v)], blank_state\<lparr>data_sec := [], scope := 1\<rparr>)"
  by (simp add: resolve_def infer_node_def nextNode_def copyValue_def push_cells_def defFor_def item_value_def fnblock_def
      blank_state_def)

theorem resolve_output_tokens_witness:
  "T_NUMBER \<in> {N_BLOCK, T_COMMA, N_ARRAY, T_NUMBER, T_STRING, T_MSTRING, T_THIS, N_VARIABLE, N_ADDRESS, T_EQ, T_CALL,
     T_OSB, T_AT, T_RETURN}"
  by (rule resolve_output_tokens [OF blank_resolver resolve_block [of 7 "[]"], of _ 1 1]) simp






end
