(* ===== verification/Cup_Module.thy ===== *)
theory Cup_Module
  imports Cup_Resolver Cup_Codegen
begin

text \<open>
  Modules: \<^verbatim>\<open>src/moduler.c\<close>. The growing code buffer, imports and external libraries, compiling a
  text through parser, resolver and code generator, and the symbol interface for the host program.

  What the operating system and the host give is one record of parameters: file contents, whether
  two paths are the same file, \<^verbatim>\<open>dlopen\<close> and \<^verbatim>\<open>dlsym\<close>, where buffers lie in memory, the callbacks of
  the host's meta types, and what running generated code does to the state.
\<close>

section \<open>State and environment\<close>

record cmod =
  mod_path :: string
  mod_code :: bytes

text \<open>Modules in the order they were made; the code's list starts with the newest.\<close>

record cups = parst +
  modules :: "cmod list"
  externals :: "u64 list"
  bytecode_path :: "string option"
  code_path :: "string option"

record world =
  w_exe :: "string option"
  w_read :: "string \<Rightarrow> string option"
  w_same :: "string \<Rightarrow> string \<Rightarrow> bool"
  w_writable :: "string \<Rightarrow> bool"
  w_dlopen :: "string \<Rightarrow> u64"
  w_dlsym :: "u64 \<Rightarrow> string \<Rightarrow> u64"
  w_self :: u64
  w_page :: "nat \<Rightarrow> bytes \<Rightarrow> u64"
  w_vars :: "nat \<Rightarrow> u64"
  w_data :: "nat \<Rightarrow> u64"
  w_mem :: "parst \<Rightarrow> u64 \<Rightarrow> u64"
  w_gen :: "nat \<Rightarrow> meta_op \<Rightarrow> u64 \<Rightarrow> gen_result \<times> report list"
  w_run :: "u64 \<Rightarrow> cups \<Rightarrow> cups res"

section \<open>The code buffer\<close>

text \<open>
  The mapped bytes, how many are used, and the capacity that is recorded. \<open>ok\<close> says whether the
  system gives memory: a failed \<^verbatim>\<open>mmap\<close> is noticed, a failed \<^verbatim>\<open>mremap\<close> is not, and the next write
  goes through a bad pointer.
\<close>

record cbuf =
  b_map :: "bytes option"
  b_size :: nat
  b_cap :: nat

definition PAGESIZE :: nat where "PAGESIZE = 4096"

definition round_page :: "nat \<Rightarrow> nat" where
  "round_page n = (n + PAGESIZE - 1) div PAGESIZE * PAGESIZE"

text \<open>\<^verbatim>\<open>mmap\<close>: whole pages of zeros; a length of 0 fails.\<close>

definition os_mmap :: "bool \<Rightarrow> nat \<Rightarrow> bytes option" where
  "os_mmap ok n = (if ok \<and> n \<noteq> 0 then Some (replicate (round_page n) 0) else None)"

text \<open>\<^verbatim>\<open>mremap\<close>: the old bytes, with pages of zeros behind them.\<close>

definition os_mremap :: "bool \<Rightarrow> nat \<Rightarrow> nat \<Rightarrow> bytes \<Rightarrow> bytes option" where
  "os_mremap ok old new bs =
     (if ok then Some (take old bs @ replicate (round_page new - length (take old bs)) 0) else None)"

function grow_pages :: "nat \<Rightarrow> nat \<Rightarrow> nat" where
  "grow_pages cap n = (let cap = cap + PAGESIZE in if n > cap then grow_pages cap n else cap)"
  by auto
termination by (relation "measure (\<lambda>(cap, n). n - cap)") (auto simp: PAGESIZE_def)

definition emit_error :: "bool \<Rightarrow> nat \<Rightarrow> cbuf \<Rightarrow> cbuf res" where
  "emit_error ok n b =
     rbind (case b_map b of
              None \<Rightarrow> (case os_mmap ok n of None \<Rightarrow> Inl (Exit 1) | Some m \<Rightarrow> Inr (b\<lparr>b_map := Some m, b_cap := PAGESIZE\<rparr>))
            | Some m \<Rightarrow> Inr b) (\<lambda>b.
     let b = b\<lparr>b_size := b_size b + n\<rparr>
     in if b_size b \<le> b_cap b then Inr b
        else
          (let cap = grow_pages (b_cap b) (b_size b)
           in Inr (b\<lparr>b_map := os_mremap ok (b_cap b) cap (the (b_map b)), b_cap := cap\<rparr>)))"

definition emit_bytes :: "bool \<Rightarrow> bytes \<Rightarrow> cbuf \<Rightarrow> cbuf res" where
  "emit_bytes ok bs b =
     (let offset = b_size b
      in rbind (emit_error ok (length bs) b) (\<lambda>b.
           case b_map b of
             None \<Rightarrow> Inl Undef
           | Some m \<Rightarrow>
               if offset + length bs \<le> length m then Inr (b\<lparr>b_map := Some (overwrite offset bs m)\<rparr>)
               else Inl Undef))"

section \<open>Paths\<close>

definition get_exe_path :: "world \<Rightarrow> string res" where
  "get_exe_path w = (case w_exe w of None \<Rightarrow> Inl Undef | Some p \<Rightarrow> Inr p)"

definition samefile :: "world \<Rightarrow> string \<Rightarrow> string \<Rightarrow> bool" where
  "samefile w a b = (if a = [] \<or> b = [] then False else w_same w a b)"

section \<open>The meta type of the compiler state\<close>

text \<open>Offsets of \<^verbatim>\<open>data_size\<close> and \<^verbatim>\<open>scope\<close> in \<^verbatim>\<open>CUPState\<close>.\<close>

definition OFF_data_size :: u64 where "OFF_data_size = 72"
definition OFF_scope :: u64 where "OFF_scope = 56"

definition meta_this :: "meta_op \<Rightarrow> u64 \<Rightarrow> gen_result \<times> report list" where
  "meta_this op v =
     (case op of
        CUP_MOP_MEMBER name \<Rightarrow>
          if name = ''data_size'' then (CUP_GEN_DONE, [GAddress (v + OFF_data_size) (Some (TBase CUP_TYPE_INT))])
          else if name = ''scope'' then (CUP_GEN_DONE, [GAddress (v + OFF_scope) (Some (TBase CUP_TYPE_INT))])
          else (CUP_GEN_ERROR, [])
      | CUP_MOP_BRACK _ _ \<Rightarrow> (CUP_GEN_ERROR, [])
      | CUP_MOP_CALL _ \<Rightarrow> (CUP_GEN_ERROR, []))"

text \<open>Callback 0 is \<^verbatim>\<open>meta_this\<close>; the others are the host's.\<close>

definition callbacks :: "world \<Rightarrow> nat \<Rightarrow> meta_op \<Rightarrow> u64 \<Rightarrow> gen_result \<times> report list" where
  "callbacks w k = (if k = 0 then meta_this else w_gen w k)"

section \<open>Symbols of the host program\<close>

definition cup_add_symbol :: "string \<Rightarrow> u64 \<Rightarrow> tref option \<Rightarrow> 'a symst_scheme \<Rightarrow> (int \<times> 'a symst_scheme) res" where
  "cup_add_symbol name val type st =
     (if name = [] then Inr (- 1, st)
      else
        (let (ident, st) = idToken st name
         in if \<not> ident then Inr (- 2, st)
            else
              rbind (varLookup st name 1) (\<lambda>v.
                if v \<noteq> None then Inr (- 3, st)
                else rbind (putVar st name type val 1) (\<lambda>st. Inr (0, st)))))"

definition cup_get_symbol :: "string \<Rightarrow> 'a symst_scheme \<Rightarrow> (cvar option \<times> 'a symst_scheme) res" where
  "cup_get_symbol name st =
     (if name = [] then Inr (None, st)
      else
        (let (ident, st) = idToken st name
         in if \<not> ident then Inr (None, st)
            else
              rbind (varLookup st name 1) (\<lambda>v.
                Inr (case v of
                       None \<Rightarrow> None
                     | Some i \<Rightarrow> if var_type (vars st ! i) \<noteq> Some void_ref then Some (vars st ! i) else None, st))))"

text \<open>The callback is called once for each variable; what it is called with.\<close>

definition cup_list_symbols :: "'a symst_scheme \<Rightarrow> (string \<times> tref option \<times> u64 \<times> nat) list" where
  "cup_list_symbols st = map (\<lambda>v. (var_name v, var_type v, var_value v, var_scope v)) (vars st)"

definition cup_version_major :: int where "cup_version_major = 1"
definition cup_version_minor :: int where "cup_version_minor = 12"
definition cup_version :: int where "cup_version = cup_version_minor OR cup_version_major * 0xFF"

definition cup_new :: "world \<Rightarrow> cups res" where
  "cup_new w =
     (let st = \<lparr>input_stream = [], priv_stream = None, tok = T_EOF, loc_col = 0, loc_line = 0, tok_val = PVal 0, data_sec = [],
            scopes = [None, Some 0], scope = 1, vars = [], vars_cap = 0, vars_map = [], types = [],
            temp = replicate (TEMP_CAP div 8) SNull, modules = [], externals = [], bytecode_path = None, code_path = None\<rparr>
      in rbind (cup_typemeta (types st) 0 (Some 0)) (\<lambda>(t, ts).
         rbind (cup_add_symbol ''$'' (w_self w) (Some t) (st\<lparr>types := ts\<rparr>)) (\<lambda>(_, st). Inr st)))"

definition cup_bytecode_path :: "string option \<Rightarrow> cups \<Rightarrow> string option \<times> cups" where
  "cup_bytecode_path path st =
     (let st = (if path \<noteq> None then st\<lparr>bytecode_path := path\<rparr> else st) in (bytecode_path st, st))"

definition cup_code_path :: "string option \<Rightarrow> cups \<Rightarrow> string option \<times> cups" where
  "cup_code_path path st =
     (let st = (if path \<noteq> None then st\<lparr>code_path := path\<rparr> else st) in (code_path st, st))"

section \<open>External libraries\<close>

text \<open>The name a literal holds; reading past its end has no meaning.\<close>

definition literal :: "'a lexst_scheme \<Rightarrow> u64 \<Rightarrow> string res" where
  "literal st i =
     (case getData (data_sec st) i of
        None \<Rightarrow> Inl Undef
      | Some s \<Rightarrow> if NUL \<notin> set s then Inl Undef else Inr (takeWhile (\<lambda>c. c \<noteq> NUL) s))"

definition token_literal :: "'a lexst_scheme \<Rightarrow> string res" where
  "token_literal st = (case tok_val st of PVal i \<Rightarrow> literal st i | _ \<Rightarrow> Inl Undef)"

definition so_suffixes :: "string list" where
  "so_suffixes = [[NUL, NUL], ''.6'', ''.0'', ''.1'', ''.2'']"

text \<open>The buffer with the name: \<^verbatim>\<open>.so\<close> is added if it is not there; the suffix goes behind its place.\<close>

definition so_base :: "string \<Rightarrow> string res" where
  "so_base name =
     (let base = name @ replicate 6 NUL
      in if length name < 3 then Inl Undef
         else if drop (length name - 3) name \<noteq> ''.so'' then Inr (name @ ''.so'' @ replicate 3 NUL)
         else Inr base)"

definition so_name :: "string \<Rightarrow> string \<Rightarrow> string \<Rightarrow> string" where
  "so_name name base ending =
     takeWhile (\<lambda>c. c \<noteq> NUL) (take (length name + 3) base @ ending @ drop (length name + 5) base)"

definition externalModule :: "world \<Rightarrow> cups \<Rightarrow> cups res" where
  "externalModule w st =
     rbind (token_literal st) (\<lambda>name.
     rbind (so_base name) (\<lambda>base.
       case find (\<lambda>h. h \<noteq> 0) (map (\<lambda>s. w_dlopen w (so_name name base s)) so_suffixes) of
         None \<Rightarrow> Inl (Exit 1)
       | Some h \<Rightarrow> Inr (st\<lparr>externals := externals st @ [h]\<rparr>)))"

definition externalSymbol :: "world \<Rightarrow> cups \<Rightarrow> string \<Rightarrow> u64 \<Rightarrow> cups res" where
  "externalSymbol w st name sig_idx =
     (case find (\<lambda>f. f \<noteq> 0) (map (\<lambda>h. w_dlsym w h name) (externals st)) of
        None \<Rightarrow> Inl (Exit 1)
      | Some f \<Rightarrow>
          rbind (literal st sig_idx) (\<lambda>sig.
          rbind (cup_type_parse (types st) sig) (\<lambda>(t, ts).
          rbind (varLookup (st\<lparr>types := ts\<rparr>) name 1) (\<lambda>v.
            if v \<noteq> None then Inl (Exit 1)
            else putVar (st\<lparr>types := ts\<rparr>) name t f 0))))"

section \<open>Compiling\<close>

definition renv_of :: "world \<Rightarrow> 'a parst_scheme \<Rightarrow> renv" where
  "renv_of w st = \<lparr>re_data = w_data w (length (data_sec st)), re_mem = w_mem w, re_gen = callbacks w\<rparr>"

definition genv_of :: "world \<Rightarrow> 'a parst_scheme \<Rightarrow> genv" where
  "genv_of w st = \<lparr>ge_sym = symst.truncate st, ge_types = types st, vars_base = w_vars w (vars_cap st),
     data_base = w_data w (length (data_sec st))\<rparr>"

definition resolve_in :: "world \<Rightarrow> cell list \<Rightarrow> cups \<Rightarrow> (bool \<times> cell list \<times> cups) res" where
  "resolve_in w nodes st =
     rbind (resolve (renv_of w st) (parst.truncate st) nodes) (\<lambda>(err, nodes, r).
       Inr (err, nodes, st\<lparr>types := types r, vars := vars r, scope := scope r\<rparr>))"

text \<open>The addresses of functions go into their variables, from the last one entered to the first.\<close>

definition relocate :: "u64 \<Rightarrow> (nat option \<times> nat) \<Rightarrow> cvar list \<Rightarrow> cvar list" where
  "relocate page r vs =
     (case r of
        (None, p) \<Rightarrow> vs
      | (Some i, p) \<Rightarrow> vs[i := (vs ! i)\<lparr>var_value := page + of_nat p\<rparr>])"

definition entry_of :: "u64 \<Rightarrow> (nat option \<times> nat) list \<Rightarrow> u64" where
  "entry_of page rs = (case find (\<lambda>r. fst r = None) rs of None \<Rightarrow> 0 | Some r \<Rightarrow> page + of_nat (snd r))"

definition codegen :: "world \<Rightarrow> nat \<Rightarrow> cell list \<Rightarrow> cups \<Rightarrow> (u64 \<times> cups) res" where
  "codegen w m nodes st =
     (let n = Suc (length nodes)
      in rbind (codegen_func n (codegen_expr n (genv_of w st)) None 0 (gen_start (scope st) nodes)) (\<lambda>g.
         let page = w_page w m (gcode g)
         in Inr (entry_of page (grell g),
              st\<lparr>vars := fold (relocate page) (rev (grell g)) (vars st), scope := gscope g,
                 modules := (modules st)[m := (modules st ! m)\<lparr>mod_code := gcode g\<rparr>]\<rparr>)))"

text \<open>The statements of a text: how many have nodes, and the nodes.\<close>

primrec parse_statements ::
  "nat \<Rightarrow> 'a parst_scheme hooks \<Rightarrow> u64 \<Rightarrow> cell list \<Rightarrow> 'a parst_scheme \<Rightarrow> (u64 \<times> cell list \<times> 'a parst_scheme) res" where
  "parse_statements 0 hk count cs st = Inl Loop"
| "parse_statements (Suc n) hk count cs st =
     (if tok st = T_EOF then Inr (count, cs, st)
      else
        rbind (statement (primary hk (Suc (to_read st))) st) (\<lambda>(x, st).
          parse_statements n hk (if x \<noteq> [] then count + 1 else count) (cs @ x) st))"

definition parse_nodes :: "'a parst_scheme hooks \<Rightarrow> string \<Rightarrow> 'a parst_scheme \<Rightarrow> (cell list \<times> 'a parst_scheme) res" where
  "parse_nodes hk source st =
     rbind (getToken (st\<lparr>priv_stream := None, input_stream := source, tok := N_BLOCK, loc_col := 1, loc_line := 1,
          tok_val := PVal 0\<rparr>) False) (\<lambda>st.
     rbind (parse_statements (Suc (Suc (length source))) hk 0 [] st) (\<lambda>(count, cs, st).
       Inr (CTok N_BLOCK 1 1 # CPay (PVal count) # cs, st)))"

definition cup_write_bytecode :: "world \<Rightarrow> cups \<Rightarrow> cups" where
  "cup_write_bytecode w st =
     (case bytecode_path st of
        None \<Rightarrow> st
      | Some p \<Rightarrow> if w_writable w p then st\<lparr>bytecode_path := None\<rparr> else st)"

definition parse_new :: "world \<Rightarrow> cups hooks \<Rightarrow> string \<Rightarrow> string \<Rightarrow> cups \<Rightarrow> (nat \<times> cups) res" where
  "parse_new w hk source file st0 =
     (let m = length (modules st0);
          st = st0\<lparr>modules := modules st0 @ [\<lparr>mod_path = file, mod_code = []\<rparr>]\<rparr>
      in rbind (parse_nodes hk source st) (\<lambda>(nodes, st).
         rbind (resolve_in w nodes (st\<lparr>scope := 0\<rparr>)) (\<lambda>(err, nodes, st).
         rbind (if err then Inr st
                else rbind (codegen w m nodes (st\<lparr>scope := 0\<rparr>)) (\<lambda>(init, st). w_run w init st)) (\<lambda>st.
           Inr (m, (cup_write_bytecode w st)\<lparr>priv_stream := priv_stream st0, input_stream := input_stream st0,
                     tok := tok st0, loc_col := loc_col st0, loc_line := loc_line st0, tok_val := tok_val st0\<rparr>)))))"

definition find_module :: "world \<Rightarrow> string \<Rightarrow> cups \<Rightarrow> nat option" where
  "find_module w file st =
     find (\<lambda>i. samefile w (mod_path (modules st ! i)) file) (rev [0..<length (modules st)])"

definition parse_with :: "world \<Rightarrow> cups hooks \<Rightarrow> string \<Rightarrow> string \<Rightarrow> cups \<Rightarrow> (nat \<times> cups) res" where
  "parse_with w hk source file st =
     (case find_module w file st of
        Some m \<Rightarrow> Inr (m, st)
      | None \<Rightarrow> parse_new w hk source file st)"

text \<open>\<^verbatim>\<open>cup_compile_file\<close>; no module comes back for an empty name or a file that cannot be opened.\<close>

definition compile_file_with :: "world \<Rightarrow> cups hooks \<Rightarrow> string \<Rightarrow> cups \<Rightarrow> (nat option \<times> cups) res" where
  "compile_file_with w hk name st =
     (if name = [] then Inr (None, st)
      else case w_read w name of
        None \<Rightarrow> Inr (None, st)
      | Some source \<Rightarrow> rbind (parse_with w hk source name st) (\<lambda>(m, st). Inr (Some m, st)))"

definition importModule :: "(string \<Rightarrow> cups \<Rightarrow> (nat option \<times> cups) res) \<Rightarrow> cups \<Rightarrow> cups res" where
  "importModule compile st =
     rbind (token_literal st) (\<lambda>name.
     rbind (compile name st) (\<lambda>(m, st). if m \<noteq> None then Inl (Exit 1) else Inr st))"

definition hooks_with :: "world \<Rightarrow> (string \<Rightarrow> cups \<Rightarrow> (nat option \<times> cups) res) \<Rightarrow> cups hooks" where
  "hooks_with w compile =
     \<lparr>import_module = importModule compile, external_module = externalModule w, external_symbol = externalSymbol w\<rparr>"

text \<open>\<^verbatim>\<open>cup_compile_file\<close> and what it calls, with a bound on how deeply files import files.\<close>

primrec cup_compile_file :: "nat \<Rightarrow> world \<Rightarrow> string \<Rightarrow> cups \<Rightarrow> (nat option \<times> cups) res" where
  "cup_compile_file 0 w name st = Inl Loop"
| "cup_compile_file (Suc n) w name st = compile_file_with w (hooks_with w (cup_compile_file n w)) name st"

definition cup_hooks :: "nat \<Rightarrow> world \<Rightarrow> cups hooks" where
  "cup_hooks n w = hooks_with w (cup_compile_file n w)"

definition cup_compile_string :: "nat \<Rightarrow> world \<Rightarrow> string \<Rightarrow> cups \<Rightarrow> (nat option \<times> cups) res" where
  "cup_compile_string n w buf st =
     (if buf = [] then Inr (None, st)
      else rbind (get_exe_path w) (\<lambda>file.
           rbind (parse_with w (cup_hooks n w) buf file st) (\<lambda>(m, st). Inr (Some m, st))))"

section \<open>The code buffer holds what was emitted\<close>

definition b_bytes :: "cbuf \<Rightarrow> bytes" where
  "b_bytes b = (case b_map b of None \<Rightarrow> [] | Some m \<Rightarrow> take (b_size b) m)"

definition buf_ok :: "cbuf \<Rightarrow> bool" where
  "buf_ok b \<longleftrightarrow>
     (case b_map b of
        None \<Rightarrow> b_size b = 0
      | Some m \<Rightarrow> b_size b \<le> b_cap b \<and> b_cap b \<le> length m \<and> PAGESIZE dvd b_cap b)"

lemma round_page_ge: "n \<le> round_page n"
  by (simp add: round_page_def PAGESIZE_def)

lemma round_page_same: "PAGESIZE dvd n \<Longrightarrow> round_page n = n"
  by (auto simp: round_page_def PAGESIZE_def)

lemma round_page_pos: "0 < n \<Longrightarrow> PAGESIZE \<le> round_page n"
  by (simp add: round_page_def PAGESIZE_def)

declare grow_pages.simps [simp del]

lemma grow_pages_ok: "PAGESIZE dvd cap \<Longrightarrow> n \<le> grow_pages cap n \<and> cap \<le> grow_pages cap n \<and> PAGESIZE dvd grow_pages cap n"
proof (induction cap n rule: grow_pages.induct)
  case (1 cap n)
  then show ?case by (subst (1 2 3) grow_pages.simps) (auto simp: Let_def)
qed

lemma emit_error_ok:
  assumes "buf_ok b" and "n \<noteq> 0"
  shows "\<exists>b' m. emit_error True n b = Inr b' \<and> b_map b' = Some m \<and> b_size b' = b_size b + n \<and>
    b_size b' \<le> b_cap b' \<and> b_cap b' \<le> length m \<and> PAGESIZE dvd b_cap b' \<and> take (b_size b) m = b_bytes b"
proof -
  define b1 where "b1 = (case b_map b of None \<Rightarrow> b\<lparr>b_map := Some (replicate (round_page n) 0), b_cap := PAGESIZE\<rparr> | Some m \<Rightarrow> b)"
  have step: "emit_error True n b = (let b = b1\<lparr>b_size := b_size b1 + n\<rparr>
     in if b_size b \<le> b_cap b then Inr b
        else
          (let cap = grow_pages (b_cap b) (b_size b)
           in Inr (b\<lparr>b_map := os_mremap True (b_cap b) cap (the (b_map b)), b_cap := cap\<rparr>)))"
    using assms(2) by (simp add: emit_error_def b1_def os_mmap_def split: option.split)
  obtain m where m: "b_map b1 = Some m" "b_size b1 = b_size b" "b_size b1 \<le> b_cap b1" "b_cap b1 \<le> length m"
      "PAGESIZE dvd b_cap b1" "take (b_size b) m = b_bytes b"
    using assms round_page_pos [of n]
    by (cases "b_map b") (auto simp: b1_def buf_ok_def b_bytes_def)
  show ?thesis
  proof (cases "b_size b + n \<le> b_cap b1")
    case True
    then show ?thesis using m by (simp add: step Let_def)
  next
    case False
    note grow = grow_pages_ok [OF m(5), of "b_size b + n"]
    have "take (b_size b) (take (b_cap b1) m) = b_bytes b" using m by (simp add: min_absorb1)
    with False m grow round_page_same show ?thesis by (simp add: step Let_def os_mremap_def)
  qed
qed

lemma emit_bytes_ok:
  assumes "buf_ok b" and "bs \<noteq> []"
  shows "\<exists>b'. emit_bytes True bs b = Inr b' \<and> buf_ok b' \<and> b_bytes b' = b_bytes b @ bs"
proof -
  obtain b' m where e: "emit_error True (length bs) b = Inr b'" "b_map b' = Some m" "b_size b' = b_size b + length bs"
      "b_size b' \<le> b_cap b'" "b_cap b' \<le> length m" "PAGESIZE dvd b_cap b'" "take (b_size b) m = b_bytes b"
    using emit_error_ok [OF assms(1), of "length bs"] assms(2) by auto
  moreover have "length (b_bytes b) = b_size b"
    using assms(1) by (auto simp: buf_ok_def b_bytes_def split: option.splits)
  ultimately show ?thesis
    by (auto simp: emit_bytes_def Let_def buf_ok_def overwrite_def b_bytes_def [of "b'\<lparr>b_map := _\<rparr>"])
qed

interpretation code: byte_buffer "\<lambda>b bs. emit_bytes True bs b" b_bytes buf_ok
  by unfold_locales (rule emit_bytes_ok)

definition fresh_buf :: cbuf where "fresh_buf = \<lparr>b_map = None, b_size = 0, b_cap = 0\<rparr>"

text \<open>C17: While the system gives memory, the code buffer is the concatenation of what was emitted, in
  order, inside its capacity, which is a whole number of pages and never more than is mapped, although
  the first mapping is made for the first chunk and not for the capacity that is recorded.\<close>

theorem code_buffer_appends:
  assumes "\<forall>bs \<in> set chunks. bs \<noteq> []"
  shows "\<exists>b. code.push_all fresh_buf chunks = Inr b \<and> b_bytes b = concat chunks \<and> buf_ok b"
  using code.push_all_ok [of fresh_buf, OF _ assms] by (auto simp: fresh_buf_def buf_ok_def b_bytes_def)

theorem code_buffer_appends_witness:
  "\<exists>b. code.push_all fresh_buf [replicate 5000 0x90, [0xC3]] = Inr b \<and> b_bytes b = replicate 5000 0x90 @ [0xC3]"
proof -
  have "\<forall>bs \<in> set [replicate 5000 (0x90 :: u8), [0xC3]]. bs \<noteq> []" by simp
  from code_buffer_appends [OF this] show ?thesis by auto
qed

section \<open>External libraries\<close>

text \<open>The names tried for an external library. One that ends in \<^verbatim>\<open>.so\<close> is tried as it is, five times:
  the version is written behind the terminator. Any other gets \<^verbatim>\<open>.so\<close>, then that with each version.\<close>

theorem external_names:
  assumes "NUL \<notin> set name" and "so_base name = Inr base"
  shows "map (so_name name base) so_suffixes =
    (if drop (length name - 3) name = ''.so'' then replicate 5 name
     else map (\<lambda>version. name @ ''.so'' @ version) ['''', ''.6'', ''.0'', ''.1'', ''.2''])"
proof -
  have tw: "takeWhile (\<lambda>c. c \<noteq> NUL) (name @ xs) = name @ takeWhile (\<lambda>c. c \<noteq> NUL) xs" for xs
    using assms(1) by (intro takeWhile_append2) auto
  have "takeWhile (\<lambda>c. c \<noteq> NUL) (take (length name) name @ xs) = name @ takeWhile (\<lambda>c. c \<noteq> NUL) xs" for xs
    by (simp add: tw)
  then show ?thesis
    using assms(2) by (auto simp: so_base_def Let_def so_name_def so_suffixes_def tw eval_nat_numeral split: if_splits)
qed

theorem external_names_witness:
  "map (so_name ''libc'' (''libc.so'' @ replicate 3 NUL)) so_suffixes = [''libc.so'', ''libc.so.6'', ''libc.so.0'', ''libc.so.1'', ''libc.so.2'']"
  using external_names [of "''libc''" "''libc.so'' @ replicate 3 NUL"] by (simp add: so_base_def)

section \<open>Symbols\<close>

lemma idToken_vars [simp]:
  "vars (snd (idToken st s)) = vars st" "vars_cap (snd (idToken st s)) = vars_cap st" "vars_map (snd (idToken st s)) = vars_map st"
  "scopes (snd (idToken st s)) = scopes st"
  by (simp_all add: idToken_def)



lemma varLookup_cong:
  assumes "vars st' = vars st" and "vars_cap st' = vars_cap st" and "vars_map st' = vars_map st" and "scopes st' = scopes st"
  shows "varLookup st' name sc = varLookup st name sc"
proof -
  have "varFind st' name sc = varFind st name sc" for sc
    using assms by (simp add: varFind_def)
  then have "varLookup_loop n st' name sc = varLookup_loop n st name sc" for n
    using assms(4) by (induction n arbitrary: sc) (simp_all split: option.splits cong: option.case_cong)
  then show ?thesis using assms(4) by (simp add: varLookup_def)
qed

lemma varLookup_None: "varLookup st name sc = Inr None \<Longrightarrow> varFind st name sc = Inr None"
  by (auto simp: varLookup_def res_simps split: option.splits)

lemma varLookup_here: "varFind st name sc = Inr (Some i) \<Longrightarrow> varLookup st name sc = Inr (Some i)"
  by (simp add: varLookup_def)

lemma put_new_lookup:
  assumes "vars_ok st" and "length (vars st) < 2 ^ 56" and "varLookup st name sc = Inr None"
  shows "\<exists>st'. putVar st name t val sc = Inr st' \<and> vars_ok st' \<and> scopes st' = scopes st \<and>
    vars st' = vars st @ [new_var name t val sc] \<and> varLookup st' name sc = Inr (Some (length (vars st)))"
proof -
  obtain cap tab where put: "putVar st name t val sc =
      Inr (st\<lparr>vars := vars st @ [new_var name t val sc], vars_cap := cap, vars_map := tab\<rparr>)"
      "vars_ok (st\<lparr>vars := vars st @ [new_var name t val sc], vars_cap := cap, vars_map := tab\<rparr>)" (is "vars_ok ?st'")
    using putVar_ok [OF assms(1,2)] by blast
  have none: "first_index ((=) (name, sc)) (var_keys st) = None"
    using vt.find_ok [OF assms(1), of "(name, sc)"] varLookup_None [OF assms(3)] by simp
  have "var_keys ?st' = var_keys st @ [(name, sc)]" "length (var_keys st) = length (vars st)"
    by (simp_all add: var_keys_def new_var_def var_key_def)
  then have "first_index ((=) (name, sc)) (var_keys ?st') = Some (length (vars st))"
    using none by (simp add: first_index_append)
  then have "varLookup ?st' name sc = Inr (Some (length (vars st)))"
    using vt.find_ok [OF put(2), of "(name, sc)"] by (intro varLookup_here) simp
  with put show ?thesis by auto
qed

text \<open>C37: The host's symbol table. A new symbol whose name is not a keyword is entered; it is then found
  under its name with its value and type, unless its type is \<^verbatim>\<open>void\<close>; and the name cannot be entered again.\<close>

theorem symbol_round_trip:
  assumes "vars_ok st" and "length (vars st) < 2 ^ 56" and "name \<noteq> []" and "map_of keyword_table name = None"
    and "varLookup st name 1 = Inr None"
  shows "\<exists>st'. cup_add_symbol name val t st = Inr (0, st') \<and>
    (\<exists>st''. cup_get_symbol name st' = Inr (if t = Some void_ref then None else Some (new_var name t val 1), st'')) \<and>
    (\<exists>st''. cup_add_symbol name val' t' st' = Inr (- 3, st''))"
proof -
  let ?st = "st\<lparr>tok := T_IDENTIFIER, tok_val := PStr name\<rparr>"
  have id: "idToken s name = (True, s\<lparr>tok := T_IDENTIFIER, tok_val := PStr name\<rparr>)" for s :: "'a symst_scheme"
    using assms(4) by (simp add: idToken_keywords)
  have "vars_ok ?st" using assms(1) by (simp add: vars_ok_def)
  moreover have none: "varLookup ?st name 1 = Inr None" using assms(5) varLookup_cong [of ?st st name 1] by simp
  ultimately obtain st' where put: "putVar ?st name t val 1 = Inr st'" "vars st' = vars st @ [new_var name t val 1]"
      "varLookup st' name 1 = Inr (Some (length (vars st)))"
    using put_new_lookup [of ?st name 1 t val] assms(2) by auto
  have again: "varLookup (st'\<lparr>tok := T_IDENTIFIER, tok_val := PStr name\<rparr>) name 1 = Inr (Some (length (vars st)))"
    using put(3) varLookup_cong [of "st'\<lparr>tok := T_IDENTIFIER, tok_val := PStr name\<rparr>" st' name 1] by simp
  have "cup_add_symbol name val t st = Inr (0, st')"
    using assms(3) id [of st] none put(1) by (simp add: cup_add_symbol_def)
  moreover have "\<exists>st''. cup_get_symbol name st' = Inr (if t = Some void_ref then None else Some (new_var name t val 1), st'')"
    using assms(3) id [of st'] again put(2) by (simp add: cup_get_symbol_def new_var_def)
  moreover have "\<exists>st''. cup_add_symbol name val' t' st' = Inr (- 3, st'')"
    using assms(3) id [of st'] again by (simp add: cup_add_symbol_def)
  ultimately show ?thesis by blast
qed

theorem symbol_round_trip_witness:
  "\<exists>st'. cup_add_symbol ''answer'' 42 (Some (TBase CUP_TYPE_INT)) two_scopes = Inr (0, st') \<and>
    (\<exists>st''. cup_get_symbol ''answer'' st' = Inr (Some (new_var ''answer'' (Some (TBase CUP_TYPE_INT)) 42 1), st''))"
proof -
  have st: "vars_ok two_scopes" "length (vars two_scopes) < 2 ^ 56"
    by (simp_all add: two_scopes_def sym_init_def vars_ok_def)
  have "varLookup two_scopes ''answer'' 1 = Inr None"
    by (simp add: varLookup_def varFind_def two_scopes_def sym_init_def)
  from symbol_round_trip [OF st _ _ this] show ?thesis by (fastforce simp: keyword_table_def)
qed

section \<open>Imports\<close>

text \<open>C38: An import returns only when the file cannot be opened, and then it does nothing. When the file is
  there, importing it never succeeds: compiling it stops the program in some way, or it returns a module
  and that is taken for the failure.\<close>

theorem import_returns_only_missing:
  assumes "token_literal st = Inr name" and "name \<noteq> []"
  shows "importModule (cup_compile_file (Suc n) w) st = Inr st' \<longleftrightarrow> w_read w name = None \<and> st' = st"
  using assms by (auto simp: importModule_def compile_file_with_def res_simps split: option.splits)

definition small_world :: world where
  "small_world = \<lparr>w_exe = Some ''/bin/cup'', w_read = (\<lambda>f. if f = ''m'' then Some ''1'' else None), w_same = (=),
     w_writable = (\<lambda>_. False), w_dlopen = (\<lambda>_. 0), w_dlsym = (\<lambda>_ _. 0), w_self = 0x7000, w_page = (\<lambda>_ _. 0x10000),
     w_vars = (\<lambda>_. 0x20000), w_data = (\<lambda>_. 0x30000), w_mem = (\<lambda>_ _. 0), w_gen = (\<lambda>_ _ _. (CUP_GEN_ERROR, [])),
     w_run = (\<lambda>_ st. Inr st)\<rparr>"

definition blank_cups :: cups where
  "blank_cups = parst.extend blank_state
     \<lparr>modules = [], externals = [], bytecode_path = None, code_path = None\<rparr>"

theorem import_returns_only_missing_witness:
  "importModule (cup_compile_file (Suc 0) small_world) (blank_cups\<lparr>tok_val := PVal 0, data_sec := ''m'' @ [NUL]\<rparr>) \<noteq>
     Inr (blank_cups\<lparr>tok_val := PVal 0, data_sec := ''m'' @ [NUL]\<rparr>)"
  using import_returns_only_missing [of "blank_cups\<lparr>tok_val := PVal 0, data_sec := ''m'' @ [NUL]\<rparr>" "''m''" 0 small_world]
  by (simp add: token_literal_def literal_def getData_def small_world_def)

section \<open>Parsing a text\<close>

text \<open>Signatures enter well-formed types only.\<close>

lemma parse_stars_ok:
  "types_ok ts \<Longrightarrow> ref_ok (length ts) b \<Longrightarrow> ensures (parse_stars ts b p) (\<lambda>(r, _, ts'). types_ok ts' \<and> prefix ts ts' \<and> ref_ok (length ts') r)"
proof (induction p arbitrary: ts b)
  case (Cons c cs)
  show ?case
  proof (cases "c = CHR ''*''")
    case True
    have "ensures (rbind (cup_type ts CUP_TYPE_POINTER 8 (DSlots [SType b])) (\<lambda>(b, ts). parse_stars ts b cs))
        (\<lambda>(r, _, ts'). types_ok ts' \<and> prefix ts ts' \<and> ref_ok (length ts') r)"
    proof (rule cup_type_step [OF Cons.prems(1)])
      show "data_ok ts (DSlots [SType b])" using Cons.prems(2) by (simp add: data_ok_def slot_ok_def)
      fix t ts' assume t: "types_ok ts'" "prefix ts ts'" "ref_ok (length ts') t"
      from Cons.IH [OF t(1,3)] show "ensures (parse_stars ts' t cs) (\<lambda>(r, _, ts''). types_ok ts'' \<and> prefix ts ts'' \<and> ref_ok (length ts'') r)"
        by (rule ensures_mono) (use t(2) prefix_order.trans in auto)
    qed
    with True show ?thesis by simp
  qed (use Cons.prems in simp)
qed simp

lemma parse_one_ok:
  assumes "types_ok ts"
  shows "ensures (parse_one_type ts p) (\<lambda>(r, _, ts'). types_ok ts' \<and> prefix ts ts' \<and> type_known ts' r)"
proof -
  have ptr: "ensures (rbind (cup_type ts CUP_TYPE_POINTER 8 (DSlots [SType (TBase CUP_TYPE_UINT8)])) (\<lambda>(r, ts). Inr (Some r, rest, ts)))
      (\<lambda>(r, _, ts'). types_ok ts' \<and> prefix ts ts' \<and> type_known ts' r)" for rest :: string
    by (rule cup_type_step [OF assms]) (auto simp: data_ok_def slot_ok_def ref_ok_def is_basic_def type_known_def)
  have basic: "is_basic k" if "type_code code = Some k" for code k
    using that by (auto simp: type_code_def is_basic_def split: if_splits)
  have "ensures (rbind (parse_stars ts (TBase k) rest) (\<lambda>(b, rest, ts). Inr (Some b, rest, ts)))
      (\<lambda>(r, _, ts'). types_ok ts' \<and> prefix ts ts' \<and> type_known ts' r)" if "is_basic k" for k rest
    by (rule ensures_bindI [OF parse_stars_ok [OF assms]]) (use that in \<open>auto simp: ref_ok_def type_known_def\<close>)
  then show ?thesis using ptr basic assms by (auto simp: parse_one_type_def Let_def type_known_def split: option.split)
qed

lemma parse_args_ok:
  "types_ok ts \<Longrightarrow> \<forall>r \<in> set args. ref_ok (length ts) r \<Longrightarrow>
   ensures (parse_args n ts p args) (\<lambda>(rs, _, ts'). types_ok ts' \<and> prefix ts ts' \<and> (\<forall>r \<in> set rs. ref_ok (length ts') r))"
proof (induction n arbitrary: ts p args)
  case (Suc n)
  show ?case
    unfolding parse_args.simps
  proof (rule ensures_bindI [OF parse_one_ok [OF Suc.prems(1)]], clarify)
    fix a p' ts1 assume a: "types_ok ts1" "prefix ts ts1" "type_known ts1 a"
    have known: "\<forall>r \<in> set (args @ [x]). ref_ok (length ts1) r" if "a = Some x" for x
      using that a Suc.prems(2) prefix_length_le [OF a(2)] by (auto simp: type_known_def intro: ref_ok_mono)
    have rec: "ensures (parse_args n ts1 q (args @ [x])) (\<lambda>(rs, _, ts'). types_ok ts' \<and> prefix ts ts' \<and> (\<forall>r \<in> set rs. ref_ok (length ts') r))"
      if "a = Some x" for x q
      by (rule ensures_mono [OF Suc.IH [OF a(1) known [OF that]]]) (use a(2) prefix_order.trans in auto)
    show "ensures (case a of
         None \<Rightarrow> Inl (Exit 1)
       | Some a \<Rightarrow>
           if cur p' = CHR '','' then parse_args n ts1 (drop 1 p') (args @ [a])
           else if cur p' = CHR '')'' then Inr (args @ [a], p', ts1)
           else parse_args n ts1 p' (args @ [a])) (\<lambda>(rs, _, ts'). types_ok ts' \<and> prefix ts ts' \<and> (\<forall>r \<in> set rs. ref_ok (length ts') r))"
      using rec known a by (auto split: option.split)
  qed
qed simp

lemma void_known: "ref_ok n void_ref"
  by (simp add: ref_ok_def is_basic_def)

lemma cup_type_parse_ok:
  assumes "types_ok ts"
  shows "ensures (cup_type_parse ts sig) (\<lambda>(r, ts'). types_ok ts' \<and> prefix ts ts' \<and> type_known ts' r)"
  unfolding cup_type_parse_def
proof (rule ensures_bindI [OF parse_one_ok [OF assms]], clarify)
  fix ret p ts1 assume r: "types_ok ts1" "prefix ts ts1" "type_known ts1 ret"
  let ?data = "\<lambda>args. DSlots ((case ret of None \<Rightarrow> SNull | Some r \<Rightarrow> SType r) # map SType args @ [SType void_ref] @
                   replicate (UINT8_MAX - (length args + 2)) SNull)"
  have made: "ensures (rbind (guard (length args + 1 < UINT8_MAX) Undef) (\<lambda>_.
       rbind (cup_type ts2 CUP_TYPE_FUNCTION (of_nat (length args + 1)) (?data args)) (\<lambda>(r, ts). Inr (Some r, ts))))
      (\<lambda>(r, ts'). types_ok ts' \<and> prefix ts ts' \<and> type_known ts' r)"
    if t: "types_ok ts2" "prefix ts1 ts2" "\<forall>r \<in> set args. ref_ok (length ts2) r" for args ts2
  proof (cases "length args + 1 < UINT8_MAX")
    case True
    have "data_ok ts2 (?data args)"
      using t r(3) prefix_length_le [OF t(2)] void_known
      by (auto simp: data_ok_def slot_ok_def type_known_def intro: ref_ok_mono split: option.split)
    then show ?thesis
      using True by simp (rule cup_type_step [OF t(1)], use r(2) t(2) in \<open>auto simp: type_known_def intro: prefix_order.trans\<close>)
  qed simp
  have args: "ensures (if cur q \<noteq> CHR '')'' then parse_args (UINT8_MAX - 1) ts1 q [] else Inr ([], q, ts1))
      (\<lambda>(rs, _, ts'). types_ok ts' \<and> prefix ts1 ts' \<and> (\<forall>r \<in> set rs. ref_ok (length ts') r))" for q
    using parse_args_ok [OF r(1), of "[]"] r(1) by simp
  show "ensures (if cur p = CHR ''('' then
         (let p = drop 1 p
          in rbind (if cur p \<noteq> CHR '')'' then parse_args (UINT8_MAX - 1) ts1 p [] else Inr ([], p, ts1))
               (\<lambda>(args, p, ts).
             rbind (guard (length args + 1 < UINT8_MAX) Undef) (\<lambda>_.
             rbind (cup_type ts CUP_TYPE_FUNCTION (of_nat (length args + 1)) (?data args)) (\<lambda>(r, ts). Inr (Some r, ts)))))
       else if cur p = CHR 0x00 then Inr (ret, ts1) else Inl (Exit 1)) (\<lambda>(r, ts'). types_ok ts' \<and> prefix ts ts' \<and> type_known ts' r)"
  proof (cases "cur p = CHR ''(''")
    case True
    have "ensures (rbind (if cur q \<noteq> CHR '')'' then parse_args (UINT8_MAX - 1) ts1 q [] else Inr ([], q, ts1))
               (\<lambda>(args, p, ts).
             rbind (guard (length args + 1 < UINT8_MAX) Undef) (\<lambda>_.
             rbind (cup_type ts CUP_TYPE_FUNCTION (of_nat (length args + 1)) (?data args)) (\<lambda>(r, ts). Inr (Some r, ts)))))
          (\<lambda>(r, ts'). types_ok ts' \<and> prefix ts ts' \<and> type_known ts' r)" for q
    proof (rule ensures_bindI [OF args])
      fix x :: "tref list \<times> string \<times> types"
      obtain as q' ts2 where x: "x = (as, q', ts2)" by (cases x)
      assume "case x of (rs, _, ts') \<Rightarrow> types_ok ts' \<and> prefix ts1 ts' \<and> (\<forall>r \<in> set rs. ref_ok (length ts') r)"
      then show "ensures (case x of (args, p, ts) \<Rightarrow>
             rbind (guard (length args + 1 < UINT8_MAX) Undef) (\<lambda>_.
             rbind (cup_type ts CUP_TYPE_FUNCTION (of_nat (length args + 1)) (?data args)) (\<lambda>(r, ts). Inr (Some r, ts))))
          (\<lambda>(r, ts'). types_ok ts' \<and> prefix ts ts' \<and> type_known ts' r)"
        unfolding x prod.case by (intro made) simp_all
    qed
    with True show ?thesis by (simp add: Let_def)
  qed (use r in simp)
qed

lemma literal_ensures: "ensures (token_literal st) (\<lambda>_. True)" "ensures (literal st i) (\<lambda>_. True)"
  by (auto simp: token_literal_def literal_def split: payload.split option.split)

lemma add_external:
  assumes "par_ok st"
  shows "adv st (st\<lparr>externals := hs\<rparr>)"
  using assms lex_ok_cong [of "st\<lparr>externals := hs\<rparr>" st] vars_ok_cong [of "st\<lparr>externals := hs\<rparr>" st] scopes_ok_cong [of "st\<lparr>externals := hs\<rparr>" st]
  by (simp add: adv_def par_ok_def to_read_def)

lemma externalModule_ok:
  assumes "par_ok st"
  shows "ensures (externalModule w st) (\<lambda>st'. adv st st' \<and> tok st' = tok st)"
  unfolding externalModule_def
proof (rule ensures_bindI [OF literal_ensures(1)])
  fix name
  have base: "ensures (so_base name) (\<lambda>_. True)" by (simp add: so_base_def Let_def)
  show "ensures (rbind (so_base name) (\<lambda>base.
       case find (\<lambda>h. h \<noteq> 0) (map (\<lambda>s. w_dlopen w (so_name name base s)) so_suffixes) of
         None \<Rightarrow> Inl (Exit 1)
       | Some h \<Rightarrow> Inr (st\<lparr>externals := externals st @ [h]\<rparr>))) (\<lambda>st'. adv st st' \<and> tok st' = tok st)"
    by (rule ensures_bindI [OF base]) (simp add: add_external [OF assms] split: option.split)
qed

lemma externalSymbol_ok:
  assumes "par_ok st"
  shows "ensures (externalSymbol w st name i) (\<lambda>st'. adv st st' \<and> tok st' = tok st)"
proof -
  have types: "par_ok (st\<lparr>types := ts\<rparr>) \<and> adv st (st\<lparr>types := ts\<rparr>)" if "types_ok ts" for ts
    using assms that lex_ok_cong [of "st\<lparr>types := ts\<rparr>" st] vars_ok_cong [of "st\<lparr>types := ts\<rparr>" st] scopes_ok_cong [of "st\<lparr>types := ts\<rparr>" st]
    by (simp add: adv_def par_ok_def to_read_def)
  have enter: "ensures (rbind (varLookup (st\<lparr>types := ts\<rparr>) name 1) (\<lambda>v.
            if v \<noteq> None then Inl (Exit 1) else putVar (st\<lparr>types := ts\<rparr>) name t f 0)) (\<lambda>st'. adv st st' \<and> tok st' = tok st)"
    if "types_ok ts" for ts t f
  proof (rule ensures_bindI)
    show "ensures (varLookup (st\<lparr>types := ts\<rparr>) name 1) (\<lambda>_. True)"
      by (rule ensures_mono [OF varLookup_any]) (use types [OF that] in \<open>auto simp: par_ok_def\<close>)
    let ?st = "st\<lparr>types := ts\<rparr>"
    have par: "par_ok ?st" and adv: "adv st ?st" using types [OF that] by simp_all
    have "ensures (putVar ?st name t f 0) (\<lambda>st'. adv st st' \<and> tok st' = tok st)"
    proof (rule ensures_mono [OF putVar_adv [OF par]], elim conjE)
      fix st' assume "adv ?st st'" "tok st' = tok ?st"
      then show "adv st st' \<and> tok st' = tok st" using adv_trans [OF adv] by simp
    qed
    then show "ensures (if v \<noteq> None then Inl (Exit 1) else putVar ?st name t f 0) (\<lambda>st'. adv st st' \<and> tok st' = tok st)" for v
      by simp
  qed
  have "types_ok (types st)" using assms by (simp add: par_ok_def)
  note sig = cup_type_parse_ok [OF this]
  show ?thesis
  proof (cases "find (\<lambda>f. f \<noteq> 0) (map (\<lambda>h. w_dlsym w h name) (externals st))")
    case (Some f)
    have "ensures (rbind (literal st i) (\<lambda>sig.
          rbind (cup_type_parse (types st) sig) (\<lambda>(t, ts).
          rbind (varLookup (st\<lparr>types := ts\<rparr>) name 1) (\<lambda>v.
            if v \<noteq> None then Inl (Exit 1) else putVar (st\<lparr>types := ts\<rparr>) name t f 0)))) (\<lambda>st'. adv st st' \<and> tok st' = tok st)"
      by (rule ensures_bindI [OF literal_ensures(2)], rule ensures_bind_pairI [OF sig]) (use enter in blast)
    then show ?thesis by (simp add: externalSymbol_def Some)
  qed (simp add: externalSymbol_def)
qed

text \<open>With no file to import, the hooks of the compiler keep what the parser relies on.\<close>

interpretation offline: parser_env "cup_hooks (Suc k) (w\<lparr>w_read := \<lambda>_. None\<rparr>)" for k w
proof unfold_locales
  fix st :: cups and name i assume st: "par_ok st"
  let ?hk = "cup_hooks (Suc k) (w\<lparr>w_read := \<lambda>_. None\<rparr>)"
  have "compile_file_with (w\<lparr>w_read := \<lambda>_. None\<rparr>) hk name st = Inr (None, st)" for hk name
    by (simp add: compile_file_with_def)
  then show "ensures (import_module ?hk st) (\<lambda>st'. adv st st' \<and> tok st' = tok st)"
    using st by (auto simp: cup_hooks_def hooks_with_def importModule_def adv_refl intro!: ensures_bindI [OF literal_ensures(1)])
  show "ensures (external_module ?hk st) (\<lambda>st'. adv st st' \<and> tok st' = tok st)"
    using externalModule_ok [OF st] by (simp add: cup_hooks_def hooks_with_def)
  show "ensures (external_symbol ?hk st name i) (\<lambda>st'. adv st st' \<and> tok st' = tok st)"
    using externalSymbol_ok [OF st] by (simp add: cup_hooks_def hooks_with_def)
qed

lemma parse_statements_ok:
  fixes w :: world and k :: nat
  defines "hk \<equiv> cup_hooks (Suc k) (w\<lparr>w_read := \<lambda>_. None\<rparr>)"
  shows "par_ok st \<Longrightarrow> to_read st < n \<Longrightarrow>
    ensures (parse_statements n hk count cs st) (\<lambda>(_, _, st'). par_ok st' \<and> tok st' = T_EOF)"
proof (induction n arbitrary: count cs st)
  case (Suc n)
  show ?case
  proof (cases "tok st = T_EOF")
    case False
    have "ensures (statement (primary hk (Suc (to_read st))) st) (\<lambda>(x, st'). adv1 st st')"
      unfolding hk_def by (rule offline.statement_returns [OF Suc.prems(1)]) simp
    then have "ensures (rbind (statement (primary hk (Suc (to_read st))) st) (\<lambda>(x, st).
          parse_statements n hk (if x \<noteq> [] then count + 1 else count) (cs @ x) st)) (\<lambda>(_, _, st'). par_ok st' \<and> tok st' = T_EOF)"
      by (rule ensures_bind_pairI) (use Suc in \<open>auto simp: adv1_def\<close>)
    with False show ?thesis by simp
  qed (use Suc.prems in simp)
qed simp



section \<open>The compiler's own variable\<close>

lemma cup_new_state:
  "\<exists>st. cup_new w = Inr st \<and> par_ok st \<and> scope st = 1 \<and> scopes st = [None, Some 0] \<and>
     types st = [\<lparr>ct_kind = CUP_TYPE_META, ct_align = 0, ct_size = 0, ct_body = BMeta 0\<rparr>] \<and>
     vars st = [new_var ''$'' (Some (THeap 0)) (w_self w) 1] \<and> varLookup st ''$'' 1 = Inr (Some 0) \<and> data_sec st = []"
proof -
  let ?ts = "[\<lparr>ct_kind = CUP_TYPE_META, ct_align = 0, ct_size = 0, ct_body = BMeta 0\<rparr>]"
  have meta: "cup_typemeta [] 0 (Some 0) = Inr (THeap 0, ?ts)"
    by (simp add: cup_typemeta_def cup_type_def numeral_2_eq_2 cup_type_rec.simps cup_type_get_def is_basic_def newtype_def)
  define st0 :: cups where "st0 = \<lparr>input_stream = [], priv_stream = None, tok = T_IDENTIFIER, loc_col = 0, loc_line = 0, tok_val = PStr ''$'',
     data_sec = [], scopes = [None, Some 0], scope = 1, vars = [], vars_cap = 0, vars_map = [], types = ?ts,
     temp = replicate (TEMP_CAP div 8) SNull, modules = [], externals = [], bytecode_path = None, code_path = None\<rparr>"
  have none: "varLookup st0 ''$'' 1 = Inr None" by (simp add: varLookup_def varFind_def st0_def)
  have vars: "vars_ok st0" by (simp add: vars_ok_def st0_def)
  obtain cap tab where put: "putVar st0 ''$'' (Some (THeap 0)) (w_self w) 1 =
      Inr (st0\<lparr>vars := vars st0 @ [new_var ''$'' (Some (THeap 0)) (w_self w) 1], vars_cap := cap, vars_map := tab\<rparr>)"
      and ok: "vars_ok (st0\<lparr>vars := vars st0 @ [new_var ''$'' (Some (THeap 0)) (w_self w) 1], vars_cap := cap, vars_map := tab\<rparr>)"
        (is "vars_ok ?st")
    using putVar_ok [OF vars, of "''$''" "Some (THeap 0)" "w_self w" 1] by (auto simp: st0_def)
  have "cup_new w = Inr ?st"
    using none put by (simp add: cup_new_def Let_def meta cup_add_symbol_def idToken_def st0_def)
  moreover have "varLookup ?st ''$'' 1 = Inr (Some 0)"
    using put_new_lookup [OF vars _ none, of "Some (THeap 0)" "w_self w"] put by (simp add: st0_def)
  moreover have "par_ok ?st"
    using ok by (simp add: par_ok_def lex_ok_def scopes_ok_def st0_def types_ok_def ctype_ok_def temp_ok_def TEMP_CAP_def less_Suc_eq)
  ultimately show ?thesis by (intro exI [of _ ?st]) (simp add: st0_def)
qed

text \<open>C35: A new compiler state is well formed for the parser and for the resolver, whose contract the
  built-in callback of \<^verbatim>\<open>$\<close> keeps.\<close>

theorem cup_new_well_formed:
  assumes "\<forall>k op a. \<forall>r \<in> set (snd (w_gen w k op a)). report_ok 1 r"
  shows "\<exists>st. cup_new w = Inr st \<and> par_ok st \<and> resolver_ok (renv_of w st) (parst.truncate st)"
proof -
  obtain st where st: "cup_new w = Inr st" "par_ok st" "scope st = 1" "scopes st = [None, Some 0]"
      "types st = [\<lparr>ct_kind = CUP_TYPE_META, ct_align = 0, ct_size = 0, ct_body = BMeta 0\<rparr>]"
      "vars st = [new_var ''$'' (Some (THeap 0)) (w_self w) 1]" "varLookup st ''$'' 1 = Inr (Some 0)" "data_sec st = []"
    using cup_new_state by blast
  have "report_ok 1 r" if "r \<in> set (snd (meta_this op a))" for r op a
    using that by (auto simp: meta_this_def report_ok_def ref_ok_def is_basic_def split: meta_op.splits if_splits)
  then have "callbacks_ok (renv_of w st) 1"
    using assms by (auto simp: callbacks_ok_def renv_of_def callbacks_def)
  moreover have "vars_ok (parst.truncate st)" "scopes_ok ((parst.truncate st)\<lparr>scope := 0\<rparr>)"
    using st(2,4) by (simp_all add: par_ok_def parst.truncate_def vars_ok_def scopes_ok_def)
  ultimately show ?thesis
    using st by (auto simp: resolver_ok_def parst.truncate_def types_ok_def ctype_ok_def type_known_def ref_ok_def new_var_def)
qed

theorem cup_new_well_formed_witness:
  "\<exists>st. cup_new small_world = Inr st \<and> par_ok st \<and> resolver_ok (renv_of small_world st) (parst.truncate st)"
  by (rule cup_new_well_formed) (simp add: small_world_def)

lemma this_member_resolves:
  assumes "varLookup st ''$'' 1 = Inr (Some 0)" and "scope st = 0"
    and "types st = [\<lparr>ct_kind = CUP_TYPE_META, ct_align = 0, ct_size = 0, ct_body = BMeta 0\<rparr>]"
    and "vars st = [new_var ''$'' (Some (THeap 0)) self 1]"
    and "(field, off) \<in> {(''scope'', 56), (''data_size'', 72)}"
  shows "resolve (renv_of w st) st [CTok N_BLOCK 1 1, CPay (PVal 1), CTok T_DOT c l, CTok T_THIS c1 l1, CTok N_VARIABLE c2 l2, CPay (PStr field)] =
    Inr (False, [CTok N_BLOCK 1 1, CPay (PVal 1), CTok N_ADDRESS c l, CPay (PVal (self + off))], st\<lparr>scope := 1\<rparr>)"
proof -
  have "varLookup (st\<lparr>scope := Suc 0\<rparr>) ''$'' (Suc 0) = Inr (Some 0)"
    using assms(1) varLookup_scope [where st = st and k = "Suc 0" and name = "''$''"] by simp
  then show ?thesis
    using assms(2-5)
    by (auto simp: resolve_def infer_node_def nextNode_def copyValue_def push_cells_def defFor_def dot_def apart_def infer_this_def
        dot_member_def var_ctype_def metaApply_def metaGen_def renv_of_def callbacks_def meta_this_def OFF_scope_def OFF_data_size_def
        cup_gen_address_def pushAddress_def pushNode2_def item_value_def fnblock_def new_var_def deref_def Let_def split: if_splits)
qed



end
