(* ===== verification/Cup_Main.thy ===== *)
theory Cup_Main
  imports Cup_Module
begin

text \<open>
  The command line program \<^verbatim>\<open>src/main.c\<close> on top of the compiler: the symbols it gives to programs,
  the callbacks of its meta types \<^verbatim>\<open>printf\<close> and \<^verbatim>\<open>sizeof\<close>, its options, and the dump of machine code
  that \<^verbatim>\<open>src/moduler.c\<close> writes for it. What it prints is a list of events.
\<close>

section \<open>The dump of the code\<close>

definition hex_digit :: "nat \<Rightarrow> char" where "hex_digit n = ''0123456789ABCDEF'' ! n"

definition hex_byte :: "u8 \<Rightarrow> string" where
  "hex_byte b = [hex_digit (unat b div 16), hex_digit (unat b mod 16), CHR '' '']"

primrec dump_bytes :: "nat \<Rightarrow> bytes \<Rightarrow> string" where
  "dump_bytes i [] = (if i mod 16 \<noteq> 0 then [CHR 0x0A] else [])"
| "dump_bytes i (b # bs) = hex_byte b @ (if (i + 1) mod 16 = 0 then [CHR 0x0A] else []) @ dump_bytes (i + 1) bs"

definition printInstructions :: "bytes \<Rightarrow> string" where "printInstructions bs = dump_bytes 0 bs"

text \<open>The file that is written, and its text; no module, or a file that cannot be opened, writes nothing.\<close>

definition cup_write_code :: "world \<Rightarrow> cups \<Rightarrow> nat option \<Rightarrow> (string \<times> string) option" where
  "cup_write_code w st m =
     (case m of
        None \<Rightarrow> None
      | Some i \<Rightarrow>
          (let filename = (case code_path st of Some p \<Rightarrow> p | None \<Rightarrow> mod_path (modules st ! i) @ ''.bin'')
           in if w_writable w filename then Some (filename, printInstructions (mod_code (modules st ! i))) else None))"

text \<open>The bytes can be read off the dump.\<close>

definition hex_value :: "char \<Rightarrow> nat" where
  "hex_value c = (let n = of_char c in if n < 58 then n - 48 else n - 55)"

fun read_dump :: "string \<Rightarrow> nat list" where
  "read_dump (c # d # s) =
     (if c = CHR 0x0A \<or> c = CHR '' '' then read_dump (d # s) else (hex_value c * 16 + hex_value d) # read_dump s)"
| "read_dump _ = []"

lemma hex_digit_value: "n < 16 \<Longrightarrow> hex_value (hex_digit n) = n \<and> hex_digit n \<noteq> CHR 0x0A \<and> hex_digit n \<noteq> CHR '' ''"
  by (auto simp: less_Suc_eq numeral_eq_Suc hex_digit_def hex_value_def)

lemma read_blank: "c = CHR 0x0A \<or> c = CHR '' '' \<Longrightarrow> read_dump (c # s) = read_dump s"
  by (cases s) auto

lemma dump_read: "read_dump (dump_bytes i bs) = map unat bs"
proof (induction bs arbitrary: i)
  case Nil
  then show ?case by simp
next
  case (Cons b bs)
  have "unat b div 16 < 16" using unsigned_less [of b, where 'a = nat] by (simp add: less_mult_imp_div_less)
  then have "hex_value (hex_digit (unat b div 16)) * 16 + hex_value (hex_digit (unat b mod 16)) = unat b"
    "hex_digit (unat b div 16) \<noteq> CHR 0x0A" "hex_digit (unat b div 16) \<noteq> CHR '' ''"
    using hex_digit_value [of "unat b div 16"] hex_digit_value [of "unat b mod 16"] by simp_all
  then show ?case using Cons.IH [of "Suc i"] by (simp add: hex_byte_def read_blank)
qed

section \<open>Meta types\<close>

definition get_size_wrapper_meta :: "types \<Rightarrow> meta_op \<Rightarrow> (gen_result \<times> report list) res" where
  "get_size_wrapper_meta ts op =
     (case op of
        CUP_MOP_CALL args \<Rightarrow>
          (if length args \<noteq> 1 then Inr (CUP_GEN_ERROR, [])
           else case fst (hd args) of
             None \<Rightarrow> Inr (CUP_GEN_ERROR, [])
           | Some t \<Rightarrow>
               rbind (deref ts t) (\<lambda>c.
                 Inr (CUP_GEN_DONE, [GValue (if ct_kind c = CUP_TYPE_INT then 8 else 0) (Some (TBase CUP_TYPE_INT))])))
      | _ \<Rightarrow> Inr (CUP_GEN_ERROR, []))"

definition is_text :: "types \<Rightarrow> tref \<Rightarrow> bool res" where
  "is_text ts t =
     rbind (deref ts t) (\<lambda>c.
       if ct_kind c \<noteq> CUP_TYPE_ARRAY then Inr False
       else case ct_body c of
              BArr e \<Rightarrow> rbind (deref ts e) (\<lambda>x. Inr (ct_kind x = CUP_TYPE_UINT8))
            | _ \<Rightarrow> Inl Undef)"

definition type_slot :: "tref option \<times> u64 \<Rightarrow> slot" where
  "type_slot a = (case fst a of None \<Rightarrow> SNull | Some t \<Rightarrow> SType t)"

definition call_printf :: "u64 \<Rightarrow> (tref option \<times> u64) list \<Rightarrow> (gen_result \<times> report list) res" where
  "call_printf printf args =
     (if length args + 1 \<ge> 255 then Inl Abort
      else Inr (CUP_GEN_DONE, [GCall printf (of_nat (length args)) (SType void_ref # map type_slot args @ [SType void_ref])]))"

text \<open>\<open>text_at\<close> is the string at an address of the program's data.\<close>

definition printf_wrapper_meta ::
  "u64 \<Rightarrow> (u64 \<Rightarrow> string res) \<Rightarrow> types \<Rightarrow> meta_op \<Rightarrow> (gen_result \<times> report list) res" where
  "printf_wrapper_meta printf text_at ts op =
     (case op of
        CUP_MOP_CALL args \<Rightarrow>
          (case args of
             [] \<Rightarrow> call_printf printf args
           | (t, v) # _ \<Rightarrow>
               if v = 0 then Inr (CUP_GEN_ERROR, [])
               else case t of
                 None \<Rightarrow> Inl Undef
               | Some t \<Rightarrow>
                   rbind (is_text ts t) (\<lambda>ok.
                     if \<not> ok then Inr (CUP_GEN_ERROR, [])
                     else rbind (text_at v) (\<lambda>format.
                       if 1 + length (filter (\<lambda>c. c = CHR ''%'') format) \<noteq> length args then Inr (CUP_GEN_ERROR, [])
                       else call_printf printf args)))
      | _ \<Rightarrow> Inr (CUP_GEN_ERROR, []))"

text \<open>Both keep the contract of the callbacks: what they report is known to the table.\<close>

lemma get_size_reports_ok:
  "get_size_wrapper_meta ts op = Inr (r, reports) \<Longrightarrow> x \<in> set reports \<Longrightarrow> report_ok (length ts) x"
  by (auto simp: get_size_wrapper_meta_def report_ok_def ref_ok_def is_basic_def res_simps split: meta_op.splits if_splits option.splits)

lemma printf_reports_ok:
  assumes "printf_wrapper_meta printf text_at ts (CUP_MOP_CALL args) = Inr (r, reports)" and "x \<in> set reports"
    and "\<forall>a \<in> set args. \<forall>t. fst a = Some t \<longrightarrow> ref_ok (length ts) t"
  shows "report_ok (length ts) x"
proof -
  have "call_printf printf args = Inr (r, reports)"
    using assms(1,2) by (auto simp: printf_wrapper_meta_def res_simps split: list.splits if_splits option.splits)
  then show ?thesis
    using assms(2,3) by (auto simp: call_printf_def report_ok_def slot_ok_def type_slot_def ref_ok_def is_basic_def
      split: if_splits option.splits)
qed

section \<open>The symbols of the host\<close>

text \<open>Callbacks 1 and 2 are \<^verbatim>\<open>printf_wrapper_meta\<close> and \<^verbatim>\<open>get_size_wrapper_meta\<close>.\<close>

record host =
  h_print :: u64
  h_print2 :: u64
  h_print3 :: u64

definition host_types :: "types \<Rightarrow> ((tref \<times> tref \<times> tref \<times> tref \<times> tref) \<times> types) res" where
  "host_types ts =
     rbind (cup_type ts CUP_TYPE_FUNCTION 1 (DSlots [SType (TBase CUP_TYPE_INT), SType (TBase CUP_TYPE_INT)])) (\<lambda>(ft, ts).
     rbind (cup_type ts CUP_TYPE_FUNCTION 2
              (DSlots [SType (TBase CUP_TYPE_INT), SType (TBase CUP_TYPE_INT), SType ft])) (\<lambda>(ft2, ts).
     rbind (cup_type ts CUP_TYPE_FUNCTION 0 (DSlots [SType (TBase CUP_TYPE_UINT8)])) (\<lambda>(ft3_p, ts).
     rbind (cup_type ts CUP_TYPE_FUNCTION 1 (DSlots [SType void_ref, SType ft3_p])) (\<lambda>(ft3, ts).
     rbind (cup_typemeta ts 0 (Some 1)) (\<lambda>(gent, ts).
     rbind (cup_typemeta ts 0 (Some 2)) (\<lambda>(gent2, ts).
       Inr ((ft, ft2, ft3, gent, gent2), ts)))))))"

primrec add_symbols :: "(string \<times> u64 \<times> tref) list \<Rightarrow> cups \<Rightarrow> cups res" where
  "add_symbols [] st = Inr st"
| "add_symbols (s # ss) st =
     (let (name, v, t) = s in rbind (cup_add_symbol name v (Some t) st) (\<lambda>(_, st). add_symbols ss st))"

definition host_symbols :: "host \<Rightarrow> cups \<Rightarrow> cups res" where
  "host_symbols h st =
     rbind (host_types (types st)) (\<lambda>((ft, ft2, ft3, gent, gent2), ts).
       add_symbols [(''printf'', 0, gent), (''sizeof'', 0, gent2), (''print'', h_print h, ft), (''print2'', h_print2 h, ft2),
         (''print3'', h_print3 h, ft3), (''main'', 0, void_ref), (''x'', 277, TBase CUP_TYPE_INT)] (st\<lparr>types := ts\<rparr>))"

section \<open>Options\<close>

datatype event =
    Usage
  | Version int int
  | Missing_argument string
  | Unknown_option string
  | Not_compiled string
  | No_input
  | Ok
  | Array_a u64 "(u64 \<times> u64) option"
  | Called string u64 u64
  | Listed string "tref option" u64 nat
  | Wrote string string

datatype options_end = Failed event | Parsed u32 "event list" cups

definition is_option :: "string list \<Rightarrow> string \<Rightarrow> bool" where "is_option names a = (a \<in> set names)"

definition opt_bytecode :: "string list" where "opt_bytecode = [''-b'', ''--bytecode'']"
definition opt_code :: "string list" where "opt_code = [''-i'', ''--instructions'']"
definition opt_help :: "string list" where "opt_help = [''-?'', ''-h'', ''--help'']"
definition opt_version :: "string list" where "opt_version = [''-v'', ''--version'']"

fun main_args :: "nat \<Rightarrow> world \<Rightarrow> string list \<Rightarrow> u32 \<Rightarrow> string option \<Rightarrow> event list \<Rightarrow> cups \<Rightarrow> options_end res" where
  "main_args n w [] fl instructions out st = Inr (Parsed fl out st)"
| "main_args n w (a # rest) fl instructions out st =
     (if is_option opt_bytecode a then
        (case rest of
           [] \<Rightarrow> Inr (Failed (Missing_argument a))
         | p # rest \<Rightarrow> main_args n w rest fl instructions out (snd (cup_bytecode_path (Some p) st)))
      else if is_option opt_code a then
        (case rest of
           [] \<Rightarrow> Inr (Failed (Missing_argument a))
         | p # rest \<Rightarrow> main_args n w rest fl (Some p) out (snd (cup_code_path (Some p) st)))
      else if is_option opt_help a then
        main_args n w rest (fl AND NOT 1 OR 2) instructions out st
      else if is_option opt_version a then
        main_args n w rest (fl AND NOT 1 OR 4) instructions out st
      else if a \<noteq> [] \<and> hd a = CHR ''-'' then Inr (Failed (Unknown_option a))
      else
        rbind (cup_compile_file n w a st) (\<lambda>(m, st).
          if m = None then Inr (Failed (Not_compiled a))
          else main_args n w rest (fl AND NOT 1) instructions
            (out @ (case (if instructions = None then None else cup_write_code w st m) of None \<Rightarrow> [] | Some (p, t) \<Rightarrow> [Wrote p t])) st))"

text \<open>\<open>invoke\<close> runs a compiled function.\<close>

definition call_symbol :: "(u64 \<Rightarrow> cups \<Rightarrow> (u64 \<times> cups) res) \<Rightarrow> string \<Rightarrow> cvar option \<Rightarrow> cups \<Rightarrow> (event list \<times> cups) res" where
  "call_symbol invoke name v st =
     (case v of
        None \<Rightarrow> Inr ([], st)
      | Some x \<Rightarrow> rbind (invoke (var_value x) st) (\<lambda>(r, st). Inr ([Called name (var_value x) r], st)))"

definition show_a :: "world \<Rightarrow> cvar option \<Rightarrow> cups \<Rightarrow> event list" where
  "show_a w v st =
     (case v of
        None \<Rightarrow> []
      | Some x \<Rightarrow>
          (let p = var_value x; mem = w_mem w (parst.truncate st)
           in [Array_a p (if p = 0 then None else Some (mem p, mem (p + 8)))]))"

definition run_results :: "world \<Rightarrow> (u64 \<Rightarrow> cups \<Rightarrow> (u64 \<times> cups) res) \<Rightarrow> cups \<Rightarrow> event list res" where
  "run_results w invoke st =
     rbind (cup_get_symbol ''get1'' st) (\<lambda>(get1, st).
     rbind (cup_get_symbol ''a'' st) (\<lambda>(a, st).
     rbind (cup_get_symbol ''main'' st) (\<lambda>(mainf, st).
     rbind (call_symbol invoke ''main'' mainf st) (\<lambda>(ev1, st').
     rbind (call_symbol invoke ''get1'' get1 st') (\<lambda>(ev2, st').
       Inr (show_a w a st @ ev1 @ ev2 @ map (\<lambda>(name, t, v, sc). Listed name t v sc) (cup_list_symbols st') @ [Ok]))))))"

definition main_program ::
  "nat \<Rightarrow> world \<Rightarrow> host \<Rightarrow> (u64 \<Rightarrow> cups \<Rightarrow> (u64 \<times> cups) res) \<Rightarrow> string list \<Rightarrow> (int \<times> event list) res" where
  "main_program n w h invoke args =
     rbind (cup_new w) (\<lambda>st.
     rbind (host_symbols h st) (\<lambda>st.
     rbind (main_args n w args 1 None [] st) (\<lambda>r.
       case r of
         Failed e \<Rightarrow> Inr (1, [e])
       | Parsed fl out st \<Rightarrow>
           if fl AND 1 \<noteq> 0 then Inr (1, out @ [No_input, Usage])
           else if fl AND 2 \<noteq> 0 then Inr (0, out @ [Usage])
           else if fl AND 4 \<noteq> 0 then Inr (0, out @ [Version cup_version_major cup_version_minor])
           else rbind (run_results w invoke st) (\<lambda>ev. Inr (0, out @ Ok # ev)))))"

section \<open>What the arguments decide\<close>

text \<open>The arguments as they are meant, and what a command line with them should come to.\<close>

datatype arg =
    Bytecode_to string
  | Code_to string
  | Help
  | Show_version
  | Compile string
  | No_path string
  | Not_known string

fun read_args :: "string list \<Rightarrow> arg list" where
  "read_args [] = []"
| "read_args (a # rest) =
     (if is_option opt_bytecode a then (case rest of [] \<Rightarrow> [No_path a] | p # rest \<Rightarrow> Bytecode_to p # read_args rest)
      else if is_option opt_code a then (case rest of [] \<Rightarrow> [No_path a] | p # rest \<Rightarrow> Code_to p # read_args rest)
      else if is_option opt_help a then Help # read_args rest
      else if is_option opt_version a then Show_version # read_args rest
      else if a \<noteq> [] \<and> hd a = CHR ''-'' then Not_known a # read_args rest
      else Compile a # read_args rest)"

primrec misused :: "arg \<Rightarrow> event set" where
  "misused (Bytecode_to p) = {}"
| "misused (Code_to p) = {}"
| "misused Help = {}"
| "misused Show_version = {}"
| "misused (Compile f) = {}"
| "misused (No_path a) = {Missing_argument a}"
| "misused (Not_known a) = {Unknown_option a}"

primrec stops :: "arg list \<Rightarrow> event set" where
  "stops [] = {}"
| "stops (a # as) = (case a of Compile f \<Rightarrow> insert (Not_compiled f) (stops as) | _ \<Rightarrow> (if misused a = {} then stops as else misused a))"

primrec sets_path :: "arg \<Rightarrow> bool" where
  "sets_path (Bytecode_to p) = True"
| "sets_path (Code_to p) = True"
| "sets_path Help = False"
| "sets_path Show_version = False"
| "sets_path (Compile f) = False"
| "sets_path (No_path a) = False"
| "sets_path (Not_known a) = False"

definition outcome :: "arg list \<Rightarrow> int \<times> event" where
  "outcome as =
     (if list_all sets_path as then (1, Usage)
      else if Help \<in> set as then (0, Usage)
      else if Show_version \<in> set as then (0, Version 1 12)
      else (0, Ok))"

lemma flag_bits:
  fixes fl :: u32
  shows "fl AND 1 \<noteq> 0 \<longleftrightarrow> bit fl 0" "fl AND 2 \<noteq> 0 \<longleftrightarrow> bit fl 1" "fl AND 4 \<noteq> 0 \<longleftrightarrow> bit fl 2"
  using and_exp_eq_0_iff_not_bit [of fl 0] and_exp_eq_0_iff_not_bit [of fl 1] and_exp_eq_0_iff_not_bit [of fl 2] by simp_all

lemma mask_bits:
  fixes fl :: u32
  shows "bit (fl AND - 2 OR 2) 0 = False" "bit (fl AND - 2 OR 2) (Suc 0) = True" "bit (fl AND - 2 OR 2) 2 = bit fl 2"
    "bit (fl AND - 2 OR 4) 0 = False" "bit (fl AND - 2 OR 4) (Suc 0) = bit fl 1" "bit (fl AND - 2 OR 4) 2 = True"
    "bit (fl AND - 2) 0 = False" "bit (fl AND - 2) (Suc 0) = bit fl 1" "bit (fl AND - 2) 2 = bit fl 2"
proof -
  have "(- 2 :: u32) = NOT 1" by simp
  then show "bit (fl AND - 2 OR 2) 0 = False" "bit (fl AND - 2 OR 2) (Suc 0) = True" "bit (fl AND - 2 OR 2) 2 = bit fl 2"
    "bit (fl AND - 2 OR 4) 0 = False" "bit (fl AND - 2 OR 4) (Suc 0) = bit fl 1" "bit (fl AND - 2 OR 4) 2 = True"
    "bit (fl AND - 2) 0 = False" "bit (fl AND - 2) (Suc 0) = bit fl 1" "bit (fl AND - 2) 2 = bit fl 2"
    by (simp_all only: bit_and_iff bit_or_iff bit_not_iff) (simp_all add: bit_simps bit_1_iff)
qed

definition decided :: "u32 \<Rightarrow> arg list \<Rightarrow> options_end \<Rightarrow> bool" where
  "decided fl as r \<longleftrightarrow>
     (case r of
        Failed e \<Rightarrow> e \<in> stops as
      | Parsed fl' out st \<Rightarrow>
          list_all (\<lambda>a. misused a = {}) as \<and>
          (bit fl' 0 \<longleftrightarrow> bit fl 0 \<and> list_all sets_path as) \<and>
          (bit fl' 1 \<longleftrightarrow> bit fl 1 \<or> Help \<in> set as) \<and>
          (bit fl' 2 \<longleftrightarrow> bit fl 2 \<or> Show_version \<in> set as))"

named_theorems decided_steps "what one argument adds to the outcome"

lemma decided_path [decided_steps]:
  "decided fl (Bytecode_to p # as) r = decided fl as r" "decided fl (Code_to p # as) r = decided fl as r"
  by (simp_all add: decided_def split: options_end.splits)

lemma decided_flag [decided_steps]:
  "decided (fl AND NOT 1 OR 2) as r \<Longrightarrow> decided fl (Help # as) r"
  "decided (fl AND NOT 1 OR 4) as r \<Longrightarrow> decided fl (Show_version # as) r"
  "decided (fl AND NOT 1) as r \<Longrightarrow> decided fl (Compile f # as) r"
  by (simp_all add: decided_def mask_bits split: options_end.splits)

lemma decided_stop [decided_steps]:
  "decided fl (No_path a # as) (Failed (Missing_argument a))" "decided fl (Not_known a # as) (Failed (Unknown_option a))"
  "decided fl (Compile f # as) (Failed (Not_compiled f))"
  by (simp_all add: decided_def)

lemma main_args_decided: "main_args n w args fl instructions out st = Inr r \<Longrightarrow> decided fl (read_args args) r"
proof (induction n w args fl instructions out st rule: main_args.induct)
  case (1 n w fl instructions out st)
  then show ?case by (auto simp: decided_def)
next
  case (2 n w a rest fl instructions out st)
  consider "is_option opt_bytecode a" | "\<not> is_option opt_bytecode a" "is_option opt_code a"
    | "\<not> is_option opt_bytecode a" "\<not> is_option opt_code a" by blast
  then show ?case
  proof cases
    case 1
    then show ?thesis using 2 by (cases rest) (auto simp: decided_steps)
  next
    case c: 2
    then show ?thesis using 2 by (cases rest) (auto simp: decided_steps)
  next
    case c: 3
    consider "is_option opt_help a" | "\<not> is_option opt_help a" "is_option opt_version a"
      | "\<not> is_option opt_help a" "\<not> is_option opt_version a" "a \<noteq> [] \<and> hd a = CHR ''-''"
      | "\<not> is_option opt_help a" "\<not> is_option opt_version a" "\<not> (a \<noteq> [] \<and> hd a = CHR ''-'')" by blast
    then show ?thesis
    proof cases
      case 1
      with c 2 show ?thesis by (simp add: decided_steps)
    next
      case d: 2
      with c 2 show ?thesis by (simp add: decided_steps)
    next
      case d: 3
      then have "r = Failed (Unknown_option a)" using c 2 by simp
      then show ?thesis using c d by (simp add: decided_steps)
    next
      case d: 4
      then obtain m st' where m: "cup_compile_file n w a st = Inr (m, st')" using c 2 by (auto simp: rbind_eq_Inr)
      show ?thesis
      proof (cases "m = None")
        case True
        then have "r = Failed (Not_compiled a)" using c d 2(6) m by (auto split: if_splits)
        then show ?thesis using c d by (auto simp: decided_steps)
      next
        case False
        then have "decided (fl AND NOT 1) (read_args rest) r" using c d 2 m by (auto split: if_splits)
        then show ?thesis using c d by (auto simp: decided_steps)
      qed
    qed
  qed
qed

section \<open>The symbols are found\<close>

lemma no_name_lookup:
  assumes "vars_ok st" and "scopes_ok st" and "sc < length (scopes st)" and "name \<notin> var_name ` set (vars st)"
  shows "varLookup st name sc = Inr None"
proof -
  have "(name, c) \<notin> set (var_keys st)" for c using assms(4) by (auto simp: var_keys_def var_key_def)
  then have "first_index (\<lambda>k. k \<in> set (var_keys st)) (map (Pair name) (scope_chain (scopes st) sc)) = None"
    by (auto simp: first_index_None)
  then show ?thesis
    using assms(1-3) varLookup_chain [of st sc name] vt.find_chain_ok [OF assms(1), of "map (Pair name) (scope_chain (scopes st) sc)"]
    by simp
qed

lemma add_symbol_new:
  fixes st :: cups
  assumes "par_ok st" and "1 < length (scopes st)" and "length (vars st) < 2 ^ 56"
    and "name \<notin> var_name ` set (vars st)" and "name \<noteq> []" and "map_of keyword_table name = None"
  obtains st' where "cup_add_symbol name v t st = Inr (0, st')" "par_ok st'" "scopes st' = scopes st" "types st' = types st"
    "vars st' = vars st @ [new_var name t v 1]"
proof -
  let ?st = "st\<lparr>tok := T_IDENTIFIER, tok_val := PStr name\<rparr>"
  have id: "idToken st name = (True, ?st)" using assms(6) by (simp add: idToken_keywords)
  have ok: "vars_ok ?st" "scopes_ok ?st"
    using assms(1) vars_ok_cong [of st ?st] scopes_ok_cong [of st ?st] by (simp_all add: par_ok_def)
  have "varLookup ?st name 1 = Inr None" using no_name_lookup [OF ok] assms(2,4) by simp
  moreover have small: "length (vars ?st) < 2 ^ 56" using assms(3) by simp
  moreover obtain cap tab where
    "putVar ?st name t v 1 = Inr (?st\<lparr>vars := vars ?st @ [new_var name t v 1], vars_cap := cap, vars_map := tab\<rparr>)"
    "vars_ok (?st\<lparr>vars := vars ?st @ [new_var name t v 1], vars_cap := cap, vars_map := tab\<rparr>)"
    using putVar_ok [OF ok(1) small, of name t v 1] by blast
  ultimately have add: "cup_add_symbol name v t st =
      Inr (0, ?st\<lparr>vars := vars ?st @ [new_var name t v 1], vars_cap := cap, vars_map := tab\<rparr>)"
    and ok': "vars_ok (?st\<lparr>vars := vars ?st @ [new_var name t v 1], vars_cap := cap, vars_map := tab\<rparr>)" (is "vars_ok ?st'")
    using assms(5) id by (simp_all add: cup_add_symbol_def)
  have "par_ok ?st'" using assms(1) ok' by (auto simp: par_ok_def lex_ok_def scopes_ok_def split: option.splits)
  with add show thesis by (rule that) simp_all
qed

lemma add_symbols_new:
  fixes st :: cups
  assumes "par_ok st" and "1 < length (scopes st)" and "length (vars st) + length ss < 2 ^ 56"
    and "distinct (map var_name (vars st) @ map fst ss)" and "\<forall>s \<in> set ss. fst s \<noteq> [] \<and> map_of keyword_table (fst s) = None"
  shows "\<exists>st'. add_symbols ss st = Inr st' \<and> par_ok st' \<and> scopes st' = scopes st \<and> types st' = types st \<and>
    vars st' = vars st @ map (\<lambda>(name, v, t). new_var name (Some t) v 1) ss"
  using assms
proof (induction ss arbitrary: st)
  case Nil
  then show ?case by simp
next
  case (Cons s ss)
  obtain name v t where s: "s = (name, v, t)" by (cases s) auto
  obtain st' where st': "cup_add_symbol name v (Some t) st = Inr (0, st')" "par_ok st'" "scopes st' = scopes st" "types st' = types st"
    "vars st' = vars st @ [new_var name (Some t) v 1]"
    by (rule add_symbol_new [of st name v "Some t"]) (use Cons.prems s in \<open>auto\<close>)
  then show ?case
    using Cons.IH [of st'] Cons.prems s by (auto simp: new_var_def)
qed


lemmas type_eval = cup_typemeta_def cup_type_get_def is_basic_def newtype_def intern_ref_def
        deref_def base_type_def cup_type_rec.simps data_slots_def guard_def

definition meta_entry :: "nat \<Rightarrow> ctype" where
  "meta_entry g = \<lparr>ct_kind = CUP_TYPE_META, ct_align = 0, ct_size = 0, ct_body = BMeta g\<rparr>"

definition function_entry :: "u16 \<Rightarrow> tref list \<Rightarrow> ctype" where
  "function_entry n ts = \<lparr>ct_kind = CUP_TYPE_FUNCTION, ct_align = 0, ct_size = n, ct_body = BFun (map SType (ts @ [void_ref]))\<rparr>"

definition host_entries :: types where
  "host_entries = [meta_entry 0, function_entry 1 [TBase CUP_TYPE_INT, TBase CUP_TYPE_INT],
     function_entry 2 [TBase CUP_TYPE_INT, TBase CUP_TYPE_INT, THeap 1], function_entry 0 [TBase CUP_TYPE_UINT8],
     function_entry 1 [void_ref, THeap 3], meta_entry 1, meta_entry 2]"

lemma host_types_made: "host_types [meta_entry 0] = Inr ((THeap 1, THeap 2, THeap 4, THeap 5, THeap 6), host_entries)"
proof -
  have two: "cup_type = cup_type_rec (Suc (Suc 0))" "new_args rec ts 2 ss = new_args rec ts (Suc (Suc 0)) ss"
      "slots_differ 2 xs ys = slots_differ (Suc (Suc 0)) xs ys" "slots_differ 3 xs ys = slots_differ (Suc (Suc (Suc 0))) xs ys"
    for rec ts ss xs ys by (simp_all add: cup_type_def numeral_2_eq_2 numeral_3_eq_3)
  show ?thesis by (simp add: type_eval host_types_def two host_entries_def meta_entry_def function_entry_def)
qed

lemma host_entries_ok: "types_ok host_entries"
  by (auto simp: types_ok_def ctype_ok_def host_entries_def meta_entry_def function_entry_def ref_ok_def slot_ok_def is_basic_def less_Suc_eq)

lemma host_symbols_made:
  "\<exists>st st'. cup_new w = Inr st \<and> host_symbols h st = Inr st' \<and> par_ok st' \<and> types st' = host_entries \<and>
     vars st' = [new_var ''$'' (Some (THeap 0)) (w_self w) 1, new_var ''printf'' (Some (THeap 5)) 0 1,
       new_var ''sizeof'' (Some (THeap 6)) 0 1, new_var ''print'' (Some (THeap 1)) (h_print h) 1,
       new_var ''print2'' (Some (THeap 2)) (h_print2 h) 1, new_var ''print3'' (Some (THeap 4)) (h_print3 h) 1,
       new_var ''main'' (Some void_ref) 0 1, new_var ''x'' (Some (TBase CUP_TYPE_INT)) 277 1]"
proof -
  obtain st where st: "cup_new w = Inr st" "par_ok st" "scopes st = [None, Some 0]" "types st = [meta_entry 0]"
      "vars st = [new_var ''$'' (Some (THeap 0)) (w_self w) 1]"
    using cup_new_state [of w] by (auto simp: meta_entry_def)
  let ?st = "st\<lparr>types := host_entries\<rparr>"
  let ?ss = "[(''printf'', 0, THeap 5), (''sizeof'', 0, THeap 6), (''print'', h_print h, THeap 1), (''print2'', h_print2 h, THeap 2),
    (''print3'', h_print3 h, THeap 4), (''main'', 0, void_ref), (''x'', 277, TBase CUP_TYPE_INT)]"
  have "par_ok ?st"
    using st(2) vars_ok_cong [of st ?st] scopes_ok_cong [of st ?st] host_entries_ok
    by (auto simp: par_ok_def lex_ok_def split: option.splits)
  moreover have "distinct (map var_name (vars ?st) @ map fst ?ss)" by (simp add: st new_var_def)
  moreover have "\<forall>s \<in> set ?ss. fst s \<noteq> [] \<and> map_of keyword_table (fst s) = None" by (simp add: keyword_table_def)
  ultimately obtain st' where "add_symbols ?ss ?st = Inr st'" "par_ok st'" "types st' = host_entries"
      "vars st' = vars st @ map (\<lambda>(name, v, t). new_var name (Some t) v 1) ?ss"
    using add_symbols_new [of ?st ?ss] st by auto
  then show ?thesis using st by (auto simp: host_symbols_def host_types_made)
qed

section \<open>The exit status\<close>

lemma main_args_returns:
  "\<forall>f. Compile f \<notin> set (read_args args) \<Longrightarrow> \<exists>r. main_args n w args fl instructions out st = Inr r"
proof (induction n w args fl instructions out st rule: main_args.induct)
  case (1 n w fl instructions out st)
  then show ?case by simp
next
  case (2 n w a rest fl instructions out st)
  show ?case
  proof (cases "is_option opt_bytecode a \<or> is_option opt_code a")
    case True
    then show ?thesis using 2 by (cases "is_option opt_bytecode a"; cases rest) simp_all
  next
    case False
    then consider "is_option opt_help a" | "\<not> is_option opt_help a" "is_option opt_version a"
      | "\<not> is_option opt_help a" "\<not> is_option opt_version a" "a \<noteq> [] \<and> hd a = CHR ''-''"
      using 2(6) by (auto split: if_splits)
    then show ?thesis using False 2 by cases simp_all
  qed
qed

lemma some_flag:
  assumes "list_all (\<lambda>a. misused a = {}) as" and "\<forall>f. Compile f \<notin> set as" and "\<not> list_all sets_path as"
  shows "Help \<in> set as \<or> Show_version \<in> set as"
proof -
  obtain a where a: "a \<in> set as" "\<not> sets_path a" using assms(3) by (auto simp: list_all_iff)
  then have "misused a = {}" using assms(1) by (simp add: list_all_iff)
  with a assms(2) show ?thesis by (cases a rule: arg.exhaust) simp_all
qed

lemma run_results_ends: "run_results w invoke st = Inr evs \<Longrightarrow> last evs = Ok"
  by (auto simp: run_results_def res_simps)



end
