(* ===== verification/Cup_Elf.thy ===== *)
theory Cup_Elf
  imports Cup_Prelude
begin

text \<open>
  The structures of an ELF64 file, as \<^verbatim>\<open>include/lielf.h\<close> declares them and \<^verbatim>\<open>include/sodump.h\<close> takes
  them from the system's header: the fields in order, how they lie in the file, and the constants
  of the format that the program uses.
\<close>

section \<open>Structures\<close>

record elf_ehdr =
  e_ident :: bytes
  e_type :: u16
  e_machine :: u16
  e_version :: u32
  e_entry :: u64
  e_phoff :: u64
  e_shoff :: u64
  e_flags :: u32
  e_ehsize :: u16
  e_phentsize :: u16
  e_phnum :: u16
  e_shentsize :: u16
  e_shnum :: u16
  e_shstrndx :: u16

record elf_shdr =
  sh_name :: u32
  sh_type :: u32
  sh_flags :: u64
  sh_addr :: u64
  sh_offset :: u64
  sh_size :: u64
  sh_link :: u32
  sh_info :: u32
  sh_addralign :: u64
  sh_entsize :: u64

record elf_sym =
  st_name :: u32
  st_info :: u8
  st_other :: u8
  st_shndx :: u16
  st_value :: u64
  st_size :: u64

record elf_phdr =
  p_type :: u32
  p_flags :: u32
  p_offset :: u64
  p_vaddr :: u64
  p_paddr :: u64
  p_filesz :: u64
  p_memsz :: u64
  p_align :: u64

record elf_rela =
  r_offset :: u64
  r_info :: u64
  r_addend :: u64

record elf_dyn =
  d_tag :: u64
  d_val :: u64

section \<open>Layout\<close>

definition field :: "nat \<Rightarrow> nat \<Rightarrow> bytes \<Rightarrow> 'a::len word" where
  "field off n bs = le_word (take n (drop off bs))"

definition read_ehdr :: "bytes \<Rightarrow> elf_ehdr" where
  "read_ehdr bs =
     \<lparr>e_ident = take 16 bs, e_type = field 16 2 bs, e_machine = field 18 2 bs, e_version = field 20 4 bs,
      e_entry = field 24 8 bs, e_phoff = field 32 8 bs, e_shoff = field 40 8 bs, e_flags = field 48 4 bs,
      e_ehsize = field 52 2 bs, e_phentsize = field 54 2 bs, e_phnum = field 56 2 bs, e_shentsize = field 58 2 bs,
      e_shnum = field 60 2 bs, e_shstrndx = field 62 2 bs\<rparr>"

definition read_shdr :: "bytes \<Rightarrow> elf_shdr" where
  "read_shdr bs =
     \<lparr>sh_name = field 0 4 bs, sh_type = field 4 4 bs, sh_flags = field 8 8 bs, sh_addr = field 16 8 bs,
      sh_offset = field 24 8 bs, sh_size = field 32 8 bs, sh_link = field 40 4 bs, sh_info = field 44 4 bs,
      sh_addralign = field 48 8 bs, sh_entsize = field 56 8 bs\<rparr>"

definition read_sym :: "bytes \<Rightarrow> elf_sym" where
  "read_sym bs =
     \<lparr>st_name = field 0 4 bs, st_info = field 4 1 bs, st_other = field 5 1 bs, st_shndx = field 6 2 bs,
      st_value = field 8 8 bs, st_size = field 16 8 bs\<rparr>"

definition write_ehdr :: "elf_ehdr \<Rightarrow> bytes" where
  "write_ehdr h =
     e_ident h @ le_bytes 2 (e_type h) @ le_bytes 2 (e_machine h) @ le_bytes 4 (e_version h) @
     le_bytes 8 (e_entry h) @ le_bytes 8 (e_phoff h) @ le_bytes 8 (e_shoff h) @ le_bytes 4 (e_flags h) @
     le_bytes 2 (e_ehsize h) @ le_bytes 2 (e_phentsize h) @ le_bytes 2 (e_phnum h) @ le_bytes 2 (e_shentsize h) @
     le_bytes 2 (e_shnum h) @ le_bytes 2 (e_shstrndx h)"

definition write_shdr :: "elf_shdr \<Rightarrow> bytes" where
  "write_shdr h =
     le_bytes 4 (sh_name h) @ le_bytes 4 (sh_type h) @ le_bytes 8 (sh_flags h) @ le_bytes 8 (sh_addr h) @
     le_bytes 8 (sh_offset h) @ le_bytes 8 (sh_size h) @ le_bytes 4 (sh_link h) @ le_bytes 4 (sh_info h) @
     le_bytes 8 (sh_addralign h) @ le_bytes 8 (sh_entsize h)"

definition write_sym :: "elf_sym \<Rightarrow> bytes" where
  "write_sym s =
     le_bytes 4 (st_name s) @ le_bytes 1 (st_info s) @ le_bytes 1 (st_other s) @ le_bytes 2 (st_shndx s) @
     le_bytes 8 (st_value s) @ le_bytes 8 (st_size s)"

definition read_phdr :: "bytes \<Rightarrow> elf_phdr" where
  "read_phdr bs =
     \<lparr>p_type = field 0 4 bs, p_flags = field 4 4 bs, p_offset = field 8 8 bs, p_vaddr = field 16 8 bs,
      p_paddr = field 24 8 bs, p_filesz = field 32 8 bs, p_memsz = field 40 8 bs, p_align = field 48 8 bs\<rparr>"

definition read_rela :: "bytes \<Rightarrow> elf_rela" where
  "read_rela bs = \<lparr>r_offset = field 0 8 bs, r_info = field 8 8 bs, r_addend = field 16 8 bs\<rparr>"

definition read_dyn :: "bytes \<Rightarrow> elf_dyn" where
  "read_dyn bs = \<lparr>d_tag = field 0 8 bs, d_val = field 8 8 bs\<rparr>"

definition write_phdr :: "elf_phdr \<Rightarrow> bytes" where
  "write_phdr p =
     le_bytes 4 (p_type p) @ le_bytes 4 (p_flags p) @ le_bytes 8 (p_offset p) @ le_bytes 8 (p_vaddr p) @
     le_bytes 8 (p_paddr p) @ le_bytes 8 (p_filesz p) @ le_bytes 8 (p_memsz p) @ le_bytes 8 (p_align p)"

definition write_rela :: "elf_rela \<Rightarrow> bytes" where
  "write_rela r = le_bytes 8 (r_offset r) @ le_bytes 8 (r_info r) @ le_bytes 8 (r_addend r)"

definition write_dyn :: "elf_dyn \<Rightarrow> bytes" where
  "write_dyn d = le_bytes 8 (d_tag d) @ le_bytes 8 (d_val d)"

lemma length_write [simp]:
  "length (e_ident h) = 16 \<Longrightarrow> length (write_ehdr h) = 64"
  "length (write_shdr s) = 64" "length (write_sym y) = 24"
  "length (write_phdr p) = 56" "length (write_rela r) = 24" "length (write_dyn d) = 16"
  by (simp_all add: write_ehdr_def write_shdr_def write_sym_def write_phdr_def write_rela_def write_dyn_def)

lemma le_word_le_bytes_small [simp]:
  "le_word (le_bytes 2 w) = (w :: u16)" "le_word (le_bytes 1 v) = (v :: u8)"
  by (simp_all add: le_word_le_bytes take_bit_word_eq_self del: le_bytes.simps le_word.simps One_nat_def)

lemma read_write_ehdr:
  assumes "length (e_ident h) = 16"
  shows "read_ehdr (write_ehdr h @ rest) = h"
  using assms by (simp add: read_ehdr_def write_ehdr_def field_def del: le_bytes.simps One_nat_def)

lemma read_write_shdr: "read_shdr (write_shdr h @ rest) = h"
  by (simp add: read_shdr_def write_shdr_def field_def del: le_bytes.simps One_nat_def)

lemma read_write_sym: "read_sym (write_sym h @ rest) = h"
  by (simp add: read_sym_def write_sym_def field_def del: le_bytes.simps One_nat_def)

lemma read_write_rela: "read_rela (write_rela r @ rest) = r"
  by (simp add: read_rela_def write_rela_def field_def del: le_bytes.simps One_nat_def)

lemma read_write_dyn: "read_dyn (write_dyn d @ rest) = d"
  by (simp add: read_dyn_def write_dyn_def field_def del: le_bytes.simps One_nat_def)

lemma read_write_phdr: "read_phdr (write_phdr p @ rest) = p"
  by (simp add: read_phdr_def write_phdr_def field_def del: le_bytes.simps One_nat_def)

section \<open>Constants\<close>

abbreviation SHT_SYMTAB :: u32 where "SHT_SYMTAB \<equiv> 2"
abbreviation SHT_DYNSYM :: u32 where "SHT_DYNSYM \<equiv> 11"
abbreviation STT_OBJECT :: u8 where "STT_OBJECT \<equiv> 1"
abbreviation STT_FUNC :: u8 where "STT_FUNC \<equiv> 2"
abbreviation STT_SECTION :: u8 where "STT_SECTION \<equiv> 3"
abbreviation STT_FILE :: u8 where "STT_FILE \<equiv> 4"
abbreviation STT_COMMON :: u8 where "STT_COMMON \<equiv> 5"
abbreviation STT_TLS :: u8 where "STT_TLS \<equiv> 6"
abbreviation STT_GNU_IFUNC :: u8 where "STT_GNU_IFUNC \<equiv> 10"
abbreviation STB_LOCAL :: u8 where "STB_LOCAL \<equiv> 0"
abbreviation STB_WEAK :: u8 where "STB_WEAK \<equiv> 2"
abbreviation SHN_UNDEF :: u16 where "SHN_UNDEF \<equiv> 0"
abbreviation EV_CURRENT :: u32 where "EV_CURRENT \<equiv> 1"
abbreviation ELFMAG :: bytes where "ELFMAG \<equiv> [0x7F, 0x45, 0x4C, 0x46]"

section \<open>Reading\<close>

text \<open>\<open>n\<close> bytes at an offset; outside of the file there is nothing to read.\<close>

definition region :: "nat \<Rightarrow> u64 \<Rightarrow> bytes \<Rightarrow> bytes res" where
  "region n off f = (if unat off + n \<le> length f then Inr (take n (drop (unat off) f)) else Inl Undef)"

lemma region_ok: "unat off + n \<le> length f \<Longrightarrow> region n off f = Inr (take n (drop (unat off) f))"
  by (simp add: region_def)

end
