(* ===== verification/Cup_Sodump.thy ===== *)
theory Cup_Sodump
  imports Cup_Elf
begin

text \<open>
  The reader of the symbols of a shared library, \<^verbatim>\<open>include/sodump.h\<close>. A file is its bytes; a name is
  the bytes before its NUL. \<open>alloc\<close> says which amounts of memory can be had.
\<close>

section \<open>The table\<close>

datatype so_type = SO_SYMBOL_UNKNOWN | SO_SYMBOL_FUNC | SO_SYMBOL_OBJECT | SO_SYMBOL_TLS

record so_symbol =
  so_name :: bytes
  so_addr :: u64
  so_size :: u64
  section_index :: u16
  binding :: u8
  visibility :: u8
  so_kind :: so_type
  is_func :: bool
  is_object :: bool
  is_tls :: bool
  is_local :: bool
  is_weak :: bool
  is_defined :: bool
  is_dynamic :: bool

record so_table =
  syms :: "so_symbol list"
  capacity :: u64

definition sodump_range_valid :: "u64 \<Rightarrow> u64 \<Rightarrow> u64 \<Rightarrow> bool" where
  "sodump_range_valid file_size off n = (if off > file_size then False else n \<le> file_size - off)"

definition sodump_symbol_type :: "u8 \<Rightarrow> so_type" where
  "sodump_symbol_type elf_type =
     (if elf_type = STT_FUNC \<or> elf_type = STT_GNU_IFUNC then SO_SYMBOL_FUNC
      else if elf_type = STT_OBJECT \<or> elf_type = STT_COMMON then SO_SYMBOL_OBJECT
      else if elf_type = STT_TLS then SO_SYMBOL_TLS
      else SO_SYMBOL_UNKNOWN)"

text \<open>Doubling the capacity until it is enough; \<open>None\<close> when it cannot be doubled.\<close>

primrec sodump_grow :: "nat \<Rightarrow> u64 \<Rightarrow> u64 \<Rightarrow> u64 option res" where
  "sodump_grow 0 cap wanted = Inl Loop"
| "sodump_grow (Suc n) cap wanted =
     (if cap < wanted then if cap > SIZE_MAX div 2 then Inr None else sodump_grow n (cap * 2) wanted
      else Inr (Some cap))"

definition SYMBOL_SIZE :: u64 where "SYMBOL_SIZE = 64"

definition sodump_reserve :: "(nat \<Rightarrow> bool) \<Rightarrow> so_table \<Rightarrow> u64 \<Rightarrow> (bool \<times> so_table) res" where
  "sodump_reserve alloc t wanted =
     (if wanted \<le> capacity t then Inr (True, t)
      else rbind (sodump_grow 65 (if capacity t \<noteq> 0 then capacity t else 64) wanted) (\<lambda>c. case c of
             None \<Rightarrow> Inr (False, t)
           | Some cap \<Rightarrow>
               if \<not> alloc (unat (cap * SYMBOL_SIZE)) then Inr (False, t) else Inr (True, t\<lparr>capacity := cap\<rparr>)))"

definition sodump_find_duplicate :: "so_table \<Rightarrow> bytes \<Rightarrow> u64 \<Rightarrow> u16 \<Rightarrow> so_type \<Rightarrow> nat option" where
  "sodump_find_duplicate t name addr sec kind =
     find (\<lambda>i. let s = syms t ! i in so_addr s = addr \<and> section_index s = sec \<and> so_kind s = kind \<and> so_name s = name)
       [0..<length (syms t)]"

definition st_type :: "elf_sym \<Rightarrow> u8" where "st_type s = st_info s AND 0xF"
definition st_bind :: "elf_sym \<Rightarrow> u8" where "st_bind s = drop_bit 4 (st_info s)"
definition st_visibility :: "elf_sym \<Rightarrow> u8" where "st_visibility s = st_other s AND 3"

text \<open>What an entry of the file says, under the name it is kept with.\<close>

definition fill_symbol :: "elf_sym \<Rightarrow> bool \<Rightarrow> bytes \<Rightarrow> so_symbol" where
  "fill_symbol s dyn name =
     (let kind = sodump_symbol_type (st_type s)
      in \<lparr>so_name = name, so_addr = st_value s, so_size = st_size s, section_index = st_shndx s, binding = st_bind s,
          visibility = st_visibility s, so_kind = kind, is_func = (kind = SO_SYMBOL_FUNC),
          is_object = (kind = SO_SYMBOL_OBJECT), is_tls = (kind = SO_SYMBOL_TLS), is_local = (st_bind s = STB_LOCAL),
          is_weak = (st_bind s = STB_WEAK), is_defined = (st_shndx s \<noteq> SHN_UNDEF), is_dynamic = dyn\<rparr>)"

definition sodump_add_symbol :: "(nat \<Rightarrow> bool) \<Rightarrow> so_table \<Rightarrow> elf_sym \<Rightarrow> bytes \<Rightarrow> bool \<Rightarrow> (bool \<times> so_table) res" where
  "sodump_add_symbol alloc t s name dyn =
     (if st_type s = STT_SECTION \<or> st_type s = STT_FILE then Inr (True, t)
      else if name = [] then Inr (True, t)
      else case sodump_find_duplicate t name (st_value s) (st_shndx s) (sodump_symbol_type (st_type s)) of
        Some i \<Rightarrow>
          if is_dynamic (syms t ! i) \<and> \<not> dyn then
            Inr (True, t\<lparr>syms := (syms t)[i := fill_symbol s False (so_name (syms t ! i))]\<rparr>)
          else Inr (True, t)
      | None \<Rightarrow>
          rbind (sodump_reserve alloc t (of_nat (length (syms t)) + 1)) (\<lambda>(ok, t).
            if \<not> ok then Inr (False, t)
            else if \<not> alloc (length name + 1) then Inr (False, t)
            else Inr (True, t\<lparr>syms := syms t @ [fill_symbol s dyn name]\<rparr>)))"

section \<open>The file\<close>

text \<open>The bytes of the name at an index of a string table, unless they do not end within it.\<close>

definition name_at :: "bytes \<Rightarrow> elf_shdr \<Rightarrow> u32 \<Rightarrow> bytes option res" where
  "name_at f strings i =
     (if ucast i \<ge> sh_size strings then Inr None
      else rbind (region (unat (sh_size strings - ucast i)) (sh_offset strings + ucast i) f) (\<lambda>bs.
        Inr (if 0 \<in> set bs then Some (takeWhile (\<lambda>b. b \<noteq> 0) bs) else None)))"

primrec sodump_symbols ::
  "(nat \<Rightarrow> bool) \<Rightarrow> bytes \<Rightarrow> elf_shdr \<Rightarrow> elf_shdr \<Rightarrow> nat \<Rightarrow> u64 \<Rightarrow> so_table \<Rightarrow> (bool \<times> so_table) res" where
  "sodump_symbols alloc f sec strings 0 i t = Inr (True, t)"
| "sodump_symbols alloc f sec strings (Suc n) i t =
     (let off = sh_offset sec + i * sh_entsize sec
      in if \<not> sodump_range_valid (of_nat (length f)) off 24 then Inr (False, t)
         else
           rbind (region 24 off f) (\<lambda>bs. let s = read_sym bs in
           rbind (name_at f strings (st_name s)) (\<lambda>name. case name of
             None \<Rightarrow> sodump_symbols alloc f sec strings n (i + 1) t
           | Some name \<Rightarrow>
               rbind (sodump_add_symbol alloc t s name (sh_type sec = SHT_DYNSYM)) (\<lambda>(ok, t).
                 if \<not> ok then Inr (False, t) else sodump_symbols alloc f sec strings n (i + 1) t))))"

definition section_header :: "bytes \<Rightarrow> u64 \<Rightarrow> u64 \<Rightarrow> elf_shdr res" where
  "section_header f shoff i = rbind (region 64 (shoff + i * 64) f) (\<lambda>bs. Inr (read_shdr bs))"

definition sodump_parse_symbol_section ::
  "(nat \<Rightarrow> bool) \<Rightarrow> bytes \<Rightarrow> u64 \<Rightarrow> u64 \<Rightarrow> elf_shdr \<Rightarrow> so_table \<Rightarrow> (bool \<times> so_table) res" where
  "sodump_parse_symbol_section alloc f shoff section_count sec t =
     (if ucast (sh_link sec) \<ge> section_count then Inr (False, t)
      else rbind (section_header f shoff (ucast (sh_link sec))) (\<lambda>strings.
        if \<not> sodump_range_valid (of_nat (length f)) (sh_offset sec) (sh_size sec) then Inr (False, t)
        else if \<not> sodump_range_valid (of_nat (length f)) (sh_offset strings) (sh_size strings) then Inr (False, t)
        else if sh_entsize sec = 0 then Inr (False, t)
        else if sh_entsize sec < 24 then Inr (False, t)
        else sodump_symbols alloc f sec strings (unat (sh_size sec div sh_entsize sec)) 0 t))"

primrec sodump_sections ::
  "(nat \<Rightarrow> bool) \<Rightarrow> bytes \<Rightarrow> elf_ehdr \<Rightarrow> u32 \<Rightarrow> nat \<Rightarrow> u64 \<Rightarrow> so_table \<Rightarrow> (bool \<times> so_table) res" where
  "sodump_sections alloc f h wanted 0 i t = Inr (True, t)"
| "sodump_sections alloc f h wanted (Suc n) i t =
     rbind (section_header f (e_shoff h) i) (\<lambda>sec.
       if sh_type sec \<noteq> wanted then sodump_sections alloc f h wanted n (i + 1) t
       else rbind (sodump_parse_symbol_section alloc f (e_shoff h) (ucast (e_shnum h)) sec t) (\<lambda>(ok, t).
         if \<not> ok then Inr (False, t) else sodump_sections alloc f h wanted n (i + 1) t))"

text \<open>What the header of the file must say.\<close>

definition sodump_header_ok :: "u64 \<Rightarrow> elf_ehdr \<Rightarrow> bool" where
  "sodump_header_ok file_size h =
     (take 4 (e_ident h) = ELFMAG \<and> e_ident h ! 4 = 2 \<and> e_ident h ! 5 = 1 \<and> e_version h = EV_CURRENT \<and>
      e_shentsize h \<ge> 64 \<and> e_shnum h \<noteq> 0 \<and> e_shoff h \<noteq> 0 \<and>
      sodump_range_valid file_size (e_shoff h) (ucast (e_shnum h) * ucast (e_shentsize h)) \<and> e_shentsize h = 64)"

text \<open>The file that \<open>path\<close> names is \<open>file path\<close>; \<open>None\<close> when it cannot be opened or mapped.\<close>

definition sodump_parse :: "(nat \<Rightarrow> bool) \<Rightarrow> (string \<Rightarrow> bytes option) \<Rightarrow> string \<Rightarrow> so_table option res" where
  "sodump_parse alloc file path =
     (case file path of
        None \<Rightarrow> Inr None
      | Some f \<Rightarrow>
          if length f < 64 then Inr None
          else
            (let h = read_ehdr (take 64 f)
             in if \<not> sodump_header_ok (of_nat (length f)) h then Inr None
                else if \<not> alloc 40 then Inr None
                else
                  rbind (sodump_sections alloc f h SHT_DYNSYM (unat (e_shnum h)) 0 \<lparr>syms = [], capacity = 0\<rparr>) (\<lambda>(ok, t).
                    if \<not> ok then Inr None
                    else rbind (sodump_sections alloc f h SHT_SYMTAB (unat (e_shnum h)) 0 t) (\<lambda>(ok, t).
                      Inr (if ok then Some t else None)))))"

definition sodump_type_name :: "so_type \<Rightarrow> string" where
  "sodump_type_name kind =
     (case kind of SO_SYMBOL_FUNC \<Rightarrow> ''function'' | SO_SYMBOL_OBJECT \<Rightarrow> ''object'' | SO_SYMBOL_TLS \<Rightarrow> ''thread-local''
      | SO_SYMBOL_UNKNOWN \<Rightarrow> ''unknown'')"

section \<open>Results that are there\<close>

definition gives :: "'a res \<Rightarrow> ('a \<Rightarrow> bool) \<Rightarrow> bool" where
  "gives r Q \<longleftrightarrow> (case r of Inl e \<Rightarrow> False | Inr x \<Rightarrow> Q x)"

lemma gives_Inr [simp]: "gives (Inr x) Q \<longleftrightarrow> Q x"
  by (simp add: gives_def)

lemma gives_bindI: "gives m P \<Longrightarrow> (\<And>x. P x \<Longrightarrow> gives (f x) Q) \<Longrightarrow> gives (rbind m f) Q"
  by (cases m) (auto simp: gives_def)

lemma gives_mono: "gives r P \<Longrightarrow> (\<And>x. P x \<Longrightarrow> Q x) \<Longrightarrow> gives r Q"
  by (auto simp: gives_def split: sum.splits)

lemma gives_D: "gives r Q \<Longrightarrow> \<exists>x. r = Inr x \<and> Q x"
  by (auto simp: gives_def split: sum.splits)

section \<open>Invariant of the table\<close>

definition so_key :: "so_symbol \<Rightarrow> bytes \<times> u64 \<times> u16 \<times> so_type" where
  "so_key s = (so_name s, so_addr s, section_index s, so_kind s)"

text \<open>The flags say what the fields they were made from say; a symbol has a name.\<close>

definition symbol_ok :: "so_symbol \<Rightarrow> bool" where
  "symbol_ok s \<longleftrightarrow>
     so_name s \<noteq> [] \<and> (is_func s \<longleftrightarrow> so_kind s = SO_SYMBOL_FUNC) \<and> (is_object s \<longleftrightarrow> so_kind s = SO_SYMBOL_OBJECT) \<and>
     (is_tls s \<longleftrightarrow> so_kind s = SO_SYMBOL_TLS) \<and> (is_local s \<longleftrightarrow> binding s = STB_LOCAL) \<and>
     (is_weak s \<longleftrightarrow> binding s = STB_WEAK) \<and> (is_defined s \<longleftrightarrow> section_index s \<noteq> SHN_UNDEF)"

text \<open>The capacity is 0 or 64 doubled some times, and at most \<open>2 ^ 63\<close>.\<close>

definition capacity_ok :: "u64 \<Rightarrow> bool" where
  "capacity_ok c \<longleftrightarrow> c = 0 \<or> (\<exists>k \<le> 57. unat c = 64 * 2 ^ k)"

definition table_ok :: "so_table \<Rightarrow> bool" where
  "table_ok t \<longleftrightarrow>
     distinct (map so_key (syms t)) \<and> (\<forall>s \<in> set (syms t). symbol_ok s) \<and>
     capacity_ok (capacity t) \<and> length (syms t) \<le> unat (capacity t)"

lemma grow_ok:
  assumes "unat c = 64 * 2 ^ k" and "k \<le> 57" and "57 - k < n"
  shows "gives (sodump_grow n c wanted) (\<lambda>r. \<forall>c'. r = Some c' \<longrightarrow> capacity_ok c' \<and> wanted \<le> c')"
  using assms
proof (induction n arbitrary: c k)
  case (Suc n)
  show ?case
  proof (cases "c < wanted \<and> \<not> c > SIZE_MAX div 2")
    case True
    then have "unat c \<le> 9223372036854775807"
      by (simp add: word_le_nat_alt not_less)
    with Suc.prems have "(2::nat) ^ k < 2 ^ 57" by simp
    then have "k < 57" by (rule power_less_imp_less_exp [rotated]) simp
    moreover have "unat (c * 2) = 64 * 2 ^ Suc k"
      using Suc.prems(1) \<open>unat c \<le> 9223372036854775807\<close> by (simp add: unat_word_ariths)
    ultimately show ?thesis
      using Suc.IH [of "c * 2" "Suc k"] Suc.prems(3) True by simp
  qed (use Suc.prems in \<open>auto simp: capacity_ok_def not_less\<close>)
qed simp

lemma capacity_bound: "capacity_ok c \<Longrightarrow> unat c \<le> 2 ^ 63"
proof -
  assume "capacity_ok c"
  moreover have "(64::nat) * 2 ^ k \<le> 64 * 2 ^ 57" if "k \<le> 57" for k
    using that by (intro mult_left_mono power_increasing) simp_all
  ultimately show ?thesis by (auto simp: capacity_ok_def)
qed

text \<open>There is room after a reservation, and nothing else has changed.\<close>

lemma reserve_ok:
  assumes "table_ok t"
  shows "gives (sodump_reserve alloc t (of_nat (length (syms t)) + 1))
    (\<lambda>(ok, t'). table_ok t' \<and> syms t' = syms t \<and> (ok \<longrightarrow> length (syms t) < unat (capacity t')))"
proof -
  have len: "length (syms t) \<le> 2 ^ 63"
    using assms capacity_bound [of "capacity t"] by (auto simp: table_ok_def)
  then have wanted: "unat (of_nat (length (syms t)) + 1 :: u64) = length (syms t) + 1"
    by (simp add: unat_word_ariths unat_of_nat)
  let ?c = "if capacity t \<noteq> 0 then capacity t else 64"
  have "\<exists>k \<le> 57. unat ?c = 64 * 2 ^ k"
    using assms by (auto simp: table_ok_def capacity_ok_def intro: exI [of _ 0])
  then have grow: "gives (sodump_grow 65 ?c w) (\<lambda>r. \<forall>c'. r = Some c' \<longrightarrow> capacity_ok c' \<and> w \<le> c')" for w
    using grow_ok [of ?c _ 65 w] by auto
  show ?thesis
  proof (cases "of_nat (length (syms t)) + 1 \<le> capacity t")
    case True
    with assms wanted show ?thesis by (simp add: sodump_reserve_def word_le_nat_alt)
  next
    case False
    then show ?thesis
      unfolding sodump_reserve_def if_not_P [OF False]
      by (intro gives_bindI [OF grow]) (use assms wanted in \<open>auto simp: table_ok_def word_le_nat_alt split: option.splits\<close>)
  qed
qed

lemma find_duplicate_Some:
  "sodump_find_duplicate t name addr sec kind = Some i \<Longrightarrow>
     i < length (syms t) \<and> so_key (syms t ! i) = (name, addr, sec, kind)"
  by (auto simp: sodump_find_duplicate_def find_Some_iff so_key_def Let_def)

lemma find_duplicate_None:
  "sodump_find_duplicate t name addr sec kind = None \<longleftrightarrow> (name, addr, sec, kind) \<notin> so_key ` set (syms t)"
  by (force simp: sodump_find_duplicate_def find_None_iff so_key_def Let_def image_iff in_set_conv_nth)

text \<open>The entries that are kept, and their key.\<close>

definition kept_entry :: "elf_sym \<Rightarrow> bytes \<Rightarrow> bool" where
  "kept_entry s name \<longleftrightarrow> st_type s \<noteq> STT_SECTION \<and> st_type s \<noteq> STT_FILE \<and> name \<noteq> []"

definition entry_key :: "elf_sym \<Rightarrow> bytes \<Rightarrow> bytes \<times> u64 \<times> u16 \<times> so_type" where
  "entry_key s name = (name, st_value s, st_shndx s, sodump_symbol_type (st_type s))"

lemma fill_symbol_simps [simp]:
  "so_key (fill_symbol s dyn name) = entry_key s name" "is_dynamic (fill_symbol s dyn name) = dyn"
  "symbol_ok (fill_symbol s dyn name) \<longleftrightarrow> name \<noteq> []" "so_name (fill_symbol s dyn name) = name"
  by (simp_all add: fill_symbol_def so_key_def entry_key_def symbol_ok_def Let_def)

definition lookup :: "so_table \<Rightarrow> bytes \<times> u64 \<times> u16 \<times> so_type \<Rightarrow> so_symbol option" where
  "lookup t k = find (\<lambda>s. so_key s = k) (syms t)"

lemma find_update_other:
  "i < length xs \<Longrightarrow> \<not> p (xs ! i) \<Longrightarrow> \<not> p y \<Longrightarrow> find p (xs[i := y]) = find p xs"
proof (induction xs arbitrary: i)
  case (Cons x xs)
  then show ?case by (cases i) simp_all
qed simp

lemma find_update_same:
  "i < length xs \<Longrightarrow> p y \<Longrightarrow> (\<And>j. j < i \<Longrightarrow> \<not> p (xs ! j)) \<Longrightarrow> find p (xs[i := y]) = Some y"
  by (auto simp: find_Some_iff intro!: exI [of _ i])

lemma find_append: "find p (xs @ ys) = (case find p xs of Some x \<Rightarrow> Some x | None \<Rightarrow> find p ys)"
  by (induction xs) auto

lemma lookup_nth:
  assumes "distinct (map so_key (syms t))" and "i < length (syms t)"
  shows "lookup t (so_key (syms t ! i)) = Some (syms t ! i)"
  using assms by (auto simp: lookup_def find_Some_iff distinct_conv_nth intro!: exI [of _ i])

text \<open>What one more entry does to the symbol of a key.\<close>

definition after_entry :: "elf_sym \<times> bytes \<times> bool \<Rightarrow> bytes \<times> u64 \<times> u16 \<times> so_type \<Rightarrow> so_symbol option \<Rightarrow> so_symbol option" where
  "after_entry e k old =
     (case e of (s, name, dyn) \<Rightarrow>
        if \<not> kept_entry s name \<or> entry_key s name \<noteq> k then old
        else case old of
          None \<Rightarrow> Some (fill_symbol s dyn name)
        | Some o' \<Rightarrow> if is_dynamic o' \<and> \<not> dyn then Some (fill_symbol s False name) else old)"

lemma add_symbol_ok:
  assumes ok: "table_ok t"
  shows "gives (sodump_add_symbol alloc t s name dyn)
    (\<lambda>(ok, t'). table_ok t' \<and> (ok \<longrightarrow> (\<forall>k. lookup t' k = after_entry (s, name, dyn) k (lookup t k))))"
proof (cases "kept_entry s name")
  case False
  with ok show ?thesis by (auto simp: sodump_add_symbol_def kept_entry_def after_entry_def)
next
  case kept: True
  let ?dup = "sodump_find_duplicate t name (st_value s) (st_shndx s) (sodump_symbol_type (st_type s))"
  show ?thesis
  proof (cases ?dup)
    case None
    then have new: "entry_key s name \<notin> so_key ` set (syms t)"
      by (simp add: find_duplicate_None entry_key_def)
    then have none: "lookup t (entry_key s name) = None"
      by (force simp: lookup_def find_None_iff image_iff)
    have "table_ok (t'\<lparr>syms := syms t @ [fill_symbol s dyn name]\<rparr>)"
      if "table_ok t'" "syms t' = syms t" "length (syms t) < unat (capacity t')" for t'
      using that new kept by (auto simp: table_ok_def kept_entry_def)
    moreover have "lookup (t'\<lparr>syms := syms t @ [fill_symbol s dyn name]\<rparr>) k = after_entry (s, name, dyn) k (lookup t k)" for t' k
      using none kept by (auto simp: lookup_def find_append after_entry_def split: option.splits)
    ultimately have step: "gives (if \<not> room then Inr (False, t') else if \<not> alloc (length name + 1) then Inr (False, t')
          else Inr (True, t'\<lparr>syms := syms t' @ [fill_symbol s dyn name]\<rparr>))
        (\<lambda>(ok, t'). table_ok t' \<and> (ok \<longrightarrow> (\<forall>k. lookup t' k = after_entry (s, name, dyn) k (lookup t k))))"
      if "table_ok t' \<and> syms t' = syms t \<and> (room \<longrightarrow> length (syms t) < unat (capacity t'))" for room t'
      using that by simp
    have body: "gives (case r of (room, t') \<Rightarrow> if \<not> room then Inr (False, t')
          else if \<not> alloc (length name + 1) then Inr (False, t')
          else Inr (True, t'\<lparr>syms := syms t' @ [fill_symbol s dyn name]\<rparr>))
        (\<lambda>(ok, t'). table_ok t' \<and> (ok \<longrightarrow> (\<forall>k. lookup t' k = after_entry (s, name, dyn) k (lookup t k))))"
      if "case r of (room, t') \<Rightarrow> table_ok t' \<and> syms t' = syms t \<and> (room \<longrightarrow> length (syms t) < unat (capacity t'))" for r
      by (cases r) (use that step in \<open>simp only: prod.case\<close>)
    have "sodump_add_symbol alloc t s name dyn =
      rbind (sodump_reserve alloc t (of_nat (length (syms t)) + 1)) (\<lambda>(room, t').
        if \<not> room then Inr (False, t') else if \<not> alloc (length name + 1) then Inr (False, t')
        else Inr (True, t'\<lparr>syms := syms t' @ [fill_symbol s dyn name]\<rparr>))"
      using kept None by (simp add: sodump_add_symbol_def kept_entry_def)
    with gives_bindI [OF reserve_ok [OF ok] body] show ?thesis by simp
  next
    case (Some i)
    then have i: "i < length (syms t)" "so_key (syms t ! i) = entry_key s name"
      using find_duplicate_Some [OF Some] by (simp_all add: entry_key_def)
    then have name: "so_name (syms t ! i) = name" by (simp add: so_key_def entry_key_def)
    have old: "lookup t (entry_key s name) = Some (syms t ! i)"
      using lookup_nth [of t i] ok i by (simp add: table_ok_def)
    let ?t = "t\<lparr>syms := (syms t)[i := fill_symbol s False name]\<rparr>"
    have "map so_key (syms ?t) = map so_key (syms t)"
      by (rule nth_equalityI) (use i in \<open>auto simp: nth_list_update\<close>)
    then have "table_ok ?t"
      using ok kept set_update_subset_insert [of "syms t" i "fill_symbol s False name"]
      by (auto simp: table_ok_def kept_entry_def simp del: map_update)
    moreover have "lookup ?t k = (if k = entry_key s name then Some (fill_symbol s False name) else lookup t k)" for k
    proof -
      have "so_key (syms t ! j) \<noteq> entry_key s name" if "j < i" for j
        using ok i that nth_eq_iff_index_eq [of "map so_key (syms t)" j i] by (auto simp: table_ok_def)
      with i show ?thesis by (simp add: lookup_def find_update_same find_update_other)
    qed
    ultimately show ?thesis
      using kept Some old name ok
      by (auto simp: sodump_add_symbol_def kept_entry_def after_entry_def)
  qed
qed

section \<open>Tables that entries are added to\<close>

text \<open>
  What the reader needs of a table: adding an entry succeeds or reports that there is no memory,
  keeps the table well formed, and does to every key what \<open>after\<close> says.
\<close>

locale entry_table =
  fixes add :: "'e \<Rightarrow> 't \<Rightarrow> (bool \<times> 't) res"
    and find_key :: "'t \<Rightarrow> 'k \<Rightarrow> 'v option"
    and inv :: "'t \<Rightarrow> bool"
    and after :: "'e \<Rightarrow> 'k \<Rightarrow> 'v option \<Rightarrow> 'v option"
  assumes add_gives: "inv t \<Longrightarrow>
    gives (add e t) (\<lambda>(ok, t'). inv t' \<and> (ok \<longrightarrow> (\<forall>k. find_key t' k = after e k (find_key t k))))"
begin

primrec add_all :: "'e list \<Rightarrow> 't \<Rightarrow> (bool \<times> 't) res" where
  "add_all [] t = Inr (True, t)"
| "add_all (e # es) t = rbind (add e t) (\<lambda>(ok, t). if \<not> ok then Inr (False, t) else add_all es t)"

lemma add_all_gives:
  "inv t \<Longrightarrow> gives (add_all es t) (\<lambda>(ok, t'). inv t' \<and> (ok \<longrightarrow> (\<forall>k. find_key t' k = fold (\<lambda>e. after e k) es (find_key t k))))"
proof (induction es arbitrary: t)
  case (Cons e es)
  obtain ok t1 where t1: "add e t = Inr (ok, t1)" "inv t1" "ok \<Longrightarrow> find_key t1 k = after e k (find_key t k)" for k
    using gives_D [OF add_gives [OF Cons.prems, of e]] by auto
  show ?case
  proof (cases ok)
    case True
    with t1 Cons.IH [OF t1(2)] show ?thesis by simp
  qed (use t1 in simp)
qed simp

lemma add_all_append:
  "add_all (xs @ ys) t = rbind (add_all xs t) (\<lambda>(ok, t). if \<not> ok then Inr (False, t) else add_all ys t)"
proof (induction xs arbitrary: t)
  case (Cons x xs)
  show ?case
    by (cases "add x t") (auto simp: Cons.IH split: prod.splits)
qed simp

lemma add_all_inv: "inv t \<Longrightarrow> gives (add_all es t) (\<lambda>(ok, t'). inv t')"
  by (rule gives_mono [OF add_all_gives]) auto

end

interpretation so: entry_table "\<lambda>(s, name, dyn) t. sodump_add_symbol alloc t s name dyn" lookup table_ok after_entry for alloc
  by unfold_locales (use add_symbol_ok in \<open>auto split: prod.splits\<close>)

section \<open>The entries of a file\<close>

text \<open>
  The reference: what the file holds, written with natural numbers and without a table. The
  symbols of a section and their names, of all dynamic sections and then of all full ones.
\<close>

type_synonym so_entry = "elf_sym \<times> bytes \<times> bool"

definition symbol_at :: "bytes \<Rightarrow> elf_shdr \<Rightarrow> nat \<Rightarrow> elf_sym" where
  "symbol_at f sec j = read_sym (take 24 (drop (unat (sh_offset sec) + j * unat (sh_entsize sec)) f))"

definition string_at :: "bytes \<Rightarrow> elf_shdr \<Rightarrow> nat \<Rightarrow> bytes option" where
  "string_at f strings i =
     (let bs = take (unat (sh_size strings) - i) (drop (unat (sh_offset strings) + i) f)
      in if 0 \<in> set bs then Some (takeWhile (\<lambda>b. b \<noteq> 0) bs) else None)"

definition entry_at :: "bytes \<Rightarrow> elf_shdr \<Rightarrow> elf_shdr \<Rightarrow> nat \<Rightarrow> so_entry list" where
  "entry_at f sec strings j =
     (let s = symbol_at f sec j
      in case string_at f strings (unat (st_name s)) of None \<Rightarrow> [] | Some name \<Rightarrow> [(s, name, sh_type sec = SHT_DYNSYM)])"

definition header_at :: "bytes \<Rightarrow> elf_ehdr \<Rightarrow> nat \<Rightarrow> elf_shdr" where
  "header_at f h i = read_shdr (take 64 (drop (unat (e_shoff h) + i * 64) f))"

definition in_file :: "bytes \<Rightarrow> elf_shdr \<Rightarrow> bool" where
  "in_file f sec \<longleftrightarrow> unat (sh_offset sec) + unat (sh_size sec) \<le> length f"

definition section_ok :: "bytes \<Rightarrow> elf_ehdr \<Rightarrow> elf_shdr \<Rightarrow> bool" where
  "section_ok f h sec \<longleftrightarrow>
     unat (sh_link sec) < unat (e_shnum h) \<and> in_file f sec \<and> in_file f (header_at f h (unat (sh_link sec))) \<and>
     24 \<le> unat (sh_entsize sec)"

definition section_entries :: "bytes \<Rightarrow> elf_ehdr \<Rightarrow> elf_shdr \<Rightarrow> so_entry list" where
  "section_entries f h sec =
     concat (map (entry_at f sec (header_at f h (unat (sh_link sec)))) [0..<unat (sh_size sec) div unat (sh_entsize sec)])"

definition wanted_sections :: "bytes \<Rightarrow> elf_ehdr \<Rightarrow> u32 \<Rightarrow> elf_shdr list" where
  "wanted_sections f h kind = filter (\<lambda>sec. sh_type sec = kind) (map (header_at f h) [0..<unat (e_shnum h)])"

definition file_sections :: "bytes \<Rightarrow> elf_shdr list" where
  "file_sections f = (let h = read_ehdr (take 64 f) in wanted_sections f h SHT_DYNSYM @ wanted_sections f h SHT_SYMTAB)"

definition file_entries :: "bytes \<Rightarrow> so_entry list" where
  "file_entries f = concat (map (section_entries f (read_ehdr (take 64 f))) (file_sections f))"

definition readable :: "bytes \<Rightarrow> bool" where
  "readable f \<longleftrightarrow>
     64 \<le> length f \<and> sodump_header_ok (of_nat (length f)) (read_ehdr (take 64 f)) \<and>
     (\<forall>sec \<in> set (file_sections f). section_ok f (read_ehdr (take 64 f)) sec)"

text \<open>
  Which entry a key is kept with: the first one from a full symbol table, and the first of all
  when there is none.
\<close>

fun entries_for :: "bytes \<times> u64 \<times> u16 \<times> so_type \<Rightarrow> so_entry list \<Rightarrow> so_entry list" where
  "entries_for k [] = []"
| "entries_for k ((s, name, dyn) # es) =
     (if kept_entry s name \<and> entry_key s name = k then (s, name, dyn) # entries_for k es else entries_for k es)"

definition chosen :: "bytes \<times> u64 \<times> u16 \<times> so_type \<Rightarrow> so_entry list \<Rightarrow> so_symbol option" where
  "chosen k es =
     (case find (\<lambda>(s, name, dyn). \<not> dyn) (entries_for k es) of
        Some (s, name, dyn) \<Rightarrow> Some (fill_symbol s False name)
      | None \<Rightarrow> (case entries_for k es of [] \<Rightarrow> None | (s, name, dyn) # _ \<Rightarrow> Some (fill_symbol s dyn name)))"

lemma after_entry_simps [simp]:
  "\<not> (kept_entry s name \<and> entry_key s name = k) \<Longrightarrow> after_entry (s, name, dyn) k old = old"
  "kept_entry s name \<Longrightarrow> entry_key s name = k \<Longrightarrow> after_entry (s, name, dyn) k None = Some (fill_symbol s dyn name)"
  "kept_entry s name \<Longrightarrow> entry_key s name = k \<Longrightarrow> after_entry (s, name, dyn) k (Some x) =
     (if is_dynamic x \<and> \<not> dyn then Some (fill_symbol s False name) else Some x)"
  by (auto simp: after_entry_def)

lemma fold_after_static: "\<not> is_dynamic x \<Longrightarrow> fold (\<lambda>e. after_entry e k) es (Some x) = Some x"
proof (induction es)
  case (Cons e es)
  obtain s name dyn where e: "e = (s, name, dyn)" by (cases e)
  show ?case using Cons by (cases "kept_entry s name \<and> entry_key s name = k") (simp_all add: e)
qed simp

lemma fold_after_dynamic:
  "is_dynamic x \<Longrightarrow> fold (\<lambda>e. after_entry e k) es (Some x) =
     (case find (\<lambda>(s, name, dyn). \<not> dyn) (entries_for k es) of
        Some (s, name, dyn) \<Rightarrow> Some (fill_symbol s False name)
      | None \<Rightarrow> Some x)"
proof (induction es)
  case (Cons e es)
  obtain s name dyn where e: "e = (s, name, dyn)" by (cases e)
  show ?case
    using Cons by (cases "kept_entry s name \<and> entry_key s name = k"; cases dyn) (auto simp: e fold_after_static)
qed simp

lemma fold_after: "fold (\<lambda>e. after_entry e k) es None = chosen k es"
proof (induction es)
  case (Cons e es)
  obtain s name dyn where e: "e = (s, name, dyn)" by (cases e)
  show ?case
    using Cons by (cases "kept_entry s name \<and> entry_key s name = k"; cases dyn)
      (auto simp: e chosen_def fold_after_static fold_after_dynamic split: option.split)
qed (simp add: chosen_def)

section \<open>Reading the file\<close>

definition file_size_ok :: "bytes \<Rightarrow> bool" where
  "file_size_ok f \<longleftrightarrow> length f < 2 ^ 63"

lemma range_valid_iff:
  assumes "file_size_ok f"
  shows "sodump_range_valid (of_nat (length f)) off n \<longleftrightarrow> unat off + unat n \<le> length f"
proof -
  have len: "unat (of_nat (length f) :: u64) = length f"
    using assms by (simp add: file_size_ok_def unat_of_nat)
  have "unat (of_nat (length f) - off) = length f - unat off" if "off \<le> of_nat (length f)"
    using that by (simp add: unat_sub len)
  with len show ?thesis by (auto simp: sodump_range_valid_def word_le_nat_alt word_less_nat_alt)
qed

lemma unat_add_small: "unat x + unat y < 2 ^ 64 \<Longrightarrow> unat (x + y :: u64) = unat x + unat y"
  by (simp add: unat_word_ariths)

lemma unat_mult_small: "unat x * unat y < 2 ^ 64 \<Longrightarrow> unat (x * y :: u64) = unat x * unat y"
  by (simp add: unat_word_ariths)

lemma unat_ucast_32 [simp]: "unat (ucast (x :: u32) :: u64) = unat x"
  by transfer simp

lemma unat_ucast_16 [simp]: "unat (ucast (x :: u16) :: u64) = unat x"
  by transfer simp

lemma name_at_eq:
  assumes "file_size_ok f" and "in_file f strings"
  shows "name_at f strings i = Inr (string_at f strings (unat i))"
proof (cases "ucast i \<ge> sh_size strings")
  case True
  then show ?thesis by (simp add: name_at_def string_at_def word_le_nat_alt)
next
  case False
  then have "unat i < unat (sh_size strings)" by (simp add: word_le_nat_alt)
  moreover from this have "unat (sh_offset strings + ucast i) = unat (sh_offset strings) + unat i"
    using assms by (subst unat_add_small) (simp_all add: file_size_ok_def in_file_def)
  moreover have "unat (sh_size strings - ucast i) = unat (sh_size strings) - unat i"
    using False by (subst unat_sub) simp_all
  ultimately show ?thesis
    using False assms(2) by (simp add: name_at_def string_at_def in_file_def region_ok Let_def)
qed

lemma sodump_symbols_eq:
  assumes size: "file_size_ok f" and sec: "in_file f sec" and strings: "in_file f strings" and ent: "24 \<le> unat (sh_entsize sec)"
  shows "(i + n) * unat (sh_entsize sec) \<le> unat (sh_size sec) \<Longrightarrow>
    sodump_symbols alloc f sec strings n (of_nat i) t = so.add_all alloc (concat (map (entry_at f sec strings) [i..<i + n])) t"
proof (induction n arbitrary: i t)
  case (Suc n)
  let ?e = "unat (sh_entsize sec)"
  have room: "i * ?e + ?e \<le> unat (sh_size sec)"
    using Suc.prems by (simp add: algebra_simps)
  have bound: "unat (sh_size sec) < 2 ^ 64" by (rule order_less_le_trans [OF unsigned_less]) simp
  have "i \<le> i * ?e" using ent by simp
  with room bound have "i < 2 ^ 64" by linarith
  then have i: "unat (of_nat i :: u64) = i" by (simp add: unat_of_nat)
  have prod: "unat (of_nat i * sh_entsize sec) = i * ?e"
    using room i bound by (subst unat_mult_small) simp_all
  have off: "unat (sh_offset sec + of_nat i * sh_entsize sec) = unat (sh_offset sec) + i * ?e"
    using room prod sec size by (subst unat_add_small) (simp_all add: in_file_def file_size_ok_def)
  have read: "unat (sh_offset sec) + i * ?e + 24 \<le> length f"
    using room ent sec by (simp add: in_file_def)
  have "sodump_symbols alloc f sec strings n (of_nat (Suc i)) t =
      so.add_all alloc (concat (map (entry_at f sec strings) [Suc i..<Suc i + n])) t" for t
    using Suc.prems by (intro Suc.IH) simp
  then have IH: "sodump_symbols alloc f sec strings n (of_nat i + 1) t =
      so.add_all alloc (concat (map (entry_at f sec strings) [Suc i..<Suc i + n])) t" for t
    by (simp add: add.commute)
  have step: "sodump_symbols alloc f sec strings (Suc n) (of_nat i) t =
      (case string_at f strings (unat (st_name (symbol_at f sec i))) of
         None \<Rightarrow> sodump_symbols alloc f sec strings n (of_nat i + 1) t
       | Some name \<Rightarrow> rbind (sodump_add_symbol alloc t (symbol_at f sec i) name (sh_type sec = SHT_DYNSYM)) (\<lambda>(ok, t).
           if \<not> ok then Inr (False, t) else sodump_symbols alloc f sec strings n (of_nat i + 1) t))"
    using read off by (simp add: range_valid_iff [OF size] region_ok name_at_eq [OF size strings] symbol_at_def Let_def cong: option.case_cong)
  have entries: "[i..<i + Suc n] = i # [Suc i..<Suc i + n]"
    by (simp add: upt_rec)
  define es where "es = concat (map (entry_at f sec strings) [Suc i..<Suc i + n])"
  show ?case
    unfolding step entries IH list.map concat.simps es_def [symmetric]
    by (simp add: entry_at_def Let_def split: option.split)
qed simp

lemma section_header_eq:
  assumes "file_size_ok f" and "unat (e_shoff h) + unat (e_shnum h) * 64 \<le> length f" and "i < unat (e_shnum h)"
  shows "section_header f (e_shoff h) (of_nat i) = Inr (header_at f h i)"
proof -
  have "unat (e_shnum h) < 2 ^ 16" by (rule order_less_le_trans [OF unsigned_less]) simp
  with assms(3) have i: "unat (of_nat i :: u64) = i" by (simp add: unat_of_nat)
  have "i * 64 + 64 \<le> unat (e_shnum h) * 64" using assms(3) by simp
  with assms(2) have room: "unat (e_shoff h) + i * 64 + 64 \<le> length f" by simp
  have "unat (of_nat i * 64 :: u64) = i * 64"
    using room i assms(1) by (subst unat_mult_small) (simp_all add: file_size_ok_def)
  then have "unat (e_shoff h + of_nat i * 64) = unat (e_shoff h) + i * 64"
    using room assms(1) by (subst unat_add_small) (simp_all add: file_size_ok_def)
  with room show ?thesis by (simp add: section_header_def header_at_def region_ok)
qed

lemma parse_symbol_section_eq:
  assumes size: "file_size_ok f" and hdr: "unat (e_shoff h) + unat (e_shnum h) * 64 \<le> length f"
  shows "sodump_parse_symbol_section alloc f (e_shoff h) (ucast (e_shnum h)) sec t =
    (if section_ok f h sec then so.add_all alloc (section_entries f h sec) t else Inr (False, t))"
proof (cases "unat (sh_link sec) < unat (e_shnum h)")
  case link: True
  have strings: "section_header f (e_shoff h) (ucast (sh_link sec)) = Inr (header_at f h (unat (sh_link sec)))"
    using section_header_eq [OF size hdr link] by (simp add: unat_ucast_32 [symmetric] del: unat_ucast_32)
  let ?strings = "header_at f h (unat (sh_link sec))" and ?n = "unat (sh_size sec) div unat (sh_entsize sec)"
  have "sodump_parse_symbol_section alloc f (e_shoff h) (ucast (e_shnum h)) sec t =
      (if section_ok f h sec then sodump_symbols alloc f sec ?strings ?n (of_nat 0) t else Inr (False, t))"
    using link
    by (simp add: sodump_parse_symbol_section_def strings range_valid_iff [OF size] section_ok_def in_file_def
        word_le_nat_alt word_less_nat_alt unat_div unat_eq_0 [symmetric] not_less)
  moreover have "sodump_symbols alloc f sec ?strings ?n (of_nat 0) t = so.add_all alloc (section_entries f h sec) t"
    if "section_ok f h sec"
    using that by (subst sodump_symbols_eq [OF size]) (simp_all add: section_ok_def section_entries_def)
  ultimately show ?thesis by simp
next
  case False
  then show ?thesis by (simp add: sodump_parse_symbol_section_def section_ok_def word_le_nat_alt)
qed

text \<open>The passes over the sections, on lists of sections.\<close>

primrec read_sections :: "(nat \<Rightarrow> bool) \<Rightarrow> bytes \<Rightarrow> elf_ehdr \<Rightarrow> elf_shdr list \<Rightarrow> so_table \<Rightarrow> (bool \<times> so_table) res" where
  "read_sections alloc f h [] t = Inr (True, t)"
| "read_sections alloc f h (sec # secs) t =
     (if section_ok f h sec
      then rbind (so.add_all alloc (section_entries f h sec) t) (\<lambda>(ok, t).
        if \<not> ok then Inr (False, t) else read_sections alloc f h secs t)
      else Inr (False, t))"

lemma sodump_sections_eq:
  assumes size: "file_size_ok f" and hdr: "unat (e_shoff h) + unat (e_shnum h) * 64 \<le> length f"
  shows "i + n \<le> unat (e_shnum h) \<Longrightarrow> sodump_sections alloc f h kind n (of_nat i) t =
    read_sections alloc f h (filter (\<lambda>sec. sh_type sec = kind) (map (header_at f h) [i..<i + n])) t"
proof (induction n arbitrary: i t)
  case (Suc n)
  have "sodump_sections alloc f h kind n (of_nat (Suc i)) t =
      read_sections alloc f h (filter (\<lambda>sec. sh_type sec = kind) (map (header_at f h) [Suc i..<Suc i + n])) t" for t
    using Suc.prems by (intro Suc.IH) simp
  then have IH: "sodump_sections alloc f h kind n (of_nat i + 1) t =
      read_sections alloc f h (filter (\<lambda>sec. sh_type sec = kind) (map (header_at f h) [Suc i..<Suc i + n])) t" for t
    by (simp add: add.commute)
  have headers: "[i..<i + Suc n] = i # [Suc i..<Suc i + n]"
    by (simp add: upt_rec)
  define secs where "secs = filter (\<lambda>sec. sh_type sec = kind) (map (header_at f h) [Suc i..<Suc i + n])"
  show ?case
    unfolding headers sodump_sections.simps IH list.map filter.simps secs_def [symmetric] using Suc.prems
    by (simp add: section_header_eq [OF size hdr] parse_symbol_section_eq [OF size hdr])
qed simp

lemma read_sections_append:
  "read_sections alloc f h (xs @ ys) t =
     rbind (read_sections alloc f h xs t) (\<lambda>(ok, t). if \<not> ok then Inr (False, t) else read_sections alloc f h ys t)"
  by (induction xs arbitrary: t) (auto simp: rbind_assoc intro!: rbind_cong split: prod.splits)

lemma read_sections_ok:
  "\<forall>sec \<in> set secs. section_ok f h sec \<Longrightarrow>
     read_sections alloc f h secs t = so.add_all alloc (concat (map (section_entries f h) secs)) t"
proof (induction secs arbitrary: t)
  case (Cons sec secs)
  then have IH: "read_sections alloc f h secs t = so.add_all alloc (concat (map (section_entries f h) secs)) t" for t
    by simp
  show ?case
    unfolding read_sections.simps IH list.map concat.simps so.add_all_append using Cons.prems by simp
qed simp

lemma read_sections_bad:
  "\<exists>sec \<in> set secs. \<not> section_ok f h sec \<Longrightarrow> table_ok t \<Longrightarrow>
     gives (read_sections alloc f h secs t) (\<lambda>(ok, t'). \<not> ok)"
proof (induction secs arbitrary: t)
  case (Cons sec secs)
  show ?case
  proof (cases "section_ok f h sec")
    case True
    obtain ok t1 where t1: "so.add_all alloc (section_entries f h sec) t = Inr (ok, t1)" "table_ok t1"
      using gives_D [OF so.add_all_inv [OF Cons.prems(2)]] by fastforce
    with True Cons show ?thesis by (cases ok) auto
  qed simp
qed simp

lemma header_range:
  assumes "sodump_header_ok (of_nat (length f)) h" and "file_size_ok f"
  shows "unat (e_shoff h) + unat (e_shnum h) * 64 \<le> length f"
proof -
  have "unat (e_shnum h) < 2 ^ 16" by (rule order_less_le_trans [OF unsigned_less]) simp
  then have "unat (ucast (e_shnum h) * 64 :: u64) = unat (e_shnum h) * 64"
    by (subst unat_mult_small) simp_all
  moreover have "e_shentsize h = 64"
      "unat (e_shoff h) + unat (ucast (e_shnum h) * ucast (e_shentsize h) :: u64) \<le> length f"
    using assms(1) unfolding sodump_header_ok_def range_valid_iff [OF assms(2)] by blast+
  ultimately show ?thesis by simp
qed

definition empty_table :: so_table where "empty_table = \<lparr>syms = [], capacity = 0\<rparr>"

lemma empty_table_ok: "table_ok empty_table" and lookup_empty: "lookup empty_table k = None"
  by (simp_all add: table_ok_def empty_table_def capacity_ok_def lookup_def)

text \<open>The reader is the reference: the entries of a readable file, added to an empty table.\<close>

lemma sodump_parse_eq:
  assumes "file path = Some f" and size: "file_size_ok f"
  shows "sodump_parse alloc file path =
    (if readable f \<and> alloc 40
     then rbind (so.add_all alloc (file_entries f) empty_table) (\<lambda>(ok, t). Inr (if ok then Some t else None))
     else Inr None)"
proof -
  define h where "h = read_ehdr (take 64 f)"
  show ?thesis
  proof (cases "64 \<le> length f \<and> sodump_header_ok (of_nat (length f)) h \<and> alloc 40")
    case True
    have hdr: "unat (e_shoff h) + unat (e_shnum h) * 64 \<le> length f"
      using header_range [OF _ size] True by simp
    have pass: "sodump_sections alloc f h kind (unat (e_shnum h)) 0 t = read_sections alloc f h (wanted_sections f h kind) t" for kind t
      using sodump_sections_eq [OF size hdr, of 0 "unat (e_shnum h)" alloc kind t] by (simp add: wanted_sections_def)
    have parse: "sodump_parse alloc file path =
        rbind (read_sections alloc f h (file_sections f) empty_table) (\<lambda>(ok, t). Inr (if ok then Some t else None))"
      using True assms(1)
      by (auto simp: sodump_parse_def h_def [symmetric] pass file_sections_def read_sections_append empty_table_def
          rbind_assoc Let_def not_less intro!: rbind_cong)
    show ?thesis
    proof (cases "\<forall>sec \<in> set (file_sections f). section_ok f h sec")
      case secs: True
      then show ?thesis
        using True by (simp add: parse read_sections_ok readable_def h_def file_entries_def)
    next
      case False
      then obtain t where "read_sections alloc f h (file_sections f) empty_table = Inr (False, t)"
        using gives_D [OF read_sections_bad [OF _ empty_table_ok]] by fastforce
      with False show ?thesis by (auto simp: parse readable_def h_def)
    qed
  next
    case False
    with assms show ?thesis by (auto simp: sodump_parse_def readable_def h_def Let_def)
  qed
qed

section \<open>With memory\<close>

lemma grow_Some:
  assumes "unat c = 64 * 2 ^ k" and "k \<le> 57" and "57 - k < n" and "unat wanted \<le> 2 ^ 63"
  shows "\<exists>c'. sodump_grow n c wanted = Inr (Some c')"
  using assms
proof (induction n arbitrary: c k)
  case (Suc n)
  show ?case
  proof (cases "c < wanted")
    case True
    then have "unat c < 2 ^ 63" using Suc.prems(4) by (simp add: word_less_nat_alt)
    with Suc.prems have "(2::nat) ^ k < 2 ^ 57" by simp
    then have "k < 57" by (rule power_less_imp_less_exp [rotated]) simp
    moreover have "unat (c * 2) = 64 * 2 ^ Suc k"
      using Suc.prems(1) \<open>unat c < 2 ^ 63\<close> by (simp add: unat_word_ariths)
    moreover have "57 - Suc k < n" using Suc.prems(3) \<open>k < 57\<close> by linarith
    ultimately obtain c' where "sodump_grow n (c * 2) wanted = Inr (Some c')"
      using Suc.IH [of "c * 2" "Suc k"] Suc.prems(4) by auto
    with \<open>unat c < 2 ^ 63\<close> True show ?thesis by (simp add: word_less_nat_alt)
  qed simp
qed simp

lemma reserve_room:
  assumes "table_ok t" and "length (syms t) < 2 ^ 63"
  shows "\<exists>t'. sodump_reserve (\<lambda>_. True) t (of_nat (length (syms t)) + 1) = Inr (True, t') \<and> syms t' = syms t"
proof -
  have wanted: "unat (of_nat (length (syms t)) + 1 :: u64) = length (syms t) + 1"
    using assms(2) by (simp add: unat_word_ariths unat_of_nat)
  let ?c = "if capacity t \<noteq> 0 then capacity t else 64"
  have "\<exists>k \<le> 57. unat ?c = 64 * 2 ^ k"
    using assms(1) by (auto simp: table_ok_def capacity_ok_def intro: exI [of _ 0])
  then obtain k where k: "k \<le> 57" "unat ?c = 64 * 2 ^ k" by blast
  have "57 - k < 65" by linarith
  then obtain c' where "sodump_grow 65 ?c (of_nat (length (syms t)) + 1) = Inr (Some c')"
    using grow_Some [OF k(2,1), of 65 "of_nat (length (syms t)) + 1"] wanted assms(2) by auto
  then show ?thesis by (auto simp: sodump_reserve_def)
qed

lemma add_room:
  assumes "table_ok t" and "length (syms t) < 2 ^ 63"
  shows "\<exists>t'. sodump_add_symbol (\<lambda>_. True) t s name dyn = Inr (True, t') \<and> length (syms t') \<le> Suc (length (syms t))"
proof -
  obtain t' where "sodump_reserve (\<lambda>_. True) t (of_nat (length (syms t)) + 1) = Inr (True, t')" "syms t' = syms t"
    using reserve_room [OF assms] by blast
  then show ?thesis
    by (auto simp: sodump_add_symbol_def split: option.split)
qed

lemma add_all_room:
  "table_ok t \<Longrightarrow> length (syms t) + length es \<le> 2 ^ 63 \<Longrightarrow> \<exists>t'. so.add_all (\<lambda>_. True) es t = Inr (True, t')"
proof (induction es arbitrary: t)
  case (Cons e es)
  obtain s name dyn where e: "e = (s, name, dyn)" by (cases e)
  obtain t1 where t1: "sodump_add_symbol (\<lambda>_. True) t s name dyn = Inr (True, t1)" "length (syms t1) \<le> Suc (length (syms t))"
    using add_room [OF Cons.prems(1), of s name dyn] Cons.prems(2) by auto
  have "table_ok t1"
    using gives_D [OF add_symbol_ok [OF Cons.prems(1), of "\<lambda>_. True" s name dyn]] t1(1) by auto
  with Cons.IH [OF this] Cons.prems(2) t1 show ?case by (simp add: e)
qed simp

lemma length_section_entries:
  assumes "section_ok f h sec"
  shows "length (section_entries f h sec) \<le> length f"
proof -
  let ?n = "unat (sh_size sec) div unat (sh_entsize sec)"
  have "length (concat (map (entry_at f sec strings) js)) \<le> length js" for strings js
    by (induction js) (auto simp: entry_at_def Let_def split: option.split intro: le_SucI)
  then have "length (section_entries f h sec) \<le> ?n"
    by (metis section_entries_def length_upt diff_zero)
  also have "?n \<le> length f"
    using assms by (simp add: section_ok_def in_file_def) (meson div_le_dividend le_trans add_leD2)
  finally show ?thesis .
qed

lemma length_file_entries:
  assumes "readable f"
  shows "length (file_entries f) \<le> 2 ^ 17 * length f"
proof -
  let ?h = "read_ehdr (take 64 f)"
  have "length (concat (map (section_entries f ?h) secs)) \<le> length secs * length f"
    if "\<forall>sec \<in> set secs. section_ok f ?h sec" for secs
    using that
  proof (induction secs)
    case (Cons sec secs)
    with length_section_entries [of f ?h sec] show ?case by simp
  qed simp
  moreover have "length (file_sections f) \<le> 2 ^ 17"
  proof -
    have "length (wanted_sections f ?h kind) \<le> unat (e_shnum ?h)" for kind
      unfolding wanted_sections_def by (rule order_trans [OF length_filter_le]) simp
    moreover have "unat (e_shnum ?h) < 2 ^ 16" by (rule order_less_le_trans [OF unsigned_less]) simp
    ultimately show ?thesis
      by (simp add: file_sections_def Let_def) (smt (verit) add_mono le_trans less_imp_le numeral_Bit0)
  qed
  ultimately show ?thesis
    using assms unfolding file_entries_def readable_def by (meson le_trans mult_le_mono1)
qed

text \<open>A file with a symbol table, a string table, and the one function \<^verbatim>\<open>f\<close>.\<close>

definition tiny_header :: elf_ehdr where
  "tiny_header =
     \<lparr>e_ident = ELFMAG @ [2, 1, 1] @ replicate 9 0, e_type = 3, e_machine = 62, e_version = 1, e_entry = 0, e_phoff = 0,
      e_shoff = 64, e_flags = 0, e_ehsize = 64, e_phentsize = 0, e_phnum = 0, e_shentsize = 64, e_shnum = 2, e_shstrndx = 0\<rparr>"

definition tiny_section :: "u32 \<Rightarrow> u64 \<Rightarrow> u64 \<Rightarrow> u64 \<Rightarrow> elf_shdr" where
  "tiny_section kind off n ent =
     \<lparr>sh_name = 0, sh_type = kind, sh_flags = 0, sh_addr = 0, sh_offset = off, sh_size = n, sh_link = 1, sh_info = 0,
      sh_addralign = 1, sh_entsize = ent\<rparr>"

definition tiny_symbol :: elf_sym where
  "tiny_symbol = \<lparr>st_name = 1, st_info = 0x12, st_other = 0, st_shndx = 1, st_value = 0x40, st_size = 8\<rparr>"

definition tiny_file :: bytes where
  "tiny_file =
     write_ehdr tiny_header @ write_shdr (tiny_section SHT_SYMTAB 192 24 24) @ write_shdr (tiny_section 3 216 3 0) @
     write_sym tiny_symbol @ [0, 0x66, 0]"

lemma length_tiny_file: "length tiny_file = 219"
  by (simp add: tiny_file_def tiny_header_def)

lemma tiny_file_parts:
  "read_ehdr (take 64 tiny_file) = tiny_header"
  "header_at tiny_file tiny_header 0 = tiny_section SHT_SYMTAB 192 24 24"
  "header_at tiny_file tiny_header (Suc 0) = tiny_section 3 216 3 0"
  "symbol_at tiny_file (tiny_section SHT_SYMTAB 192 24 24) 0 = tiny_symbol"
  "string_at tiny_file (tiny_section 3 216 3 0) (Suc 0) = Some [0x66]"
  using read_write_ehdr [of tiny_header "[]"] read_write_shdr [where rest = "[]"] read_write_sym [where rest = "[]"]
  by (simp_all add: tiny_file_def header_at_def symbol_at_def string_at_def tiny_header_def tiny_section_def)

lemma tiny_file_sections: "file_sections tiny_file = [tiny_section SHT_SYMTAB 192 24 24]"
proof -
  have "[0..<unat (e_shnum tiny_header)] = [0, Suc 0]"
    by (simp add: tiny_header_def upt_rec)
  then show ?thesis
    using tiny_file_parts by (simp add: file_sections_def wanted_sections_def Let_def) (simp add: tiny_section_def)
qed

lemma tiny_file_readable: "readable tiny_file"
proof -
  have "sodump_range_valid 219 64 (2 * 64)" by (simp add: sodump_range_valid_def)
  then have "sodump_header_ok (of_nat (length tiny_file)) tiny_header"
    by (simp add: sodump_header_ok_def tiny_header_def length_tiny_file)
  moreover have "section_ok tiny_file tiny_header (tiny_section SHT_SYMTAB 192 24 24)"
    using tiny_file_parts(3) by (simp add: section_ok_def in_file_def length_tiny_file tiny_section_def tiny_header_def)
  ultimately show ?thesis
    by (simp add: readable_def tiny_file_parts tiny_file_sections length_tiny_file)
qed

lemma tiny_file_entries: "file_entries tiny_file = [(tiny_symbol, [0x66], False)]"
  using tiny_file_parts
  by (simp add: file_entries_def tiny_file_sections section_entries_def entry_at_def tiny_section_def tiny_symbol_def)

section \<open>The reader\<close>

text \<open>C5: Reading the symbols of a file never reads outside of the file and always ends, whatever the
  file holds and whenever memory runs out. When it returns a table, the file is well formed, no two
  symbols of the table agree in name, address, section and type, the flags say what the fields say,
  and every key has the symbol of the reference: the first entry of a full symbol table, and
  otherwise the first of a dynamic one.\<close>

theorem sodump_parse_correct:
  assumes "file path = Some f" and "length f < 2 ^ 63"
  shows "case sodump_parse alloc file path of
      Inl e \<Rightarrow> False
    | Inr None \<Rightarrow> True
    | Inr (Some t) \<Rightarrow> readable f \<and> table_ok t \<and> (\<forall>k. lookup t k = chosen k (file_entries f))"
proof -
  have size: "file_size_ok f" using assms(2) by (simp add: file_size_ok_def)
  have parse: "sodump_parse alloc file path =
    (if readable f \<and> alloc 40
     then rbind (so.add_all alloc (file_entries f) empty_table) (\<lambda>(ok, t). Inr (if ok then Some t else None))
     else Inr None)"
    using assms(1) size by (rule sodump_parse_eq)
  obtain ok t where t: "so.add_all alloc (file_entries f) empty_table = Inr (ok, t)" "table_ok t"
      "ok \<Longrightarrow> lookup t k = chosen k (file_entries f)" for k
    using gives_D [OF so.add_all_gives [OF empty_table_ok, of alloc "file_entries f"]]
    by (auto simp: lookup_empty fold_after)
  show ?thesis
    using t by (cases ok) (auto simp: parse)
qed

theorem sodump_parse_correct_witness:
  "case sodump_parse (\<lambda>_. True) (\<lambda>_. Some tiny_file) ''libf.so'' of
     Inl e \<Rightarrow> False
   | Inr None \<Rightarrow> True
   | Inr (Some t) \<Rightarrow> lookup t ([0x66], 0x40, 1, SO_SYMBOL_FUNC) = Some (fill_symbol tiny_symbol False [0x66])"
proof -
  have "chosen ([0x66], 0x40, 1, SO_SYMBOL_FUNC) (file_entries tiny_file) = Some (fill_symbol tiny_symbol False [0x66])"
    by (simp add: chosen_def tiny_file_entries kept_entry_def entry_key_def tiny_symbol_def st_type_def sodump_symbol_type_def)
  then show ?thesis
    using sodump_parse_correct [of "\<lambda>_. Some tiny_file" "''libf.so''" tiny_file "\<lambda>_. True"]
    by (simp add: length_tiny_file split: sum.splits option.splits)
qed

text \<open>C39: When there is enough memory, every file up to a terabyte that is well formed gives a table,
  and no other file does.\<close>

theorem sodump_parse_complete:
  assumes "file path = Some f" and "length f < 2 ^ 40"
  shows "(\<exists>t. sodump_parse (\<lambda>_. True) file path = Inr (Some t)) \<longleftrightarrow> readable f"
proof -
  have size: "file_size_ok f" using assms(2) by (simp add: file_size_ok_def)
  have parse: "sodump_parse (\<lambda>_. True) file path =
    (if readable f \<and> True
     then rbind (so.add_all (\<lambda>_. True) (file_entries f) empty_table) (\<lambda>(ok, t). Inr (if ok then Some t else None))
     else Inr None)"
    using assms(1) size by (rule sodump_parse_eq)
  have "\<exists>t. so.add_all (\<lambda>_. True) (file_entries f) empty_table = Inr (True, t)" if "readable f"
  proof (rule add_all_room [OF empty_table_ok])
    have "length (file_entries f) \<le> 2 ^ 17 * length f" using that by (rule length_file_entries)
    also have "\<dots> \<le> 2 ^ 63" using assms(2) by simp
    finally show "length (syms empty_table) + length (file_entries f) \<le> 2 ^ 63" by (simp add: empty_table_def)
  qed
  then show ?thesis by (auto simp: parse)
qed

theorem sodump_parse_complete_witness:
  "\<exists>t. sodump_parse (\<lambda>_. True) (\<lambda>_. Some tiny_file) ''libf.so'' = Inr (Some t)"
  using sodump_parse_complete [of "\<lambda>_. Some tiny_file" "''libf.so''" tiny_file] tiny_file_readable
  by (simp add: length_tiny_file)

end
