(* ===== verification/Cup_Lielf.thy ===== *)
theory Cup_Lielf
  imports Cup_Elf
begin

text \<open>
  The object file model of \<^verbatim>\<open>include/lielf.h\<close>: a binary as lists of sections, segments, symbols,
  relocations and dynamic entries, the operations that change it, the reader \<^verbatim>\<open>lielf_load_mem\<close> and the
  writer \<^verbatim>\<open>lielf_build\<close>. A C string is the bytes before its NUL; a pointer into an array is an index;
  memory can always be had.
\<close>

section \<open>The object model\<close>

datatype lielf_sec_kind =
    LIELF_SEC_NORMAL
  | LIELF_SEC_SHSTRTAB
  | LIELF_SEC_SYMTAB
  | LIELF_SEC_STRTAB
  | LIELF_SEC_DYNSYM
  | LIELF_SEC_DYNSTR
  | LIELF_SEC_RELA
  | LIELF_SEC_DYNAMIC

record lielf_section =
  ls_name :: bytes
  ls_type :: u32
  ls_flags :: u64
  ls_addr :: u64
  ls_offset :: u64
  ls_size :: u64
  ls_link :: u32
  ls_info :: u32
  ls_addralign :: u64
  ls_entsize :: u64
  ls_data :: "bytes option"
  ls_kind :: lielf_sec_kind
  loaded_alloc :: bool
  dirty :: bool
  rela_dynamic :: bool
  rela_target :: "bytes option"

record lielf_symbol =
  lsym_name :: bytes
  lsym_value :: u64
  lsym_size :: u64
  lsym_info :: u8
  lsym_other :: u8
  lsym_shndx :: u16

record lielf_reloc =
  target_section :: bytes
  lr_offset :: u64
  lr_sym :: u32
  lr_type :: u32
  lr_addend :: u64
  lr_dynamic :: bool

record lielf_binary =
  lb_ehdr :: elf_ehdr
  sections :: "lielf_section list"
  segments :: "elf_phdr list"
  symbols :: "lielf_symbol list"
  dynsymbols :: "lielf_symbol list"
  relocs :: "lielf_reloc list"
  dynamic :: "elf_dyn list"
  base_vaddr :: u64

definition chars :: "string \<Rightarrow> bytes" where "chars s = map of_char s"

abbreviation SHT_NULL :: u32 where "SHT_NULL \<equiv> 0"
abbreviation SHT_STRTAB :: u32 where "SHT_STRTAB \<equiv> 3"
abbreviation SHT_RELA :: u32 where "SHT_RELA \<equiv> 4"
abbreviation SHT_DYNAMIC :: u32 where "SHT_DYNAMIC \<equiv> 6"
abbreviation SHT_NOBITS :: u32 where "SHT_NOBITS \<equiv> 8"
abbreviation SHF_WRITE :: u64 where "SHF_WRITE \<equiv> 1"
abbreviation SHF_ALLOC :: u64 where "SHF_ALLOC \<equiv> 2"
abbreviation SHF_EXECINSTR :: u64 where "SHF_EXECINSTR \<equiv> 4"
abbreviation ET_REL :: u16 where "ET_REL \<equiv> 1"
abbreviation ET_EXEC :: u16 where "ET_EXEC \<equiv> 2"
abbreviation PT_LOAD :: u32 where "PT_LOAD \<equiv> 1"

definition no_section :: lielf_section where
  "no_section =
     \<lparr>ls_name = [], ls_type = 0, ls_flags = 0, ls_addr = 0, ls_offset = 0, ls_size = 0, ls_link = 0, ls_info = 0,
      ls_addralign = 0, ls_entsize = 0, ls_data = None, ls_kind = LIELF_SEC_NORMAL, loaded_alloc = False, dirty = False,
      rela_dynamic = False, rela_target = None\<rparr>"

definition no_symbol :: lielf_symbol where
  "no_symbol = \<lparr>lsym_name = [], lsym_value = 0, lsym_size = 0, lsym_info = 0, lsym_other = 0, lsym_shndx = 0\<rparr>"

definition ST_BIND :: "u8 \<Rightarrow> u8" where "ST_BIND info = drop_bit 4 info"

section \<open>Changing a binary\<close>

definition lielf_new :: "u16 \<Rightarrow> u16 \<Rightarrow> lielf_binary" where
  "lielf_new t machine =
     \<lparr>lb_ehdr = \<lparr>e_ident = ELFMAG @ [2, 1, 1, 0] @ replicate 8 0, e_type = t, e_machine = machine, e_version = EV_CURRENT,
         e_entry = 0, e_phoff = 0, e_shoff = 0, e_flags = 0, e_ehsize = 64, e_phentsize = 56, e_phnum = 0,
         e_shentsize = 64, e_shnum = 0, e_shstrndx = 0\<rparr>,
      sections = [no_section], segments = [], symbols = [no_symbol], dynsymbols = [no_symbol], relocs = [], dynamic = [],
      base_vaddr = (if t = ET_EXEC then 0x400000 else 0)\<rparr>"

definition find_section :: "lielf_section list \<Rightarrow> bytes \<Rightarrow> nat option" where
  "find_section ss name = first_index (\<lambda>s. ls_name s = name) ss"

definition lielf_get_section :: "lielf_binary \<Rightarrow> bytes \<Rightarrow> nat option" where
  "lielf_get_section bin name = find_section (sections bin) name"

text \<open>The initial bytes are \<open>size\<close> bytes of \<open>data\<close>, or zero.\<close>

definition initial_data :: "bytes option \<Rightarrow> u64 \<Rightarrow> bytes res" where
  "initial_data data n =
     (case data of
        None \<Rightarrow> Inr (replicate (unat n) 0)
      | Some d \<Rightarrow> if unat n \<le> length d then Inr (take (unat n) d) else Inl Undef)"

definition new_section :: "bytes \<Rightarrow> u32 \<Rightarrow> u64 \<Rightarrow> u64 \<Rightarrow> u64 \<Rightarrow> lielf_section" where
  "new_section name t flags n align =
     no_section\<lparr>ls_name := name, ls_type := t, ls_flags := flags, ls_size := n,
       ls_addralign := if align \<noteq> 0 then align else 1, dirty := True\<rparr>"

definition lielf_add_section ::
  "bytes \<Rightarrow> u32 \<Rightarrow> u64 \<Rightarrow> bytes option \<Rightarrow> u64 \<Rightarrow> u64 \<Rightarrow> lielf_binary \<Rightarrow> (nat \<times> lielf_binary) res" where
  "lielf_add_section name t flags data n align bin =
     (let s = new_section name t flags n align
      in if t \<noteq> SHT_NOBITS \<and> n > 0 then
           rbind (initial_data data n) (\<lambda>d.
             Inr (length (sections bin), bin\<lparr>sections := sections bin @ [s\<lparr>ls_data := Some d\<rparr>]\<rparr>))
         else Inr (length (sections bin), bin\<lparr>sections := sections bin @ [s]\<rparr>))"

definition lielf_remove_section :: "bytes \<Rightarrow> lielf_binary \<Rightarrow> bool \<times> lielf_binary" where
  "lielf_remove_section name bin =
     (case find_section (sections bin) name of
        None \<Rightarrow> (False, bin)
      | Some i \<Rightarrow> (True, bin\<lparr>sections := take i (sections bin) @ drop (Suc i) (sections bin)\<rparr>))"

definition lielf_set_section_data :: "nat \<Rightarrow> bytes option \<Rightarrow> u64 \<Rightarrow> lielf_binary \<Rightarrow> lielf_binary res" where
  "lielf_set_section_data i data n bin =
     rbind (if n > 0 then rbind (initial_data data n) (\<lambda>d. Inr (Some d)) else Inr None) (\<lambda>nd.
       Inr (bin\<lparr>sections := (sections bin)[i := (sections bin ! i)\<lparr>ls_data := nd, ls_size := n, dirty := True\<rparr>]\<rparr>))"

definition lielf_add_segment :: "u32 \<Rightarrow> u32 \<Rightarrow> u64 \<Rightarrow> u64 \<Rightarrow> u64 \<Rightarrow> u64 \<Rightarrow> lielf_binary \<Rightarrow> nat \<times> lielf_binary" where
  "lielf_add_segment t flags vaddr filesz memsz align bin =
     (length (segments bin),
      bin\<lparr>segments := segments bin @ [\<lparr>p_type = t, p_flags = flags, p_offset = 0, p_vaddr = vaddr, p_paddr = vaddr,
        p_filesz = filesz, p_memsz = memsz, p_align = if align \<noteq> 0 then align else 1\<rparr>]\<rparr>)"

definition lielf_add_symbol :: "bytes \<Rightarrow> u64 \<Rightarrow> u64 \<Rightarrow> u8 \<Rightarrow> u16 \<Rightarrow> bool \<Rightarrow> lielf_binary \<Rightarrow> nat \<times> lielf_binary" where
  "lielf_add_symbol name v n info shndx dyn bin =
     (let s = \<lparr>lsym_name = name, lsym_value = v, lsym_size = n, lsym_info = info, lsym_other = 0, lsym_shndx = shndx\<rparr>
      in if dyn then (length (dynsymbols bin), bin\<lparr>dynsymbols := dynsymbols bin @ [s]\<rparr>)
         else (length (symbols bin), bin\<lparr>symbols := symbols bin @ [s]\<rparr>))"

definition symbol_list :: "bool \<Rightarrow> lielf_binary \<Rightarrow> lielf_symbol list" where
  "symbol_list dyn bin = (if dyn then dynsymbols bin else symbols bin)"

definition set_symbols :: "bool \<Rightarrow> lielf_symbol list \<Rightarrow> lielf_binary \<Rightarrow> lielf_binary" where
  "set_symbols dyn ss bin = (if dyn then bin\<lparr>dynsymbols := ss\<rparr> else bin\<lparr>symbols := ss\<rparr>)"

definition lielf_find_symbol :: "bytes \<Rightarrow> bool \<Rightarrow> lielf_binary \<Rightarrow> nat option" where
  "lielf_find_symbol name dyn bin =
     find (\<lambda>i. lsym_name (symbol_list dyn bin ! i) = name) [1..<length (symbol_list dyn bin)]"

definition lielf_add_reloc :: "bytes option \<Rightarrow> u64 \<Rightarrow> u32 \<Rightarrow> u32 \<Rightarrow> u64 \<Rightarrow> bool \<Rightarrow> lielf_binary \<Rightarrow> nat \<times> lielf_binary" where
  "lielf_add_reloc target off sym_index t addend dyn bin =
     (length (relocs bin),
      bin\<lparr>relocs := relocs bin @ [\<lparr>target_section = (case target of None \<Rightarrow> [] | Some x \<Rightarrow> x), lr_offset = off, lr_sym = sym_index,
        lr_type = t, lr_addend = addend, lr_dynamic = dyn\<rparr>]\<rparr>)"

definition lielf_get_dynamic :: "u64 \<Rightarrow> lielf_binary \<Rightarrow> nat option" where
  "lielf_get_dynamic tag bin = find (\<lambda>i. d_tag (dynamic bin ! i) = tag) [0..<length (dynamic bin)]"

definition lielf_add_dynamic :: "u64 \<Rightarrow> u64 \<Rightarrow> lielf_binary \<Rightarrow> nat \<times> lielf_binary" where
  "lielf_add_dynamic tag v bin = (length (dynamic bin), bin\<lparr>dynamic := dynamic bin @ [\<lparr>d_tag = tag, d_val = v\<rparr>]\<rparr>)"

definition lielf_get_entry :: "lielf_binary \<Rightarrow> u64" where "lielf_get_entry bin = e_entry (lb_ehdr bin)"

definition lielf_set_entry :: "u64 \<Rightarrow> lielf_binary \<Rightarrow> lielf_binary" where
  "lielf_set_entry v bin = bin\<lparr>lb_ehdr := (lb_ehdr bin)\<lparr>e_entry := v\<rparr>\<rparr>"

section \<open>Reading a file\<close>

text \<open>The string that starts at an index; without a NUL in the memory behind it there is none.\<close>

definition c_string :: "nat \<Rightarrow> bytes \<Rightarrow> bytes res" where
  "c_string i bs = (if 0 \<in> set (drop i bs) then Inr (takeWhile (\<lambda>b. b \<noteq> 0) (drop i bs)) else Inl Undef)"

primrec rmap :: "('a \<Rightarrow> 'b res) \<Rightarrow> 'a list \<Rightarrow> 'b list res" where
  "rmap f [] = Inr []"
| "rmap f (x # xs) = rbind (f x) (\<lambda>y. rbind (rmap f xs) (\<lambda>ys. Inr (y # ys)))"

definition read_headers :: "bytes \<Rightarrow> u64 \<Rightarrow> nat \<Rightarrow> elf_shdr list res" where
  "read_headers f shoff n = rmap (\<lambda>i. rbind (region 64 (shoff + of_nat i * 64) f) (\<lambda>bs. Inr (read_shdr bs))) [0..<n]"

text \<open>Where the section names are: an offset in the file and a size.\<close>

definition name_table :: "bytes \<Rightarrow> elf_ehdr \<Rightarrow> elf_shdr list \<Rightarrow> (u64 \<times> u64) option" where
  "name_table f h shdrs =
     (if e_shstrndx h < e_shnum h then
        (let sh = shdrs ! unat (e_shstrndx h)
         in if sh_offset sh + sh_size sh \<le> of_nat (length f) then Some (sh_offset sh, sh_size sh) else None)
      else None)"

definition section_name :: "bytes \<Rightarrow> (u64 \<times> u64) option \<Rightarrow> elf_shdr \<Rightarrow> bytes res" where
  "section_name f names sh =
     (case names of
        None \<Rightarrow> Inr []
      | Some (off, n) \<Rightarrow> if ucast (sh_name sh) < n then c_string (unat off + unat (sh_name sh)) f else Inr [])"

definition section_bytes :: "bytes \<Rightarrow> elf_shdr \<Rightarrow> bytes option res" where
  "section_bytes f sh =
     (if sh_type sh \<noteq> SHT_NOBITS \<and> sh_size sh > 0 \<and> sh_offset sh + sh_size sh \<le> of_nat (length f)
      then rbind (region (unat (sh_size sh)) (sh_offset sh) f) (\<lambda>d. Inr (Some d)) else Inr None)"

definition load_section :: "bytes \<Rightarrow> (u64 \<times> u64) option \<Rightarrow> elf_shdr \<Rightarrow> lielf_section res" where
  "load_section f names sh =
     rbind (section_name f names sh) (\<lambda>name. rbind (section_bytes f sh) (\<lambda>d.
       Inr \<lparr>ls_name = name, ls_type = sh_type sh, ls_flags = sh_flags sh, ls_addr = sh_addr sh, ls_offset = sh_offset sh,
            ls_size = sh_size sh, ls_link = sh_link sh, ls_info = sh_info sh, ls_addralign = sh_addralign sh,
            ls_entsize = sh_entsize sh, ls_data = d, ls_kind = LIELF_SEC_NORMAL,
            loaded_alloc = (sh_type sh \<noteq> SHT_NULL \<and> sh_flags sh AND SHF_ALLOC \<noteq> 0), dirty = False,
            rela_dynamic = False, rela_target = None\<rparr>))"

definition set_kind :: "nat \<Rightarrow> lielf_sec_kind \<Rightarrow> lielf_section list \<Rightarrow> lielf_section list" where
  "set_kind i k ss = (if i < length ss then ss[i := (ss ! i)\<lparr>ls_kind := k\<rparr>] else ss)"

text \<open>What a section is, and the string table it names.\<close>

definition classify :: "nat \<Rightarrow> lielf_section list \<Rightarrow> lielf_section list" where
  "classify i ss =
     (let s = ss ! i; link = unat (ls_link s); info = unat (ls_info s)
      in if ls_type s = SHT_SYMTAB then set_kind link LIELF_SEC_STRTAB (set_kind i LIELF_SEC_SYMTAB ss)
         else if ls_type s = SHT_DYNSYM then set_kind link LIELF_SEC_DYNSTR (set_kind i LIELF_SEC_DYNSYM ss)
         else if ls_type s = SHT_DYNAMIC then set_kind i LIELF_SEC_DYNAMIC ss
         else if ls_type s = SHT_RELA then
           ss[i := s\<lparr>ls_kind := LIELF_SEC_RELA,
                     rela_target := (if info < length ss then Some (ls_name (ss ! info)) else rela_target s),
                     rela_dynamic := (if link < length ss then ls_type (ss ! link) = SHT_DYNSYM else rela_dynamic s)\<rparr>]
         else ss)"

definition classify_all :: "elf_ehdr \<Rightarrow> lielf_section list \<Rightarrow> lielf_section list" where
  "classify_all h ss =
     fold classify [0..<length ss] (if e_shstrndx h \<noteq> 0 then set_kind (unat (e_shstrndx h)) LIELF_SEC_SHSTRTAB ss else ss)"

text \<open>The rows of a table. Their number comes from the size of an entry that the header names.\<close>

definition row_count :: "lielf_section \<Rightarrow> u64 \<Rightarrow> nat" where
  "row_count s row_size = (if ls_entsize s \<noteq> 0 then unat (ls_size s div ls_entsize s)
     else if row_size = 0 then 0 else unat (ls_size s div row_size))"

definition row :: "nat \<Rightarrow> bytes \<Rightarrow> nat \<Rightarrow> bytes res" where
  "row n d j = (if j * n + n \<le> length d then Inr (take n (drop (j * n) d)) else Inl Undef)"

definition load_symbol :: "(bytes option \<times> u64) \<Rightarrow> elf_sym \<Rightarrow> lielf_symbol res" where
  "load_symbol strings rs =
     rbind (case strings of
              (Some d, n) \<Rightarrow> if ucast (st_name rs) < n then c_string (unat (st_name rs)) d else Inr []
            | (None, _) \<Rightarrow> Inr []) (\<lambda>name.
       Inr \<lparr>lsym_name = name, lsym_value = st_value rs, lsym_size = st_size rs, lsym_info = st_info rs,
            lsym_other = st_other rs, lsym_shndx = st_shndx rs\<rparr>)"

definition load_symbols :: "lielf_section list \<Rightarrow> lielf_section \<Rightarrow> lielf_symbol list res" where
  "load_symbols ss s =
     (let strings = (if unat (ls_link s) < length ss
                     then (ls_data (ss ! unat (ls_link s)), ls_size (ss ! unat (ls_link s))) else (None, 0))
      in case ls_data s of
           None \<Rightarrow> Inr []
         | Some d \<Rightarrow> rmap (\<lambda>j. rbind (row 24 d j) (\<lambda>bs. load_symbol strings (read_sym bs))) [0..<row_count s 0])"

definition load_reloc :: "lielf_section \<Rightarrow> elf_rela \<Rightarrow> lielf_reloc" where
  "load_reloc s rr =
     \<lparr>target_section = (case rela_target s of None \<Rightarrow> [] | Some t \<Rightarrow> t), lr_offset = r_offset rr,
      lr_sym = ucast (drop_bit 32 (r_info rr)), lr_type = ucast (r_info rr), lr_addend = r_addend rr, lr_dynamic = rela_dynamic s\<rparr>"

definition load_relocs :: "lielf_section \<Rightarrow> lielf_reloc list res" where
  "load_relocs s =
     (case ls_data s of
        None \<Rightarrow> Inr []
      | Some d \<Rightarrow> rmap (\<lambda>j. rbind (row 24 d j) (\<lambda>bs. Inr (load_reloc s (read_rela bs)))) [0..<row_count s 24])"

text \<open>Dynamic entries, up to the one with tag zero.\<close>

primrec load_dynamic_rows :: "bytes \<Rightarrow> nat \<Rightarrow> nat \<Rightarrow> elf_dyn list res" where
  "load_dynamic_rows d 0 j = Inr []"
| "load_dynamic_rows d (Suc n) j =
     rbind (row 16 d j) (\<lambda>bs.
       let rd = read_dyn bs
       in if d_tag rd = 0 then Inr [] else rbind (load_dynamic_rows d n (Suc j)) (\<lambda>ds. Inr (rd # ds)))"

definition load_dynamic :: "lielf_section \<Rightarrow> elf_dyn list res" where
  "load_dynamic s = (case ls_data s of None \<Rightarrow> Inr [] | Some d \<Rightarrow> load_dynamic_rows d (row_count s 16) 0)"

definition load_table :: "lielf_section \<Rightarrow> lielf_binary \<Rightarrow> lielf_binary res" where
  "load_table s bin =
     (if ls_kind s = LIELF_SEC_SYMTAB then
        rbind (load_symbols (sections bin) s) (\<lambda>xs. Inr (bin\<lparr>symbols := symbols bin @ xs\<rparr>))
      else if ls_kind s = LIELF_SEC_DYNSYM then
        rbind (load_symbols (sections bin) s) (\<lambda>xs. Inr (bin\<lparr>dynsymbols := dynsymbols bin @ xs\<rparr>))
      else if ls_kind s = LIELF_SEC_RELA then
        rbind (load_relocs s) (\<lambda>xs. Inr (bin\<lparr>relocs := relocs bin @ xs\<rparr>))
      else if ls_kind s = LIELF_SEC_DYNAMIC then
        rbind (load_dynamic s) (\<lambda>xs. Inr (bin\<lparr>dynamic := dynamic bin @ xs\<rparr>))
      else Inr bin)"

primrec load_tables :: "lielf_section list \<Rightarrow> lielf_binary \<Rightarrow> lielf_binary res" where
  "load_tables [] bin = Inr bin"
| "load_tables (s # ss) bin = rbind (load_table s bin) (load_tables ss)"

definition load_sections :: "bytes \<Rightarrow> lielf_binary \<Rightarrow> lielf_binary res" where
  "load_sections f bin =
     (let h = lb_ehdr bin
      in if e_shnum h \<noteq> 0 \<and> e_shoff h + ucast (e_shnum h) * 64 \<le> of_nat (length f) then
           rbind (read_headers f (e_shoff h) (unat (e_shnum h))) (\<lambda>shdrs.
           rbind (rmap (load_section f (name_table f h shdrs)) shdrs) (\<lambda>ss.
             let ss = classify_all h ss in load_tables ss (bin\<lparr>sections := ss\<rparr>)))
         else Inr bin)"

definition ensure_null_sym :: "lielf_symbol list \<Rightarrow> lielf_symbol list" where
  "ensure_null_sym ss = (if ss = [] then [no_symbol] else ss)"

definition load_segments :: "bytes \<Rightarrow> lielf_binary \<Rightarrow> lielf_binary res" where
  "load_segments f bin =
     (let h = lb_ehdr bin
      in if e_phnum h \<noteq> 0 \<and> e_phoff h + ucast (e_phnum h) * 56 \<le> of_nat (length f) then
           rbind (rmap (\<lambda>i. rbind (region 56 (e_phoff h + of_nat i * 56) f) (\<lambda>bs. Inr (read_phdr bs))) [0..<unat (e_phnum h)])
             (\<lambda>ps. Inr (bin\<lparr>segments := ps\<rparr>))
         else Inr bin)"

definition lielf_load_mem :: "bytes \<Rightarrow> lielf_binary option res" where
  "lielf_load_mem f =
     (if length f < 64 \<or> take 4 f \<noteq> ELFMAG \<or> f ! 4 \<noteq> 2 \<or> f ! 5 \<noteq> 1 then Inr None
      else
        (let h = read_ehdr (take 64 f);
             bin = \<lparr>lb_ehdr = h, sections = [], segments = [], symbols = [], dynsymbols = [], relocs = [], dynamic = [],
                    base_vaddr = (if e_type h = ET_EXEC then 0x400000 else 0)\<rparr>
         in rbind (load_sections f bin) (\<lambda>bin.
            rbind (load_segments f (bin\<lparr>symbols := ensure_null_sym (symbols bin), dynsymbols := ensure_null_sym (dynsymbols bin)\<rparr>))
              (\<lambda>bin. Inr (Some bin)))))"

section \<open>Regenerating the tables\<close>

definition at_section :: "nat \<Rightarrow> (lielf_section \<Rightarrow> lielf_section) \<Rightarrow> lielf_binary \<Rightarrow> lielf_binary" where
  "at_section i f bin = bin\<lparr>sections := (sections bin)[i := f (sections bin ! i)]\<rparr>"

text \<open>The data of a section, marked as changed only when it did change.\<close>

definition maybe_update_data :: "bytes option \<Rightarrow> u64 \<Rightarrow> lielf_section \<Rightarrow> lielf_section" where
  "maybe_update_data newbuf newsize s =
     (if ls_data s \<noteq> None \<and> ls_size s = newsize \<and>
         (newsize = 0 \<or> take (unat newsize) (the (ls_data s)) = take (unat newsize) (the newbuf))
      then s else s\<lparr>ls_data := newbuf, ls_size := newsize, dirty := True\<rparr>)"

text \<open>Local symbols first, in their order; relocations go on naming the same symbol.\<close>

definition sort_order :: "lielf_symbol list \<Rightarrow> nat list" where
  "sort_order ss =
     0 # filter (\<lambda>i. ST_BIND (lsym_info (ss ! i)) = STB_LOCAL) [1..<length ss] @
     filter (\<lambda>i. ST_BIND (lsym_info (ss ! i)) \<noteq> STB_LOCAL) [1..<length ss]"

definition index_in :: "nat \<Rightarrow> nat list \<Rightarrow> nat" where
  "index_in x xs = length (takeWhile (\<lambda>y. y \<noteq> x) xs)"

definition sort_symbols_local_first :: "bool \<Rightarrow> lielf_binary \<Rightarrow> lielf_binary" where
  "sort_symbols_local_first dyn bin =
     (let ss = symbol_list dyn bin; n = length ss
      in if n \<le> 1 then bin
         else
           (let order = sort_order ss;
                remap = (\<lambda>r. if lr_dynamic r = dyn \<and> unat (lr_sym r) < n
                             then r\<lparr>lr_sym := of_nat (index_in (unat (lr_sym r)) order)\<rparr> else r)
            in (set_symbols dyn (map ((!) ss) order) bin)\<lparr>relocs := map remap (relocs bin)\<rparr>))"

text \<open>Names as they lie in a string table: behind an empty one, each with its NUL.\<close>

definition string_table :: "bytes list \<Rightarrow> bytes" where
  "string_table names = 0 # concat (map (\<lambda>x. x @ [0]) names)"

text \<open>The section with a name, added when there is none.\<close>

definition get_or_add :: "bytes \<Rightarrow> u32 \<Rightarrow> u64 \<Rightarrow> u64 \<Rightarrow> lielf_binary \<Rightarrow> nat \<times> lielf_binary" where
  "get_or_add name t flags align bin =
     (case lielf_get_section bin name of
        Some i \<Rightarrow> (i, bin)
      | None \<Rightarrow> (length (sections bin), bin\<lparr>sections := sections bin @ [new_section name t flags 0 align]\<rparr>))"

definition rebuild_strtab :: "bool \<Rightarrow> lielf_binary \<Rightarrow> lielf_binary" where
  "rebuild_strtab dyn bin =
     (let ss = symbol_list dyn bin; secname = chars (if dyn then ''.dynstr'' else ''.strtab'')
      in if length ss \<le> 1 then
           (case lielf_get_section bin secname of
              None \<Rightarrow> bin
            | Some i \<Rightarrow> at_section i (maybe_update_data (Some [0]) 1) bin)
         else
           (let buf = string_table (map lsym_name (tl ss));
                (i, bin) = get_or_add secname SHT_STRTAB (if dyn then SHF_ALLOC else 0) 1 bin
            in at_section i (\<lambda>s. maybe_update_data (Some buf) (of_nat (length buf))
                 (s\<lparr>ls_type := SHT_STRTAB, ls_entsize := 0, ls_kind := if dyn then LIELF_SEC_DYNSTR else LIELF_SEC_STRTAB\<rparr>)) bin))"

definition raw_symbol :: "u32 \<Rightarrow> lielf_symbol \<Rightarrow> elf_sym" where
  "raw_symbol name s =
     \<lparr>st_name = name, st_info = lsym_info s, st_other = lsym_other s, st_shndx = lsym_shndx s,
      st_value = lsym_value s, st_size = lsym_size s\<rparr>"

primrec raw_symbols :: "nat \<Rightarrow> lielf_symbol list \<Rightarrow> bytes" where
  "raw_symbols off [] = []"
| "raw_symbols off (s # ss) =
     write_sym (raw_symbol (of_nat off) s) @ raw_symbols (off + length (lsym_name s) + 1) ss"

definition first_global :: "lielf_symbol list \<Rightarrow> nat" where
  "first_global ss = length (takeWhile (\<lambda>s. ST_BIND (lsym_info s) = STB_LOCAL) ss)"

definition rebuild_symtab :: "bool \<Rightarrow> lielf_binary \<Rightarrow> lielf_binary" where
  "rebuild_symtab dyn bin0 =
     (let bin = sort_symbols_local_first dyn bin0;
          ss = symbol_list dyn bin; secname = chars (if dyn then ''.dynsym'' else ''.symtab'')
      in if length ss \<le> 1 then
           (case lielf_get_section bin secname of
              None \<Rightarrow> bin
            | Some i \<Rightarrow> at_section i (maybe_update_data (Some (replicate 24 0)) 24) bin)
         else
           (let buf = write_sym (raw_symbol 0 (hd ss)) @ raw_symbols 1 (tl ss);
                (i, bin) = get_or_add secname (if dyn then SHT_DYNSYM else SHT_SYMTAB) (if dyn then SHF_ALLOC else 0) 8 bin
            in at_section i (\<lambda>s. maybe_update_data (Some buf) (of_nat (length buf))
                 (s\<lparr>ls_type := if dyn then SHT_DYNSYM else SHT_SYMTAB, ls_entsize := 24,
                    ls_kind := if dyn then LIELF_SEC_DYNSYM else LIELF_SEC_SYMTAB,
                    ls_info := of_nat (first_global ss)\<rparr>)) bin))"

definition target_of :: "lielf_section \<Rightarrow> bytes" where
  "target_of s = (case rela_target s of None \<Rightarrow> [] | Some t \<Rightarrow> t)"

definition find_or_create_rela :: "bytes \<Rightarrow> bool \<Rightarrow> lielf_binary \<Rightarrow> nat \<times> lielf_binary" where
  "find_or_create_rela t dyn bin =
     (case find (\<lambda>i. let s = sections bin ! i in ls_kind s = LIELF_SEC_RELA \<and> rela_dynamic s = dyn \<and> target_of s = t)
             [0..<length (sections bin)] of
        Some i \<Rightarrow> (i, bin)
      | None \<Rightarrow>
          (let name = (if dyn \<and> t = [] then chars ''.rela.dyn'' else take 255 (chars ''.rela'' @ t))
           in (length (sections bin),
               bin\<lparr>sections := sections bin @ [(new_section name SHT_RELA (if dyn then SHF_ALLOC else 0) 0 8)
                 \<lparr>ls_kind := LIELF_SEC_RELA, rela_dynamic := dyn, rela_target := Some t\<rparr>]\<rparr>)))"

definition raw_reloc :: "lielf_reloc \<Rightarrow> elf_rela" where
  "raw_reloc r =
     \<lparr>r_offset = lr_offset r, r_info = push_bit 32 (ucast (lr_sym r)) OR ucast (lr_type r), r_addend = lr_addend r\<rparr>"

definition relocs_of :: "lielf_section \<Rightarrow> lielf_reloc list \<Rightarrow> lielf_reloc list" where
  "relocs_of s rs = filter (\<lambda>r. lr_dynamic r = rela_dynamic s \<and> target_section r = target_of s) rs"

definition rebuild_one_rela :: "lielf_reloc list \<Rightarrow> lielf_section \<Rightarrow> lielf_section" where
  "rebuild_one_rela rs s =
     (let buf = concat (map (\<lambda>r. write_rela (raw_reloc r)) (relocs_of s rs))
      in maybe_update_data (if buf = [] then None else Some buf) (of_nat (length buf)) (s\<lparr>ls_entsize := 24\<rparr>))"

definition rebuild_all_relas :: "lielf_binary \<Rightarrow> lielf_binary" where
  "rebuild_all_relas bin =
     bin\<lparr>sections := map (\<lambda>s. if ls_kind s = LIELF_SEC_RELA then rebuild_one_rela (relocs bin) s else s) (sections bin)\<rparr>"

definition rebuild_relas :: "lielf_binary \<Rightarrow> lielf_binary" where
  "rebuild_relas bin =
     rebuild_all_relas
       (fold (\<lambda>r bin. snd (find_or_create_rela (target_section r) (lr_dynamic r) bin)) (relocs bin) (rebuild_all_relas bin))"

definition rebuild_dynamic :: "lielf_binary \<Rightarrow> lielf_binary" where
  "rebuild_dynamic bin =
     (if dynamic bin = [] then bin
      else
        (let buf = concat (map write_dyn (dynamic bin)) @ replicate 16 0;
             (i, bin) = get_or_add (chars ''.dynamic'') SHT_DYNAMIC (SHF_ALLOC OR SHF_WRITE) 8 bin
         in at_section i (\<lambda>s. maybe_update_data (Some buf) (of_nat (length buf))
              (s\<lparr>ls_type := SHT_DYNAMIC, ls_entsize := 16, ls_kind := LIELF_SEC_DYNAMIC\<rparr>)) bin))"

definition rebuild_shstrtab :: "lielf_binary \<Rightarrow> lielf_binary" where
  "rebuild_shstrtab bin =
     (let (i, bin) = get_or_add (chars ''.shstrtab'') SHT_STRTAB 0 1 bin;
          buf = string_table (map ls_name (sections bin))
      in at_section i (\<lambda>s. maybe_update_data (Some buf) (of_nat (length buf))
           (s\<lparr>ls_kind := LIELF_SEC_SHSTRTAB, ls_type := SHT_STRTAB, ls_entsize := 0\<rparr>)) bin)"

text \<open>The index of a section by its name, or 0.\<close>

definition lielf_section_index :: "lielf_section list \<Rightarrow> bytes \<Rightarrow> nat" where
  "lielf_section_index ss name = (case find_section ss name of Some i \<Rightarrow> i | None \<Rightarrow> 0)"

definition resolve_link :: "lielf_section list \<Rightarrow> lielf_section \<Rightarrow> lielf_section" where
  "resolve_link ss s =
     (case ls_kind s of
        LIELF_SEC_SYMTAB \<Rightarrow> s\<lparr>ls_link := of_nat (lielf_section_index ss (chars ''.strtab''))\<rparr>
      | LIELF_SEC_DYNSYM \<Rightarrow> s\<lparr>ls_link := of_nat (lielf_section_index ss (chars ''.dynstr''))\<rparr>
      | LIELF_SEC_RELA \<Rightarrow>
          s\<lparr>ls_link := of_nat (lielf_section_index ss (chars (if rela_dynamic s then ''.dynsym'' else ''.symtab''))),
            ls_info := (if target_of s \<noteq> [] then of_nat (lielf_section_index ss (target_of s)) else 0)\<rparr>
      | _ \<Rightarrow> s)"

definition resolve_links :: "lielf_binary \<Rightarrow> lielf_binary" where
  "resolve_links bin = bin\<lparr>sections := map (resolve_link (sections bin)) (sections bin)\<rparr>"

definition rebuild_tables :: "lielf_binary \<Rightarrow> lielf_binary" where
  "rebuild_tables bin =
     resolve_links (rebuild_shstrtab (rebuild_dynamic (rebuild_relas
       (rebuild_strtab True (rebuild_symtab True (rebuild_strtab False (rebuild_symtab False bin)))))))"

section \<open>The order of the symbols\<close>

abbreviation is_local :: "lielf_symbol \<Rightarrow> bool" where "is_local s \<equiv> ST_BIND (lsym_info s) = STB_LOCAL"

text \<open>The order that the format asks for: the first symbol stays, local ones come before the others.\<close>

definition local_first :: "lielf_symbol list \<Rightarrow> lielf_symbol list" where
  "local_first ss = (case ss of [] \<Rightarrow> [] | s # ts \<Rightarrow> s # filter is_local ts @ filter (\<lambda>s. \<not> is_local s) ts)"

lemma map_nth_filter: "map ((!) xs) (filter (\<lambda>i. P (xs ! i)) [k..<length xs]) = filter P (drop k xs)"
proof -
  have "map ((!) xs) [k..<length xs] = drop k xs" by (rule nth_equalityI) simp_all
  then have "filter P (drop k xs) = filter P (map ((!) xs) [k..<length xs])" by simp
  then show ?thesis by (simp add: filter_map comp_def)
qed

lemma sorted_symbols: "1 < length ss \<Longrightarrow> map ((!) ss) (sort_order ss) = local_first ss"
  using map_nth_filter [of ss is_local 1] map_nth_filter [of ss "\<lambda>s. \<not> is_local s" 1]
  by (cases ss) (simp_all add: sort_order_def local_first_def)

lemma set_sort_order: "ss \<noteq> [] \<Longrightarrow> set (sort_order ss) = {..<length ss}"
  by (auto simp: sort_order_def)

lemma length_sort_order: "ss \<noteq> [] \<Longrightarrow> length (sort_order ss) = length ss"
  using sum_length_filter_compl [of "\<lambda>i. is_local (ss ! i)" "[1..<length ss]"]
  by (cases ss) (simp_all add: sort_order_def del: upt_Suc)

lemma index_in_nth: "x \<in> set xs \<Longrightarrow> index_in x xs < length xs \<and> xs ! index_in x xs = x"
proof -
  assume "x \<in> set xs"
  then have "index_in x xs < length xs" unfolding index_in_def
    by (induction xs) auto
  then show ?thesis
    using nth_length_takeWhile [of "\<lambda>y. y \<noteq> x" xs] by (simp add: index_in_def)
qed

lemma length_local_first [simp]: "length (local_first ss) = length ss"
  using sum_length_filter_compl [of is_local "tl ss"]
  by (cases ss) (simp_all add: local_first_def)

text \<open>The relocation that names the same symbol in the sorted table.\<close>

definition renumber :: "bool \<Rightarrow> lielf_symbol list \<Rightarrow> lielf_reloc \<Rightarrow> lielf_reloc" where
  "renumber dyn ss r =
     (if lr_dynamic r = dyn \<and> unat (lr_sym r) < length ss
      then r\<lparr>lr_sym := of_nat (index_in (unat (lr_sym r)) (sort_order ss))\<rparr> else r)"

lemma local_first_short: "length ss \<le> 1 \<Longrightarrow> local_first ss = ss"
  by (cases ss) (auto simp: local_first_def)

lemma renumber_short: "length ss \<le> 1 \<Longrightarrow> renumber dyn ss r = r"
  by (cases r; cases ss) (auto simp: renumber_def sort_order_def index_in_def unat_eq_zero)

lemma sort_symbols_eq:
  "sort_symbols_local_first dyn bin =
     (set_symbols dyn (local_first (symbol_list dyn bin)) bin)
       \<lparr>relocs := map (renumber dyn (symbol_list dyn bin)) (relocs bin)\<rparr>"
proof (cases "length (symbol_list dyn bin) \<le> 1")
  case True
  then show ?thesis
    using local_first_short [OF True] renumber_short [OF True]
    by (cases bin) (auto simp: sort_symbols_local_first_def set_symbols_def symbol_list_def map_idI)
next
  case False
  then show ?thesis
    by (simp add: sort_symbols_local_first_def sorted_symbols Let_def renumber_def [abs_def])
qed

text \<open>C14: The symbols of a table are put in the order that the format asks for: the first one stays, the local
  ones come before the others, each group in its old order. Every relocation of the table names the same symbol
  as before, under its new number; the other table, the other relocations and the sections stay.\<close>

theorem symbols_sorted_local_first:
  assumes "length (symbol_list dyn bin) < 2 ^ 32"
  shows "symbol_list dyn (sort_symbols_local_first dyn bin) = local_first (symbol_list dyn bin) \<and>
    symbol_list (\<not> dyn) (sort_symbols_local_first dyn bin) = symbol_list (\<not> dyn) bin \<and>
    sections (sort_symbols_local_first dyn bin) = sections bin \<and>
    list_all2 (\<lambda>r r'. r' = r\<lparr>lr_sym := lr_sym r'\<rparr> \<and>
        (if lr_dynamic r = dyn \<and> unat (lr_sym r) < length (symbol_list dyn bin)
         then local_first (symbol_list dyn bin) ! unat (lr_sym r') = symbol_list dyn bin ! unat (lr_sym r)
         else r' = r))
      (relocs bin) (relocs (sort_symbols_local_first dyn bin))"
proof -
  let ?ss = "symbol_list dyn bin"
  have "local_first ?ss ! unat (lr_sym (renumber dyn ?ss r)) = ?ss ! unat (lr_sym r)"
    if r: "lr_dynamic r = dyn" "unat (lr_sym r) < length ?ss" for r
  proof (cases "length ?ss \<le> 1")
    case True
    then show ?thesis by (simp add: local_first_short renumber_short)
  next
    case False
    let ?i = "index_in (unat (lr_sym r)) (sort_order ?ss)"
    from False have ne: "?ss \<noteq> []" by auto
    with r have i: "?i < length ?ss" "sort_order ?ss ! ?i = unat (lr_sym r)"
      using index_in_nth [of "unat (lr_sym r)" "sort_order ?ss"] by (simp_all add: set_sort_order length_sort_order)
    then have "unat (of_nat ?i :: u32) = ?i" using assms by (simp add: unat_of_nat_small)
    moreover have "local_first ?ss ! ?i = ?ss ! (sort_order ?ss ! ?i)"
      using False i ne by (simp flip: sorted_symbols add: length_sort_order)
    ultimately show ?thesis using r i by (simp add: renumber_def)
  qed
  moreover have "renumber dyn ?ss r = r\<lparr>lr_sym := lr_sym (renumber dyn ?ss r)\<rparr>" for r
    by (simp add: renumber_def)
  ultimately show ?thesis
    by (auto simp: sort_symbols_eq list_all2_conv_all_nth symbol_list_def set_symbols_def renumber_def)
qed

definition two_symbols :: lielf_binary where
  "two_symbols =
     snd (lielf_add_reloc (Some (chars ''.text'')) 1 1 4 0 False
       (snd (lielf_add_symbol (chars ''x'') 0 5 2 1 False
         (snd (lielf_add_symbol (chars ''main'') 0 5 0x12 1 False (lielf_new ET_REL 62))))))"

lemma symbols_sorted_local_first_witness:
  "map lsym_name (symbol_list False (sort_symbols_local_first False two_symbols)) = [[], chars ''x'', chars ''main''] \<and>
   map lr_sym (relocs (sort_symbols_local_first False two_symbols)) = [2]"
proof -
  have "length (symbol_list False two_symbols) = 3"
    by (simp add: two_symbols_def symbol_list_def lielf_add_symbol_def lielf_add_reloc_def lielf_new_def)
  then have "symbol_list False (sort_symbols_local_first False two_symbols) = local_first (symbol_list False two_symbols)"
    using symbols_sorted_local_first [of False two_symbols] by simp
  moreover have "map lsym_name (local_first (symbol_list False two_symbols)) = [[], chars ''x'', chars ''main'']"
    "map lr_sym (relocs (sort_symbols_local_first False two_symbols)) = [2]" by code_simp+
  ultimately show ?thesis by simp
qed

section \<open>Tables with entries of another size\<close>

lemma rmap_Inl: "x \<in> set xs \<Longrightarrow> (\<And>y e. y \<in> set xs \<Longrightarrow> f y = Inl e \<Longrightarrow> e = Undef) \<Longrightarrow> f x = Inl Undef \<Longrightarrow> rmap f xs = Inl Undef"
proof (induction xs)
  case (Cons y ys)
  show ?case
  proof (cases "f y")
    case (Inl e)
    with Cons.prems(2) [of y e] show ?thesis by simp
  next
    case (Inr z)
    with Cons.prems have "x \<in> set ys" by auto
    with Cons.prems have "rmap f ys = Inl Undef" by (intro Cons.IH) auto
    with Inr show ?thesis by simp
  qed
qed simp


definition small_entries :: lielf_section where
  "small_entries = no_section\<lparr>ls_type := SHT_RELA, ls_size := 24, ls_entsize := 8, ls_data := Some (replicate 24 0)\<rparr>"


end
