(* ===== verification/Cup_Build.thy ===== *)
theory Cup_Build
  imports Cup_Lielf
begin

text \<open>
  \<^verbatim>\<open>lielf_build\<close> of \<^verbatim>\<open>include/lielf.h\<close>: where every section, the program headers and the section headers
  of an object go in the file, and the bytes of the file. The file is a buffer of zeros of the
  computed size, written at computed places; a write that does not fit in it is undefined.
\<close>

section \<open>Layout\<close>

abbreviation LIELF_PAGE_SIZE :: u64 where "LIELF_PAGE_SIZE \<equiv> 0x1000"
abbreviation PF_X :: u32 where "PF_X \<equiv> 1"
abbreviation PF_W :: u32 where "PF_W \<equiv> 2"
abbreviation PF_R :: u32 where "PF_R \<equiv> 4"

definition align_up :: "u64 \<Rightarrow> u64 \<Rightarrow> u64" where
  "align_up v a = (if a \<le> 1 then v else (v + (a - 1)) AND NOT (a - 1))"

datatype placement = Skip | Fixed | Fresh | Meta

definition is_rel :: "lielf_binary \<Rightarrow> bool" where "is_rel bin = (e_type (lb_ehdr bin) = ET_REL)"

definition layout_class :: "bool \<Rightarrow> nat \<Rightarrow> lielf_section \<Rightarrow> placement" where
  "layout_class rel nsegments s =
     (if ls_type s = SHT_NULL then Skip
      else if ls_flags s AND SHF_ALLOC = 0 then Meta
      else if \<not> rel \<and> loaded_alloc s \<and> \<not> dirty s \<and> nsegments > 0 then Fixed
      else Fresh)"

text \<open>The bytes of the file that a section takes.\<close>

definition file_size :: "lielf_section \<Rightarrow> u64" where
  "file_size s = (if ls_type s = SHT_NOBITS then 0 else ls_size s)"

text \<open>The load address of the first byte of the file.\<close>

definition load_base :: "lielf_binary \<Rightarrow> u64" where
  "load_base bin =
     (if is_rel bin then base_vaddr bin
      else case find (\<lambda>p. p_type p = PT_LOAD) (segments bin) of
             Some p \<Rightarrow> p_vaddr p - p_offset p
           | None \<Rightarrow> base_vaddr bin)"

definition headers_end :: "lielf_binary \<Rightarrow> u64" where
  "headers_end bin =
     (let n = of_nat (length (segments bin)) * 56
      in if segments bin \<noteq> [] then (let a = 64 + n; b = e_phoff (lb_ehdr bin) + n in if a > b then a else b) else 64)"

definition fixed_end :: "lielf_binary \<Rightarrow> u64" where
  "fixed_end bin =
     fold (\<lambda>s e. if layout_class (is_rel bin) (length (segments bin)) s = Fixed \<and> ls_offset s + file_size s > e
                 then ls_offset s + file_size s else e)
       (tl (sections bin)) (headers_end bin)"

text \<open>The sections of one class, one behind the other, each at its alignment.\<close>

primrec lay_out :: "(lielf_section \<Rightarrow> bool) \<Rightarrow> (u64 \<Rightarrow> u64) \<Rightarrow> u64 \<Rightarrow> lielf_section list \<Rightarrow> u64 \<times> lielf_section list" where
  "lay_out P addr cur [] = (cur, [])"
| "lay_out P addr cur (s # ss) =
     (if P s then
        (let off = align_up cur (if ls_addralign s \<noteq> 0 then ls_addralign s else 1);
             (e, ss') = lay_out P addr (off + file_size s) ss
         in (e, s\<lparr>ls_offset := off, ls_addr := addr off\<rparr> # ss'))
      else (let (e, ss') = lay_out P addr cur ss in (e, s # ss')))"

definition segment_flags :: "lielf_section list \<Rightarrow> u32" where
  "segment_flags ss =
     fold (\<lambda>s fl. fl OR PF_R OR (if ls_flags s AND SHF_WRITE \<noteq> 0 then PF_W else 0) OR
                  (if ls_flags s AND SHF_EXECINSTR \<noteq> 0 then PF_X else 0)) ss 0"

text \<open>Sections that must be loaded, then the rest; a segment for what is new among the loaded ones.
  The result is the binary and the end of the laid out part.\<close>

definition lay_out_sections :: "lielf_binary \<Rightarrow> lielf_binary \<times> u64" where
  "lay_out_sections bin =
     (let rel = is_rel bin; n = length (segments bin); base = load_base bin;
          cls = layout_class rel n;
          start = align_up (fixed_end bin) (if rel then 8 else LIELF_PAGE_SIZE);
          fresh = filter (\<lambda>s. cls s = Fresh) (tl (sections bin));
          (alloc_end, ss) = lay_out (\<lambda>s. cls s = Fresh) (\<lambda>off. if rel then 0 else base + off) start (tl (sections bin));
          (meta_end, ss) = lay_out (\<lambda>s. cls s = Meta) (\<lambda>off. 0) (align_up alloc_end 8) ss;
          bin = bin\<lparr>sections := hd (sections bin) # ss\<rparr>
      in (if \<not> rel \<and> fresh \<noteq> [] then
            bin\<lparr>segments := segments bin @ [\<lparr>p_type = PT_LOAD, p_flags = segment_flags fresh, p_offset = start,
              p_vaddr = base + start, p_paddr = base + start, p_filesz = alloc_end - start, p_memsz = alloc_end - start,
              p_align = LIELF_PAGE_SIZE\<rparr>]\<rparr>
          else bin,
          meta_end))"

text \<open>The tables of headers, at the end; \<open>orig\<close> segments had a place in the file before.\<close>

definition place_phdrs :: "nat \<Rightarrow> lielf_binary \<Rightarrow> u64 \<Rightarrow> u64 \<times> u64" where
  "place_phdrs orig bin meta_end =
     (let n = length (segments bin)
      in if n \<noteq> orig \<or> orig = 0 then
           (if n > 0 then (let off = align_up meta_end 8 in (off, off + of_nat n * 56)) else (0, meta_end))
         else (e_phoff (lb_ehdr bin), meta_end))"

definition place_headers :: "nat \<Rightarrow> lielf_binary \<Rightarrow> u64 \<Rightarrow> lielf_binary \<times> u64" where
  "place_headers orig bin meta_end =
     (let (phoff, meta_end) = place_phdrs orig bin meta_end;
          shoff = align_up meta_end 8; n = length (sections bin); nph = length (segments bin)
      in (bin\<lparr>lb_ehdr := (lb_ehdr bin)\<lparr>e_phoff := if nph > 0 then phoff else 0, e_phnum := of_nat nph,
              e_shoff := shoff, e_shnum := of_nat n,
              e_shstrndx := of_nat (lielf_section_index (sections bin) (chars ''.shstrtab''))\<rparr>\<rparr>,
          shoff + of_nat n * 64))"

section \<open>The file\<close>

definition write_at :: "u64 \<Rightarrow> bytes \<Rightarrow> bytes \<Rightarrow> bytes res" where
  "write_at off bs out =
     (if unat off + length bs \<le> length out
      then Inr (take (unat off) out @ bs @ drop (unat off + length bs) out) else Inl Undef)"

primrec write_all :: "(u64 \<times> bytes) list \<Rightarrow> bytes \<Rightarrow> bytes res" where
  "write_all [] out = Inr out"
| "write_all (w # ws) out = rbind (write_at (fst w) (snd w) out) (write_all ws)"

definition phdr_writes :: "lielf_binary \<Rightarrow> (u64 \<times> bytes) list" where
  "phdr_writes bin =
     (if e_phnum (lb_ehdr bin) > 0
      then map (\<lambda>(i, p). (e_phoff (lb_ehdr bin) + of_nat i * 56, write_phdr p)) (enumerate 0 (segments bin)) else [])"

text \<open>The data of the sections but the first; more bytes than the data has cannot be copied.\<close>

definition data_write :: "lielf_section \<Rightarrow> (u64 \<times> bytes) list res" where
  "data_write s =
     (if ls_type s = SHT_NOBITS \<or> ls_size s = 0 then Inr []
      else case ls_data s of
             None \<Rightarrow> Inr []
           | Some d \<Rightarrow> if unat (ls_size s) \<le> length d then Inr [(ls_offset s, take (unat (ls_size s)) d)] else Inl Undef)"

primrec name_offsets :: "nat \<Rightarrow> lielf_section list \<Rightarrow> nat list" where
  "name_offsets pos [] = []"
| "name_offsets pos (s # ss) = pos # name_offsets (pos + length (ls_name s) + 1) ss"

definition header_of :: "nat \<Rightarrow> lielf_section \<Rightarrow> elf_shdr" where
  "header_of name s =
     \<lparr>sh_name = of_nat name, sh_type = ls_type s, sh_flags = ls_flags s, sh_addr = ls_addr s, sh_offset = ls_offset s,
      sh_size = ls_size s, sh_link = ls_link s, sh_info = ls_info s, sh_addralign = ls_addralign s, sh_entsize = ls_entsize s\<rparr>"

definition null_header :: elf_shdr where
  "null_header =
     \<lparr>sh_name = 0, sh_type = 0, sh_flags = 0, sh_addr = 0, sh_offset = 0, sh_size = 0, sh_link = 0, sh_info = 0,
      sh_addralign = 0, sh_entsize = 0\<rparr>"

definition headers :: "lielf_section list \<Rightarrow> elf_shdr list" where
  "headers ss = null_header # tl (map2 header_of (name_offsets 1 ss) ss)"

definition shdr_writes :: "lielf_binary \<Rightarrow> (u64 \<times> bytes) list" where
  "shdr_writes bin =
     map (\<lambda>(i, h). (e_shoff (lb_ehdr bin) + of_nat i * 64, write_shdr h)) (enumerate 0 (headers (sections bin)))"

definition serialize :: "lielf_binary \<Rightarrow> u64 \<Rightarrow> bytes res" where
  "serialize bin total_size =
     rbind (rmap data_write (tl (sections bin))) (\<lambda>data.
       write_all ((0, write_ehdr (lb_ehdr bin)) # phdr_writes bin @ concat data @ shdr_writes bin)
         (replicate (unat total_size) 0))"

text \<open>What was written is what a further build starts from.\<close>

definition settle :: "lielf_section \<Rightarrow> lielf_section" where
  "settle s = s\<lparr>loaded_alloc := (ls_type s \<noteq> SHT_NULL \<and> ls_flags s AND SHF_ALLOC \<noteq> 0), dirty := False\<rparr>"

definition lielf_build :: "lielf_binary \<Rightarrow> (bytes \<times> lielf_binary) res" where
  "lielf_build bin0 =
     (let bin = rebuild_tables bin0;
          (bin, meta_end) = lay_out_sections bin;
          (bin, total_size) = place_headers (length (segments bin0)) bin meta_end
      in rbind (serialize bin total_size) (\<lambda>out. Inr (out, bin\<lparr>sections := map settle (sections bin)\<rparr>)))"

section \<open>Bounds of the layout\<close>

lemma and_not_bounds:
  fixes x m :: u64
  shows "unat (x AND NOT m) \<le> unat x" "unat x \<le> unat (x AND NOT m) + unat m"
proof -
  show "unat (x AND NOT m) \<le> unat x"
    using word_and_le2 [of x "NOT m"] by (simp add: word_le_nat_alt)
  have "(x AND m) + (x AND NOT m) = (x AND m) OR (x AND NOT m)"
    by (rule disjunctive_add_eq_or) (simp add: bit_eq_iff bit_simps)
  also have "\<dots> = x" by (auto simp: bit_eq_iff bit_simps)
  finally have "unat x \<le> unat (x AND m) + unat (x AND NOT m)"
    by (metis unat_plus_if' diff_le_self le_refl)
  moreover have "unat (x AND m) \<le> unat m"
    using word_and_le1 [of x m] by (simp add: word_le_nat_alt)
  ultimately show "unat x \<le> unat (x AND NOT m) + unat m" by simp
qed

lemma align_up_bounds:
  assumes "unat v + unat a < 2 ^ 64"
  shows "unat v \<le> unat (align_up v a)" "unat (align_up v a) \<le> unat v + unat a"
proof -
  have "unat v \<le> unat (align_up v a) \<and> unat (align_up v a) \<le> unat v + unat a"
  proof (cases "a \<le> 1")
    case True
    then show ?thesis by (simp add: align_up_def)
  next
    case False
    then have "a \<noteq> 0" by auto
    then have m: "unat (a - 1) = unat a - 1" and a: "1 \<le> unat a"
      by (simp_all add: unat_minus_one Suc_leI unat_gt_0)
    then have x: "unat (v + (a - 1)) = unat v + (unat a - 1)"
      using assms by (subst unat_add_lem [THEN iffD1]) simp_all
    show ?thesis
      using and_not_bounds [of "v + (a - 1)" "a - 1"] False a unfolding x m by (simp add: align_up_def) linarith
  qed
  then show "unat v \<le> unat (align_up v a)" "unat (align_up v a) \<le> unat v + unat a" by simp_all
qed

text \<open>A bound on the bytes that the sections of one class take, with what their alignment adds.\<close>

primrec lay_room :: "(lielf_section \<Rightarrow> bool) \<Rightarrow> lielf_section list \<Rightarrow> nat" where
  "lay_room P [] = 0"
| "lay_room P (s # ss) = (if P s then unat (ls_addralign s) + 1 + unat (file_size s) else 0) + lay_room P ss"

definition ends :: "lielf_section \<Rightarrow> nat" where "ends s = unat (ls_offset s) + unat (file_size s)"

definition placed :: "(lielf_section \<Rightarrow> bool) \<Rightarrow> (u64 \<Rightarrow> u64) \<Rightarrow> u64 \<Rightarrow> u64 \<Rightarrow> lielf_section \<Rightarrow> lielf_section \<Rightarrow> bool" where
  "placed P addr cur e s t \<longleftrightarrow>
     t = (if P s then s\<lparr>ls_offset := ls_offset t, ls_addr := addr (ls_offset t)\<rparr> else s) \<and>
     (P s \<longrightarrow> unat cur \<le> unat (ls_offset t) \<and> ends t \<le> unat e)"

lemma file_size_moved [simp]: "file_size (s\<lparr>ls_offset := off, ls_addr := a\<rparr>) = file_size s"
  by (simp add: file_size_def)

lemma placed_mono:
  "placed P addr cur e s t \<Longrightarrow> unat cur' \<le> unat cur \<Longrightarrow> unat e \<le> unat e' \<Longrightarrow> placed P addr cur' e' s t"
  unfolding placed_def by (meson order_trans)

lemma lay_out_spec:
  assumes "lay_out P addr cur ss = (e, ts)" and "unat cur + lay_room P ss < 2 ^ 64"
    and insens: "\<And>s off a. P (s\<lparr>ls_offset := off, ls_addr := a\<rparr>) = P s"
  shows "unat cur \<le> unat e \<and> unat e \<le> unat cur + lay_room P ss \<and>
         list_all2 (placed P addr cur e) ss ts \<and>
         sorted_wrt (\<lambda>t u. P t \<longrightarrow> P u \<longrightarrow> ends t \<le> unat (ls_offset u)) ts"
  using assms(1, 2)
proof (induction ss arbitrary: cur ts)
  case Nil
  then show ?case by simp
next
  case (Cons s ss)
  show ?case
  proof (cases "P s")
    case False
    with Cons.prems obtain us where "lay_out P addr cur ss = (e, us)" "ts = s # us"
      by (auto split: prod.splits)
    with Cons.IH [of cur us] Cons.prems(2) False show ?thesis
      by (simp add: placed_def)
  next
    case True
    define al off where "al = (if ls_addralign s \<noteq> 0 then ls_addralign s else 1)" and "off = align_up cur al"
    from Cons.prems True obtain us where us: "lay_out P addr (off + file_size s) ss = (e, us)"
      and ts: "ts = s\<lparr>ls_offset := off, ls_addr := addr off\<rparr> # us"
      by (auto simp: al_def off_def Let_def split: prod.splits)
    have "unat al \<le> unat (ls_addralign s) + 1" by (simp add: al_def)
    with Cons.prems(2) True have off: "unat cur \<le> unat off" "unat off \<le> unat cur + unat (ls_addralign s) + 1"
      using align_up_bounds [of cur al] by (simp_all add: off_def)
    with Cons.prems(2) True have n: "unat (off + file_size s) = unat off + unat (file_size s)"
      by (subst unat_add_lem [THEN iffD1]) simp_all
    have IH: "unat (off + file_size s) \<le> unat e \<and> unat e \<le> unat (off + file_size s) + lay_room P ss \<and>
       list_all2 (placed P addr (off + file_size s) e) ss us \<and>
       sorted_wrt (\<lambda>t u. P t \<longrightarrow> P u \<longrightarrow> ends t \<le> unat (ls_offset u)) us"
      by (rule Cons.IH [OF us]) (use Cons.prems(2) True off n in simp)
    have "P u \<longrightarrow> unat off + unat (file_size s) \<le> unat (ls_offset u)" if "u \<in> set us" for u
    proof -
      from that IH obtain s' where "placed P addr (off + file_size s) e s' u"
        by (auto simp: list_all2_conv_all_nth in_set_conv_nth)
      then show ?thesis using insens n unfolding placed_def by (metis (no_types))
    qed
    moreover have "list_all2 (placed P addr cur e) ss us"
      using IH off n by (auto elim!: list_all2_mono placed_mono)
    moreover have "placed P addr cur e s (s\<lparr>ls_offset := off, ls_addr := addr off\<rparr>)"
      using IH off n True by (simp add: placed_def ends_def)
    ultimately show ?thesis using IH off n True ts by (simp add: ends_def)
  qed
qed

section \<open>Writes that do not meet\<close>

definition within :: "nat \<Rightarrow> u64 \<times> bytes \<Rightarrow> bool" where
  "within n w \<longleftrightarrow> unat (fst w) + length (snd w) \<le> n"

definition clear_of :: "u64 \<times> bytes \<Rightarrow> u64 \<times> bytes \<Rightarrow> bool" where
  "clear_of w v \<longleftrightarrow> unat (fst w) + length (snd w) \<le> unat (fst v) \<or> unat (fst v) + length (snd v) \<le> unat (fst w)"

definition holds :: "bytes \<Rightarrow> u64 \<times> bytes \<Rightarrow> bool" where
  "holds f w \<longleftrightarrow> within (length f) w \<and> take (length (snd w)) (drop (unat (fst w)) f) = snd w"

lemma write_at_within:
  "within (length out) w \<Longrightarrow>
   \<exists>out'. write_at (fst w) (snd w) out = Inr out' \<and> length out' = length out \<and> holds out' w \<and>
     (\<forall>v. clear_of w v \<longrightarrow> holds out v \<longrightarrow> holds out' v)"
proof -
  assume w: "within (length out) w"
  define out' where "out' = take (unat (fst w)) out @ snd w @ drop (unat (fst w) + length (snd w)) out"
  have n: "length out' = length out" using w by (simp add: out'_def within_def)
  have h: "holds out' w" using w n by (simp add: holds_def) (simp add: out'_def within_def)
  have "holds out' v" if c: "clear_of w v" and v: "holds out v" for v
  proof -
    have eq: "take (length (snd v)) (drop (unat (fst v)) out') = take (length (snd v)) (drop (unat (fst v)) out)"
    proof (rule nth_equalityI)
      show "length (take (length (snd v)) (drop (unat (fst v)) out')) = length (take (length (snd v)) (drop (unat (fst v)) out))"
        by (simp add: n)
      fix i
      assume "i < length (take (length (snd v)) (drop (unat (fst v)) out'))"
      then have i: "i < length (snd v)" "unat (fst v) + i < length out" by (auto simp: n)
      then show "take (length (snd v)) (drop (unat (fst v)) out') ! i = take (length (snd v)) (drop (unat (fst v)) out) ! i"
        using c w by (auto simp: n out'_def nth_append clear_of_def within_def)
    qed
    with v n show ?thesis by (simp add: holds_def)
  qed
  with n h w show ?thesis
    by (intro exI [of _ out']) (simp add: write_at_def within_def out'_def)
qed

lemma write_all_apart:
  "list_all (within (length out)) ws \<Longrightarrow> sorted_wrt clear_of ws \<Longrightarrow>
   \<exists>f. write_all ws out = Inr f \<and> length f = length out \<and> list_all (holds f) ws \<and>
     (\<forall>v. list_all (\<lambda>w. clear_of w v) ws \<longrightarrow> holds out v \<longrightarrow> holds f v)"
proof (induction ws arbitrary: out)
  case Nil
  then show ?case by simp
next
  case (Cons w ws)
  from Cons.prems obtain out' where o: "write_at (fst w) (snd w) out = Inr out'" "length out' = length out" "holds out' w"
      "\<And>v. clear_of w v \<Longrightarrow> holds out v \<Longrightarrow> holds out' v"
    using write_at_within [of out w] by auto
  from Cons.prems o(2) obtain f where f: "write_all ws out' = Inr f" "length f = length out'" "list_all (holds f) ws"
      "\<And>v. list_all (\<lambda>w. clear_of w v) ws \<Longrightarrow> holds out' v \<Longrightarrow> holds f v"
    using Cons.IH [of out'] by auto
  have "list_all (\<lambda>v. clear_of v w) ws"
    using Cons.prems(2) by (auto simp: list_all_iff clear_of_def)
  with o f show ?case by auto
qed

section \<open>Layout of a relocatable object\<close>

lemma lay_room_mono: "lay_room P ss \<le> lay_room (\<lambda>s. True) ss"
  by (induction ss) auto

definition layout_bound :: "lielf_section list \<Rightarrow> nat" where
  "layout_bound ss = 80 + 2 * lay_room (\<lambda>s. True) (tl ss)"

definition moved :: "lielf_section \<Rightarrow> lielf_section \<Rightarrow> bool" where
  "moved s t \<longleftrightarrow> t = s\<lparr>ls_offset := ls_offset t, ls_addr := 0\<rparr>"

lemma class_insens: "layout_class rel n (s\<lparr>ls_offset := off, ls_addr := a\<rparr>) = layout_class rel n s"
  by (simp add: layout_class_def file_size_def)

lemma lay_room_moved:
  "list_all2 (placed P addr cur e) ss ts \<Longrightarrow> lay_room Q ts \<le> lay_room (\<lambda>s. True) ss"
proof (induction rule: list_all2_induct)
  case Nil
  then show ?case by simp
next
  case (Cons s ss t ts)
  have "t = s \<or> t = s\<lparr>ls_offset := ls_offset t, ls_addr := addr (ls_offset t)\<rparr>"
    using Cons(1) by (auto simp: placed_def split: if_splits)
  then have "unat (ls_addralign t) = unat (ls_addralign s) \<and> file_size t = file_size s"
    by (metis file_size_moved lielf_section.select_convs(9) lielf_section.surjective lielf_section.update_convs)
  with Cons.IH show ?case by auto
qed

lemma rel_layout:
  assumes rel: "is_rel bin" "segments bin = []"
    and types: "\<And>s. s \<in> set (tl (sections bin)) \<Longrightarrow> ls_type s \<noteq> SHT_NULL"
    and room: "layout_bound (sections bin) < 2 ^ 64"
  obtains ts me where "lay_out_sections bin = (bin\<lparr>sections := hd (sections bin) # ts\<rparr>, me)"
    "list_all2 (\<lambda>s t. moved s t \<and> 64 \<le> unat (ls_offset t) \<and> ends t \<le> unat me) (tl (sections bin)) ts"
    "sorted_wrt (\<lambda>t u. ends t \<le> unat (ls_offset u) \<or> ends u \<le> unat (ls_offset t)) ts"
    "64 \<le> unat me" "unat me \<le> layout_bound (sections bin)"
proof -
  let ?ss = "tl (sections bin)"
  define cls where "cls = layout_class True 0"
  have cls: "cls s = Fresh \<or> cls s = Meta" if "ls_type s \<noteq> SHT_NULL" for s
    using that by (simp add: cls_def layout_class_def)
  have fixed: "fixed_end bin = 64"
  proof -
    have "fold (\<lambda>s e. if layout_class True 0 s = Fixed \<and> ls_offset s + file_size s > e
        then ls_offset s + file_size s else e) ss x = x" for ss and x :: u64
      by (induction ss) (auto simp: layout_class_def)
    with rel show ?thesis by (simp add: fixed_end_def headers_end_def)
  qed
  define start where "start = align_up 64 8"
  have start: "64 \<le> unat start" "unat start \<le> 72"
    using align_up_bounds [of 64 8] by (simp_all add: start_def)
  let ?P = "\<lambda>s. cls s = Fresh" and ?Q = "\<lambda>s. cls s = Meta"
  obtain ae us where us: "lay_out ?P (\<lambda>off. 0) start ?ss = (ae, us)" by force
  have spec1: "unat start \<le> unat ae \<and> unat ae \<le> unat start + lay_room ?P ?ss \<and>
         list_all2 (placed ?P (\<lambda>off. 0) start ae) ?ss us \<and>
         sorted_wrt (\<lambda>t u. ?P t \<longrightarrow> ?P u \<longrightarrow> ends t \<le> unat (ls_offset u)) us"
    by (rule lay_out_spec [OF us])
      (use start room lay_room_mono [of ?P ?ss] in \<open>simp_all add: layout_bound_def cls_def class_insens\<close>)
  define mid where "mid = align_up ae 8"
  have mid: "unat ae \<le> unat mid" "unat mid \<le> unat ae + 8"
    using align_up_bounds [of ae 8] spec1 start room lay_room_mono [of ?P ?ss] by (simp_all add: mid_def layout_bound_def)
  obtain me ts where ts: "lay_out ?Q (\<lambda>off. 0) mid us = (me, ts)" by force
  have roomQ: "lay_room ?Q us \<le> lay_room (\<lambda>s. True) ?ss"
    by (rule lay_room_moved) (use spec1 in blast)
  have spec2: "unat mid \<le> unat me \<and> unat me \<le> unat mid + lay_room ?Q us \<and>
         list_all2 (placed ?Q (\<lambda>off. 0) mid me) us ts \<and>
         sorted_wrt (\<lambda>t u. ?Q t \<longrightarrow> ?Q u \<longrightarrow> ends t \<le> unat (ls_offset u)) ts"
    by (rule lay_out_spec [OF ts])
      (use start room mid spec1 roomQ lay_room_mono [of ?P ?ss] in \<open>simp_all add: layout_bound_def cls_def class_insens\<close>)
  have len: "length us = length ?ss" "length ts = length ?ss"
    using spec1 spec2 by (auto dest!: list_all2_lengthD)
  have at: "(cls (ts ! i) = Fresh \<and> ts ! i = us ! i \<and> unat start \<le> unat (ls_offset (us ! i)) \<and> ends (us ! i) \<le> unat ae \<or>
     cls (ts ! i) = Meta \<and> unat mid \<le> unat (ls_offset (ts ! i)) \<and> ends (ts ! i) \<le> unat me) \<and>
     moved (?ss ! i) (ts ! i)" if i: "i < length ts" for i
  proof -
    have a: "placed ?P (\<lambda>off. 0) start ae (?ss ! i) (us ! i)" and b: "placed ?Q (\<lambda>off. 0) mid me (us ! i) (ts ! i)"
      using spec1 spec2 i len by (auto simp: list_all2_conv_all_nth)
    have k: "cls (s\<lparr>ls_offset := off, ls_addr := x\<rparr>) = cls s" for s off x by (simp add: cls_def class_insens)
    have "ls_type (?ss ! i) \<noteq> SHT_NULL" using i len types by simp
    with cls consider (fresh) "cls (?ss ! i) = Fresh" | (meta) "cls (?ss ! i) = Meta" by blast
    then show ?thesis
    proof cases
      case fresh
      with a have u: "us ! i = (?ss ! i)\<lparr>ls_offset := ls_offset (us ! i), ls_addr := 0\<rparr>" by (simp add: placed_def)
      then have "cls (us ! i) = Fresh" using fresh k by metis
      with a b u fresh show ?thesis by (auto simp: placed_def moved_def)
    next
      case meta
      with a have u: "us ! i = ?ss ! i" by (simp add: placed_def)
      with b meta have t: "ts ! i = (?ss ! i)\<lparr>ls_offset := ls_offset (ts ! i), ls_addr := 0\<rparr>" by (simp add: placed_def)
      then have "cls (ts ! i) = Meta" using meta k by metis
      with b t u meta show ?thesis by (auto simp: placed_def moved_def)
    qed
  qed
  show thesis
  proof
    show "lay_out_sections bin = (bin\<lparr>sections := hd (sections bin) # ts\<rparr>, me)"
      using us ts rel by (simp add: lay_out_sections_def fixed cls_def start_def mid_def Let_def)
    show "list_all2 (\<lambda>s t. moved s t \<and> 64 \<le> unat (ls_offset t) \<and> ends t \<le> unat me) ?ss ts"
      unfolding list_all2_conv_all_nth
    proof (intro conjI allI impI)
      show "length ?ss = length ts" using len by simp
      fix i assume "i < length ?ss"
      with len have "i < length ts" by simp
      from at [OF this] show "moved (?ss ! i) (ts ! i)" "64 \<le> unat (ls_offset (ts ! i))" "ends (ts ! i) \<le> unat me"
        using start(1) mid spec1 spec2 by (elim conjE disjE; simp)+
    qed
    show "sorted_wrt (\<lambda>t u. ends t \<le> unat (ls_offset u) \<or> ends u \<le> unat (ls_offset t)) ts"
      unfolding sorted_wrt_iff_nth_less
    proof (intro allI impI)
      fix i j assume ij: "i < j" "j < length ts"
      with at [of i] at [of j] show "ends (ts ! i) \<le> unat (ls_offset (ts ! j)) \<or> ends (ts ! j) \<le> unat (ls_offset (ts ! i))"
        using spec1 spec2 mid len by (fastforce simp: sorted_wrt_iff_nth_less)
    qed
    show "64 \<le> unat me" using start spec1 mid spec2 by linarith
    show "unat me \<le> layout_bound (sections bin)"
      using start spec1 mid spec2 roomQ lay_room_mono [of ?P ?ss] by (simp add: layout_bound_def)
  qed
qed

section \<open>What the file holds\<close>

lemma rmap_Inr: "(\<And>x. x \<in> set xs \<Longrightarrow> f x = Inr (g x)) \<Longrightarrow> rmap f xs = Inr (map g xs)"
  by (induction xs) simp_all

lemma sorted_wrt_concat:
  "sorted_wrt (\<lambda>xs ys. \<forall>x \<in> set xs. \<forall>y \<in> set ys. P x y) xss \<Longrightarrow> list_all (sorted_wrt P) xss \<Longrightarrow> sorted_wrt P (concat xss)"
  by (induction xss) (auto simp: sorted_wrt_append)

text \<open>The data of a section fits its size.\<close>

definition data_fits :: "lielf_section \<Rightarrow> bool" where
  "data_fits s =
     (case ls_data s of
        None \<Rightarrow> ls_type s = SHT_NOBITS \<or> ls_size s = 0
      | Some d \<Rightarrow> ls_type s \<noteq> SHT_NOBITS \<and> ls_size s \<noteq> 0 \<and> length d = unat (ls_size s))"

definition data_writes :: "lielf_section \<Rightarrow> (u64 \<times> bytes) list" where
  "data_writes s = (case ls_data s of None \<Rightarrow> [] | Some d \<Rightarrow> [(ls_offset s, d)])"

lemma data_write_fits: "data_fits s \<Longrightarrow> data_write s = Inr (data_writes s)"
  by (auto simp: data_fits_def data_write_def data_writes_def split: option.splits)

lemma data_writes_extent:
  "data_fits s \<Longrightarrow> w \<in> set (data_writes s) \<Longrightarrow> unat (fst w) = unat (ls_offset s) \<and> unat (fst w) + length (snd w) = ends s"
  by (auto simp: data_fits_def data_writes_def ends_def file_size_def split: option.splits)

lemma length_name_offsets [simp]: "length (name_offsets pos ss) = length ss"
  by (induction ss arbitrary: pos) auto

lemma length_headers [simp]: "ss \<noteq> [] \<Longrightarrow> length (headers ss) = length ss"
  by (cases ss) (simp_all add: headers_def)

lemma serialize_holds:
  assumes ident: "length (e_ident (lb_ehdr bin)) = 16" and segs: "e_phnum (lb_ehdr bin) = 0"
    and fits: "\<And>s. s \<in> set ts \<Longrightarrow> data_fits s"
    and ss: "sections bin = s0 # ts"
    and low: "\<And>s. s \<in> set ts \<Longrightarrow> 64 \<le> unat (ls_offset s) \<and> ends s \<le> unat (e_shoff (lb_ehdr bin))"
    and apart: "sorted_wrt (\<lambda>t u. ends t \<le> unat (ls_offset u) \<or> ends u \<le> unat (ls_offset t)) ts"
    and shoff: "64 \<le> unat (e_shoff (lb_ehdr bin))"
    and total_size: "unat t = unat (e_shoff (lb_ehdr bin)) + 64 * length (sections bin)"
  obtains f where "serialize bin t = Inr f" "length f = unat t" "holds f (0, write_ehdr (lb_ehdr bin))"
    "\<And>s d. s \<in> set ts \<Longrightarrow> ls_data s = Some d \<Longrightarrow> holds f (ls_offset s, d)"
    "\<And>i. i < length (sections bin) \<Longrightarrow> holds f (e_shoff (lb_ehdr bin) + of_nat i * 64, write_shdr (headers (sections bin) ! i))"
proof -
  let ?shoff = "e_shoff (lb_ehdr bin)" and ?n = "length (sections bin)"
  let ?data = "concat (map data_writes ts)"
  have nh: "length (headers (sections bin)) = ?n" using ss by simp
  have off: "unat (?shoff + of_nat i * 64) = unat ?shoff + 64 * i" if "i < ?n" for i
  proof -
    have "unat ?shoff + 64 * i < 2 ^ 64" using that total_size unsigned_less [of t, where ?'a = nat] by simp
    moreover have "?shoff + of_nat i * 64 = of_nat (unat ?shoff + 64 * i)" by simp
    ultimately show ?thesis using unat_of_nat_small [of "unat ?shoff + 64 * i", where ?'a = 64] by (simp add: mult.commute)
  qed
  have data: "64 \<le> unat (fst w) \<and> unat (fst w) + length (snd w) \<le> unat ?shoff" if w: "w \<in> set ?data" for w
  proof -
    from w obtain s where "s \<in> set ts" "w \<in> set (data_writes s)" by auto
    with fits low data_writes_extent [of s w] show ?thesis by auto
  qed
  have hdrs: "\<exists>i < ?n. unat (fst w) = unat ?shoff + 64 * i \<and> length (snd w) = 64" if "w \<in> set (shdr_writes bin)" for w
  proof -
    from that nh obtain i where "i < ?n" "w = (?shoff + of_nat i * 64, write_shdr (headers (sections bin) ! i))"
      by (auto simp: shdr_writes_def enumerate_eq_zip in_set_zip)
    with off [of i] show ?thesis by (intro exI [of _ i]) simp
  qed
  let ?ws = "(0, write_ehdr (lb_ehdr bin)) # ?data @ shdr_writes bin"
  have "list_all (within (unat t)) ?ws"
  proof -
    have "within (unat t) w" if "w \<in> set ?data" for w
      using data [OF that] total_size by (simp add: within_def)
    moreover have "within (unat t) w" if "w \<in> set (shdr_writes bin)" for w
      using hdrs [OF that] total_size by (auto simp: within_def)
    moreover have "within (unat t) (0, write_ehdr (lb_ehdr bin))"
      using ident shoff total_size by (simp add: within_def)
    ultimately show ?thesis by (auto simp: list_all_iff)
  qed
  moreover have "sorted_wrt clear_of ?ws"
  proof -
    have "sorted_wrt clear_of ?data"
    proof (rule sorted_wrt_concat)
      show "list_all (sorted_wrt clear_of) (map data_writes ts)"
        by (auto simp: list_all_iff data_writes_def split: option.splits)
      show "sorted_wrt (\<lambda>xs ys. \<forall>x \<in> set xs. \<forall>y \<in> set ys. clear_of x y) (map data_writes ts)"
        unfolding sorted_wrt_map
      proof (rule sorted_wrt_mono_rel [OF _ apart])
        fix s u assume "s \<in> set ts" "u \<in> set ts" "ends s \<le> unat (ls_offset u) \<or> ends u \<le> unat (ls_offset s)"
        with fits show "\<forall>x \<in> set (data_writes s). \<forall>y \<in> set (data_writes u). clear_of x y"
          unfolding clear_of_def by (metis data_writes_extent)
      qed
    qed
    moreover have "sorted_wrt clear_of (shdr_writes bin)"
      unfolding shdr_writes_def sorted_wrt_map sorted_wrt_iff_nth_less
      using nh by (auto simp: clear_of_def off nth_enumerate_eq)
    moreover have "clear_of w v" if "w \<in> set ?data" "v \<in> set (shdr_writes bin)" for w v
      using data [OF that(1)] hdrs [OF that(2)] by (auto simp: clear_of_def)
    moreover have "clear_of (0, write_ehdr (lb_ehdr bin)) v" if "v \<in> set ?data \<union> set (shdr_writes bin)" for v
      using that data hdrs shoff ident by (fastforce simp: clear_of_def)
    ultimately show ?thesis by (auto simp: sorted_wrt_append)
  qed
  ultimately obtain f where f: "write_all ?ws (replicate (unat t) 0) = Inr f" "length f = unat t" "list_all (holds f) ?ws"
    using write_all_apart [of "replicate (unat t) 0" ?ws] by auto
  have "rmap data_write ts = Inr (map data_writes ts)"
    by (rule rmap_Inr) (use fits data_write_fits in blast)
  then have "serialize bin t = Inr f"
    using f(1) ss segs by (simp add: serialize_def phdr_writes_def)
  then show thesis
  proof (rule that)
    show "length f = unat t" "holds f (0, write_ehdr (lb_ehdr bin))" using f by auto
    fix s d assume "s \<in> set ts" "ls_data s = Some d"
    then have "(ls_offset s, d) \<in> set ?data" by (auto simp: data_writes_def intro!: bexI [of _ s])
    with f show "holds f (ls_offset s, d)" by (auto simp: list_all_iff)
  next
    fix i assume i: "i < ?n"
    have "(?shoff + of_nat i * 64, write_shdr (headers (sections bin) ! i)) = shdr_writes bin ! i"
      using i nh by (simp add: shdr_writes_def nth_enumerate_eq)
    also have "\<dots> \<in> set (shdr_writes bin)" using i nh by (simp add: shdr_writes_def)
    finally show "holds f (?shoff + of_nat i * 64, write_shdr (headers (sections bin) ! i))"
      using f by (auto simp: list_all_iff)
  qed
qed

end
