(* ===== verification/Cup_Object.thy ===== *)
theory Cup_Object
  imports Cup_Build
begin

text \<open>
  A relocatable object written by \<^verbatim>\<open>lielf_build\<close> and read by \<^verbatim>\<open>lielf_load_mem\<close> (\<^verbatim>\<open>include/lielf.h\<close>):
  the sections, symbols and relocations that come back are the ones that were built.
\<close>

section \<open>Names in a string table\<close>

primrec starts :: "nat \<Rightarrow> bytes list \<Rightarrow> nat list" where
  "starts pos [] = []"
| "starts pos (x # xs) = pos # starts (pos + length x + 1) xs"

lemma length_starts [simp]: "length (starts pos xs) = length xs"
  by (induction xs arbitrary: pos) auto

lemma name_offsets_starts: "name_offsets pos ss = starts pos (map ls_name ss)"
  by (induction ss arbitrary: pos) auto

lemma starts_nth:
  "i < length xs \<Longrightarrow>
   \<exists>rest. drop (starts pos xs ! i - pos) (concat (map (\<lambda>x. x @ [0]) xs)) = xs ! i @ 0 # rest \<and> pos \<le> starts pos xs ! i \<and>
     starts pos xs ! i < pos + length (concat (map (\<lambda>x. x @ [0]) xs))"
proof (induction xs arbitrary: pos i)
  case Nil
  then show ?case by simp
next
  case (Cons x xs)
  show ?case
  proof (cases i)
    case 0
    then show ?thesis by simp
  next
    case (Suc j)
    with Cons.IH [of j "pos + length x + 1"] Cons.prems obtain rest where
      r: "drop (starts (pos + length x + 1) xs ! j - (pos + length x + 1)) (concat (map (\<lambda>x. x @ [0]) xs)) = xs ! j @ 0 # rest"
      and b: "pos + length x + 1 \<le> starts (pos + length x + 1) xs ! j"
        "starts (pos + length x + 1) xs ! j < pos + length x + 1 + length (concat (map (\<lambda>x. x @ [0]) xs))" by auto
    from b(1) obtain m where m: "starts (pos + length x + 1) xs ! j = pos + length x + 1 + m"
      using le_Suc_ex by blast
    have "drop (length x + 1 + m) ((x @ [0]) @ concat (map (\<lambda>x. x @ [0]) xs)) = xs ! j @ 0 # rest"
      using r m by simp
    with Suc b m show ?thesis by simp
  qed
qed

lemma takeWhile_until: "y \<notin> set xs \<Longrightarrow> takeWhile (\<lambda>x. x \<noteq> y) (xs @ y # ys) = xs"
  by (induction xs) auto

lemma c_string_at: "drop k bs = name @ 0 # rest \<Longrightarrow> 0 \<notin> set name \<Longrightarrow> c_string k bs = Inr name"
  by (simp add: c_string_def takeWhile_until)

text \<open>The name that starts at its offset in the table, wherever the table lies.\<close>

lemma c_string_table:
  assumes "drop off bs = string_table names @ rest" and i: "i < length names" and "0 \<notin> set (names ! i)"
  shows "c_string (off + starts 1 names ! i) bs = Inr (names ! i)" "starts 1 names ! i < length (string_table names)"
proof -
  from starts_nth [OF i, of 1] obtain more where
    d: "drop (starts 1 names ! i - 1) (concat (map (\<lambda>x. x @ [0]) names)) = names ! i @ 0 # more"
    and b: "1 \<le> starts 1 names ! i" "starts 1 names ! i < 1 + length (concat (map (\<lambda>x. x @ [0]) names))" by auto
  have "drop (off + starts 1 names ! i) bs = drop (starts 1 names ! i) (string_table names @ rest)"
    by (simp add: add.commute flip: assms(1))
  also have "\<dots> = drop (starts 1 names ! i - 1) (concat (map (\<lambda>x. x @ [0]) names) @ rest)"
    using b(1) by (simp add: string_table_def drop_Cons')
  also have "\<dots> = names ! i @ 0 # more @ rest"
    using d b(2) by simp
  finally show "c_string (off + starts 1 names ! i) bs = Inr (names ! i)"
    using assms(3) by (rule c_string_at)
  show "starts 1 names ! i < length (string_table names)"
    using b by (simp add: string_table_def)
qed

section \<open>Reading what was written\<close>

lemma holds_drop: "holds f (off, bs) \<Longrightarrow> \<exists>rest. drop (unat off) f = bs @ rest"
  unfolding holds_def by (metis append_take_drop_id fst_conv snd_conv)

lemma holds_region: "holds f (off, bs) \<Longrightarrow> region (length bs) off f = Inr bs"
  by (simp add: holds_def within_def region_def)

text \<open>A section as the reader makes it, before it knows what the section is for.\<close>

definition plain :: "lielf_section \<Rightarrow> lielf_section" where
  "plain s = (settle s)\<lparr>ls_kind := LIELF_SEC_NORMAL, rela_dynamic := False, rela_target := None\<rparr>"

lemma headers_nth:
  "i < length ss \<Longrightarrow> i \<noteq> 0 \<Longrightarrow> headers ss ! i = header_of (starts 1 (map ls_name ss) ! i) (ss ! i)"
  by (cases ss) (auto simp: headers_def name_offsets_starts nth_Cons' nth_tl)

lemma headers_0 [simp]: "headers ss ! 0 = null_header"
  by (simp add: headers_def)

lemma load_section_back:
  assumes table: "holds f (soff, string_table (map ls_name ss))"
    and n: "length (string_table (map ls_name ss)) < 2 ^ 32" and f: "length f < 2 ^ 64"
    and i: "i < length ss" "i \<noteq> 0" and name: "0 \<notin> set (ls_name (ss ! i))"
    and fits: "data_fits (ss ! i)" and data: "\<And>d. ls_data (ss ! i) = Some d \<Longrightarrow> holds f (ls_offset (ss ! i), d)"
  shows "load_section f (Some (soff, of_nat (length (string_table (map ls_name ss))))) (headers ss ! i) = Inr (plain (ss ! i))"
proof -
  let ?names = "map ls_name ss" let ?k = "starts 1 (map ls_name ss) ! i" and ?s = "ss ! i"
  from holds_drop [OF table] obtain rest where "drop (unat soff) f = string_table ?names @ rest" by blast
  from c_string_table [OF this, of i] i name have c: "c_string (unat soff + ?k) f = Inr (ls_name ?s)"
    and k: "?k < length (string_table ?names)" by simp_all
  from k n have u: "unat (of_nat ?k :: u32) = ?k" by (simp add: unat_of_nat_small)
  from k n u have "unat (ucast (of_nat ?k :: u32) :: u64) = ?k"
    by (simp add: unsigned_ucast_eq take_bit_nat_eq_self_iff)
  then have "(ucast (of_nat ?k :: u32) :: u64) < of_nat (length (string_table ?names))"
    using k n by (simp add: word_less_nat_alt unat_of_nat_small)
  then have "section_name f (Some (soff, of_nat (length (string_table ?names)))) (header_of ?k ?s) = Inr (ls_name ?s)"
    using c u by (simp add: section_name_def header_of_def)
  moreover have "section_bytes f (header_of ?k ?s) = Inr (ls_data ?s)"
  proof (cases "ls_data ?s")
    case None
    with fits show ?thesis by (auto simp: data_fits_def section_bytes_def header_of_def)
  next
    case (Some d)
    with fits have d: "ls_type ?s \<noteq> SHT_NOBITS" "ls_size ?s > 0" "length d = unat (ls_size ?s)"
      by (auto simp: data_fits_def word_greater_zero_iff)
    have h: "holds f (ls_offset ?s, d)" by (rule data [OF Some])
    then have "unat (ls_offset ?s) + unat (ls_size ?s) \<le> length f" using d by (simp add: holds_def within_def)
    then have "ls_offset ?s + ls_size ?s \<le> of_nat (length f)"
      using f by (simp add: word_le_nat_alt unat_of_nat_small unat_add_lem [THEN iffD1])
    with Some d holds_region [OF h] show ?thesis by (simp add: section_bytes_def header_of_def)
  qed
  ultimately show ?thesis
    using i by (simp add: load_section_def headers_nth) (simp add: header_of_def plain_def settle_def)
qed

lemma load_section_null:
  assumes "holds f (soff, string_table names)" "length (string_table names) < 2 ^ 32"
  shows "load_section f (Some (soff, of_nat (length (string_table names)))) null_header = Inr no_section"
proof -
  from holds_drop [OF assms(1)] obtain rest where "drop (unat soff) f = [] @ 0 # concat (map (\<lambda>x. x @ [0]) names) @ rest"
    by (auto simp: string_table_def)
  then have "c_string (unat soff) f = Inr []" by (rule c_string_at) simp
  moreover have "(0 :: u64) < of_nat (length (string_table names))"
    using assms(2) by (simp add: word_less_nat_alt unat_of_nat_small string_table_def del: of_nat_Suc)
  ultimately show ?thesis
    by (simp add: load_section_def section_name_def section_bytes_def null_header_def no_section_def)
qed

lemma rmap_nth:
  "length xs = length ys \<Longrightarrow> (\<And>i. i < length xs \<Longrightarrow> f (xs ! i) = Inr (ys ! i)) \<Longrightarrow> rmap f xs = Inr ys"
proof (induction xs arbitrary: ys)
  case Nil
  then show ?case by simp
next
  case (Cons x xs)
  then obtain y zs where ys: "ys = y # zs" by (cases ys) auto
  with Cons.prems(1) Cons.prems(2) [of 0] have "f x = Inr y" "length xs = length zs" by auto
  moreover have "f (xs ! i) = Inr (zs ! i)" if "i < length xs" for i
    using Cons.prems(2) [of "Suc i"] that ys by simp
  ultimately show ?case using Cons.IH [of zs] ys by simp
qed

lemma sections_back:
  assumes ss: "ss = no_section # ts" and f: "length f < 2 ^ 32"
    and hdrs: "\<And>i. i < length ss \<Longrightarrow> holds f (shoff + of_nat i * 64, write_shdr (headers ss ! i))"
    and data: "\<And>s d. s \<in> set ts \<Longrightarrow> ls_data s = Some d \<Longrightarrow> holds f (ls_offset s, d)"
    and fits: "\<And>s. s \<in> set ts \<Longrightarrow> data_fits s"
    and names: "\<And>s. s \<in> set ts \<Longrightarrow> 0 \<notin> set (ls_name s)"
    and k: "k < length ss" "k \<noteq> 0" "ls_data (ss ! k) = Some (string_table (map ls_name ss))"
  shows "read_headers f shoff (length ss) = Inr (headers ss)"
    "e_shstrndx h = of_nat k \<Longrightarrow> e_shnum h = of_nat (length ss) \<Longrightarrow> length ss < 2 ^ 16 \<Longrightarrow>
     rmap (load_section f (name_table f h (headers ss))) (headers ss) = Inr (map plain ss)"
proof -
  have n: "length (headers ss) = length ss" using ss by simp
  show "read_headers f shoff (length ss) = Inr (headers ss)"
    unfolding read_headers_def
  proof (rule rmap_nth)
    show "length [0..<length ss] = length (headers ss)" using n by simp
    fix i assume "i < length [0..<length ss]"
    then have i: "i < length ss" by simp
    from holds_region [OF hdrs [OF i]] read_write_shdr [of "headers ss ! i" "[]"] i
    show "rbind (region 64 (shoff + of_nat ([0..<length ss] ! i) * 64) f) (\<lambda>bs. Inr (read_shdr bs)) = Inr (headers ss ! i)"
      by simp
  qed
  let ?s = "ss ! k" and ?table = "string_table (map ls_name ss)"
  assume h: "e_shstrndx h = of_nat k" "e_shnum h = of_nat (length ss)" "length ss < 2 ^ 16"
  have nth: "ss ! i \<in> set ts" if "i < length ss" "i \<noteq> 0" for i
    using that ss by (cases i) auto
  have kt: "?s \<in> set ts" using nth k by blast
  from fits [OF kt] k(3) have d: "ls_type ?s \<noteq> SHT_NOBITS" "ls_size ?s \<noteq> 0" "length ?table = unat (ls_size ?s)"
    by (simp_all add: data_fits_def)
  then have size: "ls_size ?s = of_nat (length ?table)" by simp
  have hold: "holds f (ls_offset ?s, ?table)" by (rule data [OF kt k(3)])
  then have le: "unat (ls_offset ?s) + length ?table \<le> length f" by (simp add: holds_def within_def)
  with f d have "unat (ls_offset ?s + ls_size ?s) = unat (ls_offset ?s) + unat (ls_size ?s)"
    by (intro unat_add_lem [THEN iffD1]) simp
  with le f d have "ls_offset ?s + ls_size ?s \<le> of_nat (length f)"
    by (simp add: word_le_nat_alt unat_of_nat_small)
  moreover have "unat (e_shstrndx h) = k" "e_shstrndx h < e_shnum h"
    using h k by (simp_all add: unat_of_nat_small word_less_nat_alt)
  ultimately have table: "name_table f h (headers ss) = Some (ls_offset ?s, of_nat (length ?table))"
    using k headers_nth [of k ss] size by (simp add: name_table_def header_of_def Let_def)
  have tn: "length ?table < 2 ^ 32" using le f by simp
  show "rmap (load_section f (name_table f h (headers ss))) (headers ss) = Inr (map plain ss)"
  proof (rule rmap_nth)
    show "length (headers ss) = length (map plain ss)" using n by simp
    fix i assume "i < length (headers ss)"
    then have i: "i < length ss" using n by simp
    show "load_section f (name_table f h (headers ss)) (headers ss ! i) = Inr (map plain ss ! i)"
    proof (cases "i = 0")
      case True
      with load_section_null [OF hold tn] ss table show ?thesis
        by (simp add: plain_def settle_def no_section_def)
    next
      case False
      with i table show ?thesis
        using load_section_back [OF hold tn, of i] f names fits data nth [OF i False] by simp
    qed
  qed
qed

section \<open>What the sections are for\<close>

text \<open>Every section carries the type, the links and the target that its kind asks for.\<close>

definition well_linked :: "nat \<Rightarrow> lielf_section list \<Rightarrow> nat \<Rightarrow> bool" where
  "well_linked k ss i =
     (let s = ss ! i; link = unat (ls_link s); info = unat (ls_info s); n = length ss;
          untargeted = (\<not> rela_dynamic s \<and> rela_target s = None)
      in case ls_kind s of
           LIELF_SEC_NORMAL \<Rightarrow> ls_type s \<notin> {SHT_SYMTAB, SHT_DYNSYM, SHT_DYNAMIC, SHT_RELA} \<and> i \<noteq> k \<and> untargeted
         | LIELF_SEC_SHSTRTAB \<Rightarrow> ls_type s = SHT_STRTAB \<and> i = k \<and> untargeted
         | LIELF_SEC_STRTAB \<Rightarrow> ls_type s = SHT_STRTAB \<and> i \<noteq> k \<and> untargeted \<and>
             (\<exists>j < n. ls_kind (ss ! j) = LIELF_SEC_SYMTAB \<and> unat (ls_link (ss ! j)) = i)
         | LIELF_SEC_DYNSTR \<Rightarrow> ls_type s = SHT_STRTAB \<and> i \<noteq> k \<and> untargeted \<and>
             (\<exists>j < n. ls_kind (ss ! j) = LIELF_SEC_DYNSYM \<and> unat (ls_link (ss ! j)) = i)
         | LIELF_SEC_SYMTAB \<Rightarrow> ls_type s = SHT_SYMTAB \<and> i \<noteq> k \<and> untargeted \<and> link < n \<and> ls_kind (ss ! link) = LIELF_SEC_STRTAB
         | LIELF_SEC_DYNSYM \<Rightarrow> ls_type s = SHT_DYNSYM \<and> i \<noteq> k \<and> untargeted \<and> link < n \<and> ls_kind (ss ! link) = LIELF_SEC_DYNSTR
         | LIELF_SEC_DYNAMIC \<Rightarrow> ls_type s = SHT_DYNAMIC \<and> i \<noteq> k \<and> untargeted
         | LIELF_SEC_RELA \<Rightarrow> ls_type s = SHT_RELA \<and> i \<noteq> k \<and> info < n \<and> rela_target s = Some (ls_name (ss ! info)) \<and>
             link < n \<and> rela_dynamic s = (ls_type (ss ! link) = SHT_DYNSYM))"

text \<open>The sections whose kind is known when the first \<open>m\<close> have been looked at.\<close>

definition known :: "lielf_section list \<Rightarrow> nat \<Rightarrow> nat \<Rightarrow> bool" where
  "known ss m i =
     (case ls_kind (ss ! i) of
        LIELF_SEC_SHSTRTAB \<Rightarrow> True
      | LIELF_SEC_STRTAB \<Rightarrow> (\<exists>j < m. ls_kind (ss ! j) = LIELF_SEC_SYMTAB \<and> unat (ls_link (ss ! j)) = i)
      | LIELF_SEC_DYNSTR \<Rightarrow> (\<exists>j < m. ls_kind (ss ! j) = LIELF_SEC_DYNSYM \<and> unat (ls_link (ss ! j)) = i)
      | _ \<Rightarrow> i < m)"

definition look :: "lielf_section list \<Rightarrow> nat \<Rightarrow> nat \<Rightarrow> lielf_section" where
  "look ss m i = (if known ss m i then settle (ss ! i) else plain (ss ! i))"

lemma look_fields [simp]:
  "ls_type (look ss m i) = ls_type (ss ! i)" "ls_link (look ss m i) = ls_link (ss ! i)"
  "ls_info (look ss m i) = ls_info (ss ! i)" "ls_name (look ss m i) = ls_name (ss ! i)"
  by (simp_all add: look_def plain_def settle_def)

lemma settle_eq_plain:
  "ls_kind s = LIELF_SEC_NORMAL \<Longrightarrow> \<not> rela_dynamic s \<Longrightarrow> rela_target s = None \<Longrightarrow> plain s = settle s"
  by (simp add: plain_def settle_def)

lemma plain_with_kind:
  "\<not> rela_dynamic s \<Longrightarrow> rela_target s = None \<Longrightarrow> (plain s)\<lparr>ls_kind := ls_kind s\<rparr> = settle s"
  by (cases s) (simp add: plain_def settle_def)

lemma settle_with_kind: "(settle s)\<lparr>ls_kind := ls_kind s\<rparr> = settle s"
  by (cases s) (simp add: plain_def settle_def)

lemma look_with_kind:
  "\<not> rela_dynamic (ss ! i) \<Longrightarrow> rela_target (ss ! i) = None \<Longrightarrow> (look ss m i)\<lparr>ls_kind := ls_kind (ss ! i)\<rparr> = settle (ss ! i)"
  by (simp add: look_def plain_with_kind settle_with_kind)

lemma set_kind_map:
  "set_kind i k (map f [0..<n]) = map (\<lambda>j. if j = i then (f j)\<lparr>ls_kind := k\<rparr> else f j) [0..<n]"
  by (auto simp: set_kind_def intro!: nth_equalityI simp: nth_list_update)

lemma list_update_map:
  "i < n \<Longrightarrow> (map f [0..<n])[i := x] = map (\<lambda>j. if j = i then x else f j) [0..<n]"
  by (auto intro!: nth_equalityI simp: nth_list_update)

lemma classify_step:
  assumes wl: "\<And>i. i < length ss \<Longrightarrow> well_linked k ss i" and m: "m < length ss"
  shows "classify m (map (look ss m) [0..<length ss]) = map (look ss (Suc m)) [0..<length ss]"
proof -
  let ?n = "length ss" and ?s = "ss ! m"
  note wm = wl [OF m]
  have frame: "look ss (Suc m) j = look ss m j" if "j < ?n" "j \<noteq> m" 
    "ls_kind ?s \<in> {LIELF_SEC_SYMTAB, LIELF_SEC_DYNSYM} \<Longrightarrow> j \<noteq> unat (ls_link ?s)" for j
    using that by (auto simp: look_def known_def less_Suc_eq split: lielf_sec_kind.splits)
  have sub: "map (look ss m) [0..<?n] ! m = look ss m m" using m by simp
  show ?thesis
  proof (cases "ls_kind ?s")
    case LIELF_SEC_NORMAL
    then have "look ss (Suc m) m = look ss m m"
      using wm by (simp add: look_def settle_eq_plain well_linked_def Let_def)
    with frame LIELF_SEC_NORMAL have "look ss (Suc m) j = look ss m j" if "j < ?n" for j
      using that by (cases "j = m") auto
    with LIELF_SEC_NORMAL wm sub show ?thesis by (simp add: classify_def well_linked_def Let_def)
  next
    case LIELF_SEC_SHSTRTAB
    then have "look ss (Suc m) m = look ss m m" by (simp add: look_def known_def)
    with frame LIELF_SEC_SHSTRTAB have "look ss (Suc m) j = look ss m j" if "j < ?n" for j
      using that by (cases "j = m") auto
    moreover from LIELF_SEC_SHSTRTAB wm have "ls_type ?s = SHT_STRTAB" by (auto simp: well_linked_def Let_def)
    ultimately show ?thesis using sub by (simp add: classify_def Let_def)
  next
    case LIELF_SEC_STRTAB
    then have "look ss (Suc m) m = look ss m m"
      by (auto simp: look_def known_def less_Suc_eq)
    with frame LIELF_SEC_STRTAB have "look ss (Suc m) j = look ss m j" if "j < ?n" for j
      using that by (cases "j = m") auto
    with LIELF_SEC_STRTAB wm sub show ?thesis by (simp add: classify_def well_linked_def Let_def)
  next
    case LIELF_SEC_DYNSTR
    then have "look ss (Suc m) m = look ss m m"
      by (auto simp: look_def known_def less_Suc_eq)
    with frame LIELF_SEC_DYNSTR have "look ss (Suc m) j = look ss m j" if "j < ?n" for j
      using that by (cases "j = m") auto
    with LIELF_SEC_DYNSTR wm sub show ?thesis by (simp add: classify_def well_linked_def Let_def)
  next
    case LIELF_SEC_DYNAMIC
    with wm have "(look ss m m)\<lparr>ls_kind := LIELF_SEC_DYNAMIC\<rparr> = settle ?s"
      using look_with_kind [of ss m m] by (simp add: well_linked_def Let_def)
    moreover have "look ss (Suc m) m = settle ?s" using LIELF_SEC_DYNAMIC by (simp add: look_def known_def)
    ultimately show ?thesis
      using LIELF_SEC_DYNAMIC wm sub frame by (simp add: classify_def well_linked_def Let_def set_kind_map)
  next
    case LIELF_SEC_RELA
    then have "look ss (Suc m) m = settle ?s" by (simp add: look_def known_def)
    moreover have "(look ss m m)\<lparr>ls_kind := LIELF_SEC_RELA, rela_target := rela_target ?s, rela_dynamic := rela_dynamic ?s\<rparr> = settle ?s"
      using LIELF_SEC_RELA by (cases ?s) (simp add: look_def known_def plain_def settle_def)
    ultimately show ?thesis
      using LIELF_SEC_RELA wm sub frame m by (simp add: classify_def well_linked_def Let_def list_update_map)
  next
    case LIELF_SEC_SYMTAB
    let ?l = "unat (ls_link ?s)"
    from LIELF_SEC_SYMTAB wm have l: "?l < ?n" "ls_kind (ss ! ?l) = LIELF_SEC_STRTAB" "?l \<noteq> m"
      by (auto simp: well_linked_def Let_def)
    have "look ss (Suc m) m = settle ?s" using LIELF_SEC_SYMTAB by (simp add: look_def known_def)
    moreover have "(look ss m m)\<lparr>ls_kind := LIELF_SEC_SYMTAB\<rparr> = settle ?s"
      using look_with_kind [of ss m m] LIELF_SEC_SYMTAB wm by (simp add: well_linked_def Let_def)
    moreover have "look ss (Suc m) ?l = settle (ss ! ?l)" using l LIELF_SEC_SYMTAB by (auto simp: look_def known_def)
    moreover have "(look ss m ?l)\<lparr>ls_kind := LIELF_SEC_STRTAB\<rparr> = settle (ss ! ?l)"
      using look_with_kind [of ss ?l m] l wl [OF l(1)] by (simp add: well_linked_def Let_def)
    ultimately show ?thesis
      using LIELF_SEC_SYMTAB wm sub frame l by (simp add: classify_def well_linked_def Let_def set_kind_map)
  next
    case LIELF_SEC_DYNSYM
    let ?l = "unat (ls_link ?s)"
    from LIELF_SEC_DYNSYM wm have l: "?l < ?n" "ls_kind (ss ! ?l) = LIELF_SEC_DYNSTR" "?l \<noteq> m"
      by (auto simp: well_linked_def Let_def)
    have "look ss (Suc m) m = settle ?s" using LIELF_SEC_DYNSYM by (simp add: look_def known_def)
    moreover have "(look ss m m)\<lparr>ls_kind := LIELF_SEC_DYNSYM\<rparr> = settle ?s"
      using look_with_kind [of ss m m] LIELF_SEC_DYNSYM wm by (simp add: well_linked_def Let_def)
    moreover have "look ss (Suc m) ?l = settle (ss ! ?l)" using l LIELF_SEC_DYNSYM by (auto simp: look_def known_def)
    moreover have "(look ss m ?l)\<lparr>ls_kind := LIELF_SEC_DYNSTR\<rparr> = settle (ss ! ?l)"
      using look_with_kind [of ss ?l m] l wl [OF l(1)] by (simp add: well_linked_def Let_def)
    ultimately show ?thesis
      using LIELF_SEC_DYNSYM wm sub frame l by (simp add: classify_def well_linked_def Let_def set_kind_map)
  qed
qed

lemma classify_back:
  assumes wl: "\<And>i. i < length ss \<Longrightarrow> well_linked k ss i"
    and k: "k < length ss" "k \<noteq> 0" "ls_kind (ss ! k) = LIELF_SEC_SHSTRTAB" and h: "unat (e_shstrndx h) = k"
  shows "classify_all h (map plain ss) = map settle ss"
proof -
  have "set_kind k LIELF_SEC_SHSTRTAB (map plain ss) = map (look ss 0) [0..<length ss]"
  proof -
    have "map plain ss = map (\<lambda>i. plain (ss ! i)) [0..<length ss]" by (auto intro: nth_equalityI)
    moreover have "(plain (ss ! k))\<lparr>ls_kind := LIELF_SEC_SHSTRTAB\<rparr> = settle (ss ! k)"
      using plain_with_kind [of "ss ! k"] wl [OF k(1)] k(3) by (simp add: well_linked_def Let_def)
    moreover have "look ss 0 i = plain (ss ! i)" if "i < length ss" "i \<noteq> k" for i
      using wl [OF that(1)] that(2) by (auto simp: look_def known_def well_linked_def Let_def split: lielf_sec_kind.splits)
    moreover have "look ss 0 k = settle (ss ! k)" using k by (simp add: look_def known_def)
    ultimately show ?thesis by (simp add: set_kind_map)
  qed
  moreover have "m \<le> length ss \<Longrightarrow> fold classify [0..<m] (map (look ss 0) [0..<length ss]) = map (look ss m) [0..<length ss]" for m
    by (induction m) (simp_all add: classify_step [OF wl])
  moreover have "map (look ss (length ss)) [0..<length ss] = map settle ss"
  proof (rule nth_equalityI)
    fix i assume "i < length (map (look ss (length ss)) [0..<length ss])"
    then have i: "i < length ss" by simp
    have "known ss (length ss) i"
      using wl [OF i] i by (auto simp: known_def well_linked_def Let_def split: lielf_sec_kind.splits)
    with i show "map (look ss (length ss)) [0..<length ss] ! i = map settle ss ! i" by (simp add: look_def)
  qed simp
  moreover have "e_shstrndx h \<noteq> 0" using k h by auto
  ultimately show ?thesis using h by (simp add: classify_all_def)
qed

section \<open>Reading the tables\<close>

lemma row_concat:
  "list_all (\<lambda>x. length x = n) xs \<Longrightarrow> j < length xs \<Longrightarrow> row n (concat xs) j = Inr (xs ! j)"
proof (induction xs arbitrary: j)
  case Nil
  then show ?case by simp
next
  case (Cons x xs)
  show ?case
  proof (cases j)
    case 0
    with Cons.prems show ?thesis by (simp add: row_def)
  next
    case (Suc i)
    with Cons.prems Cons.IH [of i] show ?thesis by (auto simp: row_def split: if_splits)
  qed
qed

lemma rmap_rows:
  assumes "list_all (\<lambda>x. length x = n) xs" "m = length xs" "length ys = length xs"
    and "\<And>j. j < length xs \<Longrightarrow> g (xs ! j) = Inr (ys ! j)"
  shows "rmap (\<lambda>j. rbind (row n (concat xs) j) g) [0..<m] = Inr ys"
proof (rule rmap_nth)
  show "length [0..<m] = length ys" using assms by simp
  fix i assume "i < length [0..<m]"
  with assms show "rbind (row n (concat xs) ([0..<m] ! i)) g = Inr (ys ! i)" by (simp add: row_concat)
qed

definition raw_table :: "lielf_symbol list \<Rightarrow> elf_sym list" where
  "raw_table ss = raw_symbol 0 (hd ss) # map2 (\<lambda>n s. raw_symbol (of_nat n) s) (starts 1 (map lsym_name (tl ss))) (tl ss)"

lemma raw_symbols_concat:
  "raw_symbols pos ss = concat (map2 (\<lambda>n s. write_sym (raw_symbol (of_nat n) s)) (starts pos (map lsym_name ss)) ss)"
  by (induction ss arbitrary: pos) simp_all

lemma symbol_bytes:
  "write_sym (raw_symbol 0 (hd ss)) @ raw_symbols 1 (tl ss) = concat (map write_sym (raw_table ss))"
  by (simp add: raw_table_def raw_symbols_concat split_def comp_def del: One_nat_def)

lemma length_raw_table [simp]: "ss \<noteq> [] \<Longrightarrow> length (raw_table ss) = length ss"
  by (cases ss) (simp_all add: raw_table_def)

lemma load_symbol_back:
  assumes names: "list_all (\<lambda>s. 0 \<notin> set (lsym_name s)) ss" and hd: "ss \<noteq> []" "lsym_name (hd ss) = []"
    and n: "length (string_table (map lsym_name (tl ss))) < 2 ^ 32" and j: "j < length ss"
  shows "load_symbol (Some (string_table (map lsym_name (tl ss))), of_nat (length (string_table (map lsym_name (tl ss)))))
     (raw_table ss ! j) = Inr (ss ! j)"
proof -
  let ?table = "string_table (map lsym_name (tl ss))"
  show ?thesis
  proof (cases j)
    case 0
    have "c_string 0 ?table = Inr []" by (rule c_string_at [of _ _ _ "tl ?table"]) (simp_all add: string_table_def)
    moreover have "(0 :: u64) < of_nat (length ?table)"
      using n by (simp add: word_less_nat_alt unat_of_nat_small string_table_def del: of_nat_Suc)
    moreover have "ss ! 0 = hd ss" using hd by (simp add: hd_conv_nth)
    ultimately show ?thesis using 0 hd by (simp add: load_symbol_def raw_table_def raw_symbol_def)
  next
    case (Suc i)
    let ?k = "starts 1 (map lsym_name (tl ss)) ! i" and ?s = "tl ss ! i"
    from Suc j have i: "i < length (tl ss)" by simp
    then have "?s \<in> set ss" by (cases ss) auto
    with names have "0 \<notin> set (lsym_name ?s)" by (auto simp: list_all_iff)
    with c_string_table [of 0 ?table "map lsym_name (tl ss)" "[]" i] i
    have c: "c_string ?k ?table = Inr (lsym_name ?s)" and k: "?k < length ?table" by simp_all
    from k n have u: "unat (of_nat ?k :: u32) = ?k" by (simp add: unat_of_nat_small)
    from k n u have "unat (ucast (of_nat ?k :: u32) :: u64) = ?k"
      by (simp add: unsigned_ucast_eq take_bit_nat_eq_self_iff)
    then have "(ucast (of_nat ?k :: u32) :: u64) < of_nat (length ?table)"
      using k n by (simp add: word_less_nat_alt unat_of_nat_small)
    moreover have "ss ! j = ?s" using Suc i by (simp add: nth_tl)
    moreover have "raw_table ss ! j = raw_symbol (of_nat ?k) ?s" using Suc i by (simp add: raw_table_def)
    ultimately show ?thesis using c u by (simp add: load_symbol_def raw_symbol_def)
  qed
qed

lemma div_entries:
  assumes "n * k < 2 ^ 32" "0 < k"
  shows "unat ((of_nat (n * k) :: u64) div of_nat k) = n"
proof -
  have "n = 0 \<or> k < 2 ^ 64"
  proof (cases n)
    case (Suc m)
    then have "k \<le> n * k" by simp
    then have "k < 2 ^ 32" using assms(1) by (rule le_less_trans)
    then show ?thesis by simp
  qed simp
  then show ?thesis using assms by (auto simp: unat_div unat_of_nat_small simp del: of_nat_mult)
qed

lemma load_symbols_back:
  assumes names: "list_all (\<lambda>s. 0 \<notin> set (lsym_name s)) ss" and hd: "ss \<noteq> []" "lsym_name (hd ss) = []"
    and d: "ls_data s = Some (concat (map write_sym (raw_table ss)))" "ls_entsize s = 24" "ls_size s = of_nat (length ss * 24)"
    and link: "unat (ls_link s) < length all" "ls_data (all ! unat (ls_link s)) = Some (string_table (map lsym_name (tl ss)))"
      "ls_size (all ! unat (ls_link s)) = of_nat (length (string_table (map lsym_name (tl ss))))"
    and n: "length (string_table (map lsym_name (tl ss))) < 2 ^ 32" "length ss * 24 < 2 ^ 32"
  shows "load_symbols all s = Inr ss"
proof -
  have "row_count s 0 = length ss"
    using div_entries [of "length ss" 24] n(2) d by (simp add: row_count_def)
  moreover have "rmap (\<lambda>j. rbind (row 24 (concat (map write_sym (raw_table ss))) j)
      (\<lambda>bs. load_symbol (ls_data (all ! unat (ls_link s)), ls_size (all ! unat (ls_link s))) (read_sym bs)))
      [0..<length ss] = Inr ss"
  proof (rule rmap_rows)
    fix j assume "j < length (map write_sym (raw_table ss))"
    then have j: "j < length ss" using hd by simp
    with load_symbol_back [OF names hd n(1) j] read_write_sym [of "raw_table ss ! j" "[]"] link hd
    show "load_symbol (ls_data (all ! unat (ls_link s)), ls_size (all ! unat (ls_link s)))
        (read_sym (map write_sym (raw_table ss) ! j)) = Inr (ss ! j)" by simp
  qed (use hd in \<open>simp_all add: list_all_iff\<close>)
  ultimately show ?thesis using d link by (simp add: load_symbols_def)
qed

lemma reloc_info:
  fixes a b :: u32
  shows "(ucast (drop_bit 32 (push_bit 32 (ucast a) OR ucast b :: u64)) :: u32) = a"
    "(ucast (push_bit 32 (ucast a) OR ucast b :: u64) :: u32) = b"
  by (rule bit_word_eqI; simp add: bit_simps; fail | rule bit_word_eqI, auto simp: bit_simps dest: bit_imp_le_length)+

lemma load_reloc_back:
  "lr_dynamic r = rela_dynamic s \<Longrightarrow> target_section r = target_of s \<Longrightarrow> load_reloc s (raw_reloc r) = r"
  unfolding load_reloc_def raw_reloc_def elf_rela.simps reloc_info target_of_def by (cases r) simp

lemma load_relocs_back:
  assumes d: "ls_data s = Some (concat (map (\<lambda>r. write_rela (raw_reloc r)) rs))" "ls_entsize s = 24"
      "ls_size s = of_nat (length rs * 24)"
    and n: "length rs * 24 < 2 ^ 32"
    and rs: "\<And>r. r \<in> set rs \<Longrightarrow> lr_dynamic r = rela_dynamic s \<and> target_section r = target_of s"
  shows "load_relocs s = Inr rs"
proof -
  have "row_count s 24 = length rs"
    using div_entries [of "length rs" 24] n d by (simp add: row_count_def)
  moreover have "rmap (\<lambda>j. rbind (row 24 (concat (map (\<lambda>r. write_rela (raw_reloc r)) rs)) j)
      (\<lambda>bs. Inr (load_reloc s (read_rela bs)))) [0..<length rs] = Inr rs"
  proof (rule rmap_rows)
    fix j assume "j < length (map (\<lambda>r. write_rela (raw_reloc r)) rs)"
    with load_reloc_back [of "rs ! j" s] rs [of "rs ! j"] read_write_rela [of "raw_reloc (rs ! j)" "[]"]
    show "Inr (load_reloc s (read_rela (map (\<lambda>r. write_rela (raw_reloc r)) rs ! j))) = Inr (rs ! j)" by simp
  qed (simp_all add: list_all_iff)
  ultimately show ?thesis using d by (simp add: load_relocs_def)
qed

lemma load_tables_back:
  assumes "\<And>s. s \<in> set ts \<Longrightarrow> ls_kind s = LIELF_SEC_SYMTAB \<Longrightarrow> load_symbols (sections bin) s = Inr (syms s)"
    and "\<And>s. s \<in> set ts \<Longrightarrow> ls_kind s = LIELF_SEC_RELA \<Longrightarrow> load_relocs s = Inr (rels s)"
    and "\<And>s. s \<in> set ts \<Longrightarrow> ls_kind s \<noteq> LIELF_SEC_DYNSYM \<and> ls_kind s \<noteq> LIELF_SEC_DYNAMIC"
  shows "load_tables ts bin =
    Inr (bin\<lparr>symbols := symbols bin @ concat (map syms (filter (\<lambda>s. ls_kind s = LIELF_SEC_SYMTAB) ts)),
             relocs := relocs bin @ concat (map rels (filter (\<lambda>s. ls_kind s = LIELF_SEC_RELA) ts))\<rparr>)"
  using assms
proof (induction ts arbitrary: bin)
  case Nil
  then show ?case by simp
next
  case (Cons t ts)
  have "load_table t bin =
    Inr (bin\<lparr>symbols := symbols bin @ (if ls_kind t = LIELF_SEC_SYMTAB then syms t else []),
             relocs := relocs bin @ (if ls_kind t = LIELF_SEC_RELA then rels t else [])\<rparr>)"
    using Cons.prems [of t] by (simp add: load_table_def)
  then show ?case using Cons.prems by (simp add: Cons.IH)
qed

end
