(* ===== verification/Cup_Roundtrip.thy ===== *)
theory Cup_Roundtrip
  imports Cup_Object
begin

text \<open>
  The round trip of a relocatable object (\<^verbatim>\<open>include/lielf.h\<close>): what the operations may build, the
  sections that \<^verbatim>\<open>lielf_build\<close> makes of it, and that \<^verbatim>\<open>lielf_load_mem\<close> gives the same object back.
\<close>

section \<open>An object as the operations build it\<close>

definition reserved :: "bytes list" where
  "reserved = map chars [''.symtab'', ''.strtab'', ''.shstrtab'', ''.dynsym'', ''.dynstr'', ''.dynamic'']"

definition user_section :: "lielf_section \<Rightarrow> bool" where
  "user_section s \<longleftrightarrow>
     ls_kind s = LIELF_SEC_NORMAL \<and> ls_type s \<notin> {SHT_NULL, SHT_SYMTAB, SHT_DYNSYM, SHT_DYNAMIC, SHT_RELA} \<and>
     0 \<notin> set (ls_name s) \<and> ls_name s \<notin> set reserved \<and> data_fits s \<and> \<not> rela_dynamic s \<and> rela_target s = None"

text \<open>
  A relocatable object without dynamic tables: the caller's sections behind the empty one, symbols
  behind the empty one, relocations of sections that are there.
\<close>

definition object_ok :: "lielf_binary \<Rightarrow> bool" where
  "object_ok bin \<longleftrightarrow>
     length (e_ident (lb_ehdr bin)) = 16 \<and> take 6 (e_ident (lb_ehdr bin)) = ELFMAG @ [2, 1] \<and> is_rel bin \<and> base_vaddr bin = 0 \<and>
     segments bin = [] \<and> dynamic bin = [] \<and> dynsymbols bin = [no_symbol] \<and>
     sections bin \<noteq> [] \<and> hd (sections bin) = no_section \<and> list_all user_section (tl (sections bin)) \<and>
     symbols bin \<noteq> [] \<and> hd (symbols bin) = no_symbol \<and> list_all (\<lambda>s. 0 \<notin> set (lsym_name s)) (symbols bin) \<and>
     list_all (\<lambda>r. \<not> lr_dynamic r \<and> target_section r \<in> set (map ls_name (sections bin))) (relocs bin)"

section \<open>The regenerated sections\<close>

definition new_symtab :: "lielf_symbol list \<Rightarrow> lielf_section" where
  "new_symtab ss =
     (let buf = concat (map write_sym (raw_table ss))
      in (new_section (chars ''.symtab'') SHT_SYMTAB 0 (of_nat (length buf)) 8)
        \<lparr>ls_entsize := 24, ls_kind := LIELF_SEC_SYMTAB, ls_info := of_nat (first_global ss), ls_data := Some buf\<rparr>)"

definition new_strtab :: "lielf_symbol list \<Rightarrow> lielf_section" where
  "new_strtab ss =
     (let buf = string_table (map lsym_name (tl ss))
      in (new_section (chars ''.strtab'') SHT_STRTAB 0 (of_nat (length buf)) 1)\<lparr>ls_kind := LIELF_SEC_STRTAB, ls_data := Some buf\<rparr>)"

definition symbol_sections :: "lielf_symbol list \<Rightarrow> lielf_section list" where
  "symbol_sections ss = (if length ss \<le> 1 then [] else [new_symtab ss, new_strtab ss])"

definition targets :: "lielf_reloc list \<Rightarrow> bytes list" where
  "targets rs = fold (\<lambda>r ts. if target_section r \<in> set ts then ts else ts @ [target_section r]) rs []"

definition relocs_for :: "bytes \<Rightarrow> lielf_reloc list \<Rightarrow> lielf_reloc list" where
  "relocs_for t rs = filter (\<lambda>r. target_section r = t) rs"

definition empty_rela :: "bytes \<Rightarrow> lielf_section" where
  "empty_rela t =
     (new_section (take 255 (chars ''.rela'' @ t)) SHT_RELA 0 0 8)\<lparr>ls_kind := LIELF_SEC_RELA, rela_target := Some t\<rparr>"

definition new_rela :: "lielf_reloc list \<Rightarrow> bytes \<Rightarrow> lielf_section" where
  "new_rela rs t =
     (let buf = concat (map (\<lambda>r. write_rela (raw_reloc r)) (relocs_for t rs))
      in (empty_rela t)\<lparr>ls_entsize := 24, ls_data := Some buf, ls_size := of_nat (length buf)\<rparr>)"

definition new_shstrtab :: "bytes list \<Rightarrow> lielf_section" where
  "new_shstrtab names =
     (let buf = string_table names
      in (new_section (chars ''.shstrtab'') SHT_STRTAB 0 (of_nat (length buf)) 1)\<lparr>ls_kind := LIELF_SEC_SHSTRTAB, ls_data := Some buf\<rparr>)"

lemma get_section_None: "lielf_get_section bin name = None \<longleftrightarrow> name \<notin> ls_name ` set (sections bin)"
  by (auto simp: lielf_get_section_def find_section_def first_index_None)

lemma update_new:
  "ls_data s = None \<Longrightarrow> maybe_update_data newbuf n s = s\<lparr>ls_data := newbuf, ls_size := n, dirty := True\<rparr>"
  by (simp add: maybe_update_data_def)

lemma at_new_section: "at_section (length xs) f (bin\<lparr>sections := xs @ [s]\<rparr>) = bin\<lparr>sections := xs @ [f s]\<rparr>"
  by (simp add: at_section_def)

lemma rebuild_symtab_new:
  assumes "chars ''.symtab'' \<notin> ls_name ` set (sections bin)"
  shows "rebuild_symtab False bin =
    (let b = sort_symbols_local_first False bin
     in b\<lparr>sections := sections b @ (if length (symbols b) \<le> 1 then [] else [new_symtab (symbols b)])\<rparr>)"
proof -
  let ?b = "sort_symbols_local_first False bin"
  have "sections ?b = sections bin" by (simp add: sort_symbols_eq set_symbols_def)
  with assms have "lielf_get_section ?b (chars ''.symtab'') = None" by (simp add: get_section_None)
  then show ?thesis
    by (simp add: rebuild_symtab_def get_or_add_def at_new_section update_new new_section_def no_section_def
        new_symtab_def symbol_list_def symbol_bytes Let_def del: One_nat_def)
qed

lemma rebuild_strtab_new:
  assumes "chars ''.strtab'' \<notin> ls_name ` set (sections bin)"
  shows "rebuild_strtab False bin =
    bin\<lparr>sections := sections bin @ (if length (symbols bin) \<le> 1 then [] else [new_strtab (symbols bin)])\<rparr>"
  using assms
  by (simp add: rebuild_strtab_def get_section_None [THEN iffD2] get_or_add_def at_new_section update_new
      new_section_def no_section_def new_strtab_def symbol_list_def Let_def)

lemma rebuild_no_dynamic:
  assumes "dynsymbols bin = [no_symbol]" "chars ''.dynsym'' \<notin> ls_name ` set (sections bin)"
    "chars ''.dynstr'' \<notin> ls_name ` set (sections bin)"
  shows "rebuild_strtab True (rebuild_symtab True bin) = bin"
proof -
  have "sort_symbols_local_first True bin = bin"
    using assms(1) by (cases bin) (simp add: sort_symbols_local_first_def symbol_list_def)
  with assms show ?thesis
    by (simp add: rebuild_symtab_def rebuild_strtab_def symbol_list_def get_section_None [THEN iffD2] Let_def)
qed

lemma find_upt_None: "find P [0..<n] = None \<longleftrightarrow> (\<forall>i<n. \<not> P i)"
  by (auto simp: find_None_iff)

lemma find_or_create_new:
  assumes S: "\<And>s. s \<in> set S \<Longrightarrow> ls_kind s \<noteq> LIELF_SEC_RELA" and b: "sections bin = S @ map empty_rela ts"
  shows "snd (find_or_create_rela t False bin) = bin\<lparr>sections := S @ map empty_rela (if t \<in> set ts then ts else ts @ [t])\<rparr>"
proof -
  let ?P = "\<lambda>i. let s = sections bin ! i in ls_kind s = LIELF_SEC_RELA \<and> rela_dynamic s = False \<and> target_of s = t"
  have e: "ls_kind (empty_rela u) = LIELF_SEC_RELA" "\<not> rela_dynamic (empty_rela u)" "target_of (empty_rela u) = u" for u
    by (simp_all add: empty_rela_def new_section_def no_section_def target_of_def)
  have "(find ?P [0..<length (sections bin)] = None) = (t \<notin> set ts)"
  proof -
    have "(\<exists>i < length (sections bin). ?P i) \<longleftrightarrow> (\<exists>s \<in> set (sections bin). ls_kind s = LIELF_SEC_RELA \<and> \<not> rela_dynamic s \<and> target_of s = t)"
      unfolding Let_def by (metis in_set_conv_nth)
    also have "\<dots> \<longleftrightarrow> t \<in> set ts" using S e by (auto simp: b bex_Un)
    finally show ?thesis unfolding find_upt_None by blast
  qed
  moreover have "bin\<lparr>sections := S @ map empty_rela ts\<rparr> = bin" using b by (cases bin) simp
  ultimately show ?thesis
    by (auto simp: find_or_create_rela_def b empty_rela_def Let_def new_section_def no_section_def split: option.splits)
qed

lemma fold_find_or_create:
  assumes S: "\<And>s. s \<in> set S \<Longrightarrow> ls_kind s \<noteq> LIELF_SEC_RELA" and "\<And>r. r \<in> set rs \<Longrightarrow> \<not> lr_dynamic r"
    and "sections bin = S @ map empty_rela ts"
  shows "fold (\<lambda>r bin. snd (find_or_create_rela (target_section r) (lr_dynamic r) bin)) rs bin =
    bin\<lparr>sections := S @ map empty_rela (fold (\<lambda>r ts. if target_section r \<in> set ts then ts else ts @ [target_section r]) rs ts)\<rparr>"
  using assms(2, 3)
proof (induction rs arbitrary: bin ts)
  case Nil
  then show ?case by (cases bin) simp
next
  case (Cons r rs)
  then show ?case using find_or_create_new [OF S Cons.prems(2)] by simp
qed

lemma set_targets_fold:
  "set (fold (\<lambda>r ts. if target_section r \<in> set ts then ts else ts @ [target_section r]) rs ts) = set ts \<union> target_section ` set rs"
  by (induction rs arbitrary: ts) auto

lemma set_targets: "set (targets rs) = target_section ` set rs"
  by (simp add: targets_def set_targets_fold)

lemma rebuild_one_new:
  assumes "\<And>r. r \<in> set rs \<Longrightarrow> \<not> lr_dynamic r" "t \<in> set (targets rs)"
  shows "rebuild_one_rela rs (empty_rela t) = new_rela rs t"
proof -
  have "relocs_of (empty_rela t) rs = relocs_for t rs"
    using assms(1) by (auto simp: relocs_of_def relocs_for_def empty_rela_def new_section_def no_section_def target_of_def
        intro!: filter_cong)
  note rs = this
  from assms(2) obtain r where "r \<in> set (relocs_for t rs)" by (auto simp: set_targets relocs_for_def)
  moreover have "write_rela x \<noteq> []" for x by (metis length_write(5) list.size(3) zero_neq_numeral)
  ultimately have "concat (map (\<lambda>r. write_rela (raw_reloc r)) (relocs_for t rs)) \<noteq> []" by auto
  with rs show ?thesis
    by (simp add: rebuild_one_rela_def new_rela_def update_new) (simp add: empty_rela_def new_section_def no_section_def update_new Let_def)
qed

lemma rebuild_relas_new:
  assumes S: "\<And>s. s \<in> set (sections bin) \<Longrightarrow> ls_kind s \<noteq> LIELF_SEC_RELA" and rs: "\<And>r. r \<in> set (relocs bin) \<Longrightarrow> \<not> lr_dynamic r"
  shows "rebuild_relas bin = bin\<lparr>sections := sections bin @ map (new_rela (relocs bin)) (targets (relocs bin))\<rparr>"
proof -
  have none: "map (\<lambda>s. if ls_kind s = LIELF_SEC_RELA then rebuild_one_rela (relocs bin) s else s) (sections bin) = sections bin"
    using S by (simp add: map_idI)
  then have "rebuild_all_relas bin = bin" by (simp add: rebuild_all_relas_def)
  moreover have "fold (\<lambda>r bin. snd (find_or_create_rela (target_section r) (lr_dynamic r) bin)) (relocs bin) bin =
      bin\<lparr>sections := sections bin @ map empty_rela (targets (relocs bin))\<rparr>"
    using fold_find_or_create [OF S rs, where ts = "[]"] by (simp add: targets_def)
  moreover have "rebuild_all_relas (bin\<lparr>sections := sections bin @ map empty_rela (targets (relocs bin))\<rparr>) =
      bin\<lparr>sections := sections bin @ map (new_rela (relocs bin)) (targets (relocs bin))\<rparr>"
  proof -
    have "ls_kind (empty_rela t) = LIELF_SEC_RELA" for t by (simp add: empty_rela_def)
    then have "map (\<lambda>s. if ls_kind s = LIELF_SEC_RELA then rebuild_one_rela (relocs bin) s else s)
        (map empty_rela (targets (relocs bin))) = map (new_rela (relocs bin)) (targets (relocs bin))"
      using rebuild_one_new [OF rs] by simp
    with none show ?thesis by (simp add: rebuild_all_relas_def cong: if_cong)
  qed
  ultimately show ?thesis by (simp add: rebuild_relas_def)
qed

lemma rebuild_shstrtab_new:
  assumes "chars ''.shstrtab'' \<notin> ls_name ` set (sections bin)"
  shows "rebuild_shstrtab bin =
    bin\<lparr>sections := sections bin @ [new_shstrtab (map ls_name (sections bin) @ [chars ''.shstrtab''])]\<rparr>"
  using assms
  by (simp add: rebuild_shstrtab_def get_section_None [THEN iffD2] get_or_add_def at_new_section update_new
      new_section_def no_section_def new_shstrtab_def Let_def)

section \<open>The object that is written\<close>

definition renumbered :: "lielf_binary \<Rightarrow> lielf_reloc list" where
  "renumbered bin = map (renumber False (symbols bin)) (relocs bin)"

definition inner_sections :: "lielf_binary \<Rightarrow> lielf_section list" where
  "inner_sections bin =
     sections bin @ symbol_sections (local_first (symbols bin)) @ map (new_rela (renumbered bin)) (targets (renumbered bin))"

definition object_sections :: "lielf_binary \<Rightarrow> lielf_section list" where
  "object_sections bin = inner_sections bin @ [new_shstrtab (map ls_name (inner_sections bin) @ [chars ''.shstrtab''])]"

lemma new_names [simp]:
  "ls_name (new_symtab ss) = chars ''.symtab''" "ls_name (new_strtab ss) = chars ''.strtab''"
  "ls_name (new_rela rs t) = take 255 (chars ''.rela'' @ t)" "ls_name (new_shstrtab xs) = chars ''.shstrtab''"
  by (simp_all add: new_symtab_def new_strtab_def new_rela_def empty_rela_def new_shstrtab_def new_section_def Let_def)

lemma rela_name: "take 255 (chars ''.rela'' @ t) = chars ''.rela'' @ take 250 t"
  by (simp add: chars_def)

lemma rela_name_differs:
  "take 5 name \<noteq> chars ''.rela'' \<Longrightarrow> take 255 (chars ''.rela'' @ t) \<noteq> name"
  unfolding rela_name by (auto simp: chars_def)

lemma reserved_distinct [simp]:
  "chars ''.strtab'' \<noteq> chars ''.symtab''" "chars ''.shstrtab'' \<noteq> chars ''.symtab''" "chars ''.shstrtab'' \<noteq> chars ''.strtab''"
  "chars ''.dynsym'' \<noteq> chars ''.symtab''" "chars ''.dynsym'' \<noteq> chars ''.strtab''"
  "chars ''.dynstr'' \<noteq> chars ''.symtab''" "chars ''.dynstr'' \<noteq> chars ''.strtab''"
  "take 5 (chars ''.symtab'') \<noteq> chars ''.rela''" "take 5 (chars ''.strtab'') \<noteq> chars ''.rela''"
  "take 5 (chars ''.shstrtab'') \<noteq> chars ''.rela''"
  by (simp_all add: chars_def of_char_def)

lemma object_names:
  assumes "object_ok bin" "name \<in> set reserved"
  shows "name \<notin> ls_name ` set (sections bin)"
proof -
  from assms(1) obtain us where us: "sections bin = no_section # us" "list_all user_section us"
    unfolding object_ok_def by (metis list.exhaust_sel)
  have "[] \<notin> set reserved" by (simp add: reserved_def chars_def)
  with us assms(2) show ?thesis
    by (auto simp: no_section_def user_section_def list_all_iff)
qed

lemma resolve_link_name [simp]: "ls_name (resolve_link ss s) = ls_name s"
  by (simp add: resolve_link_def split: lielf_sec_kind.splits)

lemma rebuild_object:
  assumes ok: "object_ok bin"
  shows "rebuild_tables bin =
    bin\<lparr>symbols := local_first (symbols bin), relocs := renumbered bin,
        sections := map (resolve_link (object_sections bin)) (object_sections bin)\<rparr>"
proof -
  let ?ls = "local_first (symbols bin)"
  have not: "name \<notin> ls_name ` set (sections bin)" if "name \<in> set reserved" for name
    using object_names [OF ok that] .
  define b1 where "b1 = bin\<lparr>symbols := ?ls, relocs := renumbered bin, sections := sections bin @ symbol_sections ?ls\<rparr>"
  have "rebuild_strtab False (rebuild_symtab False bin) = b1"
  proof -
    have "rebuild_symtab False bin =
        bin\<lparr>symbols := ?ls, relocs := renumbered bin, sections := sections bin @ (if length ?ls \<le> 1 then [] else [new_symtab ?ls])\<rparr>"
      using rebuild_symtab_new [of bin] not [of "chars ''.symtab''"]
      by (simp add: reserved_def sort_symbols_eq set_symbols_def symbol_list_def renumbered_def Let_def del: One_nat_def)
    then show ?thesis
      using rebuild_strtab_new [of "rebuild_symtab False bin"] not [of "chars ''.strtab''"]
      by (simp add: reserved_def b1_def symbol_sections_def del: One_nat_def)
  qed
  moreover have "rebuild_strtab True (rebuild_symtab True b1) = b1"
    by (rule rebuild_no_dynamic)
      (use ok not [of "chars ''.dynsym''"] not [of "chars ''.dynstr''"] in
        \<open>auto simp: b1_def object_ok_def symbol_sections_def reserved_def\<close>)
  moreover have "rebuild_relas b1 = bin\<lparr>symbols := ?ls, relocs := renumbered bin, sections := inner_sections bin\<rparr>"
  proof -
    have "ls_kind s \<noteq> LIELF_SEC_RELA" if "s \<in> set (sections b1)" for s
    proof -
      from ok obtain us where "sections bin = no_section # us" "list_all user_section us"
        unfolding object_ok_def by (metis list.exhaust_sel)
      with that show ?thesis
        by (auto simp: b1_def symbol_sections_def new_symtab_def new_strtab_def no_section_def list_all_iff user_section_def
            Let_def split: if_splits)
    qed
    moreover have "\<not> lr_dynamic r" if "r \<in> set (relocs b1)" for r
      using that ok by (auto simp: b1_def renumbered_def object_ok_def list_all_iff renumber_def)
    ultimately show ?thesis
      using rebuild_relas_new [of b1] by (simp add: b1_def inner_sections_def)
  qed
  moreover have "rebuild_dynamic b = b" if "dynamic b = []" for b using that by (simp add: rebuild_dynamic_def)
  moreover have "chars ''.shstrtab'' \<notin> ls_name ` set (inner_sections bin)"
  proof -
    have "chars ''.shstrtab'' \<noteq> take 255 (chars ''.rela'' @ t)" for t
      using rela_name_differs [of "chars ''.shstrtab''" t] by (metis reserved_distinct(10))
    with not [of "chars ''.shstrtab''"] show ?thesis
      by (simp add: inner_sections_def symbol_sections_def reserved_def image_Un image_image image_iff del: take_append)
  qed
  moreover have "dynamic bin = []" using ok by (simp add: object_ok_def)
  ultimately show ?thesis
    using rebuild_shstrtab_new [of "bin\<lparr>symbols := ?ls, relocs := renumbered bin, sections := inner_sections bin\<rparr>"]
    by (simp add: rebuild_tables_def resolve_links_def object_sections_def)
qed

lemma index_at:
  assumes "all = xs @ s # ys" "ls_name s \<notin> ls_name ` set xs" "ls_name s \<notin> ls_name ` set ys"
  shows "lielf_section_index all (ls_name s) = length xs"
    "i < length all \<Longrightarrow> ls_name (all ! i) = ls_name s \<longleftrightarrow> i = length xs"
proof -
  have "ls_name (xs ! j) \<noteq> ls_name s" if "j < length xs" for j
    using assms(2) nth_mem [OF that] by (metis imageI)
  then have "find_section all (ls_name s) = Some (length xs)"
    unfolding find_section_def by (intro first_indexI) (simp_all add: assms(1) nth_append)
  then show "lielf_section_index all (ls_name s) = length xs" by (simp add: lielf_section_index_def)
  assume i: "i < length all"
  show "ls_name (all ! i) = ls_name s \<longleftrightarrow> i = length xs"
  proof
    assume e: "ls_name (all ! i) = ls_name s"
    show "i = length xs"
    proof (rule ccontr)
      assume "i \<noteq> length xs"
      with i assms(1) have "all ! i \<in> set xs \<union> set ys"
        by (auto simp: nth_append nth_Cons')
      with e assms(2, 3) show False by (metis UnE imageI)
    qed
  qed (use assms in simp)
qed

lemma index_found:
  assumes "name \<in> ls_name ` set all"
  shows "lielf_section_index all name < length all" "ls_name (all ! lielf_section_index all name) = name"
proof -
  from assms have "first_index (\<lambda>s. ls_name s = name) all \<noteq> None" by (auto simp: first_index_None)
  then obtain i where i: "first_index (\<lambda>s. ls_name s = name) all = Some i" by blast
  then have "lielf_section_index all name = i" by (simp add: lielf_section_index_def find_section_def)
  with i show "lielf_section_index all name < length all" "ls_name (all ! lielf_section_index all name) = name"
    by (auto simp: first_index_Some)
qed

lemma index_missing: "name \<notin> ls_name ` set all \<Longrightarrow> lielf_section_index all name = 0"
  by (auto simp: lielf_section_index_def find_section_def first_index_None image_iff split: option.splits
      dest!: first_index_Some [THEN iffD1])

lemma resolve_link_fields [simp]:
  "ls_kind (resolve_link ss s) = ls_kind s" "ls_type (resolve_link ss s) = ls_type s"
  "rela_dynamic (resolve_link ss s) = rela_dynamic s" "rela_target (resolve_link ss s) = rela_target s"
  "ls_data (resolve_link ss s) = ls_data s" "ls_size (resolve_link ss s) = ls_size s"
  "ls_entsize (resolve_link ss s) = ls_entsize s"
  by (simp_all add: resolve_link_def split: lielf_sec_kind.splits)

lemma new_fields [simp]:
  "ls_kind (new_symtab ss) = LIELF_SEC_SYMTAB" "ls_type (new_symtab ss) = SHT_SYMTAB"
  "\<not> rela_dynamic (new_symtab ss)" "rela_target (new_symtab ss) = None"
  "ls_kind (new_strtab ss) = LIELF_SEC_STRTAB" "ls_type (new_strtab ss) = SHT_STRTAB"
  "\<not> rela_dynamic (new_strtab ss)" "rela_target (new_strtab ss) = None"
  "ls_kind (new_rela rs t) = LIELF_SEC_RELA" "ls_type (new_rela rs t) = SHT_RELA"
  "\<not> rela_dynamic (new_rela rs t)" "rela_target (new_rela rs t) = Some t"
  "ls_kind (new_shstrtab xs) = LIELF_SEC_SHSTRTAB" "ls_type (new_shstrtab xs) = SHT_STRTAB"
  "\<not> rela_dynamic (new_shstrtab xs)" "rela_target (new_shstrtab xs) = None"
  by (simp_all add: new_symtab_def new_strtab_def new_rela_def empty_rela_def new_shstrtab_def new_section_def
      no_section_def Let_def)

text \<open>The four groups of sections, and where the tables lie.\<close>

lemma object_section_cases:
  assumes ok: "object_ok bin" and s: "s \<in> set (object_sections bin)"
  obtains (null) "s = no_section" | (user) "user_section s"
    | (symtab) "s = new_symtab (local_first (symbols bin))" "1 < length (symbols bin)"
    | (strtab) "s = new_strtab (local_first (symbols bin))" "1 < length (symbols bin)"
    | (rela) t where "s = new_rela (renumbered bin) t" "t \<in> set (targets (renumbered bin))" "t \<in> ls_name ` set (sections bin)"
    | (shstrtab) "s = last (object_sections bin)"
      "last (object_sections bin) = new_shstrtab (map ls_name (object_sections bin))"
proof -
  from ok obtain us where us: "sections bin = no_section # us" "list_all user_section us"
    unfolding object_ok_def by (metis list.exhaust_sel)
  have t: "t \<in> ls_name ` set (sections bin)" if "t \<in> set (targets (renumbered bin))" for t
    using that ok by (auto simp: set_targets renumbered_def renumber_def object_ok_def list_all_iff split: if_splits)
  have l: "last (object_sections bin) = new_shstrtab (map ls_name (object_sections bin))"
    by (simp add: object_sections_def)
  from s consider "s \<in> set (sections bin)" | "s \<in> set (symbol_sections (local_first (symbols bin)))"
    | "s \<in> new_rela (renumbered bin) ` set (targets (renumbered bin))" | "s = last (object_sections bin)"
    by (auto simp: object_sections_def inner_sections_def)
  then show thesis
  proof cases
    case 1
    with us null user show ?thesis by (auto simp: list_all_iff)
  next
    case 2
    with symtab strtab show ?thesis by (auto simp: symbol_sections_def split: if_splits)
  next
    case 3
    with rela t show ?thesis by auto
  next
    case 4
    with l shstrtab show ?thesis by auto
  qed
qed

lemma object_name_only:
  assumes ok: "object_ok bin"
  shows "1 < length (symbols bin) \<Longrightarrow> lielf_section_index (object_sections bin) (chars ''.symtab'') = length (sections bin)"
    "1 < length (symbols bin) \<Longrightarrow> lielf_section_index (object_sections bin) (chars ''.strtab'') = Suc (length (sections bin))"
    "1 < length (symbols bin) \<Longrightarrow> i < length (object_sections bin) \<Longrightarrow>
     ls_name (object_sections bin ! i) = chars ''.strtab'' \<longleftrightarrow> i = Suc (length (sections bin))"
    "lielf_section_index (object_sections bin) (chars ''.shstrtab'') = length (inner_sections bin)"
    "i < length (object_sections bin) \<Longrightarrow>
     ls_name (object_sections bin ! i) = chars ''.shstrtab'' \<longleftrightarrow> i = length (inner_sections bin)"
    "\<not> 1 < length (symbols bin) \<Longrightarrow> lielf_section_index (object_sections bin) (chars ''.symtab'') = 0"
proof -
  let ?all = "object_sections bin" and ?ls = "local_first (symbols bin)"
  let ?relas = "map (new_rela (renumbered bin)) (targets (renumbered bin))"
  let ?sh = "new_shstrtab (map ls_name (inner_sections bin) @ [chars ''.shstrtab''])"
  have not: "name \<notin> ls_name ` set (sections bin)" if "name \<in> set reserved" for name
    using object_names [OF ok that] .
  have rela: "name \<notin> ls_name ` set ?relas" if "take 5 name \<noteq> chars ''.rela''" for name
    using rela_name_differs [OF that] by (simp add: image_iff del: take_append) metis
  have r: "chars ''.symtab'' \<in> set reserved" "chars ''.strtab'' \<in> set reserved" "chars ''.shstrtab'' \<in> set reserved"
    by (simp_all add: reserved_def)
  note facts = not [OF r(1)] not [OF r(2)] not [OF r(3)] rela [of "chars ''.symtab''"] rela [of "chars ''.strtab''"]
    rela [of "chars ''.shstrtab''"] reserved_distinct reserved_distinct(1-3) [symmetric]
  have sh: "?all = inner_sections bin @ ?sh # []" by (simp add: object_sections_def)
  have "chars ''.shstrtab'' \<notin> ls_name ` set (inner_sections bin)"
    unfolding inner_sections_def symbol_sections_def using facts by (simp add: image_Un)
  then show "lielf_section_index ?all (chars ''.shstrtab'') = length (inner_sections bin)"
    "i < length ?all \<Longrightarrow> ls_name (?all ! i) = chars ''.shstrtab'' \<longleftrightarrow> i = length (inner_sections bin)"
    using index_at [OF sh] by simp_all
  show "\<not> 1 < length (symbols bin) \<Longrightarrow> lielf_section_index ?all (chars ''.symtab'') = 0"
    by (rule index_missing) (use facts in \<open>simp add: object_sections_def inner_sections_def symbol_sections_def image_Un\<close>)
  assume n: "1 < length (symbols bin)"
  then have all: "?all = sections bin @ new_symtab ?ls # (new_strtab ?ls # ?relas @ [?sh])"
    "?all = (sections bin @ [new_symtab ?ls]) @ new_strtab ?ls # (?relas @ [?sh])"
    by (simp_all add: object_sections_def inner_sections_def symbol_sections_def)
  show "lielf_section_index ?all (chars ''.symtab'') = length (sections bin)"
    using index_at(1) [OF all(1)] facts by (simp add: image_Un)
  show "lielf_section_index ?all (chars ''.strtab'') = Suc (length (sections bin))"
    using index_at(1) [OF all(2)] facts by (simp add: image_Un)
  show "i < length ?all \<Longrightarrow> ls_name (?all ! i) = chars ''.strtab'' \<longleftrightarrow> i = Suc (length (sections bin))"
    using index_at(2) [OF all(2)] facts by (simp add: image_Un)
qed

definition written_sections :: "lielf_binary \<Rightarrow> lielf_section list" where
  "written_sections bin = map (resolve_link (object_sections bin)) (object_sections bin)"

lemma length_object [simp]: "length (object_sections bin) = Suc (length (inner_sections bin))"
  by (simp add: object_sections_def)

lemma length_written [simp]: "length (written_sections bin) = Suc (length (inner_sections bin))"
  by (simp add: written_sections_def)

lemma unat_index: "j < 2 ^ 16 \<Longrightarrow> unat (of_nat j :: u32) = j"
  by (simp add: unat_of_nat_small)

lemma object_well_linked:
  assumes ok: "object_ok bin" and n: "length (object_sections bin) < 2 ^ 16" and i: "i < length (object_sections bin)"
  shows "well_linked (length (inner_sections bin)) (written_sections bin) i"
proof -
  let ?all = "object_sections bin" and ?k = "length (inner_sections bin)" and ?m = "length (sections bin)"
  let ?ls = "local_first (symbols bin)" and ?W = "written_sections bin" and ?s = "object_sections bin ! i"
  have W: "?W ! j = resolve_link ?all (?all ! j)" if "j < Suc ?k" for j using that by (simp add: written_sections_def)
  have ik: "i = ?k" if "ls_name ?s = chars ''.shstrtab''" using object_name_only(5) [OF ok i] that by simp
  have kk: "ls_name (?all ! ?k) = chars ''.shstrtab''" using object_name_only(5) [OF ok, of ?k] by simp
  have kind: "ls_kind (?all ! ?k) = LIELF_SEC_SHSTRTAB" by (simp add: object_sections_def)
  from ok obtain us where us: "sections bin = no_section # us"
    unfolding object_ok_def by (metis list.exhaust_sel)
  have m: "?m \<le> ?k" by (simp add: inner_sections_def)
  have m2: "Suc ?m < Suc ?k" and at: "?all ! ?m = new_symtab ?ls" "?all ! Suc ?m = new_strtab ?ls" if "1 < length (symbols bin)"
    using that by (simp_all add: object_sections_def inner_sections_def symbol_sections_def nth_append)
  have i': "i < Suc ?k" using i by simp
  from i have "?s \<in> set ?all" by simp
  with ok show ?thesis
  proof (cases rule: object_section_cases)
    case null
    then have "i \<noteq> ?k" using kind by (auto simp: no_section_def)
    with null show ?thesis using W [OF i'] by (simp add: well_linked_def resolve_link_def Let_def no_section_def)
  next
    case user
    then have "i \<noteq> ?k" using kind by (auto simp: user_section_def)
    with user show ?thesis using W [OF i'] by (simp add: well_linked_def user_section_def Let_def)
  next
    case symtab
    then have "i \<noteq> ?k" using kind by auto
    moreover have "unat (ls_link (?W ! i)) = Suc ?m"
      using W [OF i'] symtab n m2 object_name_only(2) [OF ok] unat_index [of "Suc ?m"] by (simp add: resolve_link_def)
    ultimately show ?thesis
      using W [OF i'] symtab W [of "Suc ?m"] m2 at by (simp add: well_linked_def Let_def)
  next
    case strtab
    then have "i = Suc ?m" using object_name_only(3) [OF ok _ i] by simp
    moreover have "unat (ls_link (?W ! ?m)) = Suc ?m"
      using W [of ?m] strtab n m m2 at object_name_only(2) [OF ok] unat_index [of "Suc ?m"]
      by (simp add: resolve_link_def)
    moreover have "i \<noteq> ?k" using strtab kind by auto
    ultimately show ?thesis
      using W [OF i'] strtab W [of ?m] m2 at by (auto simp: well_linked_def Let_def intro!: exI [of _ ?m])
  next
    case (rela t)
    then have "i \<noteq> ?k" using kind by auto
    let ?l = "lielf_section_index ?all (chars ''.symtab'')"
    have l: "?l < Suc ?k \<and> ls_type (?all ! ?l) \<noteq> SHT_DYNSYM"
    proof (cases "1 < length (symbols bin)")
      case True
      then show ?thesis using object_name_only(1) [OF ok] at m2 by simp
    next
      case False
      then show ?thesis
        using object_name_only(6) [OF ok] us by (simp add: object_sections_def inner_sections_def no_section_def)
    qed
    let ?j = "lielf_section_index ?all t"
    have "t \<in> ls_name ` set ?all" using rela(3) by (auto simp: object_sections_def inner_sections_def)
    then have j: "?j < Suc ?k" "ls_name (?all ! ?j) = t" using index_found [of t ?all] by simp_all
    have "?j = 0" if "t = []"
    proof -
      from us that have "find_section ?all t = Some 0"
        unfolding find_section_def by (intro first_indexI) (simp_all add: object_sections_def inner_sections_def no_section_def)
      then show ?thesis by (simp add: lielf_section_index_def)
    qed
    then have "ls_info (?W ! i) = of_nat ?j" "ls_link (?W ! i) = of_nat ?l"
      using W [OF i'] rela by (auto simp: resolve_link_def target_of_def)
    with \<open>i \<noteq> ?k\<close> l j n rela W [OF i'] W [of ?j] W [of ?l] show ?thesis
      by (simp add: well_linked_def Let_def unat_index)
  next
    case shstrtab
    then have "ls_kind ?s = LIELF_SEC_SHSTRTAB" "ls_type ?s = SHT_STRTAB" "\<not> rela_dynamic ?s" "rela_target ?s = None"
      "ls_name ?s = chars ''.shstrtab''" by simp_all
    with ik W [OF i'] show ?thesis by (simp add: well_linked_def Let_def)
  qed
qed

lemma well_linked_moved:
  assumes "list_all2 moved ss ts" "i < length ss"
  shows "well_linked k ts i = well_linked k ss i"
proof -
  have n: "length ts = length ss" using assms(1) by (simp add: list_all2_lengthD)
  have m: "ls_kind (ts ! j) = ls_kind (ss ! j)" "ls_type (ts ! j) = ls_type (ss ! j)" "ls_link (ts ! j) = ls_link (ss ! j)"
    "ls_info (ts ! j) = ls_info (ss ! j)" "rela_dynamic (ts ! j) = rela_dynamic (ss ! j)"
    "rela_target (ts ! j) = rela_target (ss ! j)" "ls_name (ts ! j) = ls_name (ss ! j)" if "j < length ss" for j
  proof -
    have "moved (ss ! j) (ts ! j)" using assms(1) that by (simp add: list_all2_nthD)
    then obtain off where "ts ! j = (ss ! j)\<lparr>ls_offset := off, ls_addr := 0\<rparr>" by (auto simp: moved_def)
    then show "ls_kind (ts ! j) = ls_kind (ss ! j)" "ls_type (ts ! j) = ls_type (ss ! j)" "ls_link (ts ! j) = ls_link (ss ! j)"
      "ls_info (ts ! j) = ls_info (ss ! j)" "rela_dynamic (ts ! j) = rela_dynamic (ss ! j)"
      "rela_target (ts ! j) = rela_target (ss ! j)" "ls_name (ts ! j) = ls_name (ss ! j)" by simp_all
  qed
  show ?thesis
    unfolding well_linked_def Let_def n m [OF assms(2)]
    by (intro lielf_sec_kind.case_cong refl) (use m in \<open>auto cong: conj_cong\<close>)
qed

section \<open>The round trip\<close>

lemma length_concat_const: "(\<And>x. x \<in> set xs \<Longrightarrow> length (f x) = k) \<Longrightarrow> length (concat (map f xs)) = length xs * k"
  by (induction xs) simp_all

lemma length_symbol_bytes [simp]: "ss \<noteq> [] \<Longrightarrow> length (concat (map write_sym (raw_table ss))) = length ss * 24"
  by (subst length_concat_const [where k = 24]) simp_all

lemma length_reloc_bytes [simp]: "length (concat (map (\<lambda>r. write_rela (raw_reloc r)) rs)) = length rs * 24"
  by (rule length_concat_const) simp

text \<open>The tables, the headers and what lies between them fit the numbers that hold their places.\<close>

definition build_fits :: "lielf_binary \<Rightarrow> bool" where
  "build_fits bin \<longleftrightarrow>
     (let ss = sections (rebuild_tables bin)
      in layout_bound ss + 16 + 64 * length ss < 2 ^ 32 \<and> length ss < 2 ^ 16 \<and>
         list_all (\<lambda>s. case ls_data s of None \<Rightarrow> True | Some d \<Rightarrow> length d < 2 ^ 32) ss)"

lemma fits_new:
  "d \<noteq> [] \<Longrightarrow> length d < 2 ^ 32 \<Longrightarrow> ls_type s \<noteq> SHT_NOBITS \<Longrightarrow> ls_data s = Some d \<Longrightarrow> ls_size s = of_nat (length d) \<Longrightarrow> data_fits s"
proof -
  assume a: "d \<noteq> []" "length d < 2 ^ 32" "ls_type s \<noteq> SHT_NOBITS" "ls_data s = Some d" "ls_size s = of_nat (length d)"
  then have "unat (ls_size s) = length d" by (simp add: unat_of_nat_small)
  moreover from this a(1) have "ls_size s \<noteq> 0" by auto
  ultimately show "data_fits s" using a by (simp add: data_fits_def)
qed

lemma new_data:
  "ls_data (new_symtab ss) = Some (concat (map write_sym (raw_table ss)))"
  "ls_size (new_symtab ss) = of_nat (length (concat (map write_sym (raw_table ss))))"
  "ls_data (new_strtab ss) = Some (string_table (map lsym_name (tl ss)))"
  "ls_size (new_strtab ss) = of_nat (length (string_table (map lsym_name (tl ss))))"
  "ls_data (new_rela rs t) = Some (concat (map (\<lambda>r. write_rela (raw_reloc r)) (relocs_for t rs)))"
  "ls_size (new_rela rs t) = of_nat (length (concat (map (\<lambda>r. write_rela (raw_reloc r)) (relocs_for t rs))))"
  "ls_data (new_shstrtab xs) = Some (string_table xs)" "ls_size (new_shstrtab xs) = of_nat (length (string_table xs))"
  "ls_entsize (new_symtab ss) = 24" "ls_entsize (new_rela rs t) = 24"
  by (simp_all add: new_symtab_def new_strtab_def new_rela_def empty_rela_def new_shstrtab_def new_section_def no_section_def
      Let_def)

lemma object_section_ok:
  assumes ok: "object_ok bin" and s: "s \<in> set (tl (object_sections bin))"
    and small: "\<And>d. ls_data s = Some d \<Longrightarrow> length d < 2 ^ 32"
  shows "ls_type s \<noteq> SHT_NULL \<and> data_fits s \<and> 0 \<notin> set (ls_name s)"
proof -
  from ok obtain us where us: "sections bin = no_section # us" "list_all user_section us"
    unfolding object_ok_def by (metis list.exhaust_sel)
  have no_nul: "0 \<notin> set (chars ''.symtab'')" "0 \<notin> set (chars ''.strtab'')" "0 \<notin> set (chars ''.shstrtab'')"
    "0 \<notin> set (chars ''.rela'')"
    by (simp_all add: chars_def of_char_def)
  have tl: "tl (object_sections bin) = us @ symbol_sections (local_first (symbols bin)) @
      map (new_rela (renumbered bin)) (targets (renumbered bin)) @ [last (object_sections bin)]"
    by (simp add: object_sections_def inner_sections_def us)
  have "ls_type (last (object_sections bin)) = SHT_STRTAB" by (simp add: object_sections_def)
  then have "ls_type s \<noteq> SHT_NULL"
    using s us(2) unfolding tl by (auto simp: symbol_sections_def list_all_iff user_section_def split: if_splits)
  then have ne: "s \<noteq> no_section" by (auto simp: no_section_def)
  from s have "s \<in> set (object_sections bin)" by (cases "object_sections bin") auto
  with ok show ?thesis
  proof (cases rule: object_section_cases)
    case null
    with ne show ?thesis by simp
  next
    case user
    then show ?thesis by (simp add: user_section_def)
  next
    case symtab
    then have "raw_table (local_first (symbols bin)) \<noteq> []" by (simp add: raw_table_def)
    moreover have "write_sym x \<noteq> []" for x by (metis length_write(3) list.size(3) zero_neq_numeral)
    ultimately have "concat (map write_sym (raw_table (local_first (symbols bin)))) \<noteq> []" by auto
    from fits_new [OF this, of s] show ?thesis using symtab small no_nul by (simp add: new_data)
  next
    case strtab
    have "string_table (map lsym_name (tl (local_first (symbols bin)))) \<noteq> []" by (simp add: string_table_def)
    from fits_new [OF this, of s] show ?thesis using strtab small no_nul by (simp add: new_data)
  next
    case (rela t)
    then obtain r where "r \<in> set (relocs_for t (renumbered bin))" by (auto simp: set_targets relocs_for_def)
    moreover have "write_rela x \<noteq> []" for x by (metis length_write(5) list.size(3) zero_neq_numeral)
    ultimately have "concat (map (\<lambda>r. write_rela (raw_reloc r)) (relocs_for t (renumbered bin))) \<noteq> []" by auto
    note fits = fits_new [OF this, of s]
    from rela us have "0 \<notin> set t"
      by (auto simp: no_section_def list_all_iff user_section_def)
    then have "0 \<notin> set (ls_name s)" using rela no_nul by (auto simp: rela_name dest: in_set_takeD simp del: take_append)
    with fits show ?thesis using rela small by (simp add: new_data)
  next
    case shstrtab
    have "string_table (map ls_name (object_sections bin)) \<noteq> []" by (simp add: string_table_def)
    from fits_new [OF this, of s] show ?thesis using shstrtab small no_nul by (simp add: new_data)
  qed
qed

lemma resolve_link_fits [simp]: "data_fits (resolve_link ss s) = data_fits s"
  by (simp add: data_fits_def split: option.split)

lemma moved_fields:
  "moved s t \<Longrightarrow> ls_kind t = ls_kind s \<and> ls_type t = ls_type s \<and> ls_link t = ls_link s \<and> ls_data t = ls_data s \<and>
     ls_size t = ls_size s \<and> ls_entsize t = ls_entsize s \<and> ls_name t = ls_name s \<and> rela_target t = rela_target s \<and>
     rela_dynamic t = rela_dynamic s \<and> data_fits t = data_fits s"
  by (cases s; cases t) (simp add: moved_def data_fits_def split: option.split)


text \<open>What a build makes of the sections, apart from their places.\<close>

lemma written_sections_eq: "object_ok bin \<Longrightarrow> sections (rebuild_tables bin) = written_sections bin"
  by (simp add: rebuild_object written_sections_def)

lemma object_sections_0: "object_ok bin \<Longrightarrow> \<exists>ss. object_sections bin = no_section # ss"
proof -
  assume "object_ok bin"
  then obtain us where "sections bin = no_section # us"
    unfolding object_ok_def by (metis list.exhaust_sel)
  then show ?thesis by (simp add: object_sections_def inner_sections_def)
qed

lemma written_0: "object_ok bin \<Longrightarrow> hd (written_sections bin) = no_section"
proof -
  assume "object_ok bin"
  then obtain ss where "object_sections bin = no_section # ss" using object_sections_0 by blast
  moreover have "ls_kind no_section = LIELF_SEC_NORMAL" by (simp add: no_section_def)
  ultimately show ?thesis by (simp add: written_sections_def resolve_link_def)
qed

lemma written_shstrtab:
  "ls_data (written_sections bin ! length (inner_sections bin)) = Some (string_table (map ls_name (written_sections bin)))"
proof -
  have "object_sections bin ! length (inner_sections bin) = new_shstrtab (map ls_name (object_sections bin))"
    by (simp add: object_sections_def)
  moreover have "map ls_name (written_sections bin) = map ls_name (object_sections bin)" by (simp add: written_sections_def)
  ultimately show ?thesis by (simp add: new_data) (simp add: written_sections_def new_data)
qed

lemma index_names:
  "map ls_name xs = map ls_name ys \<Longrightarrow> lielf_section_index xs name = lielf_section_index ys name"
proof -
  have "first_index (\<lambda>s. ls_name s = name) zs = first_index (\<lambda>x. x = name) (map ls_name zs)" for zs
    by (induction zs) auto
  moreover assume "map ls_name xs = map ls_name ys"
  ultimately show ?thesis unfolding lielf_section_index_def find_section_def by metis
qed

lemma build_layout:
  assumes ok: "object_ok bin" and fits: "build_fits bin"
  obtains f b ts shoff where
    "lielf_build bin = Inr (f, b\<lparr>sections := map settle (sections b)\<rparr>)"
    "b = (rebuild_tables bin)\<lparr>sections := no_section # ts, lb_ehdr := lb_ehdr b\<rparr>"
    "list_all2 moved (tl (written_sections bin)) ts"
    "lb_ehdr b = (lb_ehdr bin)\<lparr>e_phoff := 0, e_phnum := 0, e_shoff := shoff, e_shnum := of_nat (Suc (length ts)),
        e_shstrndx := of_nat (length (inner_sections bin))\<rparr>"
    "length f = unat shoff + 64 * Suc (length ts)" "length f < 2 ^ 32" "holds f (0, write_ehdr (lb_ehdr b))"
    "\<And>s d. s \<in> set ts \<Longrightarrow> ls_data s = Some d \<Longrightarrow> holds f (ls_offset s, d)"
    "\<And>i. i < Suc (length ts) \<Longrightarrow> holds f (shoff + of_nat i * 64, write_shdr (headers (no_section # ts) ! i))"
proof -
  let ?W = "written_sections bin" and ?bin1 = "rebuild_tables bin"
  have W: "sections ?bin1 = ?W" by (rule written_sections_eq [OF ok])
  have bound: "layout_bound ?W + 16 + 64 * length ?W < 2 ^ 32" and n: "length ?W < 2 ^ 16"
    and small: "\<And>s d. s \<in> set ?W \<Longrightarrow> ls_data s = Some d \<Longrightarrow> length d < 2 ^ 32"
    using fits W by (auto simp: build_fits_def Let_def list_all_iff split: option.splits)
  have tail: "ls_type s \<noteq> SHT_NULL \<and> data_fits s" if "s \<in> set (tl ?W)" for s
  proof -
    from that obtain t where t: "t \<in> set (tl (object_sections bin))" "s = resolve_link (object_sections bin) t"
      by (auto simp: written_sections_def simp flip: map_tl)
    then have "s \<in> set ?W" using that by (cases ?W) auto
    with t small [of s] object_section_ok [OF ok t(1)] show ?thesis by simp
  qed
  have rel: "is_rel ?bin1" "segments ?bin1 = []" "lb_ehdr ?bin1 = lb_ehdr bin" "length (e_ident (lb_ehdr bin)) = 16"
    using ok by (simp_all add: rebuild_object) (simp_all add: object_ok_def is_rel_def)
  have seg0: "segments bin = []" using ok by (simp add: object_ok_def)
  obtain ts me where lay: "lay_out_sections ?bin1 = (?bin1\<lparr>sections := hd ?W # ts\<rparr>, me)"
    and ts: "list_all2 (\<lambda>s t. moved s t \<and> 64 \<le> unat (ls_offset t) \<and> ends t \<le> unat me) (tl ?W) ts"
    and apart: "sorted_wrt (\<lambda>t u. ends t \<le> unat (ls_offset u) \<or> ends u \<le> unat (ls_offset t)) ts"
    and me: "64 \<le> unat me" "unat me \<le> layout_bound ?W"
    by (rule rel_layout [OF rel(1, 2), unfolded W]) (use tail bound in auto)
  have len: "length ?W = Suc (length ts)"
    using list_all2_lengthD [OF ts] by simp
  define shoff where "shoff = align_up me 8"
  have shoff: "unat me \<le> unat shoff" "unat shoff \<le> unat me + 8"
    using align_up_bounds [of me 8] me bound by (simp_all add: shoff_def)
  have moved: "list_all2 moved (tl ?W) ts" using ts by (auto elim: list_all2_mono)
  have hdW: "hd ?W = no_section" by (rule written_0 [OF ok])
  have names: "map ls_name (no_section # ts) = map ls_name ?W"
  proof -
    have "map ls_name ts = map ls_name (tl ?W)"
    proof (rule nth_equalityI)
      show "length (map ls_name ts) = length (map ls_name (tl ?W))" using len by simp
      fix i assume "i < length (map ls_name ts)"
      with moved have "moved (tl ?W ! i) (ts ! i)" by (simp add: list_all2_conv_all_nth)
      with \<open>i < length (map ls_name ts)\<close> len show "map ls_name ts ! i = map ls_name (tl ?W) ! i"
        by (simp add: moved_fields)
    qed
    with hdW len show ?thesis by (cases ?W) auto
  qed
  have shidx: "lielf_section_index (no_section # ts) (chars ''.shstrtab'') = length (inner_sections bin)"
  proof -
    have "map ls_name (no_section # ts) = map ls_name (object_sections bin)"
      unfolding names by (simp add: written_sections_def)
    then have "lielf_section_index (no_section # ts) (chars ''.shstrtab'') = lielf_section_index (object_sections bin) (chars ''.shstrtab'')"
      by (rule index_names)
    then show ?thesis using object_name_only(4) [OF ok] by simp
  qed
  define h where "h = (lb_ehdr bin)\<lparr>e_phoff := 0, e_phnum := 0, e_shoff := shoff, e_shnum := of_nat (Suc (length ts)),
        e_shstrndx := of_nat (length (inner_sections bin))\<rparr>"
  define b where "b = ?bin1\<lparr>sections := no_section # ts, lb_ehdr := h\<rparr>"
  have place: "place_headers 0 (?bin1\<lparr>sections := hd ?W # ts\<rparr>) me = (b, shoff + of_nat (Suc (length ts)) * 64)"
    using rel hdW shidx by (simp add: place_headers_def place_phdrs_def b_def h_def shoff_def Let_def del: of_nat_Suc)
  have total_size: "unat (shoff + of_nat (Suc (length ts)) * 64) = unat shoff + 64 * Suc (length ts)"
  proof -
    have "unat shoff + 64 * Suc (length ts) < 2 ^ 64" using shoff me bound len by simp
    moreover have "shoff + of_nat (Suc (length ts)) * 64 = of_nat (unat shoff + 64 * Suc (length ts))"
      by (simp add: algebra_simps)
    ultimately show ?thesis using unat_of_nat_small [of "unat shoff + 64 * Suc (length ts)", where ?'a = 64]
      by (simp add: mult.commute)
  qed
  have member: "\<exists>s \<in> set (tl ?W). moved s t \<and> 64 \<le> unat (ls_offset t) \<and> ends t \<le> unat me" if "t \<in> set ts" for t
  proof -
    from that obtain i where i: "i < length ts" "t = ts ! i" by (auto simp: in_set_conv_nth)
    with list_all2_nthD2 [OF ts i(1)] list_all2_lengthD [OF ts] nth_mem [of i "tl ?W"] show ?thesis by auto
  qed
  obtain f where f: "serialize b (shoff + of_nat (Suc (length ts)) * 64) = Inr f"
    "length f = unat (shoff + of_nat (Suc (length ts)) * 64)" "holds f (0, write_ehdr (lb_ehdr b))"
    "\<And>s d. s \<in> set ts \<Longrightarrow> ls_data s = Some d \<Longrightarrow> holds f (ls_offset s, d)"
    "\<And>i. i < length (sections b) \<Longrightarrow> holds f (e_shoff (lb_ehdr b) + of_nat i * 64, write_shdr (headers (sections b) ! i))"
  proof (rule serialize_holds [where bin = b and ts = ts and t = "shoff + of_nat (Suc (length ts)) * 64"])
    show "length (e_ident (lb_ehdr b)) = 16" "e_phnum (lb_ehdr b) = 0" "sections b = no_section # ts"
      using rel by (simp_all add: b_def h_def)
    show "data_fits s" if "s \<in> set ts" for s
      using member [OF that] tail moved_fields by blast
    show "64 \<le> unat (ls_offset s) \<and> ends s \<le> unat (e_shoff (lb_ehdr b))" if "s \<in> set ts" for s
      using member [OF that] shoff by (auto simp: b_def h_def)
    show "64 \<le> unat (e_shoff (lb_ehdr b))" using me shoff by (simp add: b_def h_def)
    show "unat (shoff + of_nat (Suc (length ts)) * 64) = unat (e_shoff (lb_ehdr b)) + 64 * length (sections b)"
      using total_size by (simp add: b_def h_def)
  qed (use apart in auto)
  show thesis
  proof (rule that [of f b ts shoff])
    show "lielf_build bin = Inr (f, b\<lparr>sections := map settle (sections b)\<rparr>)"
      using lay place f(1) seg0 by (simp add: lielf_build_def)
    show "length f = unat shoff + 64 * Suc (length ts)" using f(2) total_size by simp
    then show "length f < 2 ^ 32" using shoff me bound len by simp
    show "holds f (shoff + of_nat i * 64, write_shdr (headers (no_section # ts) ! i))" if "i < Suc (length ts)" for i
      using f(5) [of i] that by (simp add: b_def h_def)
  qed (use f moved in \<open>simp_all add: b_def h_def\<close>)
qed


lemma moved_written:
  assumes "object_ok bin" "list_all2 moved (tl (written_sections bin)) ts"
  shows "list_all2 moved (written_sections bin) (no_section # ts)"
proof -
  have "moved no_section no_section" by (simp add: moved_def no_section_def)
  with assms written_0 [OF assms(1)] show ?thesis
    by (cases "written_sections bin") (auto simp: written_sections_def object_sections_def)
qed

text \<open>What the reader makes of the kinds of the sections.\<close>

lemma set_local_first [simp]: "set (local_first ss) = set ss"
  by (cases ss) (auto simp: local_first_def)

lemma hd_local_first [simp]: "hd (local_first ss) = hd ss"
  by (cases ss) (simp_all add: local_first_def)

lemma local_first_Nil [simp]: "local_first ss = [] \<longleftrightarrow> ss = []"
  by (cases ss) (simp_all add: local_first_def)

lemma settled_fields:
  assumes "list_all2 moved (written_sections bin) ss" "s \<in> set (map settle ss)"
  obtains t i where "t \<in> set (object_sections bin)" "i < length (object_sections bin)" "t = object_sections bin ! i"
    "s = settle (ss ! i)" "ls_kind s = ls_kind t" "ls_data s = ls_data t" "ls_size s = ls_size t" "ls_entsize s = ls_entsize t"
    "rela_target s = rela_target t" "rela_dynamic s = rela_dynamic t"
    "ls_link s = ls_link (resolve_link (object_sections bin) t)"
proof -
  have len: "length ss = length (object_sections bin)" using list_all2_lengthD [OF assms(1)] by simp
  from assms(2) len obtain i where i: "i < length (object_sections bin)" "s = settle (ss ! i)" by (auto simp: in_set_conv_nth)
  have "moved (resolve_link (object_sections bin) (object_sections bin ! i)) (ss ! i)"
    using assms(1) i by (auto simp: list_all2_conv_all_nth written_sections_def)
  from moved_fields [OF this] i that [of "object_sections bin ! i" i] show thesis by (simp add: settle_def)
qed

lemma settled_nth:
  assumes "list_all2 moved (written_sections bin) ss" "i < length (object_sections bin)"
  shows "ls_kind (settle (ss ! i)) = ls_kind (object_sections bin ! i)" "ls_data (settle (ss ! i)) = ls_data (object_sections bin ! i)"
    "ls_size (settle (ss ! i)) = ls_size (object_sections bin ! i)"
    "rela_target (settle (ss ! i)) = rela_target (object_sections bin ! i)"
proof -
  have "moved (resolve_link (object_sections bin) (object_sections bin ! i)) (ss ! i)"
    using assms by (auto simp: list_all2_conv_all_nth written_sections_def)
  from moved_fields [OF this]
  show "ls_kind (settle (ss ! i)) = ls_kind (object_sections bin ! i)" "ls_data (settle (ss ! i)) = ls_data (object_sections bin ! i)"
    "ls_size (settle (ss ! i)) = ls_size (object_sections bin ! i)"
    "rela_target (settle (ss ! i)) = rela_target (object_sections bin ! i)" by (simp_all add: settle_def)
qed

lemma object_kinds:
  assumes "object_ok bin" "t \<in> set (object_sections bin)"
  shows "ls_kind t = LIELF_SEC_SYMTAB \<Longrightarrow> t = new_symtab (local_first (symbols bin)) \<and> 1 < length (symbols bin)"
    "ls_kind t = LIELF_SEC_RELA \<Longrightarrow> \<exists>u. t = new_rela (renumbered bin) u"
    "ls_kind t \<noteq> LIELF_SEC_DYNSYM" "ls_kind t \<noteq> LIELF_SEC_DYNAMIC"
  by (cases rule: object_section_cases [OF assms]; auto simp: no_section_def user_section_def)+

lemma load_symtab_back:
  assumes ok: "object_ok bin" and n: "length (object_sections bin) < 2 ^ 16"
    and small: "\<And>s d. s \<in> set (object_sections bin) \<Longrightarrow> ls_data s = Some d \<Longrightarrow> length d < 2 ^ 32"
    and mv: "list_all2 moved (written_sections bin) ss"
    and s: "s \<in> set (map settle ss)" "ls_kind s = LIELF_SEC_SYMTAB"
  shows "load_symbols (map settle ss) s = Inr (local_first (symbols bin))"
proof -
  let ?ls = "local_first (symbols bin)" and ?all = "object_sections bin" and ?m = "Suc (length (sections bin))"
  obtain t where t: "t \<in> set ?all" "ls_kind s = ls_kind t" "ls_data s = ls_data t" "ls_size s = ls_size t"
      "ls_entsize s = ls_entsize t" "ls_link s = ls_link (resolve_link ?all t)"
    by (rule settled_fields [OF mv s(1)])
  with s(2) object_kinds(1) [OF ok] have sym: "t = new_symtab ?ls" "1 < length (symbols bin)" by auto
  then have m: "?m < length ?all" "?all ! ?m = new_strtab ?ls"
    by (simp_all add: object_sections_def inner_sections_def symbol_sections_def nth_append)
  have ne: "?ls \<noteq> []" using sym by auto
  have len: "length ss = length ?all" using list_all2_lengthD [OF mv] by simp
  have link: "unat (ls_link s) = ?m"
    using t sym object_name_only(2) [OF ok] m(1) n unat_index [of ?m] by (simp add: resolve_link_def)
  have "new_strtab ?ls \<in> set ?all" using m nth_mem by metis
  from small [OF this] have names: "length (string_table (map lsym_name (tl ?ls))) < 2 ^ 32" by (simp add: new_data)
  from sym t(1) small [of t] ne have rows: "length ?ls * 24 < 2 ^ 32" by (simp add: new_data)
  show ?thesis
  proof (rule load_symbols_back [OF _ ne _ _ _ _ _ _ _ names rows])
    show "list_all (\<lambda>s. 0 \<notin> set (lsym_name s)) ?ls" "lsym_name (hd ?ls) = []"
      using ok by (simp_all add: object_ok_def list_all_iff no_symbol_def)
    show "ls_data s = Some (concat (map write_sym (raw_table ?ls)))" "ls_entsize s = 24" "ls_size s = of_nat (length ?ls * 24)"
      using t sym ne by (simp_all add: new_data)
    show "unat (ls_link s) < length (map settle ss)" using link m len by simp
    show "ls_data (map settle ss ! unat (ls_link s)) = Some (string_table (map lsym_name (tl ?ls)))"
      "ls_size (map settle ss ! unat (ls_link s)) = of_nat (length (string_table (map lsym_name (tl ?ls))))"
      using settled_nth [OF mv m(1)] link m len by (simp_all add: new_data)
  qed
qed

lemma load_rela_back:
  assumes ok: "object_ok bin"
    and small: "\<And>s d. s \<in> set (object_sections bin) \<Longrightarrow> ls_data s = Some d \<Longrightarrow> length d < 2 ^ 32"
    and mv: "list_all2 moved (written_sections bin) ss"
    and s: "s \<in> set (map settle ss)" "ls_kind s = LIELF_SEC_RELA"
  shows "load_relocs s = Inr (relocs_for (target_of s) (renumbered bin))"
proof -
  let ?all = "object_sections bin" and ?rs = "renumbered bin"
  obtain t where t: "t \<in> set ?all" "ls_kind s = ls_kind t" "ls_data s = ls_data t" "ls_size s = ls_size t"
      "ls_entsize s = ls_entsize t" "rela_target s = rela_target t" "rela_dynamic s = rela_dynamic t"
    by (rule settled_fields [OF mv s(1)])
  with s(2) object_kinds(2) [OF ok] obtain u where u: "t = new_rela ?rs u" by auto
  then have tgt: "target_of s = u" using t by (simp add: target_of_def)
  show ?thesis
  proof (rule load_relocs_back)
    show "ls_data s = Some (concat (map (\<lambda>r. write_rela (raw_reloc r)) (relocs_for (target_of s) ?rs)))" "ls_entsize s = 24"
      "ls_size s = of_nat (length (relocs_for (target_of s) ?rs) * 24)"
      using t u tgt by (simp_all add: new_data)
    show "length (relocs_for (target_of s) ?rs) * 24 < 2 ^ 32" using small [of t] t(1) u tgt by (simp add: new_data)
    fix r assume "r \<in> set (relocs_for (target_of s) ?rs)"
    then show "lr_dynamic r = rela_dynamic s \<and> target_section r = target_of s"
      using ok t u by (auto simp: relocs_for_def renumbered_def renumber_def object_ok_def list_all_iff)
  qed
qed

text \<open>What the sections of one kind give is what the sections before the layout give.\<close>

lemma collect_kind:
  assumes mv: "list_all2 moved (written_sections bin) ss"
    and f: "\<And>s t. rela_target s = rela_target t \<Longrightarrow> f s = f t"
  shows "concat (map f (filter (\<lambda>s. ls_kind s = k) (map settle ss))) =
    concat (map (\<lambda>s. if ls_kind s = k then f s else []) (object_sections bin))"
proof -
  let ?g = "\<lambda>s. if ls_kind s = k then f s else []"
  have len: "length ss = length (object_sections bin)" using list_all2_lengthD [OF mv] by simp
  have "concat (map f (filter (\<lambda>s. ls_kind s = k) xs)) = concat (map ?g xs)" for xs
    by (induction xs) auto
  moreover have "map ?g (map settle ss) = map ?g (object_sections bin)"
  proof (rule nth_equalityI)
    fix i assume "i < length (map ?g (map settle ss))"
    then have i: "i < length (object_sections bin)" using len by simp
    with settled_nth [OF mv i] len f [of "settle (ss ! i)" "object_sections bin ! i"]
    show "map ?g (map settle ss) ! i = map ?g (object_sections bin) ! i" by simp
  qed (use len in simp)
  ultimately show ?thesis by simp
qed

lemma collect_user:
  "object_ok bin \<Longrightarrow> k \<noteq> LIELF_SEC_NORMAL \<Longrightarrow> concat (map (\<lambda>s. if ls_kind s = k then f s else []) (sections bin)) = []"
proof -
  assume "object_ok bin" "k \<noteq> LIELF_SEC_NORMAL"
  moreover from this obtain us where "sections bin = no_section # us" "list_all user_section us"
    unfolding object_ok_def by (metis list.exhaust_sel)
  ultimately show ?thesis by (auto simp: no_section_def list_all_iff user_section_def)
qed

lemma load_object_tables:
  assumes ok: "object_ok bin" and n: "length (object_sections bin) < 2 ^ 16"
    and small: "\<And>s d. s \<in> set (object_sections bin) \<Longrightarrow> ls_data s = Some d \<Longrightarrow> length d < 2 ^ 32"
    and mv: "list_all2 moved (written_sections bin) ss"
    and bin': "sections bin' = map settle ss" "symbols bin' = []" "relocs bin' = []"
  shows "load_tables (map settle ss) bin' =
    Inr (bin'\<lparr>symbols := (if length (symbols bin) \<le> 1 then [] else local_first (symbols bin)),
              relocs := concat (map (\<lambda>t. relocs_for t (renumbered bin)) (targets (renumbered bin)))\<rparr>)"
proof -
  let ?ls = "local_first (symbols bin)" and ?rs = "renumbered bin"
  have "ls_kind s \<noteq> LIELF_SEC_DYNSYM \<and> ls_kind s \<noteq> LIELF_SEC_DYNAMIC" if "s \<in> set (map settle ss)" for s
    using settled_fields [OF mv that] object_kinds(3, 4) [OF ok] by metis
  with load_symtab_back [OF ok n small mv] load_rela_back [OF ok small mv] bin'
  have "load_tables (map settle ss) bin' =
    Inr (bin'\<lparr>symbols := concat (map (\<lambda>s. ?ls) (filter (\<lambda>s. ls_kind s = LIELF_SEC_SYMTAB) (map settle ss))),
             relocs := concat (map (\<lambda>s. relocs_for (target_of s) ?rs) (filter (\<lambda>s. ls_kind s = LIELF_SEC_RELA) (map settle ss)))\<rparr>)"
    using load_tables_back [where ts = "map settle ss" and bin = bin' and syms = "\<lambda>s. ?ls"
        and rels = "\<lambda>s. relocs_for (target_of s) ?rs"] by simp
  moreover have "concat (map (\<lambda>s. ?ls) (filter (\<lambda>s. ls_kind s = LIELF_SEC_SYMTAB) (map settle ss))) =
      (if length (symbols bin) \<le> 1 then [] else ?ls)"
    using collect_kind [OF mv, of "\<lambda>s. ?ls" LIELF_SEC_SYMTAB] collect_user [OF ok, of LIELF_SEC_SYMTAB "\<lambda>s. ?ls"]
    by (simp add: object_sections_def inner_sections_def symbol_sections_def comp_def)
  moreover have "target_of s = target_of t" if "rela_target s = rela_target t" for s t
    using that by (simp add: target_of_def)
  then have "concat (map (\<lambda>s. relocs_for (target_of s) ?rs) (filter (\<lambda>s. ls_kind s = LIELF_SEC_RELA) (map settle ss))) =
      concat (map (\<lambda>t. relocs_for t ?rs) (targets ?rs))"
    using collect_kind [OF mv, of "\<lambda>s. relocs_for (target_of s) ?rs" LIELF_SEC_RELA]
      collect_user [OF ok, of LIELF_SEC_RELA "\<lambda>s. relocs_for (target_of s) ?rs"]
    by (simp add: object_sections_def inner_sections_def symbol_sections_def comp_def target_of_def)
  ultimately show ?thesis by simp
qed

lemma load_object:
  assumes ok: "object_ok bin" and n: "Suc (length ts) < 2 ^ 16"
    and small: "\<And>s d. s \<in> set (object_sections bin) \<Longrightarrow> ls_data s = Some d \<Longrightarrow> length d < 2 ^ 32"
    and mv: "list_all2 moved (tl (written_sections bin)) ts"
    and h: "h = (lb_ehdr bin)\<lparr>e_phoff := 0, e_phnum := 0, e_shoff := shoff, e_shnum := of_nat (Suc (length ts)),
        e_shstrndx := of_nat (length (inner_sections bin))\<rparr>"
    and f: "length f = unat shoff + 64 * Suc (length ts)" "length f < 2 ^ 32" "holds f (0, write_ehdr h)"
    and data: "\<And>s d. s \<in> set ts \<Longrightarrow> ls_data s = Some d \<Longrightarrow> holds f (ls_offset s, d)"
    and hdrs: "\<And>i. i < Suc (length ts) \<Longrightarrow> holds f (shoff + of_nat i * 64, write_shdr (headers (no_section # ts) ! i))"
  shows "lielf_load_mem f = Inr (Some
    \<lparr>lb_ehdr = h, sections = map settle (no_section # ts), segments = [], symbols = local_first (symbols bin),
     dynsymbols = [no_symbol],
     relocs = concat (map (\<lambda>t. relocs_for t (renumbered bin)) (targets (renumbered bin))), dynamic = [], base_vaddr = 0\<rparr>)"
proof -
  let ?ss = "no_section # ts" and ?k = "length (inner_sections bin)"
  have mv': "list_all2 moved (written_sections bin) ?ss" by (rule moved_written [OF ok mv])
  have len: "Suc ?k = Suc (length ts)" using list_all2_lengthD [OF mv'] by simp
  have id: "length (e_ident h) = 16" "take 6 (e_ident h) = ELFMAG @ [2, 1]" "e_type h = ET_REL"
    using ok by (simp_all add: h object_ok_def is_rel_def)
  have tail: "data_fits s \<and> 0 \<notin> set (ls_name s)" if s: "s \<in> set ts" for s
  proof -
    from s obtain i where i: "i < length ts" "s = ts ! i" by (auto simp: in_set_conv_nth)
    with list_all2_nthD2 [OF mv i(1)] have "moved (tl (written_sections bin) ! i) s" by simp
    moreover have o: "object_sections bin ! Suc i \<in> set (tl (object_sections bin))"
      using i len by (metis Suc_less_eq length_object length_tl diff_Suc_1 nth_mem nth_tl)
    moreover have "tl (written_sections bin) ! i = resolve_link (object_sections bin) (object_sections bin ! Suc i)"
      using i len by (simp add: nth_tl written_sections_def)
    moreover have "object_sections bin ! Suc i \<in> set (object_sections bin)" using i len by simp
    ultimately show ?thesis
      using object_section_ok [OF ok o small] moved_fields by force
  qed
  have table: "ls_data (?ss ! ?k) = Some (string_table (map ls_name ?ss))"
  proof -
    have "ls_name (?ss ! i) = ls_name (written_sections bin ! i) \<and> ls_data (?ss ! i) = ls_data (written_sections bin ! i)"
      if "i < Suc (length ts)" for i
      using list_all2_nthD2 [OF mv', of i] that moved_fields by (metis length_Cons)
    then have "map ls_name ?ss = map ls_name (written_sections bin)" "ls_data (?ss ! ?k) = ls_data (written_sections bin ! ?k)"
      using len by (auto intro!: nth_equalityI simp del: list.map)
    with written_shstrtab [of bin] show ?thesis by simp
  qed
  have k: "?k < length ?ss" "?k \<noteq> 0" using len ok by (auto simp: inner_sections_def object_ok_def)
  have hdr: "take 64 f = write_ehdr h" using f(3) id by (simp add: holds_def)
  have bytes: "take 6 f = ELFMAG @ [2, 1]"
  proof -
    have "take 6 f = take 6 (take 64 f)" by simp
    also have "\<dots> = take 6 (e_ident h)" unfolding hdr by (simp add: write_ehdr_def id(1))
    finally show ?thesis using id(2) by simp
  qed
  have magic: "take 4 f = ELFMAG" "f ! 4 = 2" "f ! 5 = 1"
  proof -
    have "take 4 f = take 4 (take 6 f)" by simp
    then show "take 4 f = ELFMAG" by (simp add: bytes)
    have "f ! 4 = take 6 f ! 4" "f ! 5 = take 6 f ! 5" by simp_all
    then show "f ! 4 = 2" "f ! 5 = 1" by (simp_all add: bytes)
  qed
  have read: "read_ehdr (take 64 f) = h"
    unfolding hdr using read_write_ehdr [OF id(1), of "[]"] by simp
  have num: "unat (of_nat (Suc (length ts)) :: u16) = Suc (length ts)" "unat (of_nat ?k :: u16) = ?k"
    using n len by (simp_all add: unat_of_nat_small del: of_nat_Suc)
  have table_fits: "shoff + ucast (of_nat (Suc (length ts)) :: u16) * 64 \<le> of_nat (length f)"
  proof -
    have "(ucast (of_nat (Suc (length ts)) :: u16) :: u64) = of_nat (Suc (length ts))"
      by (metis num(1) of_nat_unat)
    then have "shoff + ucast (of_nat (Suc (length ts)) :: u16) * 64 = of_nat (length f)"
      unfolding f(1) by (simp add: algebra_simps)
    then show ?thesis by simp
  qed
  let ?bin' = "\<lparr>lb_ehdr = h, sections = map settle ?ss, segments = [], symbols = [], dynsymbols = [], relocs = [], dynamic = [],
    base_vaddr = 0\<rparr>"
  have "load_sections f (?bin'\<lparr>sections := []\<rparr>) =
    Inr (?bin'\<lparr>symbols := (if length (symbols bin) \<le> 1 then [] else local_first (symbols bin)),
               relocs := concat (map (\<lambda>t. relocs_for t (renumbered bin)) (targets (renumbered bin)))\<rparr>)"
  proof -
    have wl: "well_linked ?k ?ss i" if "i < length ?ss" for i
      using object_well_linked [OF ok, of i] well_linked_moved [OF mv', of i ?k] that n len by simp
    have kind: "ls_kind (?ss ! ?k) = LIELF_SEC_SHSTRTAB"
      using settled_nth(1) [OF mv', of ?k] by (simp add: settle_def object_sections_def)
    have cls: "classify_all h (map plain ?ss) = map settle ?ss"
      by (rule classify_back [OF wl k kind]) (use num in \<open>simp_all add: h\<close>)
    note again = sections_back [OF refl f(2) _ data _ _ k table, where shoff = shoff]
    have "read_headers f shoff (length ?ss) = Inr (headers ?ss)"
      by (rule again(1)) (use hdrs tail in auto)
    moreover have "rmap (load_section f (name_table f h (headers ?ss))) (headers ?ss) = Inr (map plain ?ss)"
      by (rule again(2)) (use hdrs tail n in \<open>auto simp: h\<close>)
    moreover have "of_nat (Suc (length ts)) \<noteq> (0 :: u16)" using num(1) by (metis nat.distinct(1) unat_0)
    moreover have "load_tables (map settle ?ss) ?bin' = Inr (?bin'\<lparr>symbols := (if length (symbols bin) \<le> 1 then [] else local_first (symbols bin)),
               relocs := concat (map (\<lambda>t. relocs_for t (renumbered bin)) (targets (renumbered bin)))\<rparr>)"
      by (rule load_object_tables [OF ok _ small mv']) (use n len in simp_all)
    ultimately show ?thesis
      using table_fits num cls by (simp add: load_sections_def h del: of_nat_Suc)
  qed
  moreover have "symbols bin \<noteq> []" "hd (symbols bin) = no_symbol" using ok by (simp_all add: object_ok_def)
  then have "ensure_null_sym (if length (symbols bin) \<le> 1 then [] else local_first (symbols bin)) = local_first (symbols bin)"
    by (cases "symbols bin") (auto simp: ensure_null_sym_def local_first_def)
  moreover have "ensure_null_sym [] = [no_symbol]" by (simp add: ensure_null_sym_def)
  moreover have "length f \<ge> 64" using f(1) by simp
  ultimately show ?thesis
    using magic read id(3) by (simp add: lielf_load_mem_def load_segments_def h Let_def)
qed


text \<open>The relocations in the order of the sections that they are in.\<close>

definition grouped :: "lielf_reloc list \<Rightarrow> lielf_reloc list" where
  "grouped rs = concat (map (\<lambda>t. relocs_for t rs) (targets rs))"

lemma distinct_targets: "distinct (targets rs)"
proof -
  have "distinct ts \<Longrightarrow> distinct (fold (\<lambda>r ts. if target_section r \<in> set ts then ts else ts @ [target_section r]) rs ts)" for ts
    by (induction rs arbitrary: ts) auto
  then show ?thesis by (simp add: targets_def)
qed

lemma grouped_target: "filter (\<lambda>r. target_section r = t) (grouped rs) = filter (\<lambda>r. target_section r = t) rs"
proof -
  have group: "filter (\<lambda>r. target_section r = t) (concat (map (\<lambda>t. relocs_for t rs) ts)) =
      (if t \<in> set ts then relocs_for t rs else [])" if "distinct ts" for ts
    using that
  proof (induction ts)
    case (Cons u ts)
    have "filter (\<lambda>r. target_section r = t) (relocs_for u rs) = (if u = t then relocs_for t rs else [])"
      by (auto simp: relocs_for_def filter_empty_conv intro!: filter_cong)
    with Cons show ?case by auto
  qed simp
  show ?thesis
  proof (cases "t \<in> set (targets rs)")
    case True
    then show ?thesis using group [OF distinct_targets] by (simp add: grouped_def relocs_for_def)
  next
    case False
    then have "filter (\<lambda>r. target_section r = t) rs = []" by (auto simp: set_targets filter_empty_conv)
    with False show ?thesis using group [OF distinct_targets] by (simp add: grouped_def)
  qed
qed

lemma take_sections_written:
  assumes ok: "object_ok bin" and mv: "list_all2 moved (tl (written_sections bin)) ts"
  shows "list_all2 (\<lambda>s t. t = settle (s\<lparr>ls_offset := ls_offset t, ls_addr := 0\<rparr>)) (sections bin)
    (take (length (sections bin)) (map settle (no_section # ts)))"
proof -
  let ?n = "length (sections bin)"
  have mv': "list_all2 moved (written_sections bin) (no_section # ts)" by (rule moved_written [OF ok mv])
  have "take ?n (written_sections bin) = sections bin"
  proof -
    from ok obtain us where us: "sections bin = no_section # us" "list_all user_section us"
      unfolding object_ok_def by (metis list.exhaust_sel)
    have "resolve_link ss s = s" if "s \<in> set (sections bin)" for ss s
    proof -
      have "ls_kind s = LIELF_SEC_NORMAL" using that us by (auto simp: no_section_def list_all_iff user_section_def)
      then show ?thesis by (simp add: resolve_link_def)
    qed
    then show ?thesis
      by (simp add: written_sections_def object_sections_def inner_sections_def take_map map_idI)
  qed
  with list_all2_takeI [OF mv', of ?n] have "list_all2 moved (sections bin) (take ?n (no_section # ts))" by simp
  then have "list_all2 (\<lambda>s t. t = settle (s\<lparr>ls_offset := ls_offset t, ls_addr := 0\<rparr>)) (sections bin)
      (map settle (take ?n (no_section # ts)))"
    unfolding list_all2_map2 by (rule list_all2_mono) (auto simp: moved_def settle_def)
  then show ?thesis by (simp only: take_map)
qed

text \<open>An object that the operations make: a section, a global and a local symbol, a relocation.\<close>

definition sample_object :: lielf_binary where
  "sample_object =
     (case lielf_add_section (chars ''.text'') 1 (SHF_ALLOC OR SHF_EXECINSTR) (Some [0xE8, 0, 0, 0, 0]) 5 16 (lielf_new ET_REL 62) of
        Inl e \<Rightarrow> lielf_new ET_REL 62
      | Inr (i, bin) \<Rightarrow>
          snd (lielf_add_reloc (Some (chars ''.text'')) 1 1 4 (- 4) False
            (snd (lielf_add_symbol (chars ''x'') 0 5 2 1 False
              (snd (lielf_add_symbol (chars ''main'') 0 5 0x12 1 False bin))))))"

lemma sample_ok: "object_ok sample_object" by code_simp

lemma lay_room_resolve: "lay_room (\<lambda>s. True) (map (resolve_link all) ss) = lay_room (\<lambda>s. True) ss"
proof -
  have "ls_addralign (resolve_link all s) = ls_addralign s" "file_size (resolve_link all s) = file_size s" for s
    by (simp_all add: resolve_link_def file_size_def split: lielf_sec_kind.split)
  then show ?thesis by (induction ss) simp_all
qed

lemma build_fits_object:
  "object_ok bin \<Longrightarrow> build_fits bin =
     (let ss = object_sections bin
      in layout_bound ss + 16 + 64 * length ss < 2 ^ 32 \<and> length ss < 2 ^ 16 \<and>
         list_all (\<lambda>s. case ls_data s of None \<Rightarrow> True | Some d \<Rightarrow> length d < 2 ^ 32) ss)"
  by (simp add: build_fits_def written_sections_eq written_sections_def layout_bound_def lay_room_resolve list.pred_map comp_def
      Let_def flip: map_tl)

lemma sample_room: "lay_room (\<lambda>s. True) (tl (object_sections sample_object)) < 500" by code_simp

lemma sample_tables:
  "list_all (\<lambda>s. case ls_data s of None \<Rightarrow> True | Some d \<Rightarrow> length d < 100) (object_sections sample_object)" by code_simp

lemma sample_length: "length (inner_sections sample_object) < 10" by code_simp

lemma sample_fits: "build_fits sample_object"
proof -
  have "case ls_data s of None \<Rightarrow> True | Some d \<Rightarrow> length d < 2 ^ 32" if "s \<in> set (object_sections sample_object)" for s
    using sample_tables that by (auto simp: list_all_iff split: option.splits)
  then show ?thesis
    using sample_room sample_length by (simp add: build_fits_object [OF sample_ok] layout_bound_def list_all_iff Let_def)
qed

lemma object_reads_back:
  assumes "object_ok bin" "build_fits bin"
  shows "\<exists>f b. lielf_build bin = Inr (f, b) \<and> lielf_load_mem f = Inr (Some (b\<lparr>relocs := grouped (relocs b)\<rparr>)) \<and>
    symbols b = local_first (symbols bin) \<and> relocs b = map (renumber False (symbols bin)) (relocs bin) \<and>
    (\<forall>t. filter (\<lambda>r. target_section r = t) (grouped (relocs b)) = filter (\<lambda>r. target_section r = t) (relocs b)) \<and>
    list_all2 (\<lambda>s t. t = settle (s\<lparr>ls_offset := ls_offset t, ls_addr := 0\<rparr>)) (sections bin)
      (take (length (sections bin)) (sections b))"
proof -
  obtain f b ts shoff where
    build: "lielf_build bin = Inr (f, b\<lparr>sections := map settle (sections b)\<rparr>)"
    and b: "b = (rebuild_tables bin)\<lparr>sections := no_section # ts, lb_ehdr := lb_ehdr b\<rparr>"
    and mv: "list_all2 moved (tl (written_sections bin)) ts"
    and h: "lb_ehdr b = (lb_ehdr bin)\<lparr>e_phoff := 0, e_phnum := 0, e_shoff := shoff, e_shnum := of_nat (Suc (length ts)),
        e_shstrndx := of_nat (length (inner_sections bin))\<rparr>"
    and f: "length f = unat shoff + 64 * Suc (length ts)" "length f < 2 ^ 32" "holds f (0, write_ehdr (lb_ehdr b))"
      "\<And>s d. s \<in> set ts \<Longrightarrow> ls_data s = Some d \<Longrightarrow> holds f (ls_offset s, d)"
      "\<And>i. i < Suc (length ts) \<Longrightarrow> holds f (shoff + of_nat i * 64, write_shdr (headers (no_section # ts) ! i))"
    by (rule build_layout [OF assms]) (rule that; assumption)
  have n: "length (object_sections bin) < 2 ^ 16"
    and small: "\<And>s d. s \<in> set (object_sections bin) \<Longrightarrow> ls_data s = Some d \<Longrightarrow> length d < 2 ^ 32"
    using assms(2) by (auto simp: build_fits_def written_sections_eq [OF assms(1)] written_sections_def list_all_iff
        split: option.splits)
  have len: "Suc (length ts) = length (object_sections bin)"
    using list_all2_lengthD [OF moved_written [OF assms(1) mv]] by simp
  let ?b = "b\<lparr>sections := map settle (sections b)\<rparr>"
  have fields: "symbols ?b = local_first (symbols bin)" "relocs ?b = renumbered bin" "sections ?b = map settle (no_section # ts)"
    "segments ?b = []" "dynsymbols ?b = [no_symbol]" "dynamic ?b = []" "base_vaddr ?b = 0" "lb_ehdr ?b = lb_ehdr b"
    using assms(1) by (subst b, simp add: rebuild_object object_ok_def)+
  have "lielf_load_mem f = Inr (Some (?b\<lparr>relocs := grouped (relocs ?b)\<rparr>))"
    unfolding grouped_def fields(2)
    by (subst load_object [OF assms(1) _ small mv h f]) (use n len fields in \<open>auto intro!: lielf_binary.equality\<close>)
  moreover have "list_all2 (\<lambda>s t. t = settle (s\<lparr>ls_offset := ls_offset t, ls_addr := 0\<rparr>)) (sections bin)
      (take (length (sections bin)) (sections ?b))"
    unfolding fields(3) by (rule take_sections_written [OF assms(1) mv])
  ultimately show ?thesis using build fields(1, 2) by (intro exI [of _ f] exI [of _ ?b]) (simp add: renumbered_def grouped_target)
qed

text \<open>C4: A relocatable object that is built and read again is the object that was built: the caller's sections with
  their data, its symbols with the local ones first, and its relocations, which name the same symbols and keep
  their order within a section. No write of the builder leaves the file and no read of the reader does.\<close>

theorem object_roundtrip:
  assumes "object_ok bin" "build_fits bin"
  shows "\<exists>f b. lielf_build bin = Inr (f, b) \<and> lielf_load_mem f = Inr (Some (b\<lparr>relocs := grouped (relocs b)\<rparr>)) \<and>
    symbols b = local_first (symbols bin) \<and> relocs b = map (renumber False (symbols bin)) (relocs bin) \<and>
    (\<forall>t. filter (\<lambda>r. target_section r = t) (grouped (relocs b)) = filter (\<lambda>r. target_section r = t) (relocs b)) \<and>
    list_all2 (\<lambda>s t. t = settle (s\<lparr>ls_offset := ls_offset t, ls_addr := 0\<rparr>)) (sections bin)
      (take (length (sections bin)) (sections b))"
  by (rule object_reads_back [OF assms])

lemma object_roundtrip_witness:
  "\<exists>f b. lielf_build sample_object = Inr (f, b) \<and> lielf_load_mem f = Inr (Some (b\<lparr>relocs := grouped (relocs b)\<rparr>))"
  using object_roundtrip [of sample_object] sample_ok sample_fits by blast

section \<open>Objects that the operations make\<close>

text \<open>
  A new relocatable object, and what adding and changing its parts makes of it, when the caller gives
  a section neither a type nor a name that the builder makes for itself.
\<close>

inductive object_made :: "lielf_binary \<Rightarrow> bool" where
  made_new: "object_made (lielf_new ET_REL machine)"
| made_section: "object_made bin \<Longrightarrow> t \<notin> {SHT_NULL, SHT_SYMTAB, SHT_DYNSYM, SHT_DYNAMIC, SHT_RELA} \<Longrightarrow>
    (t = SHT_NOBITS \<Longrightarrow> n = 0 \<or> data = None) \<Longrightarrow>
    0 \<notin> set name \<Longrightarrow> name \<notin> set reserved \<Longrightarrow>
    lielf_add_section name t flags data n align bin = Inr (i, bin') \<Longrightarrow> object_made bin'"
| made_data: "object_made bin \<Longrightarrow> 0 < i \<Longrightarrow> i < length (sections bin) \<Longrightarrow> ls_type (sections bin ! i) \<noteq> SHT_NOBITS \<Longrightarrow>
    lielf_set_section_data i data n bin = Inr bin' \<Longrightarrow> object_made bin'"
| made_symbol: "object_made bin \<Longrightarrow> 0 \<notin> set name \<Longrightarrow> object_made (snd (lielf_add_symbol name v n info shndx False bin))"
| made_reloc: "object_made bin \<Longrightarrow> lielf_get_section bin t = Some i \<Longrightarrow>
    object_made (snd (lielf_add_reloc (Some t) off sym_index ty addend False bin))"
| made_entry: "object_made bin \<Longrightarrow> object_made (lielf_set_entry v bin)"

lemma initial_data_length: "initial_data data n = Inr d \<Longrightarrow> length d = unat n"
  by (auto simp: initial_data_def split: option.splits if_splits)

lemma object_ok_section:
  "object_ok bin \<Longrightarrow> user_section s \<Longrightarrow> object_ok (bin\<lparr>sections := sections bin @ [s]\<rparr>)"
  by (cases "sections bin") (auto simp: object_ok_def is_rel_def list_all_iff)



lemma sample_made: "object_made sample_object"
proof -
  obtain i bin where bin: "lielf_add_section (chars ''.text'') 1 (SHF_ALLOC OR SHF_EXECINSTR) (Some [0xE8, 0, 0, 0, 0]) 5 16
      (lielf_new ET_REL 62) = Inr (i, bin)"
    by (auto simp: lielf_add_section_def initial_data_def)
  have "object_made bin"
    by (rule made_section [OF made_new _ _ _ _ bin]) (simp_all add: reserved_def chars_def of_char_def)
  moreover have "lielf_get_section bin (chars ''.text'') = Some 1"
  proof -
    have "sections bin = [no_section, (new_section (chars ''.text'') 1 (SHF_ALLOC OR SHF_EXECINSTR) 5 16)\<lparr>ls_data := Some [0xE8, 0, 0, 0, 0]\<rparr>]"
      using bin by (auto simp: lielf_add_section_def initial_data_def lielf_new_def)
    then show ?thesis
      by (simp add: lielf_get_section_def find_section_def new_section_def no_section_def chars_def)
  qed
  ultimately show ?thesis
    unfolding sample_object_def bin sum.case prod.case
    by (intro made_reloc [where i = 1] made_symbol)
      (simp_all add: lielf_add_symbol_def lielf_get_section_def chars_def of_char_def)
qed


end
