(* ===== verification/Cup_Output.thy ===== *)
theory Cup_Output
  imports Cup_Module Cup_Roundtrip
begin

text \<open>
  Object files. \<^verbatim>\<open>src/objwrite.c\<close> writes the last module as a relocatable object through the object model
  of \<^verbatim>\<open>include/lielf.h\<close>; \<^verbatim>\<open>src/object/elf.c\<close> is the beginning of another writer. The part of
  \<^verbatim>\<open>objwrite.c\<close> that makes symbols and relocations is compiled out.
\<close>

section \<open>The last module as an object\<close>

text \<open>The file that is written: its path and what it holds.\<close>

definition lielf_write :: "world \<Rightarrow> lielf_binary \<Rightarrow> string \<Rightarrow> (int \<times> (string \<times> bytes) option) res" where
  "lielf_write w bin path =
     rbind (lielf_build bin) (\<lambda>(f, _). Inr (if w_writable w path then (0, Some (path, f)) else (- 1, None)))"

definition sec_index :: "lielf_binary \<Rightarrow> bytes \<Rightarrow> nat" where
  "sec_index bin name = (case first_index (\<lambda>s. ls_name s = name) (sections bin) of None \<Rightarrow> 0 | Some i \<Rightarrow> i)"

definition object_of :: "bytes \<Rightarrow> bytes \<Rightarrow> lielf_binary res" where
  "object_of code data =
     rbind (lielf_add_section (chars ''.text'') 1 (SHF_ALLOC OR SHF_EXECINSTR) (Some code) (of_nat (length code)) 16
              (lielf_new ET_REL 62)) (\<lambda>(_, bin).
       if length data > 0 then
         rbind (lielf_add_section (chars ''.rodata'') 1 SHF_ALLOC (Some data) (of_nat (length data)) 8 bin) (\<lambda>(_, bin). Inr bin)
       else Inr bin)"

definition cup_output_object :: "world \<Rightarrow> string option \<Rightarrow> cups \<Rightarrow> (int \<times> (string \<times> bytes) option) res" where
  "cup_output_object w filename st =
     (case filename of
        None \<Rightarrow> Inr (- 1, None)
      | Some path \<Rightarrow>
          if modules st = [] then Inr (- 1, None)
          else
            (let code = mod_code (last (modules st))
             in if code = [] then Inr (- 1, None)
                else rbind (object_of code (chars (data_sec st))) (\<lambda>bin. lielf_write w bin path)))"

definition whole_section :: "string \<Rightarrow> u64 \<Rightarrow> bytes \<Rightarrow> u64 \<Rightarrow> lielf_section" where
  "whole_section name flags d align = (new_section (chars name) 1 flags (of_nat (length d)) align)\<lparr>ls_data := Some d\<rparr>"

lemma add_whole_section:
  assumes "d \<noteq> []" and "length d < 2 ^ 29"
  shows "lielf_add_section (chars name) 1 flags (Some d) (of_nat (length d)) align bin =
    Inr (length (sections bin), bin\<lparr>sections := sections bin @ [whole_section name flags d align]\<rparr>)"
proof -
  have n: "unat (of_nat (length d) :: u64) = length d" using assms(2) by (simp add: unat_of_nat_small)
  then have "(of_nat (length d) :: u64) > 0" using assms(1) by (metis length_greater_0_conv unat_gt_0 word_gt_0)
  with n show ?thesis by (simp add: lielf_add_section_def initial_data_def whole_section_def)
qed

definition code_sections :: "bytes \<Rightarrow> bytes \<Rightarrow> lielf_section list" where
  "code_sections code data =
     whole_section ''.text'' (SHF_ALLOC OR SHF_EXECINSTR) code 16 #
     (if data = [] then [] else [whole_section ''.rodata'' SHF_ALLOC data 8])"

lemma object_of_sections:
  assumes "code \<noteq> []" and "length code < 2 ^ 29" and "length data < 2 ^ 29"
  shows "object_of code data = Inr ((lielf_new ET_REL 62)\<lparr>sections := no_section # code_sections code data\<rparr>)"
  using assms by (simp add: object_of_def add_whole_section code_sections_def) (simp add: lielf_new_def)

lemma whole_user_section:
  assumes "d \<noteq> []" and "length d < 2 ^ 29" and "name \<in> {''.text'', ''.rodata''}"
  shows "user_section (whole_section name flags d align)"
proof -
  have n: "unat (of_nat (length d) :: u64) = length d" using assms(2) by (simp add: unat_of_nat_small)
  then have "(of_nat (length d) :: u64) \<noteq> 0" using assms(1) by (metis length_0_conv unat_0)
  moreover have "0 \<notin> set (chars name)" "chars name \<notin> set reserved" using assms(3) by (auto simp: chars_def reserved_def)
  ultimately show ?thesis using n by (auto simp: user_section_def whole_section_def new_section_def no_section_def data_fits_def)
qed

lemma code_object_ok:
  assumes "code \<noteq> []" and "length code < 2 ^ 29" and "length data < 2 ^ 29"
  shows "object_ok ((lielf_new ET_REL 62)\<lparr>sections := no_section # code_sections code data\<rparr>)"
  using assms by (simp add: object_ok_def lielf_new_def is_rel_def no_symbol_def code_sections_def whole_user_section)

lemma whole_align: "align \<noteq> 0 \<Longrightarrow> ls_addralign (whole_section name flags d align) = align"
  by (simp add: whole_section_def new_section_def)

lemma code_object_fits:
  assumes "code \<noteq> []" and "length code < 2 ^ 29" and "length data < 2 ^ 29"
  shows "build_fits ((lielf_new ET_REL 62)\<lparr>sections := no_section # code_sections code data\<rparr>)" (is "build_fits ?bin")
proof -
  have one: "local_first [no_symbol] = [no_symbol]" by code_simp
  have inner: "inner_sections ?bin = no_section # code_sections code data"
    by (simp add: inner_sections_def lielf_new_def one symbol_sections_def renumbered_def targets_def)
  let ?names = "map ls_name (no_section # code_sections code data) @ [chars ''.shstrtab'']"
  have names: "length (string_table ?names) < 100"
    by (simp add: code_sections_def whole_section_def new_section_def no_section_def string_table_def chars_def)
  have room: "unat (file_size (whole_section name flags d align)) \<le> length d" for name flags d align
    by (simp add: whole_section_def new_section_def file_size_def unat_of_nat take_bit_nat_eq_self_iff)
  define x where "x = new_shstrtab ?names"
  have all: "object_sections ?bin = no_section # code_sections code data @ [x]"
    by (simp add: object_sections_def inner x_def)
  have x: "unat (file_size x) < 100" "ls_addralign x = 1" "ls_data x = Some (string_table ?names)"
    using names by (simp_all add: x_def new_shstrtab_def new_section_def file_size_def Let_def unat_of_nat_small)
  have "lay_room (\<lambda>s. True) (code_sections code data @ [x]) \<le> 17 + length code + 9 + length data + 102"
    using x room [of "''.text''" "SHF_ALLOC OR SHF_EXECINSTR" code 16] room [of "''.rodata''" SHF_ALLOC data 8]
    by (simp add: code_sections_def whole_align del: or_numerals)
  moreover have "layout_bound (object_sections ?bin) = 80 + 2 * lay_room (\<lambda>s. True) (code_sections code data @ [x])"
    unfolding all by (simp add: layout_bound_def)
  moreover have "length (object_sections ?bin) \<le> 4" unfolding all by (simp add: code_sections_def)
  ultimately have "layout_bound (object_sections ?bin) + 16 + 64 * length (object_sections ?bin) < 2 ^ 32"
    using assms(2,3) by simp
  moreover have "list_all (\<lambda>s. case ls_data s of None \<Rightarrow> True | Some d \<Rightarrow> length d < 2 ^ 32) (object_sections ?bin)"
    using assms names x(3) unfolding all by (simp add: code_sections_def whole_section_def no_section_def)
  moreover have "length (object_sections ?bin) < 2 ^ 16" unfolding all by (simp add: code_sections_def)
  ultimately show ?thesis using code_object_ok [OF assms] by (simp add: build_fits_object Let_def)
qed

lemma settle_section [simp]:
  "ls_name (settle s) = ls_name s" "ls_data (settle s) = ls_data s"
  by (simp_all add: settle_def)

lemma written_code_sections:
  assumes "list_all2 (\<lambda>s t. t = settle (s\<lparr>ls_offset := ls_offset t, ls_addr := 0\<rparr>)) (no_section # code_sections code data)
      (take n ss)"
  obtains t0 t1 rest where "ss = t0 # t1 # rest" "ls_name t0 = []" "ls_name t1 = chars ''.text''" "ls_data t1 = Some code"
    "data \<noteq> [] \<Longrightarrow> \<exists>t2 r. rest = t2 # r \<and> ls_name t2 = chars ''.rodata'' \<and> ls_data t2 = Some data"
proof -
  let ?gone = "\<lambda>s t. t = settle (s\<lparr>ls_offset := ls_offset t, ls_addr := 0\<rparr>)"
  have kept: "ls_name t = ls_name s" "ls_data t = ls_data s" if "?gone s t" for s t
    by (subst that, simp)+
  from assms obtain t0 t1 r where r: "take n ss = t0 # t1 # r" "?gone no_section t0"
      "?gone (whole_section ''.text'' (SHF_ALLOC OR SHF_EXECINSTR) code 16) t1"
      "list_all2 ?gone (if data = [] then [] else [whole_section ''.rodata'' SHF_ALLOC data 8]) r"
    by (auto simp: code_sections_def list_all2_Cons1 simp del: or_numerals)
  have all: "ss = t0 # t1 # r @ drop n ss"
    using append_take_drop_id [of n ss] r(1) by simp
  show thesis
  proof (rule that [OF all])
    show "ls_name t0 = []" "ls_name t1 = chars ''.text''" "ls_data t1 = Some code"
      using kept [OF r(2)] kept [OF r(3)] by (simp_all add: no_section_def whole_section_def new_section_def)
    assume "data \<noteq> []"
    then obtain t2 where t2: "r = [t2]" "?gone (whole_section ''.rodata'' SHF_ALLOC data 8) t2"
      using r(4) by (auto simp: list_all2_Cons1)
    from t2(1) show "\<exists>t2 r'. r @ drop n ss = t2 # r' \<and> ls_name t2 = chars ''.rodata'' \<and> ls_data t2 = Some data"
      using kept [OF t2(2)] by (simp add: whole_section_def new_section_def)
  qed
qed

text \<open>C6: The object file that is written for the last module is read back by the object reader: its section \<open>.text\<close>
  holds the machine code and \<open>.rodata\<close> the data of the program. It has no symbol and no relocation.\<close>

theorem output_object_holds_the_code:
  assumes "modules st \<noteq> []" and "mod_code (last (modules st)) \<noteq> []" and "w_writable w path"
    and "length (mod_code (last (modules st))) < 2 ^ 29" and "length (data_sec st) < 2 ^ 29"
  shows "\<exists>f b. cup_output_object w (Some path) st = Inr (0, Some (path, f)) \<and> lielf_load_mem f = Inr (Some b) \<and>
    map_option (\<lambda>i. ls_data (sections b ! i)) (lielf_get_section b (chars ''.text'')) = Some (Some (mod_code (last (modules st)))) \<and>
    (data_sec st \<noteq> [] \<longrightarrow>
      map_option (\<lambda>i. ls_data (sections b ! i)) (lielf_get_section b (chars ''.rodata'')) = Some (Some (chars (data_sec st)))) \<and>
    symbols b = [no_symbol] \<and> relocs b = []"
proof -
  let ?code = "mod_code (last (modules st))" and ?data = "chars (data_sec st)"
  let ?bin = "(lielf_new ET_REL 62)\<lparr>sections := no_section # code_sections ?code ?data\<rparr>"
  have small: "?code \<noteq> []" "length ?code < 2 ^ 29" "length ?data < 2 ^ 29" using assms by (simp_all add: chars_def)
  obtain f b where f: "lielf_build ?bin = Inr (f, b)" "lielf_load_mem f = Inr (Some (b\<lparr>relocs := grouped (relocs b)\<rparr>))"
      and b: "symbols b = local_first (symbols ?bin)" "relocs b = map (renumber False (symbols ?bin)) (relocs ?bin)"
        "list_all2 (\<lambda>s t. t = settle (s\<lparr>ls_offset := ls_offset t, ls_addr := 0\<rparr>)) (sections ?bin)
          (take (length (sections ?bin)) (sections b))"
    using object_reads_back [OF code_object_ok [OF small] code_object_fits [OF small]] by blast
  have none: "symbols b = [no_symbol]" "grouped (relocs b) = []"
    using b(1,2) by (simp_all add: lielf_new_def local_first_short grouped_def targets_def)
  have written: "cup_output_object w (Some path) st = Inr (0, Some (path, f))"
    using assms(1-3) small f(1) by (simp add: cup_output_object_def object_of_sections lielf_write_def Let_def)
  have b3: "list_all2 (\<lambda>s t. t = settle (s\<lparr>ls_offset := ls_offset t, ls_addr := 0\<rparr>)) (no_section # code_sections ?code ?data)
      (take (length (sections ?bin)) (sections b))" using b(3) by simp
  obtain t0 t1 rest where b0: "sections b = t0 # t1 # rest" "ls_name t0 = []" "ls_name t1 = chars ''.text''" "ls_data t1 = Some ?code"
      "?data \<noteq> [] \<Longrightarrow> \<exists>t2 r. rest = t2 # r \<and> ls_name t2 = chars ''.rodata'' \<and> ls_data t2 = Some ?data"
    by (rule written_code_sections [OF b3]) (rule that; assumption)
  have "chars ''.text'' \<noteq> []" "chars ''.rodata'' \<noteq> []" "chars ''.text'' \<noteq> chars ''.rodata''" by (simp_all add: chars_def)
  then show ?thesis
    using f written none b0 by (auto simp: lielf_get_section_def find_section_def chars_def)
qed

theorem output_object_holds_the_code_witness:
  "\<exists>f b. cup_output_object (small_world\<lparr>w_writable := \<lambda>_. True\<rparr>) (Some ''a.o'')
       (blank_cups\<lparr>modules := [\<lparr>mod_path = ''a'', mod_code = [0xC3]\<rparr>], data_sec := ''hi''\<rparr>) = Inr (0, Some (''a.o'', f)) \<and>
     lielf_load_mem f = Inr (Some b) \<and>
     map_option (\<lambda>i. ls_data (sections b ! i)) (lielf_get_section b (chars ''.text'')) = Some (Some [0xC3]) \<and>
     map_option (\<lambda>i. ls_data (sections b ! i)) (lielf_get_section b (chars ''.rodata'')) = Some (Some [0x68, 0x69])"
proof -
  have "chars ''hi'' = [0x68, 0x69]" by (simp add: chars_def)
  then show ?thesis
    using output_object_holds_the_code [of "blank_cups\<lparr>modules := [\<lparr>mod_path = ''a'', mod_code = [0xC3]\<rparr>], data_sec := ''hi''\<rparr>"
        "small_world\<lparr>w_writable := \<lambda>_. True\<rparr>" "''a.o''"] by auto
qed

section \<open>The other writer\<close>

definition object_header :: "u16 \<Rightarrow> u64 \<Rightarrow> elf_ehdr" where
  "object_header t shoff =
     \<lparr>e_ident = ELFMAG @ [2, 1, 1, 0] @ replicate 8 0, e_type = t, e_machine = 62, e_version = EV_CURRENT, e_entry = 0, e_phoff = 0,
      e_shoff = shoff, e_flags = 0, e_ehsize = 64, e_phentsize = 0, e_phnum = 0, e_shentsize = 64, e_shnum = 8, e_shstrndx = 7\<rparr>"

text \<open>What is appended to the file: the second function fills the same header and writes nothing.\<close>

definition wtite_64_obj :: "u64 \<Rightarrow> bytes" where "wtite_64_obj shoff = write_ehdr (object_header 1 shoff)"

definition wtite_64_obj_exe :: "u64 \<Rightarrow> bytes" where "wtite_64_obj_exe shoff = (let eh = object_header 3 shoff in [])"

definition section_symbol :: "u16 \<Rightarrow> elf_sym" where
  "section_symbol i = \<lparr>st_name = 0, st_info = 3, st_other = 0, st_shndx = i, st_value = 0, st_size = 0\<rparr>"

definition function_symbol :: "u32 \<Rightarrow> u64 option \<Rightarrow> elf_sym" where
  "function_symbol name v =
     (let s = \<lparr>st_name = name, st_info = 0x12, st_other = 0, st_shndx = SHN_UNDEF, st_value = 0, st_size = 0\<rparr>
      in case v of None \<Rightarrow> s | Some x \<Rightarrow> s\<lparr>st_shndx := 1, st_value := x\<rparr>)"

primrec fill_symtab :: "nat \<Rightarrow> u32 list \<Rightarrow> u64 option list \<Rightarrow> elf_sym list \<Rightarrow> elf_sym list" where
  "fill_symtab 0 names vals tab = tab"
| "fill_symtab (Suc i) names vals tab = fill_symtab i names vals (tab[i + 3 := function_symbol (names ! i) (vals ! i)])"

text \<open>The table that is built, which the code then drops.\<close>

definition write_64_symtab :: "nat \<Rightarrow> u32 list \<Rightarrow> u64 option list \<Rightarrow> elf_sym list res" where
  "write_64_symtab n names vals =
     (if length names < n \<or> length vals < n then Inl Undef
      else
        (let zero = \<lparr>st_name = 0, st_info = 0, st_other = 0, st_shndx = 0, st_value = 0, st_size = 0\<rparr>
         in Inr (fill_symtab n names vals ((replicate (n + 3) zero)[1 := section_symbol 1, 2 := section_symbol 2]))))"

lemma wtite_64_obj_reads: "length (wtite_64_obj shoff) = 64 \<and> read_ehdr (wtite_64_obj shoff) = object_header 1 shoff"
proof -
  have "length (e_ident (object_header 1 shoff)) = 16" by (simp add: object_header_def)
  then show ?thesis using read_write_ehdr [of "object_header 1 shoff" "[]"] by (simp add: wtite_64_obj_def)
qed

lemma fill_symtab_rows:
  "n + 3 \<le> length tab \<Longrightarrow>
   fill_symtab n names vals tab = take 3 tab @ map (\<lambda>i. function_symbol (names ! i) (vals ! i)) [0..<n] @ drop (n + 3) tab"
proof (induction n arbitrary: tab)
  case 0
  then show ?case by simp
next
  case (Suc n)
  then have "drop (n + 3) (tab[n + 3 := x]) = x # drop (Suc n + 3) tab" for x
    by (simp add: drop_update_swap Cons_nth_drop_Suc [symmetric])
  then show ?case using Suc by (simp add: take_update_cancel)
qed

lemma write_64_symtab_rows:
  assumes "length names = n" and "length vals = n"
  shows "\<exists>zero. write_64_symtab n names vals = Inr ([zero, section_symbol 1, section_symbol 2] @ map2 function_symbol names vals)"
proof -
  have "map (\<lambda>i. function_symbol (names ! i) (vals ! i)) [0..<n] = map2 function_symbol names vals"
    using assms by (intro nth_equalityI) simp_all
  then show ?thesis using assms by (simp add: write_64_symtab_def fill_symtab_rows numeral_3_eq_3 numeral_2_eq_2)
qed

end
