(* ===== verification/Spec2Isabelle.thy ===== *)
theory Spec2Isabelle
  imports Cup_Vector Cup_Frame Cup_Main Cup_Sodump Cup_Output
begin

text \<open>
  A verification development for the CUP compiler.

  CUP is a just-in-time compiler for a small language: a text is tokenized, parsed into a flat
  stream of nodes, resolved (types are inferred, calls and members are bound) and translated to
  x86-64 machine code in memory, which is then run. \<^verbatim>\<open>src/moduler.c\<close> drives the passes over one
  shared state, \<^verbatim>\<open>CUPState\<close>.

  The theories, in the order of the code.

  \<^item> \<open>Cup_Prelude\<close>: results. A run of the C code returns (\<^term>\<open>Inr\<close>) or stops early (\<^term>\<open>Inl\<close>): the
    process exits, an assertion fails, the C has no defined meaning, or a bounded recursion of the
    model used up its bound, which the theorems on termination exclude. \<open>ensures\<close> is partial
    correctness over such results together with the absence of the last outcome.
  \<^item> \<open>Cup_Vector\<close>: \<^verbatim>\<open>src/utils.c\<close>, byte vectors and scratch memory. The locale \<open>byte_buffer\<close> is the
    contract of an append buffer; \<^verbatim>\<open>CVector\<close> and the code buffer of \<^verbatim>\<open>emit\<close> provide it.
  \<^item> \<open>Cup_Node\<close>, \<open>Cup_Lexer\<close>: tokens, node cells, and \<^verbatim>\<open>src/lexer.c\<close>. A text is a list of
    characters with what memory holds behind it; the data section is a list of bytes.
  \<^item> \<open>Cup_Types\<close>: \<^verbatim>\<open>src/types.c\<close>, the table of types, type codes and their names.
  \<^item> \<open>Cup_Symbols\<close>: scopes and the hash table of variables, both in \<^verbatim>\<open>src/parser.c\<close>. The locale
    \<open>symbol_table\<close> is the contract of the table.
  \<^item> \<open>Cup_Parser\<close>: the recursive descent and operator precedence parser of \<^verbatim>\<open>src/parser.c\<close>. The
    locale \<open>parser_env\<close> states what the parser needs of imports and external symbols;
    \<open>Cup_Module\<close> interprets it. \<open>Cup_Expression\<close> compares it with a grammar of expressions.
  \<^item> \<open>Cup_Resolver\<close>: \<^verbatim>\<open>src/resolver.c\<close>, one pass over the nodes that rewrites them.
  \<^item> \<open>Cup_X64\<close>: the encoders of \<^verbatim>\<open>src/codegen/x64codegen.c\<close> and a decoder of the instruction format,
    written from the format and not from the encoders.
  \<^item> \<open>Cup_Codegen\<close>: the register pools and the translation of nodes to bytes, in the same file.
  \<^item> \<open>Cup_Machine\<close>: what the instructions of the decoder do to registers, memory and flags, and that
    the code of an expression computes its value. \<open>Cup_Run\<close>: the same for statements, against a
    big-step meaning. \<open>Cup_Frame\<close>: prologue, saved registers and epilogue; a compiled function,
    called, returns what its body means.
  \<^item> \<open>Cup_Module\<close>: \<^verbatim>\<open>src/moduler.c\<close>, the state, symbols of the host, external libraries, imports and
    the pipeline. \<open>Cup_Main\<close>: \<^verbatim>\<open>src/main.c\<close>, the symbols and meta types of the host and the options;
    what it prints is a list of events. The arguments decide the exit status.
  \<^item> \<open>Cup_Elf\<close>: the structures of an ELF file. \<open>Cup_Sodump\<close>: \<^verbatim>\<open>include/sodump.h\<close>, the symbols of a
    shared library.
  \<^item> \<open>Cup_Lielf\<close>: \<^verbatim>\<open>include/lielf.h\<close>, a binary as lists of sections, segments, symbols and
    relocations, its operations and the reader. \<open>Cup_Build\<close>: the builder of the same file, the layout
    and the writes. \<open>Cup_Object\<close>: reading what was written. \<open>Cup_Roundtrip\<close>: a relocatable object
    comes back as it was built. \<open>Cup_Output\<close>: \<^verbatim>\<open>src/objwrite.c\<close>, which writes the last module that way, and
    \<^verbatim>\<open>src/object/elf.c\<close>.

  State. The record of each component extends that of the one it calls, as the fields of
  \<^verbatim>\<open>CUPState\<close> are used: the lexer's \<open>lexst\<close>, the symbol table's \<open>symst\<close>, the parser's \<open>parst\<close> and the
  compiler's \<open>cups\<close>. Operations of a component are polymorphic in what extends its record.

  Bounds. Machine integers are words of their width. Recursion over the node stream, the text and
  nested types takes a number that bounds it; the callers pass one more than the length of what
  is left to read, and the properties on termination prove that this is enough. Only the depth to
  which files import files is a parameter.

  Not under \<^verbatim>\<open>src/\<close>, and so a parameter (\<open>world\<close>, \<open>renv\<close>, \<open>genv\<close>): files and paths, the loaded libraries,
  the addresses of tables and pages, what running the generated code does to the state, and the
  callbacks of meta types other than the compiler's own. Theorems about callbacks assume what the
  interface asks of them: that the types they report are types of the table.

  Not modelled: \<^verbatim>\<open>cup_delete\<close> and the freeing of memory, messages, and the branches for Windows;
  the texts that \<^verbatim>\<open>src/main.c\<close> prints and its code that is compiled out; in \<^verbatim>\<open>include/lielf.h\<close> what prints a
  binary and what copies it from the disk; the part of \<^verbatim>\<open>src/objwrite.c\<close> that is compiled out (it uses fields
  of \<^verbatim>\<open>CUPState\<close> and \<^verbatim>\<open>CUPModule\<close> that no longer exist);
  \<^verbatim>\<open>dep/dlfcn.c\<close> (a library from elsewhere); \<^verbatim>\<open>include/elfbinary.h\<close> (commented out).
\<close>

end
